(* ===== verification/C_Prelude.thy ===== *)
theory C_Prelude
  imports Main "HOL-Library.Signed_Division"
begin

text \<open>
  The execution model shared by every component of the development.

  The C functions of the extension are translated into HOL functions with an explicit result:
  \<^item> \<open>Inr x\<close>: the function returned \<open>x\<close>;
  \<^item> \<open>Inl (Elog msg)\<close>: it left through \<open>elog(ERROR, ...)\<close> or \<open>ereport(ERROR, ...)\<close>;
  \<^item> \<open>Inl (Undefined u)\<close>: its behaviour is undefined in C (an access outside an allocated
    buffer, a read of memory that was never written, a division by zero, an \<open>int\<close> that
    leaves its range, a dead or null pointer, a loop without side effects that never ends).

  Buffers obtained from \<open>palloc\<close> are lists of cells of type \<open>'a option\<close> (\<open>None\<close>: allocated and
  not yet written), counting \<open>for\<close> loops are the combinator \<open>for_loop\<close>, and C \<open>int\<close> variables are
  values of type \<open>int\<close> whose range is checked where they are assigned (\<open>cint\<close>).
\<close>

named_theorems c_simps \<open>evaluation of the result monad and of checked C arithmetic\<close>
named_theorems buf_simps \<open>lengths and contents of buffers\<close>

section \<open>Results\<close>

datatype ub =
    Int_overflow
  | Div_by_zero
  | Out_of_bounds
  | Uninitialised
  | Null_deref
  | Use_after_free
  | Infinite_loop

datatype error = Elog string | Undefined ub

type_synonym 'a result = "error + 'a"

definition bindR :: "'e + 'a \<Rightarrow> ('a \<Rightarrow> 'e + 'b) \<Rightarrow> 'e + 'b" where
  "bindR m f = (case m of Inl e \<Rightarrow> Inl e | Inr x \<Rightarrow> f x)"

definition require :: "bool \<Rightarrow> 'e \<Rightarrow> 'e + 'a \<Rightarrow> 'e + 'a" where
  "require b e k = (if b then k else Inl e)"

definition no_ub :: "'a result \<Rightarrow> bool" where
  "no_ub r = (case r of Inl (Undefined _) \<Rightarrow> False | _ \<Rightarrow> True)"

lemma bindR_simps [simp, c_simps]:
  "bindR (Inr x) f = f x"
  "bindR (Inl e) f = Inl e"
  by (simp_all add: bindR_def)

lemma bindR_Inr_iff: "bindR m f = Inr y \<longleftrightarrow> (\<exists>x. m = Inr x \<and> f x = Inr y)"
  by (cases m) auto

lemma bindR_assoc: "bindR (bindR m f) g = bindR m (\<lambda>x. bindR (f x) g)"
  by (cases m) auto

lemma bindR_return [simp]: "bindR m Inr = m"
  by (cases m) auto

lemma bindR_cong [fundef_cong]:
  "m = m' \<Longrightarrow> (\<And>x. m' = Inr x \<Longrightarrow> f x = f' x) \<Longrightarrow> bindR m f = bindR m' f'"
  by (cases m') auto

lemma require_simps [simp, c_simps]:
  "require True e k = k"
  "require False e k = Inl e"
  by (simp_all add: require_def)

lemma require_Inr_iff: "require b e k = Inr y \<longleftrightarrow> b \<and> k = Inr y"
  by (simp add: require_def)

lemma no_ub_simps [simp]:
  "no_ub (Inr x)"
  "no_ub (Inl (Elog s))"
  "\<not> no_ub (Inl (Undefined u))"
  by (simp_all add: no_ub_def)

lemma no_ub_bindR: "no_ub m \<Longrightarrow> (\<And>x. m = Inr x \<Longrightarrow> no_ub (f x)) \<Longrightarrow> no_ub (bindR m f)"
  by (cases m) (auto simp: no_ub_def)

section \<open>C integers\<close>

abbreviation INT_MAX :: int where
  "INT_MAX \<equiv> 2147483647"

abbreviation INT_MIN :: int where
  "INT_MIN \<equiv> - 2147483648"

definition in_int :: "int \<Rightarrow> bool" where
  "in_int x \<longleftrightarrow> INT_MIN \<le> x \<and> x \<le> INT_MAX"

text \<open>The value of an \<open>int\<close> expression: signed overflow is undefined.\<close>

definition cint :: "int \<Rightarrow> int result" where
  "cint x = (if in_int x then Inr x else Inl (Undefined Int_overflow))"

text \<open>
  Integer division truncates towards zero; dividing by zero is undefined. A quotient that is
  assigned is range-checked by the assignment.
\<close>

definition cdiv :: "int \<Rightarrow> int \<Rightarrow> int result" where
  "cdiv a b = (if b = 0 then Inl (Undefined Div_by_zero) else Inr (a sdiv b))"

definition cmod :: "int \<Rightarrow> int \<Rightarrow> int result" where
  "cmod a b = (if b = 0 then Inl (Undefined Div_by_zero) else Inr (a smod b))"

text \<open>The conversion of a wider value to a 32-bit \<open>int\<close> keeps its low 32 bits.\<close>

definition wrap32 :: "int \<Rightarrow> int" where
  "wrap32 x = (x + 2147483648) mod 4294967296 - 2147483648"

lemma wrap32_in [simp]: "in_int x \<Longrightarrow> wrap32 x = x"
  by (simp add: in_int_def wrap32_def)

lemma in_int_wrap32: "in_int (wrap32 x)"
  by (simp add: in_int_def wrap32_def pos_mod_bound [of 4294967296, THEN zless_imp_add1_zle]
      add.commute)

lemma cint_in [simp, c_simps]: "in_int x \<Longrightarrow> cint x = Inr x"
  by (simp add: cint_def)

lemma cint_Inr_iff: "cint x = Inr y \<longleftrightarrow> y = x \<and> in_int x"
  by (auto simp: cint_def)

lemma in_intI: "INT_MIN \<le> x \<Longrightarrow> x \<le> INT_MAX \<Longrightarrow> in_int x"
  by (simp add: in_int_def)

lemma sdiv_nonneg: "0 \<le> a \<Longrightarrow> 0 < b \<Longrightarrow> a sdiv b = a div (b::int)"
  by (cases "a = 0") (simp_all add: signed_divide_int_def)

lemma smod_nonneg: "0 \<le> a \<Longrightarrow> 0 < b \<Longrightarrow> a smod b = a mod (b::int)"
  by (cases "a = 0") (simp_all add: signed_modulo_int_def)

lemma cdiv_nonneg [c_simps]: "0 \<le> a \<Longrightarrow> 0 < b \<Longrightarrow> cdiv a b = Inr (a div b)"
  by (simp add: cdiv_def sdiv_nonneg)

lemma cmod_nonneg [c_simps]: "0 \<le> a \<Longrightarrow> 0 < b \<Longrightarrow> cmod a b = Inr (a mod b)"
  by (simp add: cmod_def smod_nonneg)

text \<open>\<open>(int) sqrt(n)\<close>: the double square root truncated; a negative argument has no \<open>int\<close> value.\<close>

fun isqrt :: "nat \<Rightarrow> nat" where
  "isqrt n = (if n = 0 then 0
     else let r = 2 * isqrt (n div 4) in if (r + 1) * (r + 1) \<le> n then r + 1 else r)"

declare isqrt.simps [simp del]

definition csqrt :: "int \<Rightarrow> int result" where
  "csqrt n = (if n < 0 then Inl (Undefined Int_overflow) else Inr (int (isqrt (nat n))))"

lemma isqrt_bounds: "isqrt n * isqrt n \<le> n \<and> n < (isqrt n + 1) * (isqrt n + 1)"
proof (induction n rule: isqrt.induct)
  case (1 n)
  show ?case
  proof (cases "n = 0")
    case True
    then show ?thesis by (simp add: isqrt.simps)
  next
    case False
    define q where "q = isqrt (n div 4)"
    have IH: "q * q \<le> n div 4" "n div 4 < (q + 1) * (q + 1)"
      using "1"[OF False] by (simp_all add: q_def)
    have lo: "2 * q * (2 * q) \<le> n" and hi: "n < (2 * q + 2) * (2 * q + 2)"
      using IH by (simp_all add: algebra_simps)
    have *: "isqrt n = (if (2 * q + 1) * (2 * q + 1) \<le> n then 2 * q + 1 else 2 * q)"
      using False by (subst isqrt.simps) (simp add: q_def Let_def)
    show ?thesis
      unfolding * using lo hi by auto
  qed
qed

lemma isqrt_unique: "k * k \<le> n \<Longrightarrow> n < (k + 1) * (k + 1) \<Longrightarrow> isqrt n = k"
proof -
  assume k: "k * k \<le> n" "n < (k + 1) * (k + 1)"
  have "isqrt n * isqrt n < (k + 1) * (k + 1)" and "k * k < (isqrt n + 1) * (isqrt n + 1)"
    using isqrt_bounds[of n] k by linarith+
  then have "isqrt n < k + 1" and "k < isqrt n + 1"
    by (metis mult_le_mono not_le_imp_less not_less)+
  then show ?thesis by simp
qed

lemma isqrt_square [simp]: "isqrt (k * k) = k"
  by (rule isqrt_unique) simp_all

lemma csqrt_square [simp, c_simps]: "0 \<le> w \<Longrightarrow> csqrt (w * w) = Inr w"
  by (simp add: csqrt_def nat_mult_distrib not_less)

section \<open>Counting loops\<close>

text \<open>
  \<open>for (int i = a; i < n; i += step)\<close>. With a step that is not positive the counter never reaches
  \<open>n\<close>; it runs out of the range of \<open>int\<close>.
\<close>

function for_loop :: "int \<Rightarrow> int \<Rightarrow> int \<Rightarrow> (int \<Rightarrow> 's \<Rightarrow> 's result) \<Rightarrow> 's \<Rightarrow> 's result" where
  "for_loop i n step body s =
     (if i < n
      then (if step \<le> 0 then Inl (Undefined Int_overflow)
            else bindR (body i s) (for_loop (i + step) n step body))
      else Inr s)"
  by pat_completeness auto
termination
  by (relation "measure (\<lambda>(i, n, step, body, s). nat (n - i))") auto

declare for_loop.simps [simp del]

fun foldR :: "('i \<Rightarrow> 's \<Rightarrow> 'e + 's) \<Rightarrow> 'i list \<Rightarrow> 's \<Rightarrow> 'e + 's" where
  "foldR body [] s = Inr s"
| "foldR body (i # is) s = bindR (body i s) (foldR body is)"

definition trips :: "int \<Rightarrow> int \<Rightarrow> int \<Rightarrow> nat" where
  "trips a n s = (if s \<le> 0 then 0 else nat ((n - a + s - 1) div s))"

definition steps :: "int \<Rightarrow> int \<Rightarrow> int \<Rightarrow> int list" where
  "steps a n s = map (\<lambda>k. a + int k * s) [0..<trips a n s]"

lemma trips_done: "0 < s \<Longrightarrow> n \<le> a \<Longrightarrow> trips a n s = 0"
proof -
  assume s: "0 < s" "n \<le> a"
  have "(n - a + s - 1) div s \<le> (s - 1) div s" using s by (intro zdiv_mono1) auto
  also have "\<dots> = 0" using s by (simp add: div_pos_pos_trivial)
  finally show ?thesis using s by (simp add: trips_def)
qed

lemma trips_step: "0 < s \<Longrightarrow> a < n \<Longrightarrow> trips a n s = Suc (trips (a + s) n s)"
proof -
  assume s: "0 < s" "a < n"
  have "(n - a + s - 1) div s = ((n - (a + s) + s - 1) + s * 1) div s"
    by (simp add: algebra_simps)
  also have "\<dots> = 1 + (n - (a + s) + s - 1) div s"
    using s by (subst div_mult_self2) auto
  finally have *: "(n - a + s - 1) div s = 1 + (n - (a + s) + s - 1) div s" .
  have "0 \<le> (n - (a + s) + s - 1) div s"
    using s by (simp add: pos_imp_zdiv_nonneg_iff)
  with * s show ?thesis by (simp add: trips_def nat_add_distrib)
qed

lemma length_steps [simp]: "length (steps a n s) = trips a n s"
  by (simp add: steps_def)

lemma steps_done: "0 < s \<Longrightarrow> n \<le> a \<Longrightarrow> steps a n s = []"
  by (simp add: steps_def trips_done)

lemma steps_step: "0 < s \<Longrightarrow> a < n \<Longrightarrow> steps a n s = a # steps (a + s) n s"
  by (simp add: steps_def trips_step upt_conv_Cons map_Suc_upt [symmetric] algebra_simps
      del: upt_Suc map_Suc_upt) 

lemma for_loop_steps: "0 < s \<Longrightarrow> for_loop a n s body st = foldR body (steps a n s) st"
proof (induction a n s body st rule: for_loop.induct)
  case (1 i n step body s)
  show ?case
  proof (cases "i < n")
    case True
    have "bindR (body i s) (for_loop (i + step) n step body)
        = bindR (body i s) (foldR body (steps (i + step) n step))"
      by (rule bindR_cong) (use "1" True in auto)
    then show ?thesis
      using True "1.prems" by (simp add: for_loop.simps[of i] steps_step)
  next
    case False
    then show ?thesis
      using "1.prems" by (simp add: for_loop.simps[of i] steps_done)
  qed
qed

lemma for_loop_cong:
  "(\<And>i st. a \<le> i \<Longrightarrow> i < n \<Longrightarrow> f i st = g i st) \<Longrightarrow> for_loop a n s f st = for_loop a n s g st"
proof (induction a n s f st rule: for_loop.induct)
  case (1 i n step body s)
  show ?case
  proof (cases "i < n \<and> 0 < step")
    case True
    have "bindR (body i s) (for_loop (i + step) n step body)
        = bindR (g i s) (for_loop (i + step) n step g)"
      by (rule bindR_cong) (use "1" True in auto)
    then show ?thesis
      using True by (simp add: for_loop.simps[of i])
  next
    case False
    then show ?thesis by (auto simp: for_loop.simps[of i])
  qed
qed

lemma for_loop_single [simp]: "for_loop 0 1 1 f st = f 0 st"
  by (subst for_loop.simps, cases "f 0 st") (simp_all add: for_loop.simps [of 1])

lemma foldR_append: "foldR body (xs @ ys) s = bindR (foldR body xs s) (foldR body ys)"
proof (induction xs arbitrary: s)
  case (Cons x xs)
  then show ?case by (cases "body x s") simp_all
qed simp

text \<open>A unit-step loop whose states are known: \<open>st k\<close> is the state before iteration \<open>k\<close>.\<close>

lemma for_loop_states:
  assumes "\<And>k. k < n \<Longrightarrow> body (a + int k) (st k) = Inr (st (Suc k))" and "b = a + int n"
  shows "for_loop a b 1 body (st 0) = Inr (st n)"
proof -
  have "foldR body (map (\<lambda>k. a + int k) [0..<j]) (st 0) = Inr (st j)" if "j \<le> n" for j
    using that by (induction j) (simp_all add: foldR_append assms(1))
  from this [of n] show ?thesis
    by (simp add: for_loop_steps steps_def trips_def assms(2))
qed

lemma trips_unit: "trips a n 1 = nat (n - a)"
  by (simp add: trips_def)

lemma steps_unit: "steps 0 n 1 = map int [0..<nat n]"
  by (simp add: steps_def trips_unit)

lemma steps_bounds:
  assumes "i \<in> set (steps a n s)"
  shows "a \<le> i \<and> i < n \<and> 0 < s"
proof -
  from assms obtain k where k: "i = a + int k * s" "k < trips a n s"
    unfolding steps_def by fastforce
  from k(2) have s: "0 < s" by (auto simp: trips_def split: if_splits)
  from k(2) s have "int k + 1 \<le> (n - a + s - 1) div s" by (simp add: trips_def)
  then have "(int k + 1) * s \<le> (n - a + s - 1) div s * s"
    using s by (intro mult_right_mono) auto
  also have "\<dots> \<le> n - a + s - 1"
    using pos_mod_sign [OF s, of "n - a + s - 1"] by (simp only: minus_mod_eq_div_mult [symmetric])
  finally show ?thesis using k s by (simp add: algebra_simps)
qed

lemma steps_nth: "k < trips a n s \<Longrightarrow> steps a n s ! k = a + int k * s"
  by (simp add: steps_def)

section \<open>Powers of two\<close>

text \<open>\<open>pg_leftmost_one_pos32\<close> and \<open>pg_leftmost_one_pos64\<close>: the position of the highest set bit.\<close>

fun leftmost_one_pos :: "nat \<Rightarrow> nat" where
  "leftmost_one_pos n = (if n < 2 then 0 else leftmost_one_pos (n div 2) + 1)"

declare leftmost_one_pos.simps [simp del]

lemma leftmost_one_pos_bounds: "0 < n \<Longrightarrow> 2 ^ leftmost_one_pos n \<le> n \<and> n < 2 ^ Suc (leftmost_one_pos n)"
proof (induction n rule: leftmost_one_pos.induct)
  case (1 n)
  show ?case
  proof (cases "n < 2")
    case True
    then show ?thesis using 1(2) by (simp add: leftmost_one_pos.simps)
  next
    case False
    then have "2 ^ leftmost_one_pos (n div 2) \<le> n div 2 \<and> n div 2 < 2 ^ Suc (leftmost_one_pos (n div 2))"
      using 1 by simp
    then show ?thesis using False by (simp add: leftmost_one_pos.simps [of n]) linarith
  qed
qed

text \<open>
  \<open>while (n < needed) n *= 2;\<close> on an \<open>int\<close>: the loop never ends when it starts at zero.
\<close>

function double_until :: "int \<Rightarrow> int \<Rightarrow> int result" where
  "double_until needed n =
     (if needed \<le> n then Inr n
      else if n = 0 then Inl (Undefined Infinite_loop)
      else if \<not> in_int (2 * n) then Inl (Undefined Int_overflow)
      else double_until needed (2 * n))"
  by pat_completeness auto
termination
  by (relation "measure (\<lambda>(needed, n). if n \<ge> 0 then nat (needed - n) else nat (n + 2147483649))")
    (auto simp: in_int_def)

declare double_until.simps [simp del]

text \<open>Started at a positive number it ends, with less than the double of what was needed.\<close>

lemma double_until_ok:
  "0 < n \<Longrightarrow> needed \<le> 1073741824 \<Longrightarrow>
   \<exists>r. double_until needed n = Inr r \<and> needed \<le> r \<and> n \<le> r \<and> (r = n \<or> r < 2 * needed)"
proof (induction needed n rule: double_until.induct)
  case (1 needed n)
  show ?case
  proof (cases "needed \<le> n")
    case False
    then have "in_int (2 * n)" using 1(2,3) by (simp add: in_int_def)
    then show ?thesis
      using 1 False by (subst double_until.simps) fastforce
  qed (simp add: double_until.simps)
qed

section \<open>Buffers\<close>

type_synonym 'a buf = "'a option list"

text \<open>
  \<open>palloc\<close> refuses requests above \<open>MaxAllocSize\<close> (\<open>pg-src/src/include/utils/memutils.h\<close>); a negative
  count becomes a huge \<open>size_t\<close> and is refused as well.
\<close>

abbreviation MaxAllocSize :: int where
  "MaxAllocSize \<equiv> 1073741823"

definition palloc :: "int \<Rightarrow> int \<Rightarrow> 'a buf result" where
  "palloc sz n =
     (if 0 \<le> n \<and> sz * n \<le> MaxAllocSize then Inr (replicate (nat n) None)
      else Inl (Elog ''invalid memory alloc request size''))"

definition palloc0 :: "int \<Rightarrow> int \<Rightarrow> 'a::zero buf result" where
  "palloc0 sz n =
     (if 0 \<le> n \<and> sz * n \<le> MaxAllocSize then Inr (replicate (nat n) (Some 0))
      else Inl (Elog ''invalid memory alloc request size''))"

definition rd :: "'a list \<Rightarrow> int \<Rightarrow> 'a result" where
  "rd xs i = (if 0 \<le> i \<and> i < int (length xs) then Inr (xs ! nat i)
              else Inl (Undefined Out_of_bounds))"

definition wr :: "'a buf \<Rightarrow> int \<Rightarrow> 'a \<Rightarrow> 'a buf result" where
  "wr m i v = (if 0 \<le> i \<and> i < int (length m) then Inr (m[nat i := Some v])
               else Inl (Undefined Out_of_bounds))"

text \<open>\<open>repalloc\<close> keeps the common prefix; what it adds is not written yet.\<close>

definition repalloc :: "'a buf \<Rightarrow> int \<Rightarrow> int \<Rightarrow> 'a buf result" where
  "repalloc m sz n =
     bindR (palloc sz n) (\<lambda>m'. Inr (take (nat n) m @ drop (length m) m'))"

text \<open>Handing a buffer to a reader requires that every cell has been written.\<close>

definition sealed :: "'a buf \<Rightarrow> 'a list result" where
  "sealed m = (if list_all (\<lambda>c. c \<noteq> None) m then Inr (map the m)
               else Inl (Undefined Uninitialised))"

text \<open>Reading a cell of a buffer, and \<open>m[i] = f(m[i])\<close>.\<close>

definition rdb :: "'a buf \<Rightarrow> int \<Rightarrow> 'a result" where
  "rdb m i = bindR (rd m i) (\<lambda>c. case c of None \<Rightarrow> Inl (Undefined Uninitialised) | Some v \<Rightarrow> Inr v)"

definition modify :: "'a buf \<Rightarrow> int \<Rightarrow> ('a \<Rightarrow> 'a) \<Rightarrow> 'a buf result" where
  "modify m i f = bindR (rdb m i) (\<lambda>v. wr m i (f v))"

lemma rd_nth [simp, c_simps]: "i < length xs \<Longrightarrow> rd xs (int i) = Inr (xs ! i)"
  by (simp add: rd_def)

lemma rd_in: "0 \<le> i \<Longrightarrow> i < int (length xs) \<Longrightarrow> rd xs i = Inr (xs ! nat i)"
  by (simp add: rd_def)

lemma palloc_ok: "0 \<le> n \<Longrightarrow> sz * n \<le> MaxAllocSize \<Longrightarrow> palloc sz n = Inr (replicate (nat n) None)"
  by (simp add: palloc_def)

lemma palloc0_ok: "0 \<le> n \<Longrightarrow> sz * n \<le> MaxAllocSize \<Longrightarrow> palloc0 sz n = Inr (replicate (nat n) (Some 0))"
  by (simp add: palloc0_def)

lemma repalloc_ok:
  "length m \<le> n \<Longrightarrow> sz * int n \<le> MaxAllocSize \<Longrightarrow> repalloc m sz (int n) = Inr (m @ replicate (n - length m) None)"
  by (simp add: repalloc_def palloc_ok)

lemma cint_size: "4 * int (M * N) \<le> MaxAllocSize \<Longrightarrow> cint (int M * int N) = Inr (int (M * N))"
  by (simp add: cint_def in_int_def del: of_nat_mult) (simp add: order_trans [of INT_MIN 0])

lemma palloc_nat: "4 * int n \<le> MaxAllocSize \<Longrightarrow> palloc 4 (int n) = Inr (replicate n None)"
  by (simp add: palloc_ok)

lemma palloc0_nat: "4 * int n \<le> MaxAllocSize \<Longrightarrow> palloc0 4 (int n) = Inr (replicate n (Some 0))"
  by (simp add: palloc0_ok)

lemma sealed_map_Some [simp, c_simps]: "sealed (map Some xs) = Inr xs"
  by (simp add: sealed_def list_all_iff comp_def)

subsection \<open>Consecutive writes\<close>

definition blit :: "'a buf \<Rightarrow> nat \<Rightarrow> 'a list \<Rightarrow> 'a buf" where
  "blit m i vs = take i m @ map Some vs @ drop (i + length vs) m"

lemma length_blit [simp, buf_simps]: "i + length vs \<le> length m \<Longrightarrow> length (blit m i vs) = length m"
  by (simp add: blit_def)

lemma blit_Nil [simp]: "blit m i [] = m"
  by (simp add: blit_def)

lemma wr_blit: "i < length m \<Longrightarrow> wr m (int i) v = Inr (blit m i [v])"
  by (simp add: wr_def blit_def upd_conv_take_nth_drop)

lemma blit_blit:
  "i + length vs + length ws \<le> length m \<Longrightarrow> blit (blit m i vs) (i + length vs) ws = blit m i (vs @ ws)"
  by (simp add: blit_def ac_simps)

lemma blit_full: "length vs = length m \<Longrightarrow> blit m 0 vs = map Some vs"
  by (simp add: blit_def)

lemma nth_blit:
  "j < length m \<Longrightarrow> i + length vs \<le> length m \<Longrightarrow>
   blit m i vs ! j = (if i \<le> j \<and> j < i + length vs then Some (vs ! (j - i)) else m ! j)"
  by (auto simp: blit_def nth_append)

lemma blit_snoc: "i + length vs < length m \<Longrightarrow> (blit m i vs)[i + length vs := Some v] = blit m i (vs @ [v])"
  by (simp add: blit_def list_update_append upd_conv_take_nth_drop
      drop_Suc [symmetric] Cons_nth_drop_Suc [symmetric] split: nat.split)

text \<open>Loops that fill, or update in place, consecutive cells.\<close>

lemma for_loop_fill:
  assumes "p + n \<le> length m" and "b = int p + int n"
    and "\<And>k m'. k < n \<Longrightarrow> length m' = length m \<Longrightarrow> body (int p + int k) m' = wr m' (int (p + k)) (v k)"
  shows "for_loop (int p) b 1 body m = Inr (blit m p (map v [0..<n]))"
proof -
  have "for_loop (int p) b 1 body (blit m p (map v [0..<0])) = Inr (blit m p (map v [0..<n]))"
  proof (rule for_loop_states [where st = "\<lambda>k. blit m p (map v [0..<k])"])
    fix k assume k: "k < n"
    then have "p + length (map v [0..<k]) < length m" using assms(1) by simp
    from blit_snoc [OF this, of "v k"] k assms show
      "body (int p + int k) (blit m p (map v [0..<k])) = Inr (blit m p (map v [0..<Suc k]))"
      by (simp add: wr_def flip: of_nat_add)
  qed (rule assms(2))
  then show ?thesis by simp
qed

lemma modify_nth: "i < length m \<Longrightarrow> m ! i = Some x \<Longrightarrow> modify m (int i) f = Inr (m[i := Some (f x)])"
  by (simp add: modify_def rdb_def rd_def wr_def)

lemma for_loop_modify:
  assumes "p + n \<le> length m" and "b = int p + int n"
    and "\<And>k. k < n \<Longrightarrow> m ! (p + k) = Some (x k)"
    and "\<And>k m'. k < n \<Longrightarrow> body (int p + int k) m' = modify m' (int (p + k)) (f k)"
  shows "for_loop (int p) b 1 body m = Inr (blit m p (map (\<lambda>k. f k (x k)) [0..<n]))"
proof -
  let ?v = "\<lambda>k. f k (x k)"
  have "for_loop (int p) b 1 body (blit m p (map ?v [0..<0])) = Inr (blit m p (map ?v [0..<n]))"
  proof (rule for_loop_states [where st = "\<lambda>k. blit m p (map ?v [0..<k])"])
    fix k assume k: "k < n"
    then have lt: "p + length (map ?v [0..<k]) < length m" using assms(1) by simp
    have "blit m p (map ?v [0..<k]) ! (p + k) = Some (x k)"
      using assms(1,3) k by (simp add: nth_blit)
    with blit_snoc [OF lt, of "?v k"] k lt show
      "body (int p + int k) (blit m p (map ?v [0..<k])) = Inr (blit m p (map ?v [0..<Suc k]))"
      by (simp add: assms(4) modify_nth del: of_nat_add)
  qed (rule assms(2))
  then show ?thesis by simp
qed

text \<open>Running sums.\<close>

lemma for_loop_sum:
  assumes "\<And>k s. k < n \<Longrightarrow> body (int k) s = Inr (s + f k)"
  shows "for_loop 0 (int n) 1 body s = Inr (s + sum_list (map f [0..<n]) :: 'a :: monoid_add)"
proof -
  have "for_loop 0 (int n) 1 body (s + sum_list (map f [0..<0])) = Inr (s + sum_list (map f [0..<n]))"
    by (rule for_loop_states [where st = "\<lambda>k. s + sum_list (map f [0..<k])"]) (simp_all add: assms add.assoc)
  then show ?thesis by simp
qed

text \<open>\<open>memcpy\<close> of \<open>n\<close> elements from position \<open>si\<close> of one buffer to position \<open>di\<close> of another.\<close>

definition memcpy :: "'a buf \<Rightarrow> int \<Rightarrow> 'a list \<Rightarrow> int \<Rightarrow> int \<Rightarrow> 'a buf result" where
  "memcpy dst di src si n =
     require (0 \<le> di \<and> di + n \<le> int (length dst) \<and> 0 \<le> si \<and> si + n \<le> int (length src) \<and> 0 \<le> n) (Undefined Out_of_bounds)
       (Inr (blit dst (nat di) (take (nat n) (drop (nat si) src))))"

lemma memcpy_ok:
  "d + n \<le> length dst \<Longrightarrow> i + n \<le> length src \<Longrightarrow>
   memcpy dst (int d) src (int i) (int n) = Inr (blit dst d (take n (drop i src)))"
  by (simp add: memcpy_def)

text \<open>\<open>out[idx++] = v\<close>\<close>

definition put :: "'f buf \<times> int \<Rightarrow> 'f \<Rightarrow> ('f buf \<times> int) result" where
  "put st v = (case st of (m, idx) \<Rightarrow> bindR (wr m idx v) (\<lambda>m'. Inr (m', idx + 1)))"

text \<open>
  \<open>emits L f vs\<close>: on an output of \<open>L\<close> cells, \<open>f\<close> appends the values \<open>vs\<close> at the running index and
  advances it, and runs out of bounds when they do not fit. The property is closed under loops,
  which append the concatenation of what their iterations append; it carries every kernel that
  fills its output with \<open>out[idx++] = ...\<close>.
\<close>

definition emits :: "nat \<Rightarrow> ('f buf \<times> int \<Rightarrow> ('f buf \<times> int) result) \<Rightarrow> 'f list \<Rightarrow> bool" where
  "emits L f vs \<longleftrightarrow> (\<forall>m j. length m = L \<longrightarrow> j \<le> L \<longrightarrow>
     f (m, int j) = (if j + length vs \<le> L then Inr (blit m j vs, int (j + length vs))
                     else Inl (Undefined Out_of_bounds)))"

named_theorems emits_intros \<open>closure rules of \<open>emits\<close>\<close>

lemma emitsD:
  "emits L f vs \<Longrightarrow> length m = L \<Longrightarrow> j + length vs \<le> L \<Longrightarrow> f (m, int j) = Inr (blit m j vs, int (j + length vs))"
  by (simp add: emits_def)

lemma emitsD_overflow:
  "emits L f vs \<Longrightarrow> length m = L \<Longrightarrow> j \<le> L \<Longrightarrow> L < j + length vs \<Longrightarrow> f (m, int j) = Inl (Undefined Out_of_bounds)"
  by (simp add: emits_def)

lemma emits_put [emits_intros]: "emits L (\<lambda>st. put st v) [v]"
  by (auto simp: emits_def put_def wr_def blit_def upd_conv_take_nth_drop)

lemma emits_rd [emits_intros]: "rd src i = Inr v \<Longrightarrow> emits L (\<lambda>st. bindR (rd src i) (put st)) [v]"
  using emits_put [of L v] by (simp add: emits_def)

lemma emits_foldR:
  "(\<And>i. i \<in> set is \<Longrightarrow> emits L (body i) (vs i)) \<Longrightarrow> emits L (foldR body is) (concat (map vs is))"
proof (induction "is")
  case Nil
  then show ?case by (simp add: emits_def)
next
  case (Cons i "is")
  have hd: "emits L (body i) (vs i)" and tl: "emits L (foldR body is) (concat (map vs is))"
    using Cons by simp_all
  show ?case
    unfolding emits_def
  proof (intro allI impI)
    fix m :: "'b buf" and j
    assume m: "length m = L" and j: "j \<le> L"
    show "foldR body (i # is) (m, int j) =
        (if j + length (concat (map vs (i # is))) \<le> L
         then Inr (blit m j (concat (map vs (i # is))), int (j + length (concat (map vs (i # is)))))
         else Inl (Undefined Out_of_bounds))"
    proof (cases "j + length (vs i) \<le> L")
      case True
      moreover have "length (blit m j (vs i)) = L" using True m by simp
      ultimately show ?thesis
        using hd tl m j unfolding emits_def by (auto simp: blit_blit add.assoc simp del: of_nat_add)
    next
      case False
      then show ?thesis using hd m j by (simp add: emits_def)
    qed
  qed
qed

lemma emits_for_loop:
  "0 < s \<Longrightarrow> (\<And>i. i \<in> set (steps a n s) \<Longrightarrow> emits L (body i) (vs i)) \<Longrightarrow>
   emits L (for_loop a n s body) (concat (map vs (steps a n s)))"
  using emits_foldR [of "steps a n s" L body vs] by (simp add: emits_def for_loop_steps)

lemma emits_for_loop_unit:
  "(\<And>i. i < n \<Longrightarrow> emits L (body (int i)) (vs i)) \<Longrightarrow>
   emits L (for_loop 0 (int n) 1 body) (concat (map vs [0..<n]))"
  using emits_for_loop [of 1 0 "int n" L body "\<lambda>i. vs (nat i)"]
  by (force simp: steps_unit comp_def)

text \<open>
  A loop that computes the position of each block from its counter, as the parallel
  loops do: the blocks tile the output in order.
\<close>

lemma foldR_tile:
  assumes body: "\<And>k m. k < length is \<Longrightarrow> length m = L \<Longrightarrow>
      body (is ! k) m = Inr (blit m (p + k * b) (vs (is ! k)))"
    and len: "\<And>k. k < length is \<Longrightarrow> length (vs (is ! k)) = b"
    and m: "length m = L" and fit: "p + length is * b \<le> L"
  shows "foldR body is m = Inr (blit m p (concat (map vs is)))"
  using assms
proof (induction "is" arbitrary: m p)
  case Nil
  then show ?case by simp
next
  case (Cons i "is")
  have hd: "body i m = Inr (blit m p (vs i))" and lv: "length (vs i) = b"
    using Cons.prems(1)[of 0 m] Cons.prems(2)[of 0] Cons.prems(3) by simp_all
  have lc: "length (concat (map vs is)) = length is * b"
  proof -
    have "\<forall>x \<in> set is. length (vs x) = b"
      using Cons.prems(2) by (metis in_set_conv_nth length_Cons not_less_eq nth_Cons_Suc)
    then show ?thesis by (induction "is") auto
  qed
  have "foldR body is (blit m p (vs i)) = Inr (blit (blit m p (vs i)) (p + b) (concat (map vs is)))"
  proof (rule Cons.IH)
    fix k and m' :: "'a buf"
    assume k: "k < length is" "length m' = L"
    show "body (is ! k) m' = Inr (blit m' (p + b + k * b) (vs (is ! k)))"
      using Cons.prems(1)[of "Suc k" m'] k by (simp add: algebra_simps)
  next
    fix k assume "k < length is"
    then show "length (vs (is ! k)) = b" using Cons.prems(2)[of "Suc k"] by simp
  qed (use Cons.prems lv in \<open>simp_all add: algebra_simps\<close>)
  then show ?case
    using hd lv lc Cons.prems(3,4) blit_blit[of p "vs i" "concat (map vs is)" m]
    by (simp add: algebra_simps)
qed

lemma length_concat_const:
  "(\<And>x. x \<in> set xs \<Longrightarrow> length (f x) = b) \<Longrightarrow> length (concat (map f xs)) = length xs * b"
  by (induction xs) auto

lemma concat_nth_const:
  assumes "\<And>x. x \<in> set xs \<Longrightarrow> length (f x) = b" and "i < length xs" and "j < b"
  shows "concat (map f xs) ! (i * b + j) = f (xs ! i) ! j"
  using assms
proof (induction xs arbitrary: i)
  case Nil
  then show ?case by simp
next
  case (Cons x xs)
  show ?case
  proof (cases i)
    case 0
    then show ?thesis using Cons.prems by (simp add: nth_append)
  next
    case (Suc i')
    then have "concat (map f xs) ! (i' * b + j) = f (xs ! i') ! j"
      using Cons.prems by (intro Cons.IH) auto
    then show ?thesis using Suc Cons.prems by (simp add: nth_append)
  qed
qed

text \<open>A matrix of \<open>M\<close> rows and \<open>N\<close> columns, stored row by row.\<close>

definition grid :: "nat \<Rightarrow> nat \<Rightarrow> (nat \<Rightarrow> nat \<Rightarrow> 'a) \<Rightarrow> 'a list" where
  "grid M N f = concat (map (\<lambda>i. map (f i) [0..<N]) [0..<M])"

lemma length_grid [simp, buf_simps]: "length (grid M N f) = M * N"
  by (simp add: grid_def length_concat comp_def sum_list_triv)

lemma nth_grid [simp]: "i < M \<Longrightarrow> j < N \<Longrightarrow> grid M N f ! (i * N + j) = f i j"
  using concat_nth_const [of "[0..<M]" "\<lambda>i. map (f i) [0..<N]" N i j] by (simp add: grid_def)

lemma grid_Suc: "grid (Suc M) N f = grid M N f @ map (f M) [0..<N]"
  by (simp add: grid_def)

lemma grid_add: "grid (a + b) N f = grid a N f @ grid b N (\<lambda>i. f (a + i))"
  by (induction b) (simp_all add: grid_Suc, simp add: grid_def)

lemma map_upt_mult: "map f [0..<M * N] = grid M N (\<lambda>i j. f (i * N + j))"
proof (induction M)
  case (Suc M)
  have "map f [M * N..<M * N + N] = map (\<lambda>j. f (M * N + j)) [0..<N]"
    by (rule nth_equalityI) simp_all
  then show ?case
    using Suc upt_add_eq_append [of 0 "M * N" N] by (simp add: grid_Suc add.commute)
qed (simp add: grid_def)

lemma sum_list_grid:
  "sum_list (map f [0..<M * N]) = sum_list (map (\<lambda>i. sum_list (map (\<lambda>j. f (i * N + j)) [0..<N])) [0..<M])"
  unfolding map_upt_mult by (induction M) (simp_all add: grid_def)

lemma grid_cong: "(\<And>i j. i < M \<Longrightarrow> j < N \<Longrightarrow> f i j = g i j) \<Longrightarrow> grid M N f = grid M N g"
  unfolding grid_def by (intro arg_cong [where f = concat] map_cong) auto

lemma grid_const: "(\<And>i j. i < M \<Longrightarrow> j < N \<Longrightarrow> f i j = z) \<Longrightarrow> grid M N f = replicate (M * N) z"
proof -
  assume "\<And>i j. i < M \<Longrightarrow> j < N \<Longrightarrow> f i j = z"
  then have "grid M N f = grid M N (\<lambda>_ _. z)" by (rule grid_cong)
  also have "\<dots> = replicate (M * N) z"
  proof (induction M)
    case (Suc M)
    then show ?case
      using replicate_add [of "M * N" N z] by (simp add: grid_Suc map_replicate_const add.commute)
  qed (simp add: grid_def)
  finally show ?thesis .
qed

lemma tile_fits:
  assumes "i < OH" and "k < OW"
  shows "(i * OW + k) * b + b \<le> OH * OW * (b::nat)"
proof -
  have "i * OW + k + 1 \<le> (i + 1) * OW" using assms by simp
  also have "\<dots> \<le> OH * OW" using assms by (intro mult_le_mono1) simp
  finally have "(i * OW + k + 1) * b \<le> OH * OW * b" by (rule mult_le_mono1)
  then show ?thesis by (simp add: algebra_simps)
qed

text \<open>A loop over rows that carries the offset of the current row in its state.\<close>

lemma for_loop_rows:
  assumes "M * N \<le> length m"
    and "\<And>c m'. c < M \<Longrightarrow> length m' = length m \<Longrightarrow> (\<forall>j < length m. c * N \<le> j \<longrightarrow> m' ! j = m ! j) \<Longrightarrow>
      body (int c) (m', int (c * N)) = Inr (blit m' (c * N) (map (f c) [0..<N]), int (c * N) + int N)"
  shows "for_loop 0 (int M) 1 body (m, 0) = Inr (blit m 0 (grid M N f), int (M * N))"
proof -
  have "for_loop 0 (int M) 1 body (blit m 0 (grid 0 N f), int (0 * N)) = Inr (blit m 0 (grid M N f), int (M * N))"
  proof (rule for_loop_states [where st = "\<lambda>c. (blit m 0 (grid c N f), int (c * N))"])
    fix c assume c: "c < M"
    have le: "c * N + N \<le> length m"
      using tile_fits [of c M 0 1 N] c assms(1) by simp
    then have l: "length (blit m 0 (grid c N f)) = length m" by simp
    have "\<forall>j < length m. c * N \<le> j \<longrightarrow> blit m 0 (grid c N f) ! j = m ! j" using le by (simp add: nth_blit)
    from assms(2) [OF c l this] blit_blit [of 0 "grid c N f" "map (f c) [0..<N]" m] le
    show "body (0 + int c) (blit m 0 (grid c N f), int (c * N))
        = Inr (blit m 0 (grid (Suc c) N f), int (Suc c * N))" by (simp add: grid_Suc)
  qed simp
  then show ?thesis by (simp add: grid_def)
qed

text \<open>Two nested loops of that shape, as in the kernels that slide a window over an image.\<close>

lemma for_loop_tile2:
  assumes s: "0 < s"
    and OW: "OW = trips aw nw s" and OH: "OH = trips ah nh s"
    and body: "\<And>i k m. i < OH \<Longrightarrow> k < OW \<Longrightarrow> length m = L \<Longrightarrow>
      body (ah + int i * s) (aw + int k * s) m
        = Inr (blit m ((i * OW + k) * b) (vs (ah + int i * s) (aw + int k * s)))"
    and len: "\<And>rn cn. length (vs rn cn) = b"
    and m: "length m = L" and fit: "OH * OW * b \<le> L"
  shows "for_loop ah nh s (\<lambda>rn. for_loop aw nw s (body rn)) m
       = Inr (blit m 0 (concat (map (\<lambda>rn. concat (map (vs rn) (steps aw nw s))) (steps ah nh s))))"
proof -
  have row: "for_loop aw nw s (body (ah + int i * s)) m
      = Inr (blit m (i * (OW * b)) (concat (map (vs (ah + int i * s)) (steps aw nw s))))"
    if "i < OH" "length m = L" for i and m :: "'a buf"
    unfolding for_loop_steps [OF s]
  proof (rule foldR_tile [where b = b and L = L])
    have "(i + 1) * (OW * b) \<le> OH * (OW * b)" using that(1) by (intro mult_le_mono1) simp
    then show "i * (OW * b) + length (steps aw nw s) * b \<le> L"
      using fit OW by (simp add: algebra_simps)
  qed (use that body len OW in \<open>simp_all add: steps_nth algebra_simps\<close>)
  have "for_loop ah nh s (\<lambda>rn. for_loop aw nw s (body rn)) m
      = foldR (\<lambda>rn. for_loop aw nw s (body rn)) (steps ah nh s) m"
    by (rule for_loop_steps [OF s])
  also have "\<dots> = Inr (blit m 0 (concat (map (\<lambda>rn. concat (map (vs rn) (steps aw nw s))) (steps ah nh s))))"
    by (rule foldR_tile [where b = "OW * b" and L = L])
      (use row len m fit OW OH in \<open>simp_all add: steps_nth length_concat_const algebra_simps\<close>)
  finally show ?thesis .
qed

text \<open>The same loops on an output that is too short: the first block that does not fit runs out of bounds.\<close>

lemma foldR_tile_overflow:
  assumes body: "\<And>k m. k < length is \<Longrightarrow> length m = L \<Longrightarrow> p + k * b \<le> L \<Longrightarrow>
      body (is ! k) m = (if p + k * b + b \<le> L then Inr (blit m (p + k * b) (vs (is ! k))) else Inl e)"
    and len: "\<And>k. k < length is \<Longrightarrow> length (vs (is ! k)) = b"
    and m: "length m = L" and fit: "p \<le> L" "L < p + length is * b"
  shows "foldR body is m = Inl e"
  using assms
proof (induction "is" arbitrary: m p)
  case (Cons i "is")
  have hd: "body i m = (if p + b \<le> L then Inr (blit m p (vs i)) else Inl e)" and lv: "length (vs i) = b"
    using Cons.prems(1) [of 0 m] Cons.prems(2) [of 0] Cons.prems(3,4) by simp_all
  show ?case
  proof (cases "p + b \<le> L")
    case True
    have "foldR body is (blit m p (vs i)) = Inl e"
    proof (rule Cons.IH)
      fix k and m' :: "'a buf"
      assume k: "k < length is" "length m' = L" "p + b + k * b \<le> L"
      show "body (is ! k) m' = (if p + b + k * b + b \<le> L then Inr (blit m' (p + b + k * b) (vs (is ! k))) else Inl e)"
        using Cons.prems(1) [of "Suc k" m'] k by (simp add: algebra_simps)
    next
      fix k assume "k < length is"
      then show "length (vs (is ! k)) = b" using Cons.prems(2) [of "Suc k"] by simp
    qed (use True Cons.prems lv in \<open>simp_all add: algebra_simps\<close>)
    with hd True show ?thesis by simp
  qed (use hd in simp)
qed simp

lemma for_loop_tile2_overflow:
  assumes s: "0 < s"
    and OW: "OW = trips aw nw s" and OH: "OH = trips ah nh s"
    and body: "\<And>i k m. i < OH \<Longrightarrow> k < OW \<Longrightarrow> length m = L \<Longrightarrow> (i * OW + k) * b \<le> L \<Longrightarrow>
      body (ah + int i * s) (aw + int k * s) m = (if (i * OW + k) * b + b \<le> L
        then Inr (blit m ((i * OW + k) * b) (vs (ah + int i * s) (aw + int k * s))) else Inl e)"
    and len: "\<And>rn cn. length (vs rn cn) = b"
    and m: "length m = L" and short: "L < OH * OW * b"
  shows "for_loop ah nh s (\<lambda>rn. for_loop aw nw s (body rn)) m = Inl e"
proof -
  have row: "for_loop aw nw s (body (ah + int i * s)) m = (if i * (OW * b) + OW * b \<le> L
      then Inr (blit m (i * (OW * b)) (concat (map (vs (ah + int i * s)) (steps aw nw s)))) else Inl e)"
    if i: "i < OH" "length m = L" "i * (OW * b) \<le> L" for i and m :: "'a buf"
  proof (cases "i * (OW * b) + OW * b \<le> L")
    case True
    have "body (ah + int i * s) (aw + int k * s) m' = Inr (blit m' (i * (OW * b) + k * b) (vs (ah + int i * s) (aw + int k * s)))"
      if "k < OW" "length m' = L" for k m'
    proof -
      have "(k + 1) * b \<le> OW * b" using that by (intro mult_le_mono1) simp
      with True have "(i * OW + k) * b + b \<le> L" by (simp add: algebra_simps)
      moreover have "(i * OW + k) * b = i * (OW * b) + k * b" by (simp add: algebra_simps)
      ultimately show ?thesis using body [OF i(1) that] by simp
    qed
    then have "foldR (body (ah + int i * s)) (steps aw nw s) m = Inr (blit m (i * (OW * b)) (concat (map (vs (ah + int i * s)) (steps aw nw s))))"
      by (intro foldR_tile [where b = b and L = L]) (use i len OW True in \<open>simp_all add: steps_nth\<close>)
    with True show ?thesis by (simp add: for_loop_steps [OF s])
  next
    case False
    then have "foldR (body (ah + int i * s)) (steps aw nw s) m = Inl e"
      by (intro foldR_tile_overflow [where vs = "vs (ah + int i * s)" and b = b and L = L and p = "i * (OW * b)"])
        (use i body len OW in \<open>simp_all add: steps_nth algebra_simps\<close>)
    with False show ?thesis by (simp add: for_loop_steps [OF s])
  qed
  have "foldR (\<lambda>rn. for_loop aw nw s (body rn)) (steps ah nh s) m = Inl e"
    by (rule foldR_tile_overflow [where vs = "\<lambda>rn. concat (map (vs rn) (steps aw nw s))" and b = "OW * b" and L = L and p = 0])
      (use row len m short OW OH in \<open>simp_all add: steps_nth length_concat_const algebra_simps\<close>)
  then show ?thesis by (simp add: for_loop_steps [OF s])
qed

text \<open>A loop whose bodies keep the length of the buffer or fail, one of them on every buffer of that length.\<close>

lemma foldR_fails:
  assumes "\<And>x m. x \<in> set is \<Longrightarrow> length m = L \<Longrightarrow> body x m = Inl e \<or> (\<exists>m'. body x m = Inr m' \<and> length m' = L)"
    and "x \<in> set is" "\<And>m. length m = L \<Longrightarrow> body x m = Inl e" "length m = L"
  shows "foldR body is m = Inl e"
  using assms
proof (induction "is" arbitrary: m)
  case (Cons i "is")
  from Cons.prems(1) [of i m] Cons.prems(4) consider "body i m = Inl e" | m' where "body i m = Inr m'" "length m' = L" by auto
  then show ?case
  proof cases
    case 2
    with Cons.prems(2,3,4) have "x \<in> set is" by auto
    then have "foldR body is m' = Inl e" using Cons.IH [of m'] Cons.prems 2 by auto
    with 2 show ?thesis by simp
  qed simp
qed simp

lemma trips_window:
  assumes "K \<le> W + 2 * P" and "0 < S"
  shows "trips (- int P) (int W + int P - int K + 1) (int S) = (W + 2 * P - K) div S + 1"
proof -
  have "int W + int P - int K + 1 - (- int P) + int S - 1 = int (W + 2 * P - K + S)"
    using assms by simp
  then have "(int W + int P - int K + 1 - (- int P) + int S - 1) div int S
      = int ((W + 2 * P - K + S) div S)"
    by (simp only: zdiv_int)
  also have "(W + 2 * P - K + S) div S = (W + 2 * P - K) div S + 1"
    using assms by (intro div_add_self2) simp
  finally show ?thesis
    using assms by (simp add: trips_def)
qed

lemma steps_window:
  assumes "K \<le> W + 2 * P" and "0 < S"
  shows "steps (- int P) (int W + int P - int K + 1) (int S)
       = map (\<lambda>i. int (i * S) - int P) [0..<(W + 2 * P - K) div S + 1]"
  unfolding steps_def trips_window [OF assms] by (intro map_cong refl) simp


section \<open>Kernels that fill a buffer\<close>

text \<open>A call that gets a pointer into a buffer, and a loop of such calls on consecutive blocks.\<close>

definition at_offset :: "'a buf \<Rightarrow> int \<Rightarrow> ('a buf \<Rightarrow> 'a buf result) \<Rightarrow> 'a buf result" where
  "at_offset m off f =
     require (0 \<le> off \<and> off \<le> int (length m)) (Undefined Out_of_bounds)
       (bindR (f (drop (nat off) m)) (\<lambda>m'. Inr (take (nat off) m @ m')))"

lemma at_offset_blit:
  assumes "off + length vs \<le> length m" and "f (drop off m) = Inr (blit (drop off m) 0 vs)"
  shows "at_offset m (int off) f = Inr (blit m off vs)"
  using assms by (simp add: at_offset_def blit_def add.commute)

lemma for_loop_groups:
  assumes "G * n \<le> length m"
    and "\<And>g. g < G \<Longrightarrow> length (vs g) = n"
    and "\<And>g m'. g < G \<Longrightarrow> n \<le> length m' \<Longrightarrow> f (int g) m' = Inr (blit m' 0 (vs g))"
  shows "for_loop 0 (int G) 1 (\<lambda>gn m. at_offset m (gn * int n) (f gn)) m
       = Inr (blit m 0 (concat (map vs [0..<G])))"
proof -
  let ?cs = "\<lambda>g. concat (map vs [0..<g])"
  have len: "length (?cs g) = g * n" if "g \<le> G" for g
    using that assms(2) length_concat_const [of "[0..<g]" vs n] by simp
  have "for_loop 0 (int G) 1 (\<lambda>gn m. at_offset m (gn * int n) (f gn)) (blit m 0 (?cs 0)) = Inr (blit m 0 (?cs G))"
  proof (rule for_loop_states [where st = "\<lambda>g. blit m 0 (?cs g)"])
    fix g assume g: "g < G"
    have fit: "g * n + n \<le> length m" using tile_fits [of g G 0 1 n] g assms(1) by simp
    let ?m = "blit m 0 (?cs g)"
    have l: "length ?m = length m" using fit len [of g] g by simp
    have "at_offset ?m (int (g * n)) (f (int g)) = Inr (blit ?m (g * n) (vs g))"
      by (rule at_offset_blit) (use fit l g assms(2,3) in simp_all)
    also have "blit ?m (g * n) (vs g) = blit m 0 (?cs (Suc g))"
      using blit_blit [of 0 "?cs g" "vs g" m] fit len [of g] g assms(2) by simp
    finally show "at_offset ?m ((0 + int g) * int n) (f (0 + int g)) = Inr (blit m 0 (?cs (Suc g)))" by simp
  qed simp
  then show ?thesis by simp
qed

text \<open>
  The contract between an operator and a kernel that fills a buffer for it: on arguments that are \<open>ok\<close>, a
  buffer that is large enough receives \<open>vals\<close> in its first cells and is not touched elsewhere.
\<close>

locale buffer_kernel =
  fixes fill :: "'p \<Rightarrow> 'a buf \<Rightarrow> 'a buf result" and ok :: "'p \<Rightarrow> bool" and vals :: "'p \<Rightarrow> 'a list"
  assumes fills: "ok p \<Longrightarrow> length (vals p) \<le> length m \<Longrightarrow> fill p m = Inr (blit m 0 (vals p))"
begin

lemma exact: "ok p \<Longrightarrow> length m = length (vals p) \<Longrightarrow> fill p m = Inr (map Some (vals p))"
  by (simp add: fills blit_full)

lemma fresh: "ok p \<Longrightarrow> length (vals p) = n \<Longrightarrow> fill p (replicate n None) = Inr (map Some (vals p))"
  by (simp add: exact)

lemma groups:
  assumes "G * n = length m" "\<And>g. g < G \<Longrightarrow> ok (p g) \<and> length (vals (p g)) = n"
  shows "for_loop 0 (int G) 1 (\<lambda>gn m. at_offset m (gn * int n) (fill (p (nat gn)))) m
       = Inr (map Some (concat (map (\<lambda>g. vals (p g)) [0..<G])))"
proof -
  have "for_loop 0 (int G) 1 (\<lambda>gn m. at_offset m (gn * int n) (fill (p (nat gn)))) m
      = Inr (blit m 0 (concat (map (\<lambda>g. vals (p g)) [0..<G])))"
    by (rule for_loop_groups) (use assms fills in auto)
  moreover have "length (concat (map (\<lambda>g. vals (p g)) [0..<G])) = length m"
    using length_concat_const [of "[0..<G]" "\<lambda>g. vals (p g)" n] assms by simp
  ultimately show ?thesis by (simp add: blit_full)
qed

end

end
