(* ===== verification/Py_Prelude.thy ===== *)
theory Py_Prelude
  imports C_Prelude
begin

text \<open>
  What the Python sources of the model compiler (\<open>dbocg\<close>) mean to the model. A Python function is a HOL function
  into \<open>'a py\<close>: \<open>Inr\<close> is a returned value and \<open>Inl e\<close> a raised exception. Integers are unbounded; \<open>//\<close> and \<open>%\<close>
  round towards minus infinity, as \<open>div\<close> and \<open>mod\<close> do. A list index may be negative, which counts from the end.
  Loops over \<open>range\<close> are \<open>foldR\<close> of the prelude over an index list.

  The sorted containers of the third-party package \<open>sortedcontainers\<close> are lists without duplicates. Where a new
  element goes is a parameter, a function from the present elements and the new one to a position, so that what is
  proved holds for every order the package may keep.
\<close>

section \<open>Exceptions, lists and integers\<close>

datatype exn =
    AssertionError
  | ZeroDivisionError
  | IndexError
  | KeyError
  | TypeError
  | ValueError
  | AttributeError
  | NotImplementedError
  | UnboundLocalError
  | InputNotFoundError

type_synonym 'a py = "exn + 'a"

abbreviation py_assert :: "bool \<Rightarrow> 'a py \<Rightarrow> 'a py" where
  "py_assert b \<equiv> require b AssertionError"

definition py_index :: "nat \<Rightarrow> int \<Rightarrow> nat py" where
  "py_index n i =
     (if 0 \<le> i \<and> i < int n then Inr (nat i)
      else if i < 0 \<and> - int n \<le> i then Inr (nat (i + int n))
      else Inl IndexError)"

definition py_get :: "'a list \<Rightarrow> int \<Rightarrow> 'a py" where
  "py_get xs i = bindR (py_index (length xs) i) (\<lambda>k. Inr (xs ! k))"

definition py_set :: "'a list \<Rightarrow> int \<Rightarrow> 'a \<Rightarrow> 'a list py" where
  "py_set xs i v = bindR (py_index (length xs) i) (\<lambda>k. Inr (xs[k := v]))"

definition py_div :: "int \<Rightarrow> int \<Rightarrow> int py" where
  "py_div a b = (if b = 0 then Inl ZeroDivisionError else Inr (a div b))"

definition py_mod :: "int \<Rightarrow> int \<Rightarrow> int py" where
  "py_mod a b = (if b = 0 then Inl ZeroDivisionError else Inr (a mod b))"

named_theorems py_simps \<open>evaluation of Python list accesses and arithmetic\<close>

lemma py_get_nat [simp, py_simps]: "i < length xs \<Longrightarrow> py_get xs (int i) = Inr (xs ! i)"
  by (simp add: py_get_def py_index_def)

lemma py_set_nat [simp, py_simps]: "i < length xs \<Longrightarrow> py_set xs (int i) v = Inr (xs[i := v])"
  by (simp add: py_set_def py_index_def)

lemma py_get_in: "0 \<le> i \<Longrightarrow> i < int (length xs) \<Longrightarrow> py_get xs i = Inr (xs ! nat i)"
  by (simp add: py_get_def py_index_def)

lemma py_set_in: "0 \<le> i \<Longrightarrow> i < int (length xs) \<Longrightarrow> py_set xs i v = Inr (xs[nat i := v])"
  by (simp add: py_set_def py_index_def)

lemma py_set_length: "py_set xs i v = Inr ys \<Longrightarrow> length ys = length xs"
  by (auto simp: py_set_def bindR_Inr_iff)

lemma py_div_nonzero [simp, py_simps]: "b \<noteq> 0 \<Longrightarrow> py_div a b = Inr (a div b)"
  by (simp add: py_div_def)

lemma py_mod_nonzero [simp, py_simps]: "b \<noteq> 0 \<Longrightarrow> py_mod a b = Inr (a mod b)"
  by (simp add: py_mod_def)

section \<open>Loops over a range\<close>

text \<open>A loop over \<open>range(n)\<close>, and one over \<open>range(n - 1, -1, -1)\<close>, that keep an invariant return.\<close>

lemma foldR_upt_inv:
  assumes "P 0 st" and "\<And>i st. i < n \<Longrightarrow> P i st \<Longrightarrow> \<exists>st'. body i st = Inr st' \<and> P (Suc i) st'"
  shows "\<exists>st'. foldR body [0..<n] st = Inr st' \<and> P n st'"
  using assms
proof (induction n)
  case (Suc n)
  then obtain st1 where "foldR body [0..<n] st = Inr st1" "P n st1" by (meson less_SucI)
  moreover obtain st2 where "body n st1 = Inr st2" "P (Suc n) st2" using Suc.prems(2) [of n st1] calculation(2) by auto
  ultimately show ?case by (simp add: foldR_append)
qed auto

lemma foldR_down_inv:
  assumes "P n st" and "\<And>i st. i < n \<Longrightarrow> P (Suc i) st \<Longrightarrow> \<exists>st'. body i st = Inr st' \<and> P i st'"
  shows "\<exists>st'. foldR body (rev [0..<n]) st = Inr st' \<and> P 0 st'"
  using assms
proof (induction n arbitrary: st)
  case (Suc n)
  obtain st1 where st1: "body n st = Inr st1" "P n st1" using Suc.prems(2) [of n st] Suc.prems(1) by auto
  from Suc.IH [OF st1(2)] Suc.prems(2) obtain st2 where "foldR body (rev [0..<n]) st1 = Inr st2" "P 0 st2" by (meson less_SucI)
  with st1 show ?case by (simp add: foldR_append)
qed auto

text \<open>What holds before a loop that returned and is kept by each round holds after it.\<close>

lemma foldR_keeps:
  assumes "foldR body xs st = Inr st'" "P st"
    and "\<And>x s s'. x \<in> set xs \<Longrightarrow> P s \<Longrightarrow> body x s = Inr s' \<Longrightarrow> P s'"
  shows "P st'"
  using assms by (induction xs arbitrary: st) (auto simp: bindR_Inr_iff)

section \<open>Sorted containers\<close>

definition insert_at :: "nat \<Rightarrow> 'a \<Rightarrow> 'a list \<Rightarrow> 'a list" where
  "insert_at n x xs = take n xs @ x # drop n xs"

lemma set_insert_at [simp]: "set (insert_at n x xs) = insert x (set xs)"
  by (metis Un_insert_right append_take_drop_id insert_at_def list.simps(15) set_append)

lemma distinct_insert_at [simp]: "distinct (insert_at n x xs) \<longleftrightarrow> x \<notin> set xs \<and> distinct xs"
proof -
  have "distinct (ys @ x # zs) \<longleftrightarrow> distinct (x # ys @ zs)" for ys zs by auto
  from this [of "take n xs" "drop n xs"] show ?thesis by (simp only: insert_at_def append_take_drop_id distinct.simps(2))
qed

lemma length_insert_at [simp]: "length (insert_at n x xs) = Suc (length xs)"
  by (simp add: insert_at_def)

text \<open>\<open>SortedSet.add\<close>: an element that is present stays where it is.\<close>

definition sorted_add :: "('a list \<Rightarrow> 'a \<Rightarrow> nat) \<Rightarrow> 'a \<Rightarrow> 'a list \<Rightarrow> 'a list" where
  "sorted_add pos x xs = (if x \<in> set xs then xs else insert_at (pos xs x) x xs)"

text \<open>\<open>SortedSet.remove\<close>: an element that is not present is a \<open>KeyError\<close>.\<close>

definition sorted_remove :: "'a \<Rightarrow> 'a list \<Rightarrow> 'a list py" where
  "sorted_remove x xs = (if x \<in> set xs then Inr (remove1 x xs) else Inl KeyError)"

lemma set_sorted_add [simp]: "set (sorted_add pos x xs) = insert x (set xs)"
  by (auto simp: sorted_add_def)

lemma distinct_sorted_add [simp]: "distinct (sorted_add pos x xs) \<longleftrightarrow> distinct xs"
  by (auto simp: sorted_add_def)

lemma sorted_remove_Inr: "sorted_remove x xs = Inr ys \<longleftrightarrow> x \<in> set xs \<and> ys = remove1 x xs"
  by (auto simp: sorted_remove_def)

end
