(* ===== verification/Dbocg_Tensor.thy ===== *)
theory Dbocg_Tensor
  imports Py_Prelude
begin

text \<open>
  The constants of \<open>const.py\<close> and the classes \<open>SplitInfo\<close> and \<open>Tensor\<close> of \<open>tensor.py\<close>. Objects are values: a method
  that changes its object returns the changed value. An operator handle (\<open>Op\<close> of \<open>op.py\<close>) is a number and the
  address of an operator object; operator objects are in the store of \<open>Dbocg_Model\<close>, so two handles are equal exactly
  when their numbers are and they refer to the same object, as Python compares them.

  Numeric data of a tensor are of an arbitrary type \<open>'d\<close>; the conversion of a protobuf message, a list or an array to
  a numpy array is an argument.
\<close>

section \<open>Constants\<close>

abbreviation (input) MAX_DIM :: nat where "MAX_DIM \<equiv> 8"
abbreviation (input) MAX_NUM_SPLITS :: nat where "MAX_NUM_SPLITS \<equiv> 32"
abbreviation (input) MAX_NUM_INPUTS :: nat where "MAX_NUM_INPUTS \<equiv> 6"
abbreviation (input) MAX_NUM_OUTPUTS :: nat where "MAX_NUM_OUTPUTS \<equiv> 6"
abbreviation (input) GUID_INVALID :: nat where "GUID_INVALID \<equiv> 0"
abbreviation (input) GUID_INPUT :: nat where "GUID_INPUT \<equiv> 10"
abbreviation (input) GUID_WEIGHT :: nat where "GUID_WEIGHT \<equiv> 11"
abbreviation (input) GUID_PRESERVED :: nat where "GUID_PRESERVED \<equiv> 19"

datatype (plugins only: code size) OpType =
    OP_INPUT | OP_WEIGHT | OP_ANY | OP_CONV2D | OP_DROPOUT | OP_LINEAR | OP_POOL2D_MAX | OP_POOL2D_AVG | OP_RELU
  | OP_SIGMOID | OP_TANH | OP_BATCHNORM | OP_CONCAT | OP_SPLIT | OP_RESHAPE | OP_TRANSPOSE | OP_EW_ADD | OP_EW_MUL
  | OP_MATMUL | OP_MUL | OP_ENLARGE | OP_MERGE_GCONV | OP_CONSTANT_IMM | OP_CONSTANT_ICONV | OP_CONSTANT_ONE
  | OP_CONSTANT_POOL | OP_SQUEEZE | OP_UNSQUEEZE | OP_EW_SUB | OP_EW_DIV | OP_EW_EQUAL | OP_EW_GREATER | OP_EW_LESS
  | OP_EW_MAX | OP_EW_MIN | OP_REDUCE_ARGMAX | OP_REDUCE_ARGMIN | OP_REDUCE_MAX | OP_REDUCE_MEAN | OP_REDUCE_MIN
  | OP_REDUCE_PROD | OP_REDUCE_SUM | OP_PAD | OP_SHAPE | OP_SIZE | OP_TOPK | OP_WHERE | OP_CEIL | OP_CAST | OP_EXP
  | OP_ROUND | OP_LOG | OP_LOGICAL_NOT | OP_SQRT | OP_LEAKYRELU | OP_SLICE | OP_RESIZE | OP_PRELU
  | OP_FUSE_CONV_BATCHNORM | OP_FUSE_CONV_BATCHNORM_ALPHA_VAR | OP_FUSE_CONV_BATCHNORM_BIAS | OP_BROADCAST_ADD

datatype PMParameter =
    PM_OP_TYPE | PM_NUM_INPUTS | PM_NUM_OUTPUTS | PM_GROUP | PM_KERNEL_H | PM_KERNEL_W | PM_STRIDE_H | PM_STRIDE_W
  | PM_PAD | PM_ACTI | PM_NUMDIM | PM_AXIS | PM_PERM | PM_OUTSHUFFLE | PM_MERGE_GCONV_COUNT | PM_AXES | PM_KEEP_DIMS
  | PM_EPSILON

datatype TNParameter = IN_0 | IN_1 | IN_2 | IN_3 | IN_4 | IN_5 | OU_0 | OU_1 | OU_2 | OU_3 | OU_4 | OU_5

datatype DIMParameter = DIM_0 | DIM_1 | DIM_2 | DIM_3 | DIM_ND

datatype ActiMode = AC_MODE_NONE | AC_MODE_SIGMOID | AC_MODE_RELU | AC_MODE_TANH

datatype PaddingMode = PD_MODE_SAME | PD_MODE_VALID

text \<open>The entries of the keys by which operators are looked up: integers and enumeration members.\<close>

datatype key = K_int int | K_type OpType | K_pad PaddingMode | K_acti ActiMode

section \<open>Split information\<close>

record SplitInfo =
  num :: nat
  pos :: "int list"

definition new_SplitInfo :: SplitInfo where
  "new_SplitInfo = \<lparr>num = 0, pos = replicate MAX_NUM_SPLITS 0\<rparr>"

abbreviation NO_SPLIT :: SplitInfo where "NO_SPLIT \<equiv> new_SplitInfo"

definition SplitInfo_eq :: "SplitInfo \<Rightarrow> SplitInfo \<Rightarrow> bool" where
  "SplitInfo_eq s rhs \<longleftrightarrow> num s = num rhs \<and> list_all (\<lambda>i. pos s ! i = pos rhs ! i) [0..<num s]"

definition push_pos :: "int \<Rightarrow> SplitInfo \<Rightarrow> SplitInfo py" where
  "push_pos v s = bindR (py_set (pos s) (int (num s)) v) (\<lambda>p. Inr (s\<lparr>num := num s + 1, pos := p\<rparr>))"

definition SplitInfo_merge :: "SplitInfo \<Rightarrow> int \<Rightarrow> SplitInfo \<Rightarrow> SplitInfo py" where
  "SplitInfo_merge s offset next =
     py_assert (num s + 1 + num next < MAX_NUM_SPLITS)
       (bindR (foldR (\<lambda>i s. bindR (py_get (pos next) (int i)) (\<lambda>p. push_pos (offset + p) s)) [0..<num next] s)
          (push_pos offset))"

text \<open>The two loops of \<open>divide\<close>; the first stops at the first position that is not below the middle.\<close>

function divide_left :: "SplitInfo \<Rightarrow> int \<Rightarrow> nat \<Rightarrow> SplitInfo \<Rightarrow> (nat \<times> SplitInfo) py" where
  "divide_left s mid idx left =
     (if idx < num s
      then bindR (py_get (pos s) (int idx)) (\<lambda>p.
        if p < mid then bindR (push_pos p left) (divide_left s mid (idx + 1)) else Inr (idx, left))
      else Inr (idx, left))"
  by pat_completeness auto
termination
  by (relation "measure (\<lambda>(s, mid, idx, left). num s - idx)") auto

function divide_right :: "SplitInfo \<Rightarrow> int \<Rightarrow> nat \<Rightarrow> SplitInfo \<Rightarrow> SplitInfo py" where
  "divide_right s mid idx right =
     (if idx < num s - 1
      then bindR (py_get (pos s) (int idx)) (\<lambda>p. bindR (push_pos (p - mid) right) (divide_right s mid (idx + 1)))
      else Inr right)"
  by pat_completeness auto
termination
  by (relation "measure (\<lambda>(s, mid, idx, right). num s - idx)") auto

declare divide_left.simps [simp del] divide_right.simps [simp del]

definition SplitInfo_divide :: "SplitInfo \<Rightarrow> SplitInfo \<Rightarrow> SplitInfo \<Rightarrow> (int \<times> SplitInfo \<times> SplitInfo) py" where
  "SplitInfo_divide s left right =
     py_assert (num s > 0)
       (bindR (py_get (pos s) (int (num s) - 1)) (\<lambda>mid.
        bindR (divide_left s mid 0 (left\<lparr>num := 0\<rparr>)) (\<lambda>(idx, left).
        bindR (divide_right s mid idx (right\<lparr>num := 0\<rparr>)) (\<lambda>right. Inr (mid, left, right)))))"

definition SplitInfo_combine :: "SplitInfo \<Rightarrow> SplitInfo \<Rightarrow> SplitInfo" where
  "SplitInfo_combine s next =
     (let s = (if num s \<noteq> num next then s\<lparr>num := 0\<rparr> else s)
      in if list_ex (\<lambda>i. pos s ! i \<noteq> pos next ! i) [0..<num s] then s\<lparr>num := 0\<rparr> else s)"

text \<open>
  \<open>keys[idx] = v; idx += 1\<close>. The advanced index is the caller's only inside one method: \<open>serialize\<close> returns
  nothing, so its caller goes on with the index it had.
\<close>

definition emit_key :: "key \<Rightarrow> key list \<times> nat \<Rightarrow> (key list \<times> nat) py" where
  "emit_key v = (\<lambda>(keys, idx). bindR (py_set keys (int idx) v) (\<lambda>keys. Inr (keys, idx + 1)))"

definition SplitInfo_serialize :: "SplitInfo \<Rightarrow> nat \<Rightarrow> key list \<Rightarrow> key list py" where
  "SplitInfo_serialize s idx keys =
     bindR (emit_key (K_int (int (num s))) (keys, idx)) (\<lambda>st.
     bindR (foldR (\<lambda>i st. bindR (py_get (pos s) (int i)) (\<lambda>p. emit_key (K_int p) st)) [0..<num s] st) (\<lambda>(keys, _).
     Inr keys))"

section \<open>Tensors\<close>

record op =
  guid :: nat
  ptr :: "nat option"

text \<open>
  \<open>Op(guid, ptr)\<close>: a guid of zero gives the invalid operator. Handles with one guid have one \<open>ptr\<close>, so the comparison of
  \<open>ptr\<close> values in \<open>Op.__lt__\<close> is not reached.
\<close>

abbreviation INVALID_OP :: op where "INVALID_OP \<equiv> \<lparr>guid = GUID_INVALID, ptr = None\<rparr>"

definition new_Op :: "nat \<Rightarrow> nat option \<Rightarrow> op" where
  "new_Op g p = (if g \<noteq> 0 then \<lparr>guid = g, ptr = p\<rparr> else INVALID_OP)"

record 'd tensor =
  numDim :: nat
  dim :: "int list"
  stride :: "int list"
  split :: "SplitInfo list"
  idx :: nat
  tensor_op :: op
  data_ptr :: "'d option"

definition Tensor_default :: "'d tensor" where
  "Tensor_default = \<lparr>numDim = 0, dim = replicate MAX_DIM 0, stride = replicate MAX_DIM 0,
     split = replicate MAX_DIM new_SplitInfo, idx = 0, tensor_op = INVALID_OP, data_ptr = None\<rparr>"

definition set_dim :: "int \<Rightarrow> int \<Rightarrow> 'd tensor \<Rightarrow> 'd tensor py" where
  "set_dim i v t = bindR (py_set (dim t) i v) (\<lambda>x. Inr (t\<lparr>dim := x\<rparr>))"

definition set_stride :: "int \<Rightarrow> int \<Rightarrow> 'd tensor \<Rightarrow> 'd tensor py" where
  "set_stride i v t = bindR (py_set (stride t) i v) (\<lambda>x. Inr (t\<lparr>stride := x\<rparr>))"

definition set_split :: "int \<Rightarrow> SplitInfo \<Rightarrow> 'd tensor \<Rightarrow> 'd tensor py" where
  "set_split i v t = bindR (py_set (split t) i v) (\<lambda>x. Inr (t\<lparr>split := x\<rparr>))"

text \<open>
  The constructor with arguments; without them, or with one that Python counts as false, it is
  \<open>Tensor_default\<close>. \<open>data\<close> is the conversion of the data argument to an array of the given dimensions.
\<close>

definition Tensor :: "nat \<Rightarrow> int list \<Rightarrow> nat \<Rightarrow> (int list \<Rightarrow> 'd py) option \<Rightarrow> 'd tensor py" where
  "Tensor ndim dims g data =
     (if ndim \<noteq> 0 \<and> dims \<noteq> [] \<and> g \<noteq> 0
      then py_assert (ndim \<le> MAX_DIM)
        (bindR (foldR (\<lambda>i (t, count).
             bindR (py_get dims (int i)) (\<lambda>d.
             bindR (set_dim (int i) d t) (\<lambda>t.
             bindR (set_stride (int i) count t) (\<lambda>t.
             bindR (set_split (int i) NO_SPLIT t) (\<lambda>t. Inr (t, count * d))))))
           (rev [0..<ndim]) (Tensor_default\<lparr>numDim := ndim, tensor_op := new_Op g None\<rparr>, 1))
         (\<lambda>(t, _). case data of None \<Rightarrow> Inr t
           | Some conv \<Rightarrow> bindR (conv dims) (\<lambda>d. Inr (t\<lparr>data_ptr := Some d\<rparr>))))
      else Inr Tensor_default)"

definition volume :: "'d tensor \<Rightarrow> int" where
  "volume t = fold (\<lambda>i ret. ret * dim t ! i) [0..<numDim t] 1"

definition Tensor_serialize :: "'d tensor \<Rightarrow> nat \<Rightarrow> key list \<Rightarrow> key list py" where
  "Tensor_serialize t i keys =
     bindR (emit_key (K_int 23333) (keys, i)) (\<lambda>st.
     bindR (emit_key (K_int (int (numDim t))) st) (\<lambda>st.
     bindR (foldR (\<lambda>j st. bindR (py_get (dim t) (int j)) (\<lambda>d. emit_key (K_int d) st)) [0..<numDim t] st) (\<lambda>st.
     bindR (foldR (\<lambda>j st. bindR (py_get (stride t) (int j)) (\<lambda>d. emit_key (K_int d) st)) [0..<numDim t] st) (\<lambda>(keys, i).
     foldR (\<lambda>j keys. bindR (py_get (split t) (int j)) (\<lambda>s. SplitInfo_serialize s i keys)) [0..<numDim t] keys))))"

definition has_same_shape_stride_split :: "'d tensor \<Rightarrow> 'd tensor \<Rightarrow> bool" where
  "has_same_shape_stride_split t u \<longleftrightarrow> numDim t = numDim u \<and>
     list_all (\<lambda>i. dim t ! i = dim u ! i \<and> stride t ! i = stride u ! i \<and> SplitInfo_eq (split t ! i) (split u ! i)) [0..<numDim t]"

definition default_layout :: "'d tensor \<Rightarrow> bool" where
  "default_layout t =
     fst (fold (\<lambda>i (ok, cnt). (ok \<and> stride t ! i = cnt, cnt * dim t ! i)) (rev [0..<numDim t]) (True, 1))"

section \<open>Split information: merging and dividing\<close>

definition positions :: "SplitInfo \<Rightarrow> int list" where
  "positions s = take (num s) (pos s)"

definition wf_split :: "SplitInfo \<Rightarrow> bool" where
  "wf_split s \<longleftrightarrow> length (pos s) = MAX_NUM_SPLITS \<and> num s \<le> MAX_NUM_SPLITS"

lemma wf_new_SplitInfo [simp]: "wf_split new_SplitInfo" "positions new_SplitInfo = []" "num new_SplitInfo = 0"
  by (simp_all add: wf_split_def new_SplitInfo_def positions_def)

lemma length_positions: "wf_split s \<Longrightarrow> length (positions s) = num s"
  by (simp add: wf_split_def positions_def)

lemma SplitInfo_eq_positions: "wf_split s \<Longrightarrow> wf_split r \<Longrightarrow> SplitInfo_eq s r \<longleftrightarrow> positions s = positions r"
  by (auto simp: SplitInfo_eq_def list_all_iff positions_def wf_split_def list_eq_iff_nth_eq)

lemma push_pos_ok:
  assumes "wf_split s" "num s < MAX_NUM_SPLITS"
  shows "\<exists>s'. push_pos v s = Inr s' \<and> wf_split s' \<and> positions s' = positions s @ [v] \<and> num s' = num s + 1"
  using assms by (auto simp: push_pos_def wf_split_def positions_def take_Suc_conv_app_nth)

lemma py_get_last_position:
  assumes "wf_split s" "0 < num s"
  shows "py_get (pos s) (int (num s) - 1) = Inr (last (positions s))"
proof -
  have i: "int (num s) - 1 = int (num s - 1)" "num s - 1 < length (pos s)" "positions s \<noteq> []"
    using assms by (auto simp: wf_split_def positions_def)
  have "last (positions s) = pos s ! (num s - 1)"
    using assms i(3) by (simp add: last_conv_nth length_positions) (simp add: positions_def)
  thus ?thesis unfolding i(1) using i(2) by simp
qed

lemma SplitInfo_merge_ok:
  assumes s: "wf_split s" and n: "wf_split nxt" and fits: "num s + 1 + num nxt < MAX_NUM_SPLITS"
  shows "\<exists>m. SplitInfo_merge s off nxt = Inr m \<and> wf_split m
    \<and> positions m = positions s @ map (\<lambda>p. off + p) (positions nxt) @ [off]"
proof -
  let ?P = "\<lambda>i m. wf_split m \<and> num m = num s + i
    \<and> positions m = positions s @ map (\<lambda>p. off + p) (take i (positions nxt))"
  have "\<exists>m. foldR (\<lambda>i s. bindR (py_get (pos nxt) (int i)) (\<lambda>p. push_pos (off + p) s)) [0..<num nxt] s = Inr m \<and> ?P (num nxt) m"
  proof (rule foldR_upt_inv)
    fix i m assume i: "i < num nxt" and m: "?P i m"
    have "py_get (pos nxt) (int i) = Inr (positions nxt ! i)" using i n by (simp add: wf_split_def positions_def)
    moreover have "positions nxt ! i # [] = drop i (take (Suc i) (positions nxt))"
      using i n by (simp add: length_positions take_Suc_conv_app_nth)
    moreover obtain m' where "push_pos (off + positions nxt ! i) m = Inr m'" "wf_split m'"
      "positions m' = positions m @ [off + positions nxt ! i]" "num m' = num m + 1"
      using push_pos_ok [of m "off + positions nxt ! i"] m i fits by auto
    ultimately show "\<exists>m'. bindR (py_get (pos nxt) (int i)) (\<lambda>p. push_pos (off + p) m) = Inr m' \<and> ?P (Suc i) m'"
      using m i n by (auto simp: length_positions take_Suc_conv_app_nth)
  qed (use s in auto)
  then obtain m where "foldR (\<lambda>i s. bindR (py_get (pos nxt) (int i)) (\<lambda>p. push_pos (off + p) s)) [0..<num nxt] s = Inr m"
    "?P (num nxt) m" by blast
  moreover obtain m' where "push_pos off m = Inr m'" "wf_split m'" "positions m' = positions m @ [off]"
    using push_pos_ok [of m off] calculation fits by auto
  ultimately show ?thesis using fits n by (simp add: SplitInfo_merge_def length_positions [symmetric])
qed

lemma divide_left_ok:
  assumes "wf_split s" "wf_split left" "num left = i" "i \<le> num s"
  shows "\<exists>k l. divide_left s mid i left = Inr (k, l) \<and> wf_split l \<and> i \<le> k \<and> k \<le> num s
    \<and> k = i + length (takeWhile (\<lambda>p. p < mid) (drop i (positions s)))
    \<and> positions l = positions left @ takeWhile (\<lambda>p. p < mid) (drop i (positions s))"
  using assms
proof (induction s mid i left rule: divide_left.induct)
  case (1 s mid i left)
  show ?case
  proof (cases "i < num s")
    case True
    have d: "drop i (positions s) = positions s ! i # drop (Suc i) (positions s)"
      using True 1(2) by (simp add: Cons_nth_drop_Suc length_positions)
    have g: "py_get (pos s) (int i) = Inr (positions s ! i)" using True 1(2) by (simp add: wf_split_def positions_def)
    obtain l where l: "push_pos (positions s ! i) left = Inr l" "wf_split l"
      "positions l = positions left @ [positions s ! i]" "num l = num left + 1"
      using push_pos_ok [OF 1(3)] 1(2,4,5) True by (fastforce simp: wf_split_def)
    show ?thesis
      using 1(1) [OF True g _ l(1) 1(2) l(2)] l 1(2-5) d True by (subst divide_left.simps) (auto simp: g)
  qed (use 1 in \<open>simp add: divide_left.simps length_positions\<close>)
qed

lemma divide_right_ok:
  assumes "wf_split s" "wf_split right" "num right + num s \<le> MAX_NUM_SPLITS + i"
  shows "\<exists>r. divide_right s mid i right = Inr r \<and> wf_split r
    \<and> positions r = positions right @ map (\<lambda>p. p - mid) (drop i (butlast (positions s)))"
  using assms
proof (induction s mid i right rule: divide_right.induct)
  case (1 s mid i right)
  show ?case
  proof (cases "i < num s - 1")
    case True
    have d: "drop i (butlast (positions s)) = positions s ! i # drop (Suc i) (butlast (positions s))"
      using True 1(2) by (simp add: Cons_nth_drop_Suc [symmetric] length_positions nth_butlast)
    have "i < length (pos s)" "i < num s" using True 1(2) by (auto simp: wf_split_def)
    hence g: "py_get (pos s) (int i) = Inr (positions s ! i)" by (simp add: positions_def)
    have "num right < MAX_NUM_SPLITS" using 1(2,4) True by linarith
    then obtain r where r: "push_pos (positions s ! i - mid) right = Inr r" "wf_split r"
      "positions r = positions right @ [positions s ! i - mid]" "num r = num right + 1"
      using push_pos_ok [OF 1(3)] by fastforce
    show ?thesis
      using 1(1) [OF True g r(1) 1(2) r(2)] r 1(4) d True by (subst divide_right.simps) (auto simp: g)
  qed (use 1 in \<open>simp add: divide_right.simps length_positions\<close>)
qed

text \<open>
  C15: The split points of two tensors joined at \<open>offset\<close> are those of the first, those of the second moved by
  \<open>offset\<close>, and \<open>offset\<close> last. Dividing a merged split gives back the middle and both sides, when the points
  of the first lie before the middle and those of the second are not negative.
\<close>

theorem divide_merge:
  assumes "wf_split s" "wf_split nxt" "wf_split left" "wf_split right" "num s + 1 + num nxt < MAX_NUM_SPLITS"
    and "list_all (\<lambda>p. p < off) (positions s)" "list_all (\<lambda>p. 0 \<le> p) (positions nxt)"
  shows "\<exists>m l r. SplitInfo_merge s off nxt = Inr m \<and> SplitInfo_divide m left right = Inr (off, l, r)
    \<and> SplitInfo_eq l s \<and> SplitInfo_eq r nxt"
proof -
  obtain m where m: "SplitInfo_merge s off nxt = Inr m" "wf_split m"
    "positions m = positions s @ map (\<lambda>p. off + p) (positions nxt) @ [off]"
    using SplitInfo_merge_ok [OF assms(1,2,5)] by blast
  have n: "num m = num s + num nxt + 1" using length_positions [OF m(2)] assms(1,2) m(3) by (simp add: length_positions)
  hence mid: "py_get (pos m) (int (num m) - 1) = Inr off" using py_get_last_position [OF m(2)] m(3) by simp
  have tw: "takeWhile (\<lambda>p. p < off) (positions m) = positions s"
    using assms(6,7) m(3) by (cases "positions nxt") (auto simp: list_all_iff takeWhile_append2)
  have wl: "wf_split (left\<lparr>num := 0\<rparr>)" "num (left\<lparr>num := 0\<rparr>) = 0" "wf_split (right\<lparr>num := 0\<rparr>)" "positions (left\<lparr>num := 0\<rparr>) = []"
    "positions (right\<lparr>num := 0\<rparr>) = []" "num (right\<lparr>num := 0\<rparr>) = 0"
    using assms(3,4) by (simp_all add: wf_split_def positions_def)
  obtain l where l: "divide_left m off 0 (left\<lparr>num := 0\<rparr>) = Inr (num s, l)" "wf_split l" "positions l = positions s"
    using divide_left_ok [OF m(2) wl(1,2), of off] tw wl(4) assms(1) by (auto simp: length_positions)
  have "num (right\<lparr>num := 0\<rparr>) + num m \<le> MAX_NUM_SPLITS + num s" using n assms(5) by simp
  from divide_right_ok [OF m(2) wl(3) this, of off]
  obtain r where r: "divide_right m off (num s) (right\<lparr>num := 0\<rparr>) = Inr r" "wf_split r" "positions r = positions nxt"
    using m(3) wl(5) assms(1) by (auto simp: length_positions butlast_append comp_def)
  show ?thesis using m(1) n mid l r assms(1,2) by (auto simp: SplitInfo_divide_def SplitInfo_eq_positions)
qed

theorem divide_merge_witness:
  "\<exists>m l r. SplitInfo_merge (new_SplitInfo\<lparr>num := 1, pos := 2 # replicate 31 0\<rparr>) 5 (new_SplitInfo\<lparr>num := 1, pos := 3 # replicate 31 0\<rparr>) = Inr m
    \<and> SplitInfo_divide m new_SplitInfo new_SplitInfo = Inr (5, l, r)
    \<and> SplitInfo_eq l (new_SplitInfo\<lparr>num := 1, pos := 2 # replicate 31 0\<rparr>)
    \<and> SplitInfo_eq r (new_SplitInfo\<lparr>num := 1, pos := 3 # replicate 31 0\<rparr>)"
  by (rule divide_merge) (simp_all add: wf_split_def positions_def new_SplitInfo_def)

section \<open>Tensors in row-major order\<close>

definition shape :: "'d tensor \<Rightarrow> int list" where
  "shape t = take (numDim t) (dim t)"

definition strides :: "'d tensor \<Rightarrow> int list" where
  "strides t = take (numDim t) (stride t)"

definition wf_tensor :: "'d tensor \<Rightarrow> bool" where
  "wf_tensor t \<longleftrightarrow> numDim t \<le> MAX_DIM \<and> length (dim t) = MAX_DIM \<and> length (stride t) = MAX_DIM
     \<and> length (split t) = MAX_DIM \<and> list_all wf_split (split t)"

definition no_split :: "'d tensor \<Rightarrow> bool" where
  "no_split t \<longleftrightarrow> list_all (\<lambda>s. num s = 0) (split t)"

text \<open>The strides of a row-major tensor: the products of the dimensions to the right.\<close>

primrec row_major :: "int list \<Rightarrow> int list" where
  "row_major [] = []"
| "row_major (d # ds) = prod_list ds # row_major ds"

lemma length_row_major [simp]: "length (row_major ds) = length ds"
  by (induction ds) auto

lemma nth_row_major: "i < length ds \<Longrightarrow> row_major ds ! i = prod_list (drop (Suc i) ds)"
  by (induction ds arbitrary: i) (auto simp: nth_Cons split: nat.splits)

lemma prod_list_drop: "i < length ds \<Longrightarrow> prod_list (drop i ds) = ds ! i * prod_list (drop (Suc i) (ds :: int list))"
  by (simp add: Cons_nth_drop_Suc [symmetric])

lemma wf_Tensor_default [simp]: "wf_tensor Tensor_default" "no_split Tensor_default"
  by (simp_all add: wf_tensor_def no_split_def Tensor_default_def list_all_iff)

lemma volume_shape: "wf_tensor t \<Longrightarrow> volume t = prod_list (shape t)"
proof -
  assume "wf_tensor t"
  hence "n \<le> numDim t \<Longrightarrow> fold (\<lambda>i ret. ret * dim t ! i) [0..<n] 1 = prod_list (take n (dim t))" for n
    by (induction n) (auto simp: wf_tensor_def take_Suc_conv_app_nth)
  thus ?thesis by (simp add: volume_def shape_def)
qed

text \<open>A tensor being filled from the right: dimensions and strides from \<open>i\<close> on are in place.\<close>

definition filled :: "nat \<Rightarrow> int list \<Rightarrow> 'd tensor \<Rightarrow> bool" where
  "filled i ds t \<longleftrightarrow> wf_tensor t \<and> no_split t \<and> numDim t = length ds
     \<and> (\<forall>j. i \<le> j \<longrightarrow> j < length ds \<longrightarrow> dim t ! j = ds ! j \<and> stride t ! j = prod_list (drop (Suc j) ds))"

lemma filled_0: "filled 0 ds t \<Longrightarrow> shape t = ds \<and> strides t = row_major ds"
  by (auto simp: filled_def shape_def strides_def wf_tensor_def list_eq_iff_nth_eq nth_row_major)

lemma default_layout_row_major: "wf_tensor t \<Longrightarrow> default_layout t \<longleftrightarrow> strides t = row_major (shape t)"
proof -
  assume wf: "wf_tensor t"
  let ?n = "numDim t" and ?ds = "shape t"
  let ?f = "\<lambda>i (ok, cnt). (ok \<and> stride t ! i = cnt, cnt * dim t ! i)"
  have len: "length ?ds = ?n" using wf by (simp add: shape_def wf_tensor_def)
  have "k \<le> ?n \<Longrightarrow> fold ?f (rev [0..<k]) (ok, prod_list (drop k ?ds))
      = (ok \<and> (\<forall>j<k. stride t ! j = prod_list (drop (Suc j) ?ds)), prod_list ?ds)" for k ok
  proof (induction k arbitrary: ok)
    case (Suc k)
    have "prod_list (drop (Suc k) ?ds) * dim t ! k = prod_list (drop k ?ds)"
      using Suc.prems len by (simp add: prod_list_drop shape_def)
    with Suc.IH [of "ok \<and> stride t ! k = prod_list (drop (Suc k) ?ds)"] Suc.prems show ?case by (auto simp: less_Suc_eq)
  qed simp
  from this [of ?n True] len show ?thesis using wf
    by (auto simp: default_layout_def strides_def wf_tensor_def list_eq_iff_nth_eq nth_row_major)
qed

lemma set_dim_ok [simp]: "wf_tensor t \<Longrightarrow> i < MAX_DIM \<Longrightarrow> set_dim (int i) v t = Inr (t\<lparr>dim := (dim t)[i := v]\<rparr>)"
  by (simp add: set_dim_def wf_tensor_def)

lemma set_stride_ok [simp]: "wf_tensor t \<Longrightarrow> i < MAX_DIM \<Longrightarrow> set_stride (int i) v t = Inr (t\<lparr>stride := (stride t)[i := v]\<rparr>)"
  by (simp add: set_stride_def wf_tensor_def)

lemma set_split_ok [simp]: "wf_tensor t \<Longrightarrow> i < MAX_DIM \<Longrightarrow> set_split (int i) v t = Inr (t\<lparr>split := (split t)[i := v]\<rparr>)"
  by (simp add: set_split_def wf_tensor_def)

lemma list_all_update: "list_all P xs \<Longrightarrow> P v \<Longrightarrow> list_all P (xs[i := v])"
  by (auto simp: list_all_iff dest!: set_update_subset_insert [THEN subsetD])

lemma wf_tensorD:
  assumes "wf_tensor t"
  shows "length (dim t) = MAX_DIM" "length (stride t) = MAX_DIM" "length (split t) = MAX_DIM" "list_all wf_split (split t)"
    "numDim t \<le> MAX_DIM"
  using assms by (simp_all add: wf_tensor_def)

lemma wf_tensor_updates [simp]:
  "wf_tensor t \<Longrightarrow> length x = MAX_DIM \<Longrightarrow> wf_tensor (t\<lparr>dim := x\<rparr>)"
  "wf_tensor t \<Longrightarrow> length x = MAX_DIM \<Longrightarrow> wf_tensor (t\<lparr>stride := x\<rparr>)"
  "wf_tensor t \<Longrightarrow> length y = MAX_DIM \<Longrightarrow> list_all wf_split y \<Longrightarrow> wf_tensor (t\<lparr>split := y\<rparr>)"
  "wf_tensor t \<Longrightarrow> n \<le> MAX_DIM \<Longrightarrow> wf_tensor (t\<lparr>numDim := n\<rparr>)"
  by (auto simp: wf_tensor_def)

lemma no_split_update [simp]: "no_split (t\<lparr>split := y\<rparr>) \<longleftrightarrow> list_all (\<lambda>s. num s = 0) y"
  by (simp add: no_split_def)

lemma wf_tensor_irrelevant [simp]:
  "wf_tensor (t\<lparr>idx := a\<rparr>) = wf_tensor t" "wf_tensor (t\<lparr>tensor_op := q\<rparr>) = wf_tensor t" "wf_tensor (t\<lparr>data_ptr := d\<rparr>) = wf_tensor t"
  "no_split (t\<lparr>idx := a\<rparr>) = no_split t" "no_split (t\<lparr>tensor_op := q\<rparr>) = no_split t" "no_split (t\<lparr>data_ptr := d\<rparr>) = no_split t"
  "no_split (t\<lparr>dim := x\<rparr>) = no_split t" "no_split (t\<lparr>stride := x\<rparr>) = no_split t" "no_split (t\<lparr>numDim := n\<rparr>) = no_split t"
  "shape (t\<lparr>idx := a\<rparr>) = shape t" "shape (t\<lparr>tensor_op := q\<rparr>) = shape t" "shape (t\<lparr>data_ptr := d\<rparr>) = shape t"
  "strides (t\<lparr>idx := a\<rparr>) = strides t" "strides (t\<lparr>tensor_op := q\<rparr>) = strides t" "strides (t\<lparr>data_ptr := d\<rparr>) = strides t"
  by (simp_all add: wf_tensor_def no_split_def shape_def strides_def)

lemma filled_step:
  assumes f: "filled (Suc i) ds t" and i: "i < length ds" and sp: "wf_split sp" "num sp = 0"
  shows "filled i ds (t\<lparr>dim := (dim t)[i := ds ! i], stride := (stride t)[i := prod_list (drop (Suc i) ds)], split := (split t)[i := sp]\<rparr>)"
    (is "filled i ds ?t")
proof -
  have t: "wf_tensor t" "no_split t" "numDim t = length ds" using f by (simp_all add: filled_def)
  have "length ds \<le> MAX_DIM" using t wf_tensorD(5) [of t] by simp
  moreover have "wf_tensor ?t" "no_split ?t" "numDim ?t = length ds"
    using t sp by (simp_all add: wf_tensorD list_all_update) (simp add: no_split_def list_all_update)
  moreover have "dim ?t ! j = ds ! j \<and> stride ?t ! j = prod_list (drop (Suc j) ds)" if "i \<le> j" "j < length ds" for j
    using f t(1) i that \<open>length ds \<le> MAX_DIM\<close> by (cases "j = i") (simp_all add: filled_def wf_tensorD)
  ultimately show ?thesis unfolding filled_def by blast
qed

text \<open>The constructor lays the dimensions out in row-major order; more than eight of them are an assertion failure.\<close>

lemma Tensor_ok:
  fixes data :: "(int list \<Rightarrow> 'd py) option"
  assumes "0 < length dims" "length dims \<le> MAX_DIM" "g \<noteq> 0"
  shows "\<exists>t. Tensor (length dims) dims g data
      = (case data of None \<Rightarrow> Inr t | Some conv \<Rightarrow> bindR (conv dims) (\<lambda>d. Inr (t\<lparr>data_ptr := Some d\<rparr>)))
    \<and> filled 0 dims t \<and> idx t = 0 \<and> tensor_op t = \<lparr>guid = g, ptr = None\<rparr> \<and> data_ptr t = None"
proof -
  let ?n = "length dims"
  let ?P = "\<lambda>i (t :: 'd tensor, count). filled i dims t \<and> count = prod_list (drop i dims) \<and> idx t = 0
    \<and> tensor_op t = \<lparr>guid = g, ptr = None\<rparr> \<and> data_ptr t = None"
  let ?body = "\<lambda>i (t :: 'd tensor, count). bindR (py_get dims (int i)) (\<lambda>d.
             bindR (set_dim (int i) d t) (\<lambda>t. bindR (set_stride (int i) count t) (\<lambda>t.
             bindR (set_split (int i) NO_SPLIT t) (\<lambda>t. Inr (t, count * d)))))"
  let ?t0 = "(Tensor_default :: 'd tensor)\<lparr>numDim := ?n, tensor_op := new_Op g None\<rparr>"
  have wf: "wf_tensor ?t0" "no_split ?t0" using assms by simp_all
  have init: "?P ?n (?t0, 1)"
    using assms wf by (simp add: filled_def new_Op_def) (simp add: Tensor_default_def)
  have step: "\<exists>st'. ?body i st = Inr st' \<and> ?P i st'" if i: "i < ?n" and P: "?P (Suc i) st" for i st
  proof -
    obtain t count where st: "st = (t, count)" by fastforce
    from P st have f: "filled (Suc i) dims t" and c: "count = prod_list (drop (Suc i) dims)" by auto
    have i8: "i < MAX_DIM" using i assms(2) by simp
    from filled_step [OF f i, of NO_SPLIT]
    have "filled i dims (t\<lparr>dim := (dim t)[i := dims ! i], stride := (stride t)[i := count], split := (split t)[i := NO_SPLIT]\<rparr>)"
      using c by simp
    moreover have "wf_tensor t" using f by (simp add: filled_def)
    ultimately show ?thesis using i i8 P st c by (simp add: wf_tensorD prod_list_drop mult.commute)
  qed
  obtain st where st: "foldR ?body (rev [0..<?n]) (?t0, 1) = Inr st" "?P 0 st"
    using foldR_down_inv [where P = ?P and body = ?body, OF init step] by blast
  obtain t c where tc: "st = (t, c)" by fastforce
  have "Tensor (length dims) dims g data
      = (case data of None \<Rightarrow> Inr t | Some conv \<Rightarrow> bindR (conv dims) (\<lambda>d. Inr (t\<lparr>data_ptr := Some d\<rparr>)))"
    unfolding Tensor_def st(1) tc using assms by simp
  thus ?thesis using st(2) tc by blast
qed

section \<open>Keys\<close>

definition overwrite :: "'a list \<Rightarrow> nat \<Rightarrow> 'a list \<Rightarrow> 'a list" where
  "overwrite xs i vs = take i xs @ vs @ drop (i + length vs) xs"

lemma length_overwrite [simp]: "i + length vs \<le> length xs \<Longrightarrow> length (overwrite xs i vs) = length xs"
  by (simp add: overwrite_def)

lemma overwrite_Nil [simp]: "overwrite xs i [] = xs"
  by (simp add: overwrite_def)

lemma overwrite_overwrite:
  "i + length vs + length ws \<le> length xs \<Longrightarrow> overwrite (overwrite xs i vs) (i + length vs) ws = overwrite xs i (vs @ ws)"
  by (simp add: overwrite_def ac_simps)

text \<open>Writing again over what was written at the same place leaves only the second.\<close>

lemma overwrite_again:
  "length vs \<le> length ws \<Longrightarrow> i + length ws \<le> length xs \<Longrightarrow> overwrite (overwrite xs i vs) i ws = overwrite xs i ws"
  by (simp add: overwrite_def add.commute)

lemma emit_key_ok:
  "i < length keys \<Longrightarrow> emit_key v (keys, i) = Inr (overwrite keys i [v], Suc i)"
  by (simp add: emit_key_def overwrite_def upd_conv_take_nth_drop)

lemma foldR_emit:
  assumes "list_all (\<lambda>j. f j = Inr (v j)) js" "i + length js \<le> length keys"
  shows "foldR (\<lambda>j st. bindR (f j) (\<lambda>d. emit_key (K_int d) st)) js (keys, i)
    = Inr (overwrite keys i (map (\<lambda>j. K_int (v j)) js), i + length js)"
  using assms
proof (induction js arbitrary: keys i)
  case (Cons j js)
  from Cons.IH [of "Suc i" "overwrite keys i [K_int (v j)]"] Cons.prems
    overwrite_overwrite [of i "[K_int (v j)]" "map (\<lambda>j. K_int (v j)) js" keys]
  show ?case by (simp add: emit_key_ok)
qed simp

text \<open>What \<open>serialize\<close> writes for a tensor without splits: each split writes its zero at the same place.\<close>

definition tensor_key :: "'d tensor \<Rightarrow> key list" where
  "tensor_key t = [K_int 23333, K_int (int (numDim t))] @ map K_int (shape t) @ map K_int (strides t) @ (if numDim t = 0 then [] else [K_int 0])"

lemma length_tensor_key: "wf_tensor t \<Longrightarrow> length (tensor_key t) = 2 * numDim t + (if numDim t = 0 then 2 else 3)"
  by (simp add: tensor_key_def shape_def strides_def wf_tensor_def)

lemma map_nth_take: "n \<le> length xs \<Longrightarrow> map (\<lambda>j. K_int (xs ! j)) [0..<n] = map K_int (take n xs)"
  by (rule nth_equalityI) simp_all

lemma Tensor_serialize_ok:
  assumes t: "wf_tensor t" "no_split t" and len: "i + length (tensor_key t) \<le> length keys"
  shows "Tensor_serialize t i keys = Inr (overwrite keys i (tensor_key t))"
proof -
  let ?n = "numDim t"
  let ?hd = "[K_int 23333, K_int (int ?n)] @ map K_int (shape t) @ map K_int (strides t)"
  let ?k = "overwrite keys i ?hd"
  have wf: "?n \<le> length (dim t)" "?n \<le> length (stride t)" "?n \<le> length (split t)" using t(1) by (simp_all add: wf_tensor_def)
  have len2: "2 + i + ?n + ?n \<le> length keys" using len t(1) by (simp add: length_tensor_key split: if_splits)
  have d: "foldR (\<lambda>j st. bindR (py_get (dim t) (int j)) (\<lambda>d. emit_key (K_int d) st)) [0..<?n] (ks, a)
      = Inr (overwrite ks a (map K_int (shape t)), a + ?n)" if "a + ?n \<le> length ks" for ks a
    using foldR_emit [of "\<lambda>j. py_get (dim t) (int j)" "\<lambda>j. dim t ! j" "[0..<?n]" a ks] that wf
    by (simp add: list_all_iff map_nth_take shape_def)
  have st: "foldR (\<lambda>j st. bindR (py_get (stride t) (int j)) (\<lambda>d. emit_key (K_int d) st)) [0..<?n] (ks, a)
      = Inr (overwrite ks a (map K_int (strides t)), a + ?n)" if "a + ?n \<le> length ks" for ks a
    using foldR_emit [of "\<lambda>j. py_get (stride t) (int j)" "\<lambda>j. stride t ! j" "[0..<?n]" a ks] that wf
    by (simp add: list_all_iff map_nth_take strides_def)
  have l: "length (shape t) = ?n" "length (strides t) = ?n" using wf by (simp_all add: shape_def strides_def)
  have sp: "SplitInfo_serialize (split t ! j) a ks = Inr (overwrite ks a [K_int 0])" if "j < ?n" "a < length ks" for j a ks
    using that t wf by (simp add: SplitInfo_serialize_def emit_key_ok no_split_def list_all_length)
  have sps: "m \<le> ?n \<Longrightarrow> foldR (\<lambda>j keys. bindR (py_get (split t) (int j)) (\<lambda>s. SplitInfo_serialize s a keys)) [0..<m] ks
      = Inr (if m = 0 then ks else overwrite ks a [K_int 0])" if "?n = 0 \<or> a < length ks" for m a ks
    using that wf by (induction m) (auto simp: foldR_append sp overwrite_again)
  have h1: "overwrite (overwrite (overwrite (overwrite keys i [K_int 23333]) (Suc i) [K_int (int ?n)]) (Suc (Suc i)) (map K_int (shape t))) (Suc (Suc (i + ?n))) (map K_int (strides t)) = ?k"
    using len2 l overwrite_overwrite [of i "[K_int 23333]" "[K_int (int ?n)]" keys]
      overwrite_overwrite [of i "[K_int 23333, K_int (int ?n)]" "map K_int (shape t)" keys]
      overwrite_overwrite [of i "[K_int 23333, K_int (int ?n)] @ map K_int (shape t)" "map K_int (strides t)" keys] by simp
  have "Tensor_serialize t i keys = Inr (if ?n = 0 then ?k else overwrite ?k (i + length ?hd) [K_int 0])"
    unfolding Tensor_serialize_def using len len2 l t(1)
    by (simp add: emit_key_ok d st h1 sps length_tensor_key add.assoc split: if_splits)
  moreover have "?n \<noteq> 0 \<Longrightarrow> overwrite ?k (i + length ?hd) [K_int 0] = overwrite keys i (tensor_key t)"
    using overwrite_overwrite [of i ?hd "[K_int 0]" keys] len by (simp add: tensor_key_def)
  ultimately show ?thesis by (simp add: tensor_key_def)
qed

lemma tensor_key_inj:
  assumes "wf_tensor t" "wf_tensor u" "tensor_key t = tensor_key u"
  shows "shape t = shape u \<and> strides t = strides u"
proof -
  have n: "numDim t = numDim u" using assms(3) by (simp add: tensor_key_def)
  moreover have "length (shape t) = numDim t" "length (shape u) = numDim u" "length (strides t) = numDim t" "length (strides u) = numDim u"
    using assms(1,2) by (simp_all add: shape_def strides_def wf_tensor_def)
  ultimately have "map K_int (shape t) = map K_int (shape u)" "map K_int (strides t) = map K_int (strides u)"
    using assms(3) by (auto simp: tensor_key_def split: if_splits)
  moreover have "inj K_int" by (simp add: inj_def)
  ultimately show ?thesis by (simp add: inj_map_eq_map)
qed

end
