(* ===== verification/Dbocg_Op.thy ===== *)
theory Dbocg_Op
  imports Dbocg_Tensor
begin

text \<open>
  The operator classes of \<open>op.py\<close> and \<open>permutation_to_index\<close> of \<open>utils.py\<close>. An operator object is a record of the
  fields of \<open>OpBase\<close> and the attributes of its class; a constructor either returns the object or raises.

  Constructors share parts of their arguments with the object: the output of \<open>NoOp\<close> and \<open>Activation\<close> is their input,
  and \<open>Concat\<close> and \<open>Element\<close> change split points of their first input in place. Here the object holds the changed
  input. All tensors that the compiler makes have no splits, and then nothing is changed (\<open>Element_yields\<close>).
  Lists of dimensions have \<open>MAX_DIM\<close> entries in every tensor (\<open>wf_tensor\<close>), so constant indices are in range.
\<close>

section \<open>Operators\<close>

datatype op_attrs =
    NoOp_attrs
  | Activation_attrs (inPlace: bool)
  | Concat_attrs (axis: int) (needCopy: "bool list")
  | Conv2D_attrs (strideH: int) (strideW: int) (padding: PaddingMode) (activation: ActiMode)
  | Pool2D_attrs (kernelH: int) (kernelW: int) (strideH: int) (strideW: int) (padding: PaddingMode) (activation: ActiMode)
  | Element_attrs
  | Matmul_attrs (activation: ActiMode)
  | Reshape_attrs
  | Transpose_attrs (permIdx: int) (shuffle: bool)

record 'd opbase =
  op_type :: OpType
  numInputs :: nat
  inputs :: "'d tensor list"
  numOutputs :: nat
  outputs :: "'d tensor list"
  attrs :: op_attrs

definition OpBase_init :: "'d tensor list \<Rightarrow> OpType \<Rightarrow> 'd opbase py" where
  "OpBase_init args ty =
     py_assert (length args \<le> MAX_NUM_INPUTS)
       (py_assert (args \<noteq> [] \<or> ty = OP_CONSTANT_POOL)
         (Inr \<lparr>op_type = ty, numInputs = length args,
           inputs = args @ replicate (MAX_NUM_INPUTS - length args) Tensor_default,
           numOutputs = 0, outputs = replicate MAX_NUM_OUTPUTS Tensor_default, attrs = NoOp_attrs\<rparr>))"

definition set_output :: "'d tensor \<Rightarrow> 'd opbase \<Rightarrow> 'd opbase" where
  "set_output t b = b\<lparr>numOutputs := 1, outputs := (outputs b)[0 := t]\<rparr>"

definition NoOp :: "'d tensor \<Rightarrow> OpType \<Rightarrow> 'd opbase py" where
  "NoOp inp ty = bindR (OpBase_init [inp\<lparr>idx := 0\<rparr>] ty) (\<lambda>b. Inr (set_output (inp\<lparr>idx := 0\<rparr>) b))"

text \<open>
  The output of \<open>NoOp\<close> and of \<open>Activation\<close> is the object passed as input; here it is a second value equal to it, since
  no code changes a tensor of an operator after its construction.
\<close>

definition Activation :: "'d tensor \<Rightarrow> OpType \<Rightarrow> bool \<Rightarrow> 'd opbase py" where
  "Activation inp ty inpl =
     bindR (OpBase_init [inp\<lparr>idx := 0\<rparr>] ty) (\<lambda>b. Inr (set_output (inp\<lparr>idx := 0\<rparr>) (b\<lparr>attrs := Activation_attrs inpl\<rparr>)))"

text \<open>The loop that sets strides from the last dimension on, as in \<open>Concat\<close>.\<close>

definition Concat_strides :: "'d tensor \<Rightarrow> 'd tensor py" where
  "Concat_strides out = foldR (\<lambda>i out.
       if i = numDim out - 1 then set_stride (int i) 1 out
       else bindR (py_get (stride out) (int i + 1)) (\<lambda>s. bindR (py_get (dim out) (int i + 1)) (\<lambda>d. set_stride (int i) (s * d) out)))
     (rev [0..<numDim out]) out"

text \<open>The split objects of the first input that the output of \<open>Concat\<close> shares.\<close>

definition share_splits :: "int \<Rightarrow> 'd tensor \<Rightarrow> 'd tensor \<Rightarrow> 'd tensor" where
  "share_splits ax out first =
     first\<lparr>split := map (\<lambda>i. if i < numDim first \<or> py_index MAX_DIM ax = Inr i then split out ! i else split first ! i) [0..<MAX_DIM]\<rparr>"

definition Concat :: "int \<Rightarrow> nat \<Rightarrow> 'd tensor list \<Rightarrow> bool list \<Rightarrow> 'd opbase py" where
  "Concat ax n ins needCp =
     bindR (OpBase_init ins OP_CONCAT) (\<lambda>b.
     bindR (foldR (\<lambda>i nc. bindR (py_get needCp (int i)) (py_set nc (int i))) [0..<n] (replicate MAX_NUM_INPUTS False)) (\<lambda>nc.
     bindR (py_get ins 0) (\<lambda>first.
     bindR (foldR (\<lambda>i out. bindR (py_get (dim first) (int i)) (\<lambda>d. set_dim (int i) d out))
       [0..<numDim first] (Tensor_default\<lparr>numDim := numDim first\<rparr>)) (\<lambda>out.
     bindR (foldR (\<lambda>i out.
         if int i \<noteq> ax
         then bindR (py_get (split first) (int i)) (\<lambda>s.
              bindR (foldR (\<lambda>j s. bindR (py_get ins (int j)) (\<lambda>t. bindR (py_get (split t) (int i)) (\<lambda>r. Inr (SplitInfo_combine s r))))
                [1..<n] s) (\<lambda>s. set_split (int i) s out))
         else Inr out) [0..<numDim first] out) (\<lambda>out.
     bindR (py_get (split first) ax) (\<lambda>s.
     bindR (set_split ax s out) (\<lambda>out.
     bindR (foldR (\<lambda>i out.
         bindR (py_get ins (int i)) (\<lambda>t.
         bindR (py_get (split out) ax) (\<lambda>s. bindR (py_get (dim out) ax) (\<lambda>d.
         bindR (py_get (split t) ax) (\<lambda>r. bindR (SplitInfo_merge s d r) (\<lambda>m.
         bindR (set_split ax m out) (\<lambda>out. bindR (py_get (dim t) ax) (\<lambda>e. set_dim ax (d + e) out))))))))
       [1..<n] out) (\<lambda>out.
     bindR (Concat_strides out) (\<lambda>out.
     Inr (set_output out (b\<lparr>attrs := Concat_attrs ax nc, inputs := (inputs b)[0 := share_splits ax out first]\<rparr>)))))))))))"

text \<open>
  The output extent of a window. The code divides by the strides; the number of groups is a quotient of
  integers that divide, so the floating-point division of the code is exact.
\<close>

definition out_extent :: "PaddingMode \<Rightarrow> int \<Rightarrow> int \<Rightarrow> int \<Rightarrow> int py" where
  "out_extent pad i k s =
     (case pad of PD_MODE_SAME \<Rightarrow> py_div (i + s - 1) s
      | PD_MODE_VALID \<Rightarrow> bindR (py_div (i - k) s) (\<lambda>q. Inr (q + 1)))"

definition Conv2D :: "'d tensor \<Rightarrow> 'd tensor \<Rightarrow> int \<Rightarrow> int \<Rightarrow> PaddingMode \<Rightarrow> ActiMode \<Rightarrow> 'd opbase py" where
  "Conv2D inp weight sH sW pad acti =
     bindR (OpBase_init [inp, weight] OP_CONV2D) (\<lambda>b.
     py_assert (numDim inp = 4) (py_assert (numDim weight = 4)
     (bindR (py_mod (dim inp ! 1) (dim weight ! 1)) (\<lambda>r. py_assert (r = 0)
     (bindR (py_mod (dim weight ! 0) (dim inp ! 1 div dim weight ! 1)) (\<lambda>r. py_assert (r = 0)
     (bindR (out_extent pad (dim inp ! 2) (dim weight ! 2) sH) (\<lambda>outH.
     bindR (out_extent pad (dim inp ! 3) (dim weight ! 3) sW) (\<lambda>outW.
     let out = Tensor_default\<lparr>numDim := 4, dim := [dim inp ! 0, dim weight ! 0, outH, outW] @ drop 4 (replicate MAX_DIM 0)\<rparr>;
         out = out\<lparr>stride := (stride out)[3 := 1]\<rparr>;
         out = out\<lparr>stride := (stride out)[2 := stride out ! 3 * dim out ! 3]\<rparr>;
         out = out\<lparr>stride := (stride out)[1 := stride out ! 2 * dim out ! 2]\<rparr>;
         out = out\<lparr>stride := (stride out)[0 := stride out ! 1 * dim out ! 1]\<rparr>;
         out = out\<lparr>split := (split out)[0 := split inp ! 0, 1 := split inp ! 0, 2 := split inp ! 2, 3 := split inp ! 3]\<rparr>
     in py_assert (SplitInfo_eq (split out ! 2) NO_SPLIT) (py_assert (SplitInfo_eq (split out ! 3) NO_SPLIT)
     (Inr (set_output out (b\<lparr>attrs := Conv2D_attrs sH sW pad acti\<rparr>)))))))))))))"

definition Pool2D :: "'d tensor \<Rightarrow> 'd tensor \<Rightarrow> OpType \<Rightarrow> int \<Rightarrow> int \<Rightarrow> int \<Rightarrow> int \<Rightarrow> PaddingMode \<Rightarrow> ActiMode \<Rightarrow> 'd opbase py" where
  "Pool2D inp weight ty kH kW sH sW pad acti =
     bindR (OpBase_init [inp, weight] ty) (\<lambda>b.
     py_assert (ty = OP_POOL2D_AVG \<or> ty = OP_POOL2D_MAX) (py_assert (numDim inp = 4)
     (bindR (out_extent pad (dim inp ! 2) kH sH) (\<lambda>outH.
     bindR (out_extent pad (dim inp ! 3) kW sW) (\<lambda>outW.
     let out = Tensor_default\<lparr>numDim := 4\<rparr>;
         out = out\<lparr>dim := (dim out)[0 := dim inp ! 0, 1 := dim inp ! 1, 2 := outH, 3 := outW]\<rparr>;
         out = out\<lparr>stride := (stride out)[3 := 1]\<rparr>;
         out = out\<lparr>stride := (stride out)[2 := dim out ! 3 * stride out ! 3]\<rparr>;
         out = out\<lparr>stride := (stride out)[1 := dim out ! 2 * stride out ! 2]\<rparr>;
         out = out\<lparr>stride := (stride out)[0 := dim out ! 1 * stride out ! 1]\<rparr>;
         out = out\<lparr>split := (split out)[0 := split inp ! 0, 1 := split inp ! 1, 2 := NO_SPLIT, 3 := NO_SPLIT]\<rparr>
     in Inr (set_output out (b\<lparr>attrs := Pool2D_attrs kH kW sH sW pad acti\<rparr>)))))))"

text \<open>One round of the loop of \<open>Element\<close>, counting dimensions from the last; \<open>i1\<close> and \<open>i2\<close> may be negative.\<close>

definition Element_step :: "'d tensor \<Rightarrow> nat \<Rightarrow> nat \<Rightarrow> 'd tensor \<times> int \<times> 'd tensor \<Rightarrow> ('d tensor \<times> int \<times> 'd tensor) py" where
  "Element_step t2 num_dim i = (\<lambda>(out, total, t1).
     let i1 = int (numDim t1) - 1 - int i; i2 = int (numDim t2) - 1 - int i; io = int num_dim - 1 - int i;
         d1 = (if i1 < 0 then 1 else dim t1 ! nat i1);
         d2 = (if i2 < 0 then 1 else dim t2 ! nat i2)
     in bindR (set_dim io (max d1 d2) out) (\<lambda>out.
        bindR (set_stride io total out) (\<lambda>out.
        if i1 \<ge> 0 \<and> dim t1 ! nat i1 > 1
        then (if i2 \<ge> 0 \<and> dim t2 ! nat i2 > 1
          then (let s = SplitInfo_combine (split t1 ! nat i1) (split t2 ! nat i2)
            in bindR (set_split io s out) (\<lambda>out.
               bindR (set_split i1 s t1) (\<lambda>t1. Inr (out, total * max d1 d2, t1))))
          else bindR (set_split io (split t1 ! nat i1) out) (\<lambda>out. Inr (out, total * max d1 d2, t1)))
        else if i2 \<ge> 0 \<and> dim t2 ! nat i2 > 1
        then bindR (set_split io (split t2 ! nat i2) out) (\<lambda>out. Inr (out, total * max d1 d2, t1))
        else bindR (set_split io NO_SPLIT out) (\<lambda>out. Inr (out, total * max d1 d2, t1)))))"

definition Element :: "OpType \<Rightarrow> 'd tensor \<Rightarrow> 'd tensor \<Rightarrow> 'd opbase py" where
  "Element ty t1 t2 =
     bindR (OpBase_init [t1, t2] ty) (\<lambda>b.
     let num_dim = max (numDim t1) (numDim t2)
     in bindR (foldR (Element_step t2 num_dim) [0..<num_dim] (Tensor_default\<lparr>numDim := num_dim\<rparr>, 1, t1)) (\<lambda>(out, _, t1).
        Inr (set_output out (b\<lparr>attrs := Element_attrs, inputs := (inputs b)[0 := t1]\<rparr>))))"

definition Matmul_layout :: "'d tensor \<Rightarrow> 'd tensor py" where
  "Matmul_layout out =
     (let n = int (numDim out)
      in bindR (set_stride (n - 1) 1 out) (\<lambda>out.
         bindR (py_get (dim out) (n - 1)) (\<lambda>d1.
         bindR (set_stride (n - 2) d1 out) (\<lambda>out.
         bindR (py_get (dim out) (n - 2)) (\<lambda>d2.
         bindR (foldR (\<lambda>i (out, size). bindR (set_stride (int i) size out) (\<lambda>out. Inr (out, size * dim out ! i)))
           (rev [0..<numDim out - 2]) (out, d2 * d1)) (\<lambda>(out, size).
         py_assert (size = volume out) (Inr out)))))))"

definition Matmul :: "'d tensor \<Rightarrow> 'd tensor \<Rightarrow> ActiMode \<Rightarrow> 'd opbase py" where
  "Matmul inp weight acti =
     bindR (OpBase_init [inp, weight] OP_MATMUL) (\<lambda>b.
     let nd = numDim inp; n = int nd
     in py_assert (nd = numDim weight) (py_assert (list_all (\<lambda>i. dim inp ! i = dim weight ! i) [0..<nd - 2])
     (bindR (py_get (dim inp) (n - 1)) (\<lambda>d. bindR (py_get (dim weight) (n - 2)) (\<lambda>e. py_assert (d = e)
     (bindR (foldR (\<lambda>i out. set_dim (int i) (dim inp ! i) out) [0..<nd - 1] (Tensor_default\<lparr>numDim := nd\<rparr>)) (\<lambda>out.
      bindR (py_get (dim weight) (n - 1)) (\<lambda>d.
      bindR (set_dim (n - 1) d out) (\<lambda>out.
      bindR (Matmul_layout out) (\<lambda>out.
      bindR (foldR (\<lambda>i out. set_split (int i)
          (if SplitInfo_eq (split inp ! i) (split weight ! i) then split inp ! i else NO_SPLIT) out) [0..<nd - 2] out) (\<lambda>out.
      bindR (py_get (split inp) (n - 2)) (\<lambda>s. bindR (set_split (n - 2) s out) (\<lambda>out.
      bindR (py_get (split weight) (n - 1)) (\<lambda>s. bindR (set_split (n - 1) s out) (\<lambda>out.
      Inr (set_output out (b\<lparr>attrs := Matmul_attrs acti\<rparr>)))))))))))))))))"

definition Reshape :: "'d tensor \<Rightarrow> int list \<Rightarrow> 'd opbase py" where
  "Reshape inp shp =
     bindR (OpBase_init [inp] OP_RESHAPE) (\<lambda>b.
     bindR (foldR (\<lambda>i (out, size).
         bindR (set_dim (int i) (shp ! i) out) (\<lambda>out.
         bindR (set_stride (int i) size out) (\<lambda>out.
         bindR (set_split (int i) NO_SPLIT out) (\<lambda>out. Inr (out, size * shp ! i)))))
       (rev [0..<length shp]) (Tensor_default\<lparr>numDim := length shp\<rparr>, 1)) (\<lambda>(out, size).
     py_assert (volume inp = size)
       (Inr (set_output out (b\<lparr>attrs := Reshape_attrs\<rparr>)))))"

definition permutation_to_index :: "int list \<Rightarrow> int py" where
  "permutation_to_index perm =
     py_assert (list_all (\<lambda>i. 0 \<le> perm ! i \<and> perm ! i < int (length perm)
         \<and> list_all (\<lambda>j. perm ! i \<noteq> perm ! j) [i + 1..<length perm]) [0..<length perm])
       (Inr (fold (\<lambda>i idx. idx * int (length perm) + perm ! i) [0..<length perm] 0))"

definition Transpose :: "'d tensor \<Rightarrow> int list \<Rightarrow> bool \<Rightarrow> 'd opbase py" where
  "Transpose inp perm shuf =
     bindR (OpBase_init [inp] OP_TRANSPOSE) (\<lambda>b.
     py_assert shuf
     (bindR (permutation_to_index perm) (\<lambda>pIdx.
     py_assert (numDim inp = length perm)
     (bindR (foldR (\<lambda>i out.
         bindR (py_get (dim inp) (perm ! i)) (\<lambda>d. bindR (set_dim (int i) d out) (\<lambda>out.
         bindR (py_get (split inp) (perm ! i)) (\<lambda>s. set_split (int i) s out))))
       [0..<length perm] (Tensor_default\<lparr>numDim := numDim inp\<rparr>)) (\<lambda>out.
     bindR (if shuf
       then bindR (foldR (\<lambda>i (out, size). bindR (set_stride (int i) size out) (\<lambda>out. Inr (out, size * dim out ! i)))
           (rev [0..<length perm]) (out, 1)) (\<lambda>(out, size). py_assert (size = volume out) (Inr out))
       else foldR (\<lambda>i out. bindR (py_get (stride inp) (perm ! i)) (\<lambda>s. set_stride (int i) s out)) [0..<length perm] out) (\<lambda>out.
     Inr (set_output out (b\<lparr>attrs := Transpose_attrs pIdx shuf\<rparr>))))))))"

section \<open>Parameters of an operator\<close>

datatype pmvalue = V_int int | V_type OpType | V_pad PaddingMode | V_acti ActiMode | V_bool bool

definition OpBase_get_int_parameter :: "'d opbase \<Rightarrow> PMParameter \<Rightarrow> pmvalue option" where
  "OpBase_get_int_parameter b para =
     (case para of PM_OP_TYPE \<Rightarrow> Some (V_type (op_type b))
      | PM_NUM_INPUTS \<Rightarrow> Some (V_int (int (numInputs b)))
      | PM_NUM_OUTPUTS \<Rightarrow> Some (V_int (int (numOutputs b)))
      | _ \<Rightarrow> None)"

definition get_int_parameter :: "'d opbase \<Rightarrow> PMParameter \<Rightarrow> pmvalue option py" where
  "get_int_parameter b para =
     (let base = Inr (OpBase_get_int_parameter b para)
      in case attrs b of
        Conv2D_attrs sH sW pad acti \<Rightarrow>
          (case para of PM_GROUP \<Rightarrow>
               (let inC = dim (inputs b ! 0) ! 1; wC = dim (inputs b ! 1) ! 1
                in bindR (py_mod inC wC) (\<lambda>r. py_assert (r = 0) (Inr (Some (V_int (inC div wC))))))
           | PM_KERNEL_H \<Rightarrow> Inr (Some (V_int (dim (inputs b ! 1) ! 2)))
           | PM_KERNEL_W \<Rightarrow> Inr (Some (V_int (dim (inputs b ! 1) ! 3)))
           | PM_STRIDE_H \<Rightarrow> Inr (Some (V_int sH))
           | PM_STRIDE_W \<Rightarrow> Inr (Some (V_int sW))
           | PM_PAD \<Rightarrow> Inr (Some (V_pad pad))
           | PM_ACTI \<Rightarrow> Inr (Some (V_acti acti))
           | _ \<Rightarrow> base)
      | Pool2D_attrs kH kW sH sW pad acti \<Rightarrow>
          (case para of PM_KERNEL_H \<Rightarrow> Inr (Some (V_int kH))
           | PM_KERNEL_W \<Rightarrow> Inr (Some (V_int kW))
           | PM_STRIDE_H \<Rightarrow> Inr (Some (V_int sH))
           | PM_STRIDE_W \<Rightarrow> Inr (Some (V_int sW))
           | PM_PAD \<Rightarrow> Inr (Some (V_pad pad))
           | PM_ACTI \<Rightarrow> Inr (Some (V_acti acti))
           | _ \<Rightarrow> base)
      | Matmul_attrs acti \<Rightarrow> (case para of PM_ACTI \<Rightarrow> Inr (Some (V_acti acti)) | _ \<Rightarrow> base)
      | Transpose_attrs pIdx shuf \<Rightarrow>
          (case para of PM_NUMDIM \<Rightarrow> Inr (Some (V_int (int (numDim (outputs b ! 0)))))
           | PM_PERM \<Rightarrow> Inr (Some (V_int pIdx))
           | PM_OUTSHUFFLE \<Rightarrow> Inr (Some (V_bool shuf))
           | _ \<Rightarrow> base)
      | _ \<Rightarrow> base)"

text \<open>
  The index is 1 for every input but the first and for every dimension but the first: the five cases
  share one increment.
\<close>

definition get_input_parameter :: "'d opbase \<Rightarrow> TNParameter \<Rightarrow> DIMParameter \<Rightarrow> int option" where
  "get_input_parameter b tnp d =
     (if tnp \<in> {IN_0, IN_1, IN_2, IN_3, IN_4, IN_5}
      then (let inputIdx = (if tnp = IN_0 then 0 else 1)
        in if inputIdx \<ge> numInputs b then None
           else if d = DIM_ND then Some (int (numDim (inputs b ! inputIdx)))
           else (let dimIdx = (if d = DIM_0 then 0 else 1)
             in if dimIdx \<ge> numDim (inputs b ! inputIdx) then None
                else Some (dim (inputs b ! inputIdx) ! dimIdx)))
      else None)"

section \<open>Shapes of the outputs\<close>

text \<open>The one output of an operator: a row-major tensor of the given shape without splits.\<close>

definition yields :: "'d opbase \<Rightarrow> int list \<Rightarrow> bool" where
  "yields b ds \<longleftrightarrow> numOutputs b = 1 \<and> length (outputs b) = MAX_NUM_OUTPUTS \<and> wf_tensor (outputs b ! 0) \<and> no_split (outputs b ! 0)
     \<and> shape (outputs b ! 0) = ds \<and> strides (outputs b ! 0) = row_major ds \<and> idx (outputs b ! 0) = 0"

lemma OpBase_init_ok:
  "args \<noteq> [] \<Longrightarrow> length args \<le> MAX_NUM_INPUTS \<Longrightarrow> OpBase_init args ty
    = Inr \<lparr>op_type = ty, numInputs = length args, inputs = args @ replicate (MAX_NUM_INPUTS - length args) Tensor_default,
        numOutputs = 0, outputs = replicate MAX_NUM_OUTPUTS Tensor_default, attrs = NoOp_attrs\<rparr>"
  by (simp add: OpBase_init_def)

lemma wf_out: "numDim t \<le> MAX_DIM \<Longrightarrow> length (dim t) = MAX_DIM \<Longrightarrow> length (stride t) = MAX_DIM \<Longrightarrow> length (split t) = MAX_DIM
   \<Longrightarrow> list_all wf_split (split t) \<Longrightarrow> wf_tensor t"
  by (simp add: wf_tensor_def)

lemma split_nth:
  assumes "wf_tensor t" "i < MAX_DIM"
  shows "wf_split (split t ! i)" "no_split t \<Longrightarrow> num (split t ! i) = 0"
  using assms by (auto simp: wf_tensor_def no_split_def list_all_length)

lemma SplitInfo_eq_NO_SPLIT [simp]: "num s = 0 \<Longrightarrow> SplitInfo_eq s NO_SPLIT"
  by (simp add: SplitInfo_eq_def)

text \<open>The extent that \<open>out_extent\<close> computes, for a stride that is not zero.\<close>

definition extent :: "PaddingMode \<Rightarrow> int \<Rightarrow> int \<Rightarrow> int \<Rightarrow> int" where
  "extent pad i k s = (case pad of PD_MODE_SAME \<Rightarrow> (i + s - 1) div s | PD_MODE_VALID \<Rightarrow> (i - k) div s + 1)"

lemma out_extent_ok [simp]: "s \<noteq> 0 \<Longrightarrow> out_extent pad i k s = Inr (extent pad i k s)"
  by (cases pad) (simp_all add: out_extent_def extent_def)

lemma shape4: "wf_tensor t \<Longrightarrow> shape t = [a, b, c, d]
   \<Longrightarrow> numDim t = 4 \<and> dim t ! 0 = a \<and> dim t ! Suc 0 = b \<and> dim t ! 2 = c \<and> dim t ! 3 = d"
proof -
  assume wf: "wf_tensor t" and s: "shape t = [a, b, c, d]"
  have "length (shape t) = 4" using s by simp
  hence "numDim t = 4" using wf by (simp add: shape_def wf_tensor_def min_def split: if_splits)
  moreover have "i < 4 \<Longrightarrow> dim t ! i = [a, b, c, d] ! i" for i using s \<open>numDim t = 4\<close> by (metis nth_take shape_def)
  from this [of 0] this [of 1] this [of 2] this [of 3] have "dim t ! 0 = a" "dim t ! Suc 0 = b" "dim t ! 2 = c" "dim t ! 3 = d"
    by (simp_all add: numeral_2_eq_2 numeral_3_eq_3)
  ultimately show ?thesis by simp
qed

lemma Conv2D_yields:
  assumes t: "wf_tensor inp" "no_split inp" "shape inp = [n, c, h, w]"
    and wt: "wf_tensor weight" "shape weight = [m, g, kh, kw]"
    and ok: "g \<noteq> 0" "g dvd c" "c \<noteq> 0" "c div g dvd m" "sH \<noteq> 0" "sW \<noteq> 0"
  shows "\<exists>b. Conv2D inp weight sH sW pad acti = Inr b \<and> yields b [n, m, extent pad h kh sH, extent pad w kw sW]
    \<and> op_type b = OP_CONV2D \<and> numInputs b = 2 \<and> inputs b ! 0 = inp \<and> inputs b ! 1 = weight \<and> attrs b = Conv2D_attrs sH sW pad acti"
proof -
  note d = shape4 [OF t(1,3)] shape4 [OF wt]
  have q: "c div g \<noteq> 0" using ok by auto
  show ?thesis using d q ok split_nth [OF t(1)] t(2)
    by (simp add: Conv2D_def OpBase_init_ok Let_def yields_def set_output_def shape_def strides_def Tensor_default_def
        wf_tensor_def no_split_def list_all_update numeral_eq_Suc)
qed

lemma Pool2D_yields:
  assumes t: "wf_tensor inp" "no_split inp" "shape inp = [n, c, h, w]"
    and ok: "ty = OP_POOL2D_AVG \<or> ty = OP_POOL2D_MAX" "sH \<noteq> 0" "sW \<noteq> 0"
  shows "\<exists>b. Pool2D inp weight ty kH kW sH sW pad acti = Inr b \<and> yields b [n, c, extent pad h kH sH, extent pad w kW sW]
    \<and> op_type b = ty \<and> numInputs b = 2 \<and> inputs b ! 0 = inp \<and> inputs b ! 1 = weight \<and> attrs b = Pool2D_attrs kH kW sH sW pad acti"
  using shape4 [OF t(1,3)] ok split_nth [OF t(1)] t(2)
  by (simp add: Pool2D_def OpBase_init_ok Let_def yields_def set_output_def shape_def strides_def Tensor_default_def
      wf_tensor_def no_split_def list_all_update numeral_eq_Suc mult.commute)

lemma yields_set_output:
  assumes "filled 0 ds out" "idx out = 0" "length (outputs b) = MAX_NUM_OUTPUTS"
  shows "yields (set_output out b) ds"
  using filled_0 [OF assms(1)] assms by (simp add: yields_def set_output_def filled_def)

lemma filled_start:
  "length ds \<le> MAX_DIM \<Longrightarrow> filled (length ds) ds (Tensor_default\<lparr>numDim := length ds\<rparr>)"
  by (simp add: filled_def) 

text \<open>The loop that fills dimensions, strides and splits from the right, as in \<open>Reshape\<close>.\<close>

lemma Reshape_loop:
  fixes out :: "'d tensor"
  assumes len: "length shp \<le> MAX_DIM"
  shows "\<exists>out'. foldR (\<lambda>i (out, size).
         bindR (set_dim (int i) (shp ! i) out) (\<lambda>out.
         bindR (set_stride (int i) size out) (\<lambda>out.
         bindR (set_split (int i) NO_SPLIT out) (\<lambda>out. Inr (out, size * shp ! i)))))
       (rev [0..<length shp]) ((Tensor_default :: 'd tensor)\<lparr>numDim := length shp\<rparr>, 1) = Inr (out', prod_list shp)
     \<and> filled 0 shp out' \<and> idx out' = 0"
proof -
  let ?body = "\<lambda>i (out :: 'd tensor, size). bindR (set_dim (int i) (shp ! i) out) (\<lambda>out.
         bindR (set_stride (int i) size out) (\<lambda>out.
         bindR (set_split (int i) NO_SPLIT out) (\<lambda>out. Inr (out, size * shp ! i))))"
  let ?P = "\<lambda>i (out :: 'd tensor, size). filled i shp out \<and> size = prod_list (drop i shp) \<and> idx out = 0"
  let ?s0 = "((Tensor_default :: 'd tensor)\<lparr>numDim := length shp\<rparr>, 1)"
  have init: "?P (length shp) ?s0" using filled_start [OF len] by (simp add: Tensor_default_def)
  have step: "\<exists>st'. ?body i st = Inr st' \<and> ?P i st'" if i: "i < length shp" and P: "?P (Suc i) st" for i st
  proof -
    obtain t count where st: "st = (t, count)" by fastforce
    from P st have f: "filled (Suc i) shp t" and c: "count = prod_list (drop (Suc i) shp)" by auto
    have "i < MAX_DIM" "wf_tensor t" using i len f by (simp_all add: filled_def)
    with filled_step [OF f i, of NO_SPLIT] P st c i show ?thesis by (simp add: wf_tensorD prod_list_drop mult.commute)
  qed
  from foldR_down_inv [where P = ?P and body = ?body and st = ?s0, OF init step] show ?thesis by auto
qed

text \<open>\<open>Reshape\<close> returns exactly when the volumes agree.\<close>

lemma Reshape_eq:
  assumes "wf_tensor inp" "length shp \<le> MAX_DIM"
  shows "prod_list (shape inp) = prod_list shp \<Longrightarrow>
      \<exists>b. Reshape inp shp = Inr b \<and> yields b shp \<and> op_type b = OP_RESHAPE \<and> numInputs b = 1 \<and> inputs b ! 0 = inp \<and> attrs b = Reshape_attrs"
    "prod_list (shape inp) \<noteq> prod_list shp \<Longrightarrow> Reshape inp shp = Inl AssertionError"
proof -
  obtain out :: "'a tensor" where l: "foldR (\<lambda>i (out, size).
         bindR (set_dim (int i) (shp ! i) out) (\<lambda>out.
         bindR (set_stride (int i) size out) (\<lambda>out.
         bindR (set_split (int i) NO_SPLIT out) (\<lambda>out. Inr (out, size * shp ! i)))))
       (rev [0..<length shp]) (Tensor_default\<lparr>numDim := length shp\<rparr>, 1) = Inr (out, prod_list shp)"
     "filled 0 shp out" "idx out = 0" using Reshape_loop [OF assms(2)] by blast
  have "Reshape inp shp = py_assert (prod_list (shape inp) = prod_list shp) (Inr (set_output out
      \<lparr>op_type = OP_RESHAPE, numInputs = 1, inputs = [inp] @ replicate 5 Tensor_default,
        numOutputs = 0, outputs = replicate MAX_NUM_OUTPUTS Tensor_default, attrs = Reshape_attrs\<rparr>))"
    unfolding Reshape_def by (simp add: OpBase_init_ok l(1) volume_shape [OF assms(1)])
  moreover have "yields (set_output out \<lparr>op_type = OP_RESHAPE, numInputs = 1, inputs = [inp] @ replicate 5 Tensor_default,
        numOutputs = 0, outputs = replicate MAX_NUM_OUTPUTS Tensor_default, attrs = Reshape_attrs\<rparr>) shp"
    by (rule yields_set_output [OF l(2,3)]) simp
  ultimately show "prod_list (shape inp) = prod_list shp \<Longrightarrow>
      \<exists>b. Reshape inp shp = Inr b \<and> yields b shp \<and> op_type b = OP_RESHAPE \<and> numInputs b = 1 \<and> inputs b ! 0 = inp \<and> attrs b = Reshape_attrs"
    "prod_list (shape inp) \<noteq> prod_list shp \<Longrightarrow> Reshape inp shp = Inl AssertionError"
    by (simp_all add: set_output_def)
qed

text \<open>The loop that fills strides only, as in \<open>Transpose\<close> and \<open>Matmul\<close>.\<close>

lemma stride_loop:
  fixes out :: "'d tensor"
  assumes f: "filled k ds out" and k: "k \<le> length ds" and d: "\<And>j. j < length ds \<Longrightarrow> dim out ! j = ds ! j"
  shows "\<exists>out'. foldR (\<lambda>i (out, size). bindR (set_stride (int i) size out) (\<lambda>out. Inr (out, size * dim out ! i)))
      (rev [0..<k]) (out, prod_list (drop k ds)) = Inr (out', prod_list ds)
    \<and> filled 0 ds out' \<and> idx out' = idx out \<and> dim out' = dim out"
proof -
  let ?body = "\<lambda>i (out :: 'd tensor, size). bindR (set_stride (int i) size out) (\<lambda>out. Inr (out, size * dim out ! i))"
  let ?P = "\<lambda>i (o' :: 'd tensor, size). filled i ds o' \<and> size = prod_list (drop i ds) \<and> idx o' = idx out \<and> dim o' = dim out"
  have "length ds \<le> MAX_DIM" using f by (auto simp: filled_def wf_tensor_def)
  have step: "\<exists>st'. ?body i st = Inr st' \<and> ?P i st'" if i: "i < k" and P: "?P (Suc i) st" for i st
  proof -
    obtain t count where st: "st = (t, count)" by fastforce
    from P st have f: "filled (Suc i) ds t" and c: "count = prod_list (drop (Suc i) ds)" and t: "dim t = dim out" "idx t = idx out" by auto
    have w: "i < MAX_DIM" "i < length ds" "wf_tensor t" "no_split t" using i k \<open>length ds \<le> MAX_DIM\<close> f by (simp_all add: filled_def)
    have "wf_split (split t ! i)" "num (split t ! i) = 0" using split_nth [OF w(3,1)] w(4) by simp_all
    from filled_step [OF f w(2) this] d [OF w(2)] t(1) c
    have "filled i ds (t\<lparr>stride := (stride t)[i := count]\<rparr>)" by (metis (no_types, lifting) list_update_id tensor.surjective tensor.update_convs(2,3,4))
    with w t c d [OF w(2)] st show ?thesis by (simp add: wf_tensorD prod_list_drop mult.commute)
  qed
  have "?P k (out, prod_list (drop k ds))" using f by simp
  from foldR_down_inv [where P = ?P and body = ?body, OF this step] show ?thesis by auto
qed

text \<open>A loop over a range that sets dimensions and splits from the left.\<close>

lemma filled_set_split:
  "filled k ds t \<Longrightarrow> wf_split sp \<Longrightarrow> num sp = 0 \<Longrightarrow> filled k ds (t\<lparr>split := (split t)[i := sp]\<rparr>)"
  by (simp add: filled_def wf_tensorD list_all_update) (simp add: no_split_def list_all_update)

definition dims_set :: "nat \<Rightarrow> int list \<Rightarrow> 'd tensor \<Rightarrow> bool" where
  "dims_set i ds t \<longleftrightarrow> wf_tensor t \<and> no_split t \<and> numDim t = length ds \<and> idx t = 0 \<and> (\<forall>j < i. dim t ! j = ds ! j)"

lemma dims_set_step:
  "dims_set i ds t \<Longrightarrow> i < length ds \<Longrightarrow> dims_set (Suc i) ds (t\<lparr>dim := (dim t)[i := ds ! i]\<rparr>)"
  using wf_tensorD(5) [of t] by (auto simp: dims_set_def wf_tensorD less_Suc_eq)

lemma dims_set_split:
  "dims_set i ds t \<Longrightarrow> wf_split sp \<Longrightarrow> num sp = 0 \<Longrightarrow> dims_set i ds (t\<lparr>split := (split t)[k := sp]\<rparr>)"
  by (simp add: dims_set_def wf_tensorD list_all_update) (simp add: no_split_def list_all_update)

lemma dims_set_start: "length ds \<le> MAX_DIM \<Longrightarrow> dims_set 0 ds (Tensor_default\<lparr>numDim := length ds\<rparr>)"
  by (simp add: dims_set_def) (simp add: Tensor_default_def)

lemma dims_set_filled: "dims_set (length ds) ds t \<Longrightarrow> filled (length ds) ds t"
  by (simp add: dims_set_def filled_def)

section \<open>Permutations\<close>

definition is_perm :: "int list \<Rightarrow> bool" where
  "is_perm p \<longleftrightarrow> distinct p \<and> (\<forall>x \<in> set p. 0 \<le> x \<and> x < int (length p))"

lemma perm_check:
  "list_all (\<lambda>i. 0 \<le> p ! i \<and> p ! i < int (length p) \<and> list_all (\<lambda>j. p ! i \<noteq> p ! j) [i + 1..<length p]) [0..<length p] \<longleftrightarrow> is_perm p"
proof -
  have "distinct p \<longleftrightarrow> (\<forall>i < length p. \<forall>j. i < j \<and> j < length p \<longrightarrow> p ! i \<noteq> p ! j)"
    unfolding distinct_conv_nth by (rule iffI) (simp, metis linorder_neqE_nat)
  thus ?thesis by (auto simp: is_perm_def list_all_iff all_set_conv_all_nth)
qed

definition horner :: "int \<Rightarrow> int list \<Rightarrow> int" where
  "horner b ds = foldl (\<lambda>a d. a * b + d) 0 ds"

lemma fold_horner: "fold (\<lambda>i a. a * b + ds ! i) [0..<length ds] 0 = horner b ds"
proof -
  have "n \<le> length ds \<Longrightarrow> fold (\<lambda>i a. a * b + ds ! i) [0..<n] 0 = foldl (\<lambda>a d. a * b + d) 0 (take n ds)" for n
    by (induction n) (simp_all add: take_Suc_conv_app_nth)
  from this [of "length ds"] show ?thesis by (simp add: horner_def)
qed

lemma horner_inj:
  assumes "length ds = length es" "list_all (\<lambda>d. 0 \<le> d \<and> d < b) ds" "list_all (\<lambda>d. 0 \<le> d \<and> d < b) es" "horner b ds = horner b es"
  shows "ds = es"
  using assms
proof (induction ds arbitrary: es rule: rev_induct)
  case (snoc d ds)
  then obtain es' e where es: "es = es' @ [e]" by (metis append_butlast_last_id length_0_conv snoc_eq_iff_butlast)
  have q: "horner b ds * b + d = horner b es' * b + e" and r: "0 \<le> d" "d < b" "0 \<le> e" "e < b"
    using snoc.prems es by (simp_all add: horner_def)
  have "(horner b ds * b + d) div b = horner b ds" "(horner b es' * b + e) div b = horner b es'"
    "(horner b ds * b + d) mod b = d" "(horner b es' * b + e) mod b = e" using r by simp_all
  hence "horner b ds = horner b es'" "d = e" using q by simp_all
  with snoc.IH [of es'] snoc.prems es show ?case by simp
qed simp

lemma permutation_to_index_eq:
  "permutation_to_index p = (if is_perm p then Inr (horner (int (length p)) p) else Inl AssertionError)"
  unfolding permutation_to_index_def perm_check fold_horner by simp

text \<open>
  \<open>permutation_to_index\<close> returns exactly for permutations of the positions, and two permutations of the same
  length with the same index are equal, so the index can stand for the permutation in a key.
\<close>

theorem permutation_to_index_unique:
  "(\<exists>i. permutation_to_index p = Inr i) = (distinct p \<and> set p = {0..<int (length p)})
   \<and> (length p = length q \<longrightarrow> permutation_to_index p = Inr i \<longrightarrow> permutation_to_index q = Inr i \<longrightarrow> p = q)"
proof -
  have "is_perm p \<longleftrightarrow> distinct p \<and> set p = {0..<int (length p)}"
  proof
    assume "is_perm p"
    hence "distinct p" "set p \<subseteq> {0..<int (length p)}" by (auto simp: is_perm_def)
    moreover have "card (set p) = card {0..<int (length p)}" using \<open>distinct p\<close> by (simp add: distinct_card)
    ultimately show "distinct p \<and> set p = {0..<int (length p)}" by (simp add: card_subset_eq)
  qed (simp add: is_perm_def)
  moreover have "p = q" if "length p = length q" "is_perm p" "is_perm q" "horner (int (length p)) p = horner (int (length q)) q"
    using horner_inj [of p q "int (length p)"] that by (simp add: is_perm_def list_all_iff)
  ultimately show ?thesis by (auto simp: permutation_to_index_eq split: if_splits)
qed

theorem permutation_to_index_unique_witness:
  "permutation_to_index [2, 0, 1] = Inr 19 \<and> (\<forall>q. length q = 3 \<longrightarrow> permutation_to_index q = Inr 19 \<longrightarrow> q = [2, 0, 1])"
proof -
  have p: "permutation_to_index [2, 0, 1] = Inr 19" by (simp add: permutation_to_index_def numeral_eq_Suc)
  moreover have "q = [2, 0, 1]" if "length q = 3" "permutation_to_index q = Inr 19" for q
    using permutation_to_index_unique [of "[2, 0, 1]" q 19] p that by simp
  ultimately show ?thesis by blast
qed

section \<open>Transposition, matrix product and broadcasting\<close>

definition permute :: "int list \<Rightarrow> int list \<Rightarrow> int list" where
  "permute ds p = map (\<lambda>i. ds ! nat i) p"

lemma Transpose_yields:
  fixes inp :: "'d tensor"
  assumes t: "wf_tensor inp" "no_split inp" "numDim inp = length p" and p: "is_perm p"
  shows "\<exists>b. Transpose inp p True = Inr b \<and> yields b (permute (shape inp) p) \<and> op_type b = OP_TRANSPOSE \<and> numInputs b = 1
    \<and> inputs b ! 0 = inp \<and> attrs b = Transpose_attrs (horner (int (length p)) p) True"
proof -
  let ?ds = "permute (shape inp) p" and ?n = "length p"
  let ?body = "\<lambda>i (out :: 'd tensor). bindR (py_get (dim inp) (p ! i)) (\<lambda>d. bindR (set_dim (int i) d out) (\<lambda>out.
         bindR (py_get (split inp) (p ! i)) (\<lambda>s. set_split (int i) s out)))"
  have n: "?n \<le> MAX_DIM" using t wf_tensorD(5) [OF t(1)] by simp
  have len: "length ?ds = ?n" by (simp add: permute_def)
  have "\<exists>out. foldR ?body [0..<?n] (Tensor_default\<lparr>numDim := ?n\<rparr>) = Inr out \<and> dims_set ?n ?ds out"
  proof (rule foldR_upt_inv)
    show "dims_set 0 ?ds (Tensor_default\<lparr>numDim := ?n\<rparr>)" using dims_set_start [of ?ds] len n by simp
    fix i and out :: "'d tensor" assume i: "i < ?n" and d: "dims_set i ?ds out"
    have r: "0 \<le> p ! i" "p ! i < int ?n" using p i by (auto simp: is_perm_def)
    hence k: "nat (p ! i) < MAX_DIM" "nat (p ! i) < ?n" using n by simp_all
    have "py_get (dim inp) (p ! i) = Inr (?ds ! i)"
      using r k t i by (simp add: py_get_in wf_tensorD permute_def shape_def)
    moreover have "py_get (split inp) (p ! i) = Inr (split inp ! nat (p ! i))" using r k t n by (simp add: py_get_in wf_tensorD)
    moreover have "wf_tensor out" using d by (simp add: dims_set_def)
    ultimately show "\<exists>out'. ?body i out = Inr out' \<and> dims_set (Suc i) ?ds out'"
      using dims_set_split [OF dims_set_step [OF d]] split_nth [OF t(1) k(1)] t(2) i n len by (simp add: wf_tensorD)
  qed
  then obtain out where o: "foldR ?body [0..<?n] (Tensor_default\<lparr>numDim := ?n\<rparr>) = Inr out" "dims_set ?n ?ds out" by blast
  have o2: "filled (length ?ds) ?ds out" "idx out = 0" "\<And>j. j < length ?ds \<Longrightarrow> dim out ! j = ?ds ! j"
    using o(2) len dims_set_filled [of ?ds out] by (simp_all add: dims_set_def)
  obtain out' where o': "foldR (\<lambda>i (out, size). bindR (set_stride (int i) size out) (\<lambda>out. Inr (out, size * dim out ! i)))
      (rev [0..<?n]) (out, 1) = Inr (out', prod_list ?ds)" "filled 0 ?ds out'" "idx out' = 0"
    using stride_loop [OF o2(1) order.refl o2(3)] o2(2) len by auto
  have v: "volume out' = prod_list ?ds" using o'(2) filled_0 [OF o'(2)] by (simp add: volume_shape filled_def)
  let ?b = "\<lparr>op_type = OP_TRANSPOSE, numInputs = 1, inputs = [inp] @ replicate 5 Tensor_default,
        numOutputs = 0, outputs = replicate MAX_NUM_OUTPUTS Tensor_default, attrs = Transpose_attrs (horner (int (length p)) p) True\<rparr>"
  have "Transpose inp p True = Inr (set_output out' ?b)"
    unfolding Transpose_def by (simp add: OpBase_init_ok permutation_to_index_eq p t(3) o(1) o'(1) v)
  moreover have "yields (set_output out' ?b) ?ds" by (rule yields_set_output [OF o'(2,3)]) simp
  ultimately show ?thesis by (simp add: set_output_def)
qed

lemma Matmul_layout_ok:
  fixes out :: "'d tensor"
  assumes d: "dims_set (length ds) ds out" and ds: "ds = pre @ [a, b]"
  shows "\<exists>out'. Matmul_layout out = Inr out' \<and> filled 0 ds out' \<and> idx out' = 0"
proof -
  let ?k = "length pre"
  have n: "numDim out = ?k + 2" "wf_tensor out" "no_split out" "idx out = 0" "?k + 2 \<le> MAX_DIM"
    using d ds wf_tensorD(5) [of out] by (simp_all add: dims_set_def)
  have idx1: "int (numDim out) - 1 = int (?k + 1)" "int (numDim out) - 2 = int ?k" using n by simp_all
  let ?o1 = "out\<lparr>stride := (stride out)[?k + 1 := 1, ?k := b]\<rparr>"
  have dim: "j < length ds \<Longrightarrow> dim out ! j = ds ! j" for j using d by (simp add: dims_set_def)
  have ab: "dim out ! ?k = a" "dim out ! (?k + 1) = b" using dim [of ?k] dim [of "?k + 1"] ds by (simp_all add: nth_append)
  have f: "filled ?k ds ?o1"
    using n d ds dim by (auto simp: filled_def wf_tensorD nth_list_update le_Suc_eq dims_set_def)
  obtain o' where o': "foldR (\<lambda>i (out, size). bindR (set_stride (int i) size out) (\<lambda>out. Inr (out, size * dim out ! i)))
      (rev [0..<?k]) (?o1, prod_list (drop ?k ds)) = Inr (o', prod_list ds)" "filled 0 ds o'" "idx o' = 0"
    using stride_loop [OF f] dim ds n(4) by auto
  have v: "volume o' = prod_list ds" using o'(2) filled_0 [OF o'(2)] by (simp add: volume_shape filled_def)
  have dr: "prod_list (drop ?k ds) = a * b" using ds by simp
  have "set_stride (1 + int ?k) 1 out = Inr (out\<lparr>stride := (stride out)[?k + 1 := 1]\<rparr>)" "py_get (dim out) (1 + int ?k) = Inr b"
    using set_stride_ok [of out "?k + 1" 1] py_get_nat [of "?k + 1" "dim out"] n ab by (simp_all add: wf_tensorD)
  hence "Matmul_layout out = Inr o'"
    unfolding Matmul_layout_def Let_def idx1 using n ab o'(1) v dr by (simp add: wf_tensorD)
  thus ?thesis using o'(2,3) by blast
qed

lemma shape_snoc2:
  assumes "wf_tensor t" "shape t = pre @ [a, b]"
  shows "numDim t = length pre + 2" "\<And>i. i < length pre \<Longrightarrow> dim t ! i = pre ! i" "dim t ! length pre = a" "dim t ! Suc (length pre) = b"
proof -
  have "length (shape t) = length pre + 2" using assms(2) by simp
  thus n: "numDim t = length pre + 2" using assms(1) by (simp add: shape_def wf_tensor_def min_def split: if_splits)
  have "i < length pre + 2 \<Longrightarrow> dim t ! i = (pre @ [a, b]) ! i" for i using assms(2) n by (metis nth_take shape_def)
  from this this [of "length pre"] this [of "Suc (length pre)"]
  show "\<And>i. i < length pre \<Longrightarrow> dim t ! i = pre ! i" "dim t ! length pre = a" "dim t ! Suc (length pre) = b"
    by (simp_all add: nth_append)
qed

lemma foldR_set_split:
  assumes "filled k ds (out :: 'd tensor)" "idx out = 0" "n \<le> MAX_DIM" "\<And>i. i < n \<Longrightarrow> wf_split (f i) \<and> num (f i) = 0"
  shows "\<exists>out'. foldR (\<lambda>i. set_split (int i) (f i)) [0..<n] out = Inr out' \<and> filled k ds out' \<and> idx out' = 0"
proof -
  let ?P = "\<lambda>i (o' :: 'd tensor). filled k ds o' \<and> idx o' = 0"
  have "\<exists>st'. set_split (int i) (f i) st = Inr st' \<and> ?P (Suc i) st'" if i: "i < n" and P: "?P i st" for i st
    using filled_set_split [of k ds st "f i" i] assms(4) [OF i] P i assms(3) by (simp add: filled_def)
  from foldR_upt_inv [where P = ?P and body = "\<lambda>i. set_split (int i) (f i)", OF _ this] assms(1,2) show ?thesis by simp
qed

lemma Matmul_yields:
  fixes inp weight :: "'d tensor"
  assumes t: "wf_tensor inp" "no_split inp" "shape inp = pre @ [a, m]" and w: "wf_tensor weight" "no_split weight" "shape weight = pre @ [m, c]"
  shows "\<exists>b. Matmul inp weight acti = Inr b \<and> yields b (pre @ [a, c]) \<and> op_type b = OP_MATMUL \<and> numInputs b = 2
    \<and> inputs b ! 0 = inp \<and> inputs b ! 1 = weight \<and> attrs b = Matmul_attrs acti"
proof -
  let ?k = "length pre" and ?ds = "pre @ [a, c]"
  note ti = shape_snoc2 [OF t(1,3)] and wi = shape_snoc2 [OF w(1,3)]
  have n8: "?k + 2 \<le> MAX_DIM" using wf_tensorD(5) [OF t(1)] ti(1) by simp
  have gets: "py_get (dim inp) (1 + int ?k) = Inr m" "py_get (dim weight) (int ?k) = Inr m" "py_get (dim weight) (1 + int ?k) = Inr c"
    "py_get (split inp) (int ?k) = Inr (split inp ! ?k)" "py_get (split weight) (1 + int ?k) = Inr (split weight ! Suc ?k)"
    using py_get_nat [of "Suc ?k" "dim inp"] py_get_nat [of "Suc ?k" "dim weight"] py_get_nat [of "Suc ?k" "split weight"] n8 ti wi t(1) w(1)
    by (simp_all add: wf_tensorD)
  have "\<exists>out :: 'd tensor. foldR (\<lambda>i. set_dim (int i) (dim inp ! i)) [0..<Suc ?k] (Tensor_default\<lparr>numDim := ?k + 2\<rparr>) = Inr out \<and> dims_set (Suc ?k) ?ds out"
  proof (rule foldR_upt_inv)
    show "dims_set 0 ?ds (Tensor_default\<lparr>numDim := ?k + 2\<rparr>)" using dims_set_start [of ?ds] n8 by simp
    fix i and out :: "'d tensor" assume i: "i < Suc ?k" and d: "dims_set i ?ds out"
    have "dim inp ! i = ?ds ! i" using i ti by (auto simp: nth_append less_Suc_eq)
    with dims_set_step [OF d] i n8 d show "\<exists>out'. set_dim (int i) (dim inp ! i) out = Inr out' \<and> dims_set (Suc i) ?ds out'"
      by (simp add: dims_set_def)
  qed
  then obtain o1 :: "'d tensor" where o1: "foldR (\<lambda>i. set_dim (int i) (dim inp ! i)) [0..<Suc ?k] (Tensor_default\<lparr>numDim := ?k + 2\<rparr>) = Inr o1"
    "dims_set (Suc ?k) ?ds o1" by blast
  let ?o2 = "o1\<lparr>dim := (dim o1)[Suc ?k := c]\<rparr>"
  have o2: "set_dim (1 + int ?k) c o1 = Inr ?o2" "dims_set (length ?ds) ?ds ?o2"
    using set_dim_ok [of o1 "Suc ?k" c] n8 o1(2) dims_set_step [OF o1(2)] by (simp_all add: dims_set_def nth_append)
  obtain o3 where o3: "Matmul_layout ?o2 = Inr o3" "filled 0 ?ds o3" "idx o3 = 0" using Matmul_layout_ok [OF o2(2)] by blast
  let ?f = "\<lambda>i. if SplitInfo_eq (split inp ! i) (split weight ! i) then split inp ! i else NO_SPLIT"
  have fs: "wf_split (?f i) \<and> num (?f i) = 0" if "i < ?k" for i
    using split_nth [OF t(1), of i] t(2) that n8 by simp
  obtain o4 where o4: "foldR (\<lambda>i. set_split (int i) (?f i)) [0..<?k] o3 = Inr o4" "filled 0 ?ds o4" "idx o4 = 0"
    using foldR_set_split [where f = ?f, OF o3(2,3) _ fs, of ?k] n8 by auto
  let ?o5 = "o4\<lparr>split := (split o4)[?k := split inp ! ?k]\<rparr>"
  let ?o6 = "?o5\<lparr>split := (split ?o5)[Suc ?k := split weight ! Suc ?k]\<rparr>"
  have o5: "filled 0 ?ds ?o5" "set_split (int ?k) (split inp ! ?k) o4 = Inr ?o5"
    using filled_set_split [OF o4(2)] split_nth [OF t(1), of ?k] t(2) n8 o4(2) by (simp_all add: filled_def)
  have o6: "filled 0 ?ds ?o6" "set_split (1 + int ?k) (split weight ! Suc ?k) ?o5 = Inr ?o6"
    using filled_set_split [OF o5(1), of "split weight ! Suc ?k" "Suc ?k"] split_nth [OF w(1), of "Suc ?k"] w(2) n8 o5(1)
      set_split_ok [of ?o5 "Suc ?k" "split weight ! Suc ?k"] by (simp_all add: filled_def)
  let ?b = "\<lparr>op_type = OP_MATMUL, numInputs = Suc (Suc 0), inputs = [inp, weight] @ replicate 4 Tensor_default,
        numOutputs = 0, outputs = replicate MAX_NUM_OUTPUTS Tensor_default, attrs = Matmul_attrs acti\<rparr>"
  have ii: "int (numDim inp) - 1 = 1 + int ?k" "int (numDim inp) - 2 = int ?k" using ti(1) by simp_all
  have "Matmul inp weight acti = Inr (set_output ?o6 ?b)"
    unfolding Matmul_def Let_def ii using ti(1) wi(1) gets o1(1) o2(1) o3(1) o4(1) o5(2) o6(2) ti(2) wi(2)
    by (simp add: OpBase_init_ok list_all_iff)
  moreover have "yields (set_output ?o6 ?b) ?ds" by (rule yields_set_output [OF o6(1)]) (simp_all add: o4(3))
  ultimately show ?thesis by (simp add: set_output_def)
qed

text \<open>The broadcast of two shapes: aligned on the right and filled with ones on the left.\<close>

definition pad_left :: "nat \<Rightarrow> int list \<Rightarrow> int list" where
  "pad_left n ds = replicate (n - length ds) 1 @ ds"

definition broadcast :: "int list \<Rightarrow> int list \<Rightarrow> int list" where
  "broadcast ds es = (let n = max (length ds) (length es) in map2 max (pad_left n ds) (pad_left n es))"

lemma length_broadcast [simp]: "length (broadcast ds es) = max (length ds) (length es)"
  by (simp add: broadcast_def pad_left_def Let_def)

lemma pad_left_nth:
  assumes "wf_tensor t" "numDim t \<le> n" "i < n"
  shows "pad_left n (shape t) ! (n - 1 - i) = (if int (numDim t) - 1 - int i < 0 then 1 else dim t ! nat (int (numDim t) - 1 - int i))"
proof -
  have l: "length (shape t) = numDim t" using assms(1) by (simp add: shape_def wf_tensor_def)
  show ?thesis
  proof (cases "i < numDim t")
    case True
    hence "nat (int (numDim t) - 1 - int i) = numDim t - 1 - i" by simp
    moreover have "n - 1 - i - (n - numDim t) = numDim t - 1 - i" "\<not> n - 1 - i < n - numDim t" using True assms by simp_all
    moreover have "int i < int (numDim t)" "numDim t - 1 - i < numDim t" using True by simp_all
    ultimately show ?thesis using l by (simp add: pad_left_def nth_append) (simp add: shape_def)
  next
    case False
    hence "n - 1 - i < n - numDim t" using assms by linarith
    thus ?thesis using False l by (simp add: pad_left_def nth_append)
  qed
qed

lemma SplitInfo_combine_none [simp]: "num s = 0 \<Longrightarrow> num r = 0 \<Longrightarrow> SplitInfo_combine s r = s"
  by (simp add: SplitInfo_combine_def)

text \<open>Without splits \<open>Element\<close> leaves its first input as it is, and each round fills one dimension more.\<close>

lemma Element_step_ok:
  fixes out :: "'d tensor"
  assumes t: "wf_tensor t1" "no_split t1" "wf_tensor t2" "no_split t2" and n: "n = max (numDim t1) (numDim t2)" and i: "i < n"
    and ds: "ds = broadcast (shape t1) (shape t2)" and f: "filled (n - i) ds out" and o0: "idx out = 0"
  shows "\<exists>out'. Element_step t2 n i (out, prod_list (drop (n - i) ds), t1) = Inr (out', prod_list (drop (n - Suc i) ds), t1)
    \<and> filled (n - Suc i) ds out' \<and> idx out' = 0"
proof -
  let ?k = "n - 1 - i"
  let ?i1 = "int (numDim t1) - 1 - int i" and ?i2 = "int (numDim t2) - 1 - int i"
  have l: "length (shape t1) = numDim t1" "length (shape t2) = numDim t2" using t by (simp_all add: shape_def wf_tensor_def)
  have k: "?k < length ds" "Suc ?k = n - i" "n - Suc i = ?k" "int n - 1 - int i = int ?k" "?k < MAX_DIM" "length ds = n"
    using i n ds l wf_tensorD(5) [OF t(1)] wf_tensorD(5) [OF t(3)] by auto
  have d: "ds ! ?k = max (if ?i1 < 0 then 1 else dim t1 ! nat ?i1) (if ?i2 < 0 then 1 else dim t2 ! nat ?i2)"
    using pad_left_nth [OF t(1), of n i] pad_left_nth [OF t(3), of n i] n i l k(1) by (simp add: ds broadcast_def Let_def pad_left_def)
  have p: "prod_list (drop ?k ds) = prod_list (drop (Suc ?k) ds) * ds ! ?k" using k(1) by (simp add: prod_list_drop)
  have out: "wf_tensor out" using f by (simp add: filled_def)
  have s1: "nat ?i1 < MAX_DIM" "wf_split (split t1 ! nat ?i1)" "num (split t1 ! nat ?i1) = 0"
    using split_nth [OF t(1), of "nat ?i1"] t(2) wf_tensorD(5) [OF t(1)] by auto
  have s2: "nat ?i2 < MAX_DIM" "wf_split (split t2 ! nat ?i2)" "num (split t2 ! nat ?i2) = 0"
    using split_nth [OF t(3), of "nat ?i2"] t(4) wf_tensorD(5) [OF t(3)] by auto
  have keep: "set_split ?i1 (split t1 ! nat ?i1) t1 = Inr t1" if "?i1 \<ge> 0"
    using that s1(1) set_split_ok [OF t(1) s1(1)] by simp
  have fin: "filled ?k ds (out\<lparr>dim := (dim out)[?k := ds ! ?k], stride := (stride out)[?k := prod_list (drop (Suc ?k) ds)], split := (split out)[?k := sp]\<rparr>)"
    if "wf_split sp" "num sp = 0" for sp using filled_step [OF _ k(1) that, of out] f k(2) by simp
  show ?thesis
    unfolding Element_step_def Let_def prod.case k(3,4) d [symmetric] k(2) [symmetric] p
    using out k(5) keep fin s1 s2 o0 by (simp add: wf_tensorD)
qed

lemma Element_yields:
  fixes t1 t2 :: "'d tensor"
  assumes t: "wf_tensor t1" "no_split t1" "wf_tensor t2" "no_split t2"
  shows "\<exists>b. Element ty t1 t2 = Inr b \<and> yields b (broadcast (shape t1) (shape t2)) \<and> op_type b = ty \<and> numInputs b = 2
    \<and> inputs b ! 0 = t1 \<and> inputs b ! 1 = t2 \<and> attrs b = Element_attrs"
proof -
  let ?n = "max (numDim t1) (numDim t2)" and ?ds = "broadcast (shape t1) (shape t2)"
  have n: "?n \<le> MAX_DIM" "length ?ds = ?n"
    using wf_tensorD(5) [OF t(1)] wf_tensorD(5) [OF t(3)] t by (simp_all add: shape_def wf_tensor_def)
  let ?P = "\<lambda>i (out :: 'd tensor, total, u). filled (?n - i) ?ds out \<and> idx out = 0 \<and> total = prod_list (drop (?n - i) ?ds) \<and> u = t1"
  have "?P 0 (Tensor_default\<lparr>numDim := ?n\<rparr>, 1, t1)"
    using filled_start [of ?ds] n(1) drop_all [of ?ds ?n] unfolding n(2) by simp (simp add: Tensor_default_def)
  moreover have "\<exists>st'. Element_step t2 ?n i st = Inr st' \<and> ?P (Suc i) st'" if "i < ?n" "?P i st" for i st
    using Element_step_ok [OF t refl that(1) refl, of "fst st"] that(2) by (cases st) auto
  ultimately have "\<exists>st. foldR (Element_step t2 ?n) [0..<?n] (Tensor_default\<lparr>numDim := ?n\<rparr>, 1, t1) = Inr st \<and> ?P ?n st"
    by (rule foldR_upt_inv)
  then obtain out where o: "foldR (Element_step t2 ?n) [0..<?n] (Tensor_default\<lparr>numDim := ?n\<rparr>, 1, t1) = Inr (out, prod_list ?ds, t1)"
    "filled 0 ?ds out" "idx out = 0" by auto
  let ?b = "\<lparr>op_type = ty, numInputs = Suc (Suc 0), inputs = [t1, t2] @ replicate 4 Tensor_default,
        numOutputs = 0, outputs = replicate MAX_NUM_OUTPUTS Tensor_default, attrs = Element_attrs\<rparr>"
  have "Element ty t1 t2 = Inr (set_output out ?b)"
    unfolding Element_def Let_def by (simp add: OpBase_init_ok o(1))
  moreover have "yields (set_output out ?b) ?ds" by (rule yields_set_output [OF o(2,3)]) simp
  ultimately show ?thesis by (simp add: set_output_def)
qed

lemma NoOp_ok:
  "\<exists>b. NoOp t ty = Inr b \<and> op_type b = ty \<and> numInputs b = 1 \<and> numOutputs b = 1 \<and> inputs b ! 0 = t\<lparr>idx := 0\<rparr> \<and> outputs b ! 0 = t\<lparr>idx := 0\<rparr>
    \<and> length (outputs b) = MAX_NUM_OUTPUTS"
  by (simp add: NoOp_def OpBase_init_ok set_output_def)

lemma Activation_ok:
  "\<exists>b. Activation t ty p = Inr b \<and> op_type b = ty \<and> numInputs b = 1 \<and> numOutputs b = 1 \<and> inputs b ! 0 = t\<lparr>idx := 0\<rparr> \<and> outputs b ! 0 = t\<lparr>idx := 0\<rparr>
    \<and> attrs b = Activation_attrs p \<and> length (outputs b) = MAX_NUM_OUTPUTS"
  by (simp add: Activation_def OpBase_init_ok set_output_def)

end
