(* ===== verification/Dbocg_Model.thy ===== *)
theory Dbocg_Model
  imports Dbocg_Op
begin

text \<open>
  \<open>model.py\<close>: the keys under which operators are cached, and the functions that return a new handle to a cached or a
  newly made operator. Operator objects live in a store that all graphs share; an address is an index into it, and
  objects are only added. A cache lists keys with addresses: of the sorted dictionaries of the code only membership,
  look-up and insertion are used. Membership and look-up go by equality of keys; an insertion compares the new key with
  keys that are there, which fails for keys that start with different operator types.
\<close>

section \<open>Keys\<close>

abbreviation (input) MAX_KEY_LENGTH :: nat where "MAX_KEY_LENGTH \<equiv> 274"

text \<open>\<open>KeyCompare.__lt__\<close>: the loop leaves in its first round, so only the first entries are compared.\<close>

definition key_lt :: "key \<Rightarrow> key \<Rightarrow> bool py" where
  "key_lt a b = (case (a, b) of (K_int i, K_int j) \<Rightarrow> Inr (i < j) | _ \<Rightarrow> Inl TypeError)"

definition KeyCompare_lt :: "nat \<Rightarrow> key list \<Rightarrow> key list \<Rightarrow> bool option py" where
  "KeyCompare_lt len a b =
     (if len = 0 then Inr None
      else if a ! 0 \<noteq> b ! 0 then bindR (key_lt (a ! 0) (b ! 0)) (\<lambda>r. Inr (Some r))
      else Inr (Some False))"

definition ActivationKey :: "'d tensor \<Rightarrow> OpType \<Rightarrow> bool \<Rightarrow> key list py" where
  "ActivationKey inp ty inpl =
     Tensor_serialize inp 2 ([K_type ty, K_int (if inpl then 1 else 0)] @ replicate MAX_KEY_LENGTH (K_int 0))"

definition ElementKey :: "'d tensor \<Rightarrow> 'd tensor \<Rightarrow> OpType \<Rightarrow> key list py" where
  "ElementKey t1 t2 ty =
     bindR (Tensor_serialize t1 1 (K_type ty # replicate (MAX_KEY_LENGTH * 2) (K_int 0))) (Tensor_serialize t2 1)"

text \<open>\<open>self.bitmask(needCopy)\<close> binds the object to the parameter \<open>n\<close>, and \<open>range\<close> of an object is a \<open>TypeError\<close>.\<close>

definition ConcatKey :: "int \<Rightarrow> nat \<Rightarrow> 'd tensor list \<Rightarrow> bool list \<Rightarrow> key list py" where
  "ConcatKey ax n ins needCp = Inl TypeError"

definition Conv2DKey :: "'d tensor \<Rightarrow> 'd tensor \<Rightarrow> int \<Rightarrow> int \<Rightarrow> PaddingMode \<Rightarrow> ActiMode \<Rightarrow> key list py" where
  "Conv2DKey inp weight sH sW pad acti =
     bindR (py_mod (dim inp ! 1) (dim weight ! 1)) (\<lambda>r. py_assert (r = 0)
     (bindR (py_mod (dim weight ! 0) (dim inp ! 1 div dim weight ! 1)) (\<lambda>r. py_assert (r = 0)
     (bindR (Tensor_serialize inp 4 ([K_int sH, K_int sW, K_pad pad, K_acti acti] @ replicate (MAX_KEY_LENGTH * 2) (K_int 0)))
       (Tensor_serialize weight 4)))))"

definition acti_value :: "ActiMode \<Rightarrow> int" where
  "acti_value m = (case m of AC_MODE_NONE \<Rightarrow> 0 | AC_MODE_SIGMOID \<Rightarrow> 1 | AC_MODE_RELU \<Rightarrow> 2 | AC_MODE_TANH \<Rightarrow> 3)"

definition MatmulKey :: "'d tensor \<Rightarrow> 'd tensor \<Rightarrow> ActiMode \<Rightarrow> key list py" where
  "MatmulKey inp weight acti =
     py_assert (numDim inp = numDim weight)
       (bindR (Tensor_serialize inp 1 (K_int (acti_value acti) # replicate (MAX_KEY_LENGTH * 2) (K_int 0))) (Tensor_serialize weight 1))"

definition Pool2DKey :: "'d tensor \<Rightarrow> OpType \<Rightarrow> int \<Rightarrow> int \<Rightarrow> int \<Rightarrow> int \<Rightarrow> PaddingMode \<Rightarrow> ActiMode \<Rightarrow> key list py" where
  "Pool2DKey inp ty kH kW sH sW pad acti =
     Tensor_serialize inp 7 ([K_int kH, K_int kW, K_int sH, K_int sW, K_pad pad, K_acti acti, K_type ty] @ replicate MAX_KEY_LENGTH (K_int 0))"

definition ReshapeKey :: "'d tensor \<Rightarrow> int list \<Rightarrow> key list py" where
  "ReshapeKey inp shp =
     bindR (emit_key (K_int (int (length shp))) (replicate (MAX_KEY_LENGTH + MAX_DIM + 1) (K_int 0), 0)) (\<lambda>st.
     bindR (foldR (\<lambda>i st. bindR (py_get shp (int i)) (\<lambda>d. emit_key (K_int d) st)) [0..<length shp] st) (\<lambda>(keys, i).
     Tensor_serialize inp i keys))"

definition TransposeKey :: "'d tensor \<Rightarrow> int list \<Rightarrow> bool \<Rightarrow> key list py" where
  "TransposeKey inp perm shuf =
     bindR (permutation_to_index perm) (\<lambda>i.
     Tensor_serialize inp 2 ([K_int i, K_int (if shuf then 1 else 0)] @ replicate MAX_KEY_LENGTH (K_int 0)))"

section \<open>The model\<close>

type_synonym 'd store = "'d opbase list"
type_synonym cache = "(key list \<times> nat) list"

record model =
  global_unique_id :: nat
  m_concat :: cache
  m_conv2d :: cache
  m_element :: cache
  m_reshape :: cache
  m_activation :: cache
  m_pool2d :: cache
  m_transpose :: cache
  m_matmul :: cache

definition new_Model :: model where
  "new_Model = \<lparr>global_unique_id = 100, m_concat = [], m_conv2d = [], m_element = [], m_reshape = [],
     m_activation = [], m_pool2d = [], m_transpose = [], m_matmul = []\<rparr>"

text \<open>\<open>ret = Op(); ret.ptr = p; ret.guid = self.global_unique_id; self.global_unique_id += 1\<close>\<close>

definition new_handle :: "'d store \<Rightarrow> model \<Rightarrow> nat \<Rightarrow> 'd store \<times> model \<times> op" where
  "new_handle h m a = (h, m\<lparr>global_unique_id := global_unique_id m + 1\<rparr>, \<lparr>guid = global_unique_id m, ptr = Some a\<rparr>)"

definition create_input :: "'d store \<Rightarrow> model \<Rightarrow> 'd tensor \<Rightarrow> OpType \<Rightarrow> ('d store \<times> model \<times> op) py" where
  "create_input h m inp ty =
     py_assert (ty = OP_INPUT) (bindR (NoOp inp ty) (\<lambda>b. Inr (new_handle (h @ [b]) m (length h))))"

definition create_weight :: "'d store \<Rightarrow> model \<Rightarrow> 'd tensor \<Rightarrow> OpType \<Rightarrow> ('d store \<times> model \<times> op) py" where
  "create_weight h m weight ty =
     py_assert (ty = OP_WEIGHT)
       (if data_ptr weight = None then Inl NotImplementedError
        else bindR (NoOp weight ty) (\<lambda>b. Inr (new_handle (h @ [b]) m (length h))))"

text \<open>
  The insertion into a sorted dictionary. All keys of a dictionary start with a number or all with the same operator
  type, so it does not matter which of them the new key is compared with. The entry \<open>'key'\<close> that the constructor call
  \<open>SortedDict(key=...)\<close> leaves in every dictionary is left out: no key of an operator equals it.
\<close>

definition file_key :: "key list \<Rightarrow> nat \<Rightarrow> cache \<Rightarrow> cache py" where
  "file_key k a c = (if list_all (\<lambda>(k', _). \<not> isl (KeyCompare_lt (length k) k k')) c then Inr ((k, a) # c) else Inl TypeError)"

text \<open>
  The common tail of the \<open>get_or_create\<close> functions: the cached object, or a new one that \<open>filed\<close> adds to the cache.
\<close>

definition cached :: "'d store \<Rightarrow> model \<Rightarrow> nat option \<Rightarrow> 'd opbase py \<Rightarrow> (nat \<Rightarrow> model py) \<Rightarrow> ('d store \<times> model \<times> op) py" where
  "cached h m found built filed =
     (case found of Some a \<Rightarrow> Inr (new_handle h m a)
      | None \<Rightarrow> bindR built (\<lambda>b. bindR (filed (length h)) (\<lambda>m. Inr (new_handle (h @ [b]) m (length h)))))"

definition broadcastable :: "'d tensor \<Rightarrow> 'd tensor \<Rightarrow> bool" where
  "broadcastable t1 t2 =
     list_all (\<lambda>d. \<not> (dim t1 ! (numDim t1 - 1 - d) \<noteq> 1 \<and> dim t2 ! (numDim t2 - 1 - d) \<noteq> 1
         \<and> dim t1 ! (numDim t1 - 1 - d) \<noteq> dim t2 ! (numDim t2 - 1 - d)))
       [0..<min (numDim t1) (numDim t2)]"

definition get_or_create_element :: "'d store \<Rightarrow> model \<Rightarrow> OpType \<Rightarrow> 'd tensor \<Rightarrow> 'd tensor \<Rightarrow> ('d store \<times> model \<times> op) py" where
  "get_or_create_element h m ty t1 t2 =
     (if \<not> broadcastable t1 t2 then Inr (h, m, INVALID_OP)
      else bindR (ElementKey t1 t2 ty) (\<lambda>key.
        cached h m (map_of (m_element m) key) (Element ty t1 t2) (\<lambda>a. bindR (file_key key a (m_element m)) (\<lambda>c. Inr (m\<lparr>m_element := c\<rparr>)))))"

definition get_or_create_concat :: "'d store \<Rightarrow> model \<Rightarrow> int \<Rightarrow> nat \<Rightarrow> 'd tensor list \<Rightarrow> bool list \<Rightarrow> ('d store \<times> model \<times> op) py" where
  "get_or_create_concat h m ax n ins needCp =
     bindR (foldR (\<lambda>i bad.
         if bad then Inr True
         else bindR (py_get ins (int i)) (\<lambda>t. bindR (py_get ins 0) (\<lambda>first.
           Inr (numDim t \<noteq> numDim first
             \<or> list_ex (\<lambda>j. int j \<noteq> ax \<and> dim t ! j \<noteq> dim first ! j) [0..<numDim first])))) [0..<n] False) (\<lambda>bad.
     if bad then Inr (h, m, INVALID_OP)
     else bindR (ConcatKey ax n ins needCp) (\<lambda>key.
        cached h m (map_of (m_concat m) key) (Concat ax n ins needCp) (\<lambda>a. bindR (file_key key a (m_concat m)) (\<lambda>c. Inr (m\<lparr>m_concat := c\<rparr>)))))"

definition get_or_create_conv2d ::
    "'d store \<Rightarrow> model \<Rightarrow> 'd tensor \<Rightarrow> 'd tensor \<Rightarrow> int \<Rightarrow> int \<Rightarrow> PaddingMode \<Rightarrow> ActiMode \<Rightarrow> ('d store \<times> model \<times> op) py" where
  "get_or_create_conv2d h m inp weight sH sW pad acti =
     bindR (py_mod (dim inp ! 1) (dim weight ! 1)) (\<lambda>r.
     if r \<noteq> 0 then Inr (h, m, INVALID_OP)
     else bindR (Conv2DKey inp weight sH sW pad acti) (\<lambda>key.
        cached h m (map_of (m_conv2d m) key) (Conv2D inp weight sH sW pad acti) (\<lambda>a. bindR (file_key key a (m_conv2d m)) (\<lambda>c. Inr (m\<lparr>m_conv2d := c\<rparr>)))))"

definition get_or_create_pool2d ::
    "'d store \<Rightarrow> model \<Rightarrow> 'd tensor \<Rightarrow> 'd tensor \<Rightarrow> OpType \<Rightarrow> int \<Rightarrow> int \<Rightarrow> int \<Rightarrow> int \<Rightarrow> PaddingMode \<Rightarrow> ActiMode
      \<Rightarrow> ('d store \<times> model \<times> op) py" where
  "get_or_create_pool2d h m inp weight ty kH kW sH sW pad acti =
     bindR (Pool2DKey inp ty kH kW sH sW pad acti) (\<lambda>key.
     cached h m (map_of (m_pool2d m) key) (Pool2D inp weight ty kH kW sH sW pad acti) (\<lambda>a. bindR (file_key key a (m_pool2d m)) (\<lambda>c. Inr (m\<lparr>m_pool2d := c\<rparr>))))"

definition get_or_create_activation :: "'d store \<Rightarrow> model \<Rightarrow> 'd tensor \<Rightarrow> OpType \<Rightarrow> bool \<Rightarrow> ('d store \<times> model \<times> op) py" where
  "get_or_create_activation h m inp ty inpl =
     bindR (ActivationKey inp ty inpl) (\<lambda>key.
     cached h m (map_of (m_activation m) key) (Activation inp ty inpl) (\<lambda>a. bindR (file_key key a (m_activation m)) (\<lambda>c. Inr (m\<lparr>m_activation := c\<rparr>))))"

definition get_or_create_matmul :: "'d store \<Rightarrow> model \<Rightarrow> 'd tensor \<Rightarrow> 'd tensor \<Rightarrow> ActiMode \<Rightarrow> ('d store \<times> model \<times> op) py" where
  "get_or_create_matmul h m inp weight acti =
     (if numDim inp \<noteq> numDim weight then Inr (h, m, INVALID_OP)
      else if list_ex (\<lambda>i. dim inp ! i \<noteq> dim weight ! i) [0..<numDim inp - 2] then Inr (h, m, INVALID_OP)
      else bindR (py_get (dim inp) (int (numDim inp) - 1)) (\<lambda>d. bindR (py_get (dim weight) (int (numDim weight) - 2)) (\<lambda>e.
        if d \<noteq> e then Inr (h, m, INVALID_OP)
        else bindR (MatmulKey inp weight acti) (\<lambda>key.
          cached h m (map_of (m_matmul m) key) (Matmul inp weight acti) (\<lambda>a. bindR (file_key key a (m_matmul m)) (\<lambda>c. Inr (m\<lparr>m_matmul := c\<rparr>)))))))"

definition get_or_create_reshape :: "'d store \<Rightarrow> model \<Rightarrow> 'd tensor \<Rightarrow> int list \<Rightarrow> ('d store \<times> model \<times> op) py" where
  "get_or_create_reshape h m inp shp =
     bindR (ReshapeKey inp shp) (\<lambda>key.
     cached h m (map_of (m_reshape m) key) (Reshape inp shp) (\<lambda>a. bindR (file_key key a (m_reshape m)) (\<lambda>c. Inr (m\<lparr>m_reshape := c\<rparr>))))"

text \<open>A new transposition is not filed.\<close>

definition get_or_create_transpose :: "'d store \<Rightarrow> model \<Rightarrow> 'd tensor \<Rightarrow> int list \<Rightarrow> bool \<Rightarrow> ('d store \<times> model \<times> op) py" where
  "get_or_create_transpose h m inp perm shuf =
     bindR (TransposeKey inp perm shuf) (\<lambda>key.
     cached h m (map_of (m_transpose m) key) (Transpose inp perm shuf) (\<lambda>a. Inr m))"

section \<open>Keys in closed form\<close>

lemma tensor_key_short: "wf_tensor t \<Longrightarrow> length (tensor_key t) \<le> 19"
  using wf_tensorD(5) [of t] by (auto simp: length_tensor_key)

lemma tensor_key_numDim: "tensor_key t ! 1 = K_int (int (numDim t))" "1 < length (tensor_key t)"
  by (simp_all add: tensor_key_def)

lemma overwrite_tensor_key_inj:
  assumes "wf_tensor t" "wf_tensor u" "i + 19 \<le> length xs" "i \<le> length ys" "length ys = length xs"
    and eq: "overwrite xs i (tensor_key t) = overwrite ys i (tensor_key u)"
  shows "take i xs = take i ys \<and> tensor_key t = tensor_key u"
proof -
  note l = tensor_key_short [OF assms(1)] tensor_key_short [OF assms(2)]
  have n: "overwrite zs i vs ! (i + 1) = vs ! 1" if "1 < length vs" "i \<le> length zs" for zs vs :: "key list"
    using that by (simp add: overwrite_def nth_append)
  have "tensor_key t ! 1 = tensor_key u ! 1"
    using n [OF tensor_key_numDim(2), of xs t] n [OF tensor_key_numDim(2), of ys u] assms(3,4) eq by simp
  hence "numDim t = numDim u" unfolding tensor_key_numDim by simp
  hence "length (tensor_key t) = length (tensor_key u)" using assms(1,2) by (simp add: length_tensor_key)
  thus ?thesis using eq assms(3-5) by (simp add: overwrite_def)
qed

lemma headed_key_inj:
  assumes "wf_tensor t" "wf_tensor u" "length as = i" "length bs = i"
    and "overwrite (as @ replicate MAX_KEY_LENGTH (K_int 0)) i (tensor_key t) = overwrite (bs @ replicate MAX_KEY_LENGTH (K_int 0)) i (tensor_key u)"
  shows "as = bs \<and> tensor_key t = tensor_key u"
  using overwrite_tensor_key_inj [OF assms(1,2) _ _ _ assms(5)] assms(3,4) by simp

lemma ActivationKey_eq:
  "wf_tensor t \<Longrightarrow> no_split t \<Longrightarrow> ActivationKey t ty p
    = Inr (overwrite ([K_type ty, K_int (if p then 1 else 0)] @ replicate MAX_KEY_LENGTH (K_int 0)) 2 (tensor_key t))"
  unfolding ActivationKey_def by (rule Tensor_serialize_ok) (use tensor_key_short [of t] in simp_all)

lemma Pool2DKey_eq:
  "wf_tensor t \<Longrightarrow> no_split t \<Longrightarrow> Pool2DKey t ty kH kW sH sW pad acti
    = Inr (overwrite ([K_int kH, K_int kW, K_int sH, K_int sW, K_pad pad, K_acti acti, K_type ty] @ replicate MAX_KEY_LENGTH (K_int 0)) 7 (tensor_key t))"
  unfolding Pool2DKey_def by (rule Tensor_serialize_ok) (use tensor_key_short [of t] in simp_all)

lemma TransposeKey_eq:
  "wf_tensor t \<Longrightarrow> no_split t \<Longrightarrow> is_perm p \<Longrightarrow> TransposeKey t p shuf
    = Inr (overwrite ([K_int (horner (int (length p)) p), K_int (if shuf then 1 else 0)] @ replicate MAX_KEY_LENGTH (K_int 0)) 2 (tensor_key t))"
  unfolding TransposeKey_def permutation_to_index_eq
  by (simp only: if_True bindR_simps, rule Tensor_serialize_ok) (use tensor_key_short [of t] in simp_all)

lemma ReshapeKey_eq:
  assumes "wf_tensor t" "no_split t" "length shp \<le> MAX_DIM"
  shows "ReshapeKey t shp = Inr (overwrite (replicate (MAX_KEY_LENGTH + MAX_DIM + 1) (K_int 0)) 0
    (K_int (int (length shp)) # map K_int shp @ tensor_key t))"
proof -
  let ?z = "replicate (MAX_KEY_LENGTH + MAX_DIM + 1) (K_int 0)"
  have e: "foldR (\<lambda>i st. bindR (py_get shp (int i)) (\<lambda>d. emit_key (K_int d) st)) [0..<length shp] (overwrite ?z 0 [K_int (int (length shp))], 1)
      = Inr (overwrite ?z 0 (K_int (int (length shp)) # map K_int shp), 1 + length shp)"
    using foldR_emit [of "\<lambda>i. py_get shp (int i)" "\<lambda>i. shp ! i" "[0..<length shp]" 1 "overwrite ?z 0 [K_int (int (length shp))]"] assms(3)
      overwrite_overwrite [of 0 "[K_int (int (length shp))]" "map K_int shp" ?z]
    by (simp add: list_all_iff map_nth_take)
  have "Tensor_serialize t (1 + length shp) (overwrite ?z 0 (K_int (int (length shp)) # map K_int shp))
      = Inr (overwrite (overwrite ?z 0 (K_int (int (length shp)) # map K_int shp)) (1 + length shp) (tensor_key t))"
    by (rule Tensor_serialize_ok) (use assms tensor_key_short [of t] in simp_all)
  moreover have "overwrite (overwrite ?z 0 (K_int (int (length shp)) # map K_int shp)) (1 + length shp) (tensor_key t)
      = overwrite ?z 0 (K_int (int (length shp)) # map K_int shp @ tensor_key t)"
    using overwrite_overwrite [of 0 "K_int (int (length shp)) # map K_int shp" "tensor_key t" ?z] assms tensor_key_short [of t] by simp
  moreover have "emit_key (K_int (int (length shp))) (?z, 0) = Inr (overwrite ?z 0 [K_int (int (length shp))], 1)"
    by (simp add: emit_key_ok)
  ultimately show ?thesis unfolding ReshapeKey_def by (simp only: bindR_simps e prod.case)
qed

text \<open>
  The second tensor of a two-tensor key is written over the first: what is left of the first is what
  is longer than the second.
\<close>

lemma two_tensors_key:
  assumes "wf_tensor t" "no_split t" "wf_tensor w" "no_split w" "numDim t \<le> numDim w" "i + 19 \<le> length xs"
  shows "bindR (Tensor_serialize t i xs) (Tensor_serialize w i) = Inr (overwrite xs i (tensor_key w))"
proof -
  note l = tensor_key_short [OF assms(1)] tensor_key_short [OF assms(3)]
  have "Tensor_serialize t i xs = Inr (overwrite xs i (tensor_key t))" using assms l by (intro Tensor_serialize_ok) simp_all
  moreover have "Tensor_serialize w i (overwrite xs i (tensor_key t)) = Inr (overwrite (overwrite xs i (tensor_key t)) i (tensor_key w))"
    using assms l by (intro Tensor_serialize_ok) simp_all
  moreover have "length (tensor_key t) \<le> length (tensor_key w)" using assms(1,3,5) by (simp add: length_tensor_key)
  ultimately show ?thesis using overwrite_again [of "tensor_key t" "tensor_key w" i xs] assms(6) l(2) by simp
qed

section \<open>Caches that are transparent\<close>

text \<open>What a client of an operator sees of it: its type, its attributes and the layout of its output.\<close>

definition same_output :: "'d opbase \<Rightarrow> 'd opbase \<Rightarrow> bool" where
  "same_output b c \<longleftrightarrow> op_type b = op_type c \<and> attrs b = attrs c \<and> shape (outputs b ! 0) = shape (outputs c ! 0)
     \<and> strides (outputs b ! 0) = strides (outputs c ! 0)"

definition cache_sound :: "('a \<Rightarrow> key list py) \<Rightarrow> ('a \<Rightarrow> 'd opbase py) \<Rightarrow> ('a \<Rightarrow> bool) \<Rightarrow> 'd store \<Rightarrow> cache \<Rightarrow> bool" where
  "cache_sound key_of build good h c \<longleftrightarrow>
     (\<forall>(k, a) \<in> set c. a < length h \<and> (\<exists>x. good x \<and> key_of x = Inr k \<and> build x = Inr (h ! a)))"

text \<open>
  The contract of a kind of operator whose key determines its output; its cache then answers every request
  with an operator that is as good as a new one.
\<close>

locale op_cache =
  fixes key_of :: "'a \<Rightarrow> key list py" and build :: "'a \<Rightarrow> 'd opbase py" and good :: "'a \<Rightarrow> bool"
  assumes key_determines: "good x \<Longrightarrow> good y \<Longrightarrow> key_of x = Inr k \<Longrightarrow> key_of y = Inr k \<Longrightarrow> build x = Inr b \<Longrightarrow> build y = Inr c
    \<Longrightarrow> same_output b c"
    and key_compare: "good x \<Longrightarrow> good y \<Longrightarrow> key_of x = Inr k \<Longrightarrow> key_of y = Inr k' \<Longrightarrow> \<not> isl (KeyCompare_lt (length k) k k')"
begin

lemma file_key_ok:
  assumes "cache_sound key_of build good h c" "good x" "key_of x = Inr k"
  shows "file_key k a c = Inr ((k, a) # c)"
proof -
  have "\<not> isl (KeyCompare_lt (length k) k k')" if "(k', a') \<in> set c" for k' a'
    using that assms key_compare [OF assms(2) _ assms(3)] unfolding cache_sound_def by blast
  thus ?thesis by (auto simp: file_key_def list_all_iff)
qed

lemma cached_same:
  assumes c: "cache_sound key_of build good h c" and x: "good x" "key_of x = Inr k" "build x = Inr b"
    and filed: "\<And>a. file_key k a c = Inr ((k, a) # c) \<Longrightarrow> filed a = Inr (upd a)"
    and uid: "\<And>a. global_unique_id (upd a) = global_unique_id m"
  shows "\<exists>a h' m'. cached h m (map_of c k) (build x) filed = Inr (h', m', \<lparr>guid = global_unique_id m, ptr = Some a\<rparr>)
    \<and> a < length h' \<and> same_output (h' ! a) b \<and> take (length h) h' = h
    \<and> cache_sound key_of build good h' (if map_of c k = None then (k, length h) # c else c)
    \<and> m' = (if map_of c k = None then upd (length h) else m)\<lparr>global_unique_id := global_unique_id m + 1\<rparr>"
proof (cases "map_of c k")
  case None
  have "cache_sound key_of build good (h @ [b]) ((k, length h) # c)"
    using c x by (auto simp: cache_sound_def nth_append less_SucI)
  with None x(3) uid filed [OF file_key_ok [OF c x(1,2)]] show ?thesis by (simp add: cached_def new_handle_def same_output_def)
next
  case (Some a)
  then obtain y where "a < length h" "good y" "key_of y = Inr k" "build y = Inr (h ! a)"
    using c map_of_SomeD [OF Some] by (auto simp: cache_sound_def)
  moreover from key_determines [OF this(2) x(1) this(3) x(2) this(4) x(3)] have "same_output (h ! a) b" .
  ultimately show ?thesis using Some c by (simp add: cached_def new_handle_def)
qed

end

lemma cache_sound_take:
  assumes "cache_sound key_of build good h c" "take (length h) h' = h"
  shows "cache_sound key_of build good h' c"
proof -
  have l: "length h \<le> length h'" using assms(2) by (metis length_take min.cobounded1)
  moreover have "a < length h \<Longrightarrow> h' ! a = h ! a" for a using assms(2) by (metis nth_take)
  ultimately show ?thesis using assms(1) unfolding cache_sound_def by fastforce
qed

lemma wf_shape_dims:
  assumes "wf_tensor t" "numDim t = 4"
  shows "shape t = [dim t ! 0, dim t ! 1, dim t ! 2, dim t ! 3]"
  using assms by (intro nth_equalityI) (auto simp: shape_def wf_tensor_def nth_Cons numeral_eq_Suc split: nat.splits)

section \<open>The requests whose caches are transparent\<close>

datatype 'd request =
    Pool2D_request "'d tensor" "'d tensor" OpType int int int int PaddingMode ActiMode
  | Reshape_request "'d tensor" "int list"
  | Activation_request "'d tensor" OpType bool
  | Transpose_request "'d tensor" "int list" bool

primrec request_key :: "'d request \<Rightarrow> key list py" where
  "request_key (Pool2D_request inp w ty kH kW sH sW pad acti) = Pool2DKey inp ty kH kW sH sW pad acti"
| "request_key (Reshape_request inp shp) = ReshapeKey inp shp"
| "request_key (Activation_request inp ty p) = ActivationKey inp ty p"
| "request_key (Transpose_request inp perm shuf) = TransposeKey inp perm shuf"

primrec construct :: "'d request \<Rightarrow> 'd opbase py" where
  "construct (Pool2D_request inp w ty kH kW sH sW pad acti) = Pool2D inp w ty kH kW sH sW pad acti"
| "construct (Reshape_request inp shp) = Reshape inp shp"
| "construct (Activation_request inp ty p) = Activation inp ty p"
| "construct (Transpose_request inp perm shuf) = Transpose inp perm shuf"

primrec serve :: "'d store \<Rightarrow> model \<Rightarrow> 'd request \<Rightarrow> ('d store \<times> model \<times> op) py" where
  "serve h m (Pool2D_request inp w ty kH kW sH sW pad acti) = get_or_create_pool2d h m inp w ty kH kW sH sW pad acti"
| "serve h m (Reshape_request inp shp) = get_or_create_reshape h m inp shp"
| "serve h m (Activation_request inp ty p) = get_or_create_activation h m inp ty p"
| "serve h m (Transpose_request inp perm shuf) = get_or_create_transpose h m inp perm shuf"

primrec request_ok :: "'d request \<Rightarrow> bool" where
  "request_ok (Pool2D_request inp w ty kH kW sH sW pad acti) \<longleftrightarrow> wf_tensor inp \<and> no_split inp"
| "request_ok (Reshape_request inp shp) \<longleftrightarrow> wf_tensor inp \<and> no_split inp \<and> length shp \<le> MAX_DIM"
| "request_ok (Activation_request inp ty p) \<longleftrightarrow> wf_tensor inp \<and> no_split inp \<and> ty = OP_RELU"
| "request_ok (Transpose_request inp perm shuf) \<longleftrightarrow> wf_tensor inp \<and> no_split inp"

definition is_Pool2D :: "'d request \<Rightarrow> bool" where
  "is_Pool2D r \<longleftrightarrow> request_ok r \<and> (case r of Pool2D_request _ _ _ _ _ _ _ _ _ \<Rightarrow> True | _ \<Rightarrow> False)"

definition is_Reshape :: "'d request \<Rightarrow> bool" where
  "is_Reshape r \<longleftrightarrow> request_ok r \<and> (case r of Reshape_request _ _ \<Rightarrow> True | _ \<Rightarrow> False)"

definition is_Activation :: "'d request \<Rightarrow> bool" where
  "is_Activation r \<longleftrightarrow> request_ok r \<and> (case r of Activation_request _ _ _ \<Rightarrow> True | _ \<Rightarrow> False)"

definition is_Transpose :: "'d request \<Rightarrow> bool" where
  "is_Transpose r \<longleftrightarrow> request_ok r \<and> (case r of Transpose_request _ _ _ \<Rightarrow> True | _ \<Rightarrow> False)"

lemma Pool2D_Inr:
  "Pool2D inp w ty kH kW sH sW pad acti = Inr b \<Longrightarrow> numDim inp = 4 \<and> (ty = OP_POOL2D_AVG \<or> ty = OP_POOL2D_MAX) \<and> sH \<noteq> 0 \<and> sW \<noteq> 0"
  by (cases pad) (auto simp: Pool2D_def bindR_Inr_iff require_Inr_iff out_extent_def py_div_def Let_def split: if_splits)

lemma Transpose_Inr:
  "Transpose inp p shuf = Inr b \<Longrightarrow> shuf \<and> is_perm p \<and> numDim inp = length p"
  by (auto simp: Transpose_def permutation_to_index_eq bindR_Inr_iff require_Inr_iff split: if_splits)

lemma Reshape_Inr:
  "wf_tensor inp \<Longrightarrow> length shp \<le> MAX_DIM \<Longrightarrow> Reshape inp shp = Inr b \<Longrightarrow> yields b shp \<and> op_type b = OP_RESHAPE \<and> attrs b = Reshape_attrs"
  by (metis Reshape_eq sum.distinct(1) sum.inject(2))

lemma KeyCompare_lt_ok: "k ! 0 = K_int i \<Longrightarrow> k' ! 0 = K_int j \<Longrightarrow> \<not> isl (KeyCompare_lt n k k')" "k ! 0 = k' ! 0 \<Longrightarrow> \<not> isl (KeyCompare_lt n k k')"
  by (simp_all add: KeyCompare_lt_def key_lt_def)

lemma overwrite_head: "overwrite (x # xs) (Suc i) ys ! 0 = x"
  by (simp add: overwrite_def)

text \<open>How the keys of requests start.\<close>

lemma request_key_head:
  assumes "request_ok r" "request_key r = Inr k"
  shows "(case r of Activation_request _ _ _ \<Rightarrow> k ! 0 = K_type OP_RELU | _ \<Rightarrow> \<exists>i. k ! 0 = K_int i)"
proof (cases r)
  case (Reshape_request inp shp)
  thus ?thesis using assms ReshapeKey_eq [of inp shp] by (auto simp: overwrite_def)
next
  case (Transpose_request inp p s)
  hence "is_perm p" using assms(2) by (auto simp: TransposeKey_def permutation_to_index_eq split: if_splits)
  thus ?thesis using assms Transpose_request TransposeKey_eq [of inp p s] by (auto simp: numeral_eq_Suc overwrite_head)
qed (use assms in \<open>auto simp: Pool2DKey_eq ActivationKey_eq numeral_eq_Suc overwrite_head\<close>)

interpretation pool_cache: op_cache request_key construct is_Pool2D
proof
  fix x y :: "'d request" and k b c
  assume "is_Pool2D x" "is_Pool2D y" and k: "request_key x = Inr k" "request_key y = Inr k" and bc: "construct x = Inr b" "construct y = Inr c"
  then obtain t w ty kH kW sH sW pad acti u w' ty' kH' kW' sH' sW' pad' acti' where
    x: "x = Pool2D_request t w ty kH kW sH sW pad acti" "wf_tensor t" "no_split t" and
    y: "y = Pool2D_request u w' ty' kH' kW' sH' sW' pad' acti'" "wf_tensor u" "no_split u"
    by (auto simp: is_Pool2D_def split: request.splits)
  have "[K_int kH, K_int kW, K_int sH, K_int sW, K_pad pad, K_acti acti, K_type ty] = [K_int kH', K_int kW', K_int sH', K_int sW', K_pad pad', K_acti acti', K_type ty']
      \<and> tensor_key t = tensor_key u"
    by (rule headed_key_inj [OF x(2) y(2), where i = 7])
      (use k [unfolded x(1) y(1) request_key.simps Pool2DKey_eq [OF x(2,3)] Pool2DKey_eq [OF y(2,3)]] in simp_all)
  hence p: "ty = ty'" "kH = kH'" "kW = kW'" "sH = sH'" "sW = sW'" "pad = pad'" "acti = acti'" "tensor_key t = tensor_key u" by simp_all
  have s: "shape t = shape u" using tensor_key_inj [OF x(2) y(2) p(8)] by simp
  have i: "numDim t = 4" "ty = OP_POOL2D_AVG \<or> ty = OP_POOL2D_MAX" "sH \<noteq> 0" "sW \<noteq> 0"
    using Pool2D_Inr [of t w ty kH kW sH sW pad acti b] bc(1) x(1) by simp_all
  note sh = wf_shape_dims [OF x(2) i(1)]
  from Pool2D_yields [OF x(2,3) sh i(2-4), of w kH kW pad acti] Pool2D_yields [OF y(2,3) sh [unfolded s] i(2-4), of w' kH kW pad acti]
  show "same_output b c" using bc x(1) y(1) p by (auto simp: yields_def same_output_def)
next
  fix x y :: "'d request" and k k'
  assume a: "is_Pool2D x" "is_Pool2D y" "request_key x = Inr k" "request_key y = Inr k'"
  with request_key_head [of x k] request_key_head [of y k'] show "\<not> isl (KeyCompare_lt (length k) k k')"
    by (auto simp: is_Pool2D_def KeyCompare_lt_ok split: request.splits)
qed

interpretation reshape_cache: op_cache request_key construct is_Reshape
proof
  fix x y :: "'d request" and k b c
  assume "is_Reshape x" "is_Reshape y" and k: "request_key x = Inr k" "request_key y = Inr k" and bc: "construct x = Inr b" "construct y = Inr c"
  then obtain t shp u shp' where x: "x = Reshape_request t shp" "wf_tensor t" "no_split t" "length shp \<le> MAX_DIM" and
    y: "y = Reshape_request u shp'" "wf_tensor u" "no_split u" "length shp' \<le> MAX_DIM"
    by (auto simp: is_Reshape_def split: request.splits)
  have "K_int (int (length shp)) # map K_int shp @ tensor_key t @ drop (length (K_int (int (length shp)) # map K_int shp @ tensor_key t)) (replicate (MAX_KEY_LENGTH + MAX_DIM + 1) (K_int 0))
      = K_int (int (length shp')) # map K_int shp' @ tensor_key u @ drop (length (K_int (int (length shp')) # map K_int shp' @ tensor_key u)) (replicate (MAX_KEY_LENGTH + MAX_DIM + 1) (K_int 0))"
    using k x y by (simp add: ReshapeKey_eq overwrite_def)
  hence "length shp = length shp'" "map K_int shp = map K_int shp'" by auto
  moreover have "inj K_int" by (simp add: inj_def)
  ultimately have "shp = shp'" by (simp add: inj_map_eq_map)
  with bc x y Reshape_Inr [OF x(2,4)] Reshape_Inr [OF y(2,4)] show "same_output b c" by (auto simp: yields_def same_output_def)
next
  fix x y :: "'d request" and k k'
  assume a: "is_Reshape x" "is_Reshape y" "request_key x = Inr k" "request_key y = Inr k'"
  with request_key_head [of x k] request_key_head [of y k'] show "\<not> isl (KeyCompare_lt (length k) k k')"
    by (auto simp: is_Reshape_def KeyCompare_lt_ok split: request.splits)
qed

interpretation activation_cache: op_cache request_key construct is_Activation
proof
  fix x y :: "'d request" and k b c
  assume "is_Activation x" "is_Activation y" and k: "request_key x = Inr k" "request_key y = Inr k" and bc: "construct x = Inr b" "construct y = Inr c"
  then obtain t ty p u ty' p' where x: "x = Activation_request t ty p" "wf_tensor t" "no_split t" and
    y: "y = Activation_request u ty' p'" "wf_tensor u" "no_split u"
    by (auto simp: is_Activation_def split: request.splits)
  have "[K_type ty, K_int (if p then 1 else 0)] = [K_type ty', K_int (if p' then 1 else 0)] \<and> tensor_key t = tensor_key u"
    by (rule headed_key_inj [OF x(2) y(2), where i = 2])
      (use k [unfolded x(1) y(1) request_key.simps ActivationKey_eq [OF x(2,3)] ActivationKey_eq [OF y(2,3)]] in simp_all)
  hence e: "ty = ty'" "p = p'" "tensor_key t = tensor_key u" by (auto split: if_splits)
  from tensor_key_inj [OF x(2) y(2) e(3)] have "shape t = shape u" "strides t = strides u" by simp_all
  with Activation_ok [of t ty p] Activation_ok [of u ty p] bc x(1) y(1) e(1,2) show "same_output b c" by (auto simp: same_output_def)
next
  fix x y :: "'d request" and k k'
  assume a: "is_Activation x" "is_Activation y" "request_key x = Inr k" "request_key y = Inr k'"
  with request_key_head [of x k] request_key_head [of y k'] show "\<not> isl (KeyCompare_lt (length k) k k')"
    by (auto simp: is_Activation_def KeyCompare_lt_ok split: request.splits)
qed

interpretation transpose_cache: op_cache request_key construct is_Transpose
proof
  fix x y :: "'d request" and k b c
  assume "is_Transpose x" "is_Transpose y" and k: "request_key x = Inr k" "request_key y = Inr k" and bc: "construct x = Inr b" "construct y = Inr c"
  then obtain t p s u q r where x: "x = Transpose_request t p s" "wf_tensor t" "no_split t" and
    y: "y = Transpose_request u q r" "wf_tensor u" "no_split u"
    by (auto simp: is_Transpose_def split: request.splits)
  from bc x(1) y(1) Transpose_Inr have i: "s" "r" "is_perm p" "is_perm q" "numDim t = length p" "numDim u = length q" by fastforce+
  have "[K_int (horner (int (length p)) p), K_int (if s then 1 else 0)] = [K_int (horner (int (length q)) q), K_int (if r then 1 else 0)]
      \<and> tensor_key t = tensor_key u"
    by (rule headed_key_inj [OF x(2) y(2), where i = 2])
      (use k [unfolded x(1) y(1) request_key.simps TransposeKey_eq [OF x(2,3) i(3)] TransposeKey_eq [OF y(2,3) i(4)]] in simp_all)
  hence e: "horner (int (length p)) p = horner (int (length q)) q" "tensor_key t = tensor_key u" by simp_all
  from tensor_key_inj [OF x(2) y(2) e(2)] have sh: "shape t = shape u" by simp
  have "numDim t = numDim u" using e(2) by (simp add: tensor_key_def)
  hence "p = q" using horner_inj [of p q "int (length p)"] i e(1) by (simp add: is_perm_def list_all_iff)
  with Transpose_yields [OF x(2,3) i(5,3)] Transpose_yields [OF y(2,3) i(6,4)] bc x(1) y(1) i(1,2) sh
  show "same_output b c" by (auto simp: yields_def same_output_def)
next
  fix x y :: "'d request" and k k'
  assume a: "is_Transpose x" "is_Transpose y" "request_key x = Inr k" "request_key y = Inr k'"
  with request_key_head [of x k] request_key_head [of y k'] show "\<not> isl (KeyCompare_lt (length k) k k')"
    by (auto simp: is_Transpose_def KeyCompare_lt_ok split: request.splits)
qed

text \<open>The invariant of the four caches.\<close>

definition model_ok :: "'d store \<Rightarrow> model \<Rightarrow> bool" where
  "model_ok h m \<longleftrightarrow> cache_sound request_key construct is_Pool2D h (m_pool2d m) \<and> cache_sound request_key construct is_Reshape h (m_reshape m)
     \<and> cache_sound request_key construct is_Activation h (m_activation m) \<and> cache_sound request_key construct is_Transpose h (m_transpose m)"

lemma model_ok_new: "model_ok h new_Model"
  by (simp add: model_ok_def new_Model_def cache_sound_def)

lemma model_ok_take: "model_ok h m \<Longrightarrow> take (length h) h' = h \<Longrightarrow> model_ok h' m"
  unfolding model_ok_def by (blast intro: cache_sound_take)

lemma model_ok_more [simp]: "model_ok h (m\<lparr>global_unique_id := u\<rparr>) = model_ok h m"
  by (simp add: model_ok_def)

lemma request_key_ok: "request_ok r \<Longrightarrow> construct r = Inr b \<Longrightarrow> \<exists>k. request_key r = Inr k"
  by (cases r) (auto simp: Pool2DKey_eq ReshapeKey_eq ActivationKey_eq TransposeKey_eq dest: Transpose_Inr)

text \<open>
  C13: Asking for a pooling, reshaping, activation or transposition operator gives a handle with a fresh number to an
  operator that has the type, the attributes and the output layout of a newly constructed one, whether it was
  found in a cache or made; no existing operator changes and the caches stay sound.
\<close>

theorem serve_transparent:
  assumes m: "model_ok h m" and r: "request_ok r" and b: "construct r = Inr b"
  shows "\<exists>h' m' a. serve h m r = Inr (h', m', \<lparr>guid = global_unique_id m, ptr = Some a\<rparr>) \<and> a < length h'
    \<and> same_output (h' ! a) b \<and> take (length h) h' = h \<and> model_ok h' m' \<and> global_unique_id m' = global_unique_id m + 1"
proof -
  obtain k where k: "request_key r = Inr k" using request_key_ok [OF r b] by blast
  show ?thesis
  proof (cases r)
    case (Pool2D_request inp w ty kH kW sH sW pad acti)
    have "is_Pool2D r" "cache_sound request_key construct is_Pool2D h (m_pool2d m)" using r m Pool2D_request by (simp_all add: is_Pool2D_def model_ok_def)
    from pool_cache.cached_same [OF this(2,1) k b, of "\<lambda>a. bindR (file_key k a (m_pool2d m)) (\<lambda>c. Inr (m\<lparr>m_pool2d := c\<rparr>))" "\<lambda>a. m\<lparr>m_pool2d := (k, a) # m_pool2d m\<rparr>" m] Pool2D_request k m
    show ?thesis by (auto simp: get_or_create_pool2d_def model_ok_def intro: cache_sound_take split: if_splits)
  next
    case (Reshape_request inp shp)
    have "is_Reshape r" "cache_sound request_key construct is_Reshape h (m_reshape m)" using r m Reshape_request by (simp_all add: is_Reshape_def model_ok_def)
    from reshape_cache.cached_same [OF this(2,1) k b, of "\<lambda>a. bindR (file_key k a (m_reshape m)) (\<lambda>c. Inr (m\<lparr>m_reshape := c\<rparr>))" "\<lambda>a. m\<lparr>m_reshape := (k, a) # m_reshape m\<rparr>" m] Reshape_request k m
    show ?thesis by (auto simp: get_or_create_reshape_def model_ok_def intro: cache_sound_take split: if_splits)
  next
    case (Activation_request inp ty p)
    have "is_Activation r" "cache_sound request_key construct is_Activation h (m_activation m)"
      using r m Activation_request by (simp_all add: is_Activation_def model_ok_def)
    from activation_cache.cached_same [OF this(2,1) k b, of "\<lambda>a. bindR (file_key k a (m_activation m)) (\<lambda>c. Inr (m\<lparr>m_activation := c\<rparr>))" "\<lambda>a. m\<lparr>m_activation := (k, a) # m_activation m\<rparr>" m] Activation_request k m
    show ?thesis by (auto simp: get_or_create_activation_def model_ok_def intro: cache_sound_take split: if_splits)
  next
    case (Transpose_request inp p s)
    have "is_Transpose r" and c: "cache_sound request_key construct is_Transpose h (m_transpose m)"
      using r m Transpose_request by (simp_all add: is_Transpose_def model_ok_def)
    from transpose_cache.cached_same [OF c this(1) k b, of "\<lambda>a. Inr m" "\<lambda>a. m" m] Transpose_request k m cache_sound_take [OF c]
    show ?thesis by (auto simp: get_or_create_transpose_def model_ok_def intro: cache_sound_take split: if_splits)
  qed
qed

text \<open>A tensor for the examples: a row-major one of the given shape.\<close>

definition tensor_of :: "int list \<Rightarrow> 'd tensor" where
  "tensor_of ds = Tensor_default\<lparr>numDim := length ds, dim := ds @ replicate (MAX_DIM - length ds) 0,
     stride := row_major ds @ replicate (MAX_DIM - length ds) 0\<rparr>"

lemma tensor_of [simp]:
  assumes "length ds \<le> MAX_DIM"
  shows "wf_tensor (tensor_of ds)" "no_split (tensor_of ds)" "shape (tensor_of ds) = ds" "strides (tensor_of ds) = row_major ds"
  using assms by (simp_all add: tensor_of_def) (simp_all add: shape_def strides_def)

theorem serve_transparent_witness:
  "\<exists>h m a h' m' a'. serve [] new_Model (Reshape_request (tensor_of [2, 3] :: unit tensor) [6]) = Inr (h, m, \<lparr>guid = 100, ptr = Some a\<rparr>)
     \<and> serve h m (Reshape_request (tensor_of [2, 3]) [6]) = Inr (h', m', \<lparr>guid = 101, ptr = Some a'\<rparr>)
     \<and> shape (outputs (h' ! a') ! 0) = [6]"
proof -
  let ?r = "Reshape_request (tensor_of [2, 3] :: unit tensor) [6]"
  have r: "request_ok ?r" by simp
  obtain b where b: "construct ?r = Inr b" "yields b [6]" using Reshape_eq(1) [of "tensor_of [2, 3] :: unit tensor" "[6]"] by auto
  obtain h m a where s1: "serve [] new_Model ?r = Inr (h, m, \<lparr>guid = global_unique_id new_Model, ptr = Some a\<rparr>)" "model_ok h m"
    "global_unique_id m = global_unique_id new_Model + 1"
    using serve_transparent [OF model_ok_new r b(1)] by blast
  obtain h' m' a' where s2: "serve h m ?r = Inr (h', m', \<lparr>guid = global_unique_id m, ptr = Some a'\<rparr>)" "same_output (h' ! a') b"
    using serve_transparent [OF s1(2) r b(1)] by blast
  show ?thesis using s1(1,3) s2 b(2) by (auto simp: new_Model_def same_output_def yields_def)
qed

section \<open>Caches that are not\<close>

lemma Conv2DKey_eq:
  assumes t: "wf_tensor inp" "no_split inp" "shape inp = [n, c, h, w]" and wt: "wf_tensor weight" "no_split weight" "shape weight = [m, g, kh, kw]"
    and ok: "g \<noteq> 0" "g dvd c" "c \<noteq> 0" "c div g dvd m"
  shows "Conv2DKey inp weight sH sW pad acti
    = Inr (overwrite ([K_int sH, K_int sW, K_pad pad, K_acti acti] @ replicate (MAX_KEY_LENGTH * 2) (K_int 0)) 4 (tensor_key weight))"
proof -
  have q: "c div g \<noteq> 0" using ok by auto
  have "bindR (Tensor_serialize inp 4 ([K_int sH, K_int sW, K_pad pad, K_acti acti] @ replicate (MAX_KEY_LENGTH * 2) (K_int 0))) (Tensor_serialize weight 4)
      = Inr (overwrite ([K_int sH, K_int sW, K_pad pad, K_acti acti] @ replicate (MAX_KEY_LENGTH * 2) (K_int 0)) 4 (tensor_key weight))"
    by (rule two_tensors_key [OF t(1,2) wt(1,2)]) (use shape4 [OF t(1,3)] shape4 [OF wt(1,3)] in simp_all)
  thus ?thesis unfolding Conv2DKey_def using shape4 [OF t(1,3)] shape4 [OF wt(1,3)] ok q by simp
qed

text \<open>
  C14: The key of a convolution does not depend on its input: the weight is written over it. A second convolution with a
  weight of the same shape, on an input of another size, gets the operator made for the first input, whose output has
  the size that belongs to the first input.
\<close>

theorem conv2d_cache_ignores_input:
  assumes t: "wf_tensor t" "no_split t" "shape t = [n, c, h, w]" and u: "wf_tensor u" "no_split u" "shape u = [n', c, h', w']"
    and wt: "wf_tensor weight" "no_split weight" "shape weight = [m, g, kh, kw]"
    and ok: "g \<noteq> 0" "g dvd c" "c \<noteq> 0" "c div g dvd m" "sH \<noteq> 0" "sW \<noteq> 0"
  shows "\<exists>st1 m1 q1 st2 m2 q2 a. get_or_create_conv2d st new_Model t weight sH sW pad acti = Inr (st1, m1, q1)
    \<and> get_or_create_conv2d st1 m1 u weight sH sW pad acti = Inr (st2, m2, q2)
    \<and> ptr q2 = Some a \<and> shape (outputs (st2 ! a) ! 0) = [n, m, extent pad h kh sH, extent pad w kw sW]"
proof -
  note key = Conv2DKey_eq [OF t wt ok(1-4)] Conv2DKey_eq [OF u wt ok(1-4)]
  obtain b where b: "Conv2D t weight sH sW pad acti = Inr b" "yields b [n, m, extent pad h kh sH, extent pad w kw sW]"
    using Conv2D_yields [OF t wt(1,3) ok] by blast
  have "dim t ! 1 mod dim weight ! 1 = 0" "dim u ! 1 mod dim weight ! 1 = 0" "dim weight ! 1 \<noteq> 0"
    using shape4 [OF t(1,3)] shape4 [OF u(1,3)] shape4 [OF wt(1,3)] ok by simp_all
  note dims = this
  let ?k = "overwrite ([K_int sH, K_int sW, K_pad pad, K_acti acti] @ replicate (MAX_KEY_LENGTH * 2) (K_int 0)) 4 (tensor_key weight)"
  let ?m = "\<lambda>a v. new_Model\<lparr>m_conv2d := [(?k, a)], global_unique_id := v\<rparr>"
  have "get_or_create_conv2d st new_Model t weight sH sW pad acti = Inr (new_handle (st @ [b]) (?m (length st) (global_unique_id new_Model)) (length st))"
    unfolding get_or_create_conv2d_def key using dims b(1) by (simp add: new_Model_def cached_def file_key_def)
  moreover have "get_or_create_conv2d st1 (?m a v) u weight sH sW pad acti = Inr (new_handle st1 (?m a v) a)" for st1 a v
    using dims unfolding get_or_create_conv2d_def key by (simp add: cached_def)
  ultimately show ?thesis using b by (simp add: new_handle_def yields_def)
qed

theorem conv2d_cache_ignores_input_witness:
  "\<exists>st1 m1 q1 st2 m2 q2 a. get_or_create_conv2d [] new_Model (tensor_of [1, 3, 32, 32] :: unit tensor) (tensor_of [8, 3, 3, 3]) 1 1 PD_MODE_SAME AC_MODE_NONE = Inr (st1, m1, q1)
    \<and> get_or_create_conv2d st1 m1 (tensor_of [1, 3, 16, 16]) (tensor_of [8, 3, 3, 3]) 1 1 PD_MODE_SAME AC_MODE_NONE = Inr (st2, m2, q2)
    \<and> ptr q2 = Some a \<and> shape (outputs (st2 ! a) ! 0) = [1, 8, 32, 32]"
  using conv2d_cache_ignores_input [of "tensor_of [1, 3, 32, 32] :: unit tensor" 1 3 32 32 "tensor_of [1, 3, 16, 16]" 1 16 16
      "tensor_of [8, 3, 3, 3]" 8 3 3 3 1 1 "[]" PD_MODE_SAME AC_MODE_NONE]
  by (simp add: extent_def)

end
