(* ===== verification/Kahn.thy ===== *)
theory Kahn
  imports Py_Prelude "HOL-Library.AList"
begin

text \<open>
  The worklist loop that the model compiler uses four times: to look for cycles (\<open>Graph.has_loop\<close>), to list the
  operators (\<open>Graph.get_operator_list\<close>), to find what depends on weights only (\<open>Graph.preprocess_weights\<close>) and to order the
  nodes of a model file (\<open>load_onnx\<close>). A dictionary counts the predecessors of each node that are not done; a node
  enters the list when its count drops to zero. The loop ends for every input, since a count drops to zero once. For a
  dictionary that holds the numbers of predecessors the list it leaves is in topological order, and complete exactly
  when there is no cycle.
\<close>

section \<open>The loop\<close>

definition relax :: "'a \<Rightarrow> ('a \<times> int) list \<times> 'a list \<Rightarrow> (('a \<times> int) list \<times> 'a list) py" where
  "relax v = (\<lambda>(todos, ops).
     case map_of todos v of None \<Rightarrow> Inl KeyError
     | Some c \<Rightarrow> Inr (AList.update v (c - 1) todos, if c - 1 = 0 then ops @ [v] else ops))"

lemma relax_eq:
  "relax v (todos, ops) = (case map_of todos v of None \<Rightarrow> Inl KeyError
     | Some c \<Rightarrow> Inr (AList.update v (c - 1) todos, if c - 1 = 0 then ops @ [v] else ops))"
  by (simp add: relax_def)

definition positive :: "('a \<times> int) list \<Rightarrow> nat" where
  "positive todos = length (filter (\<lambda>(k, c). 0 < c) todos)"

lemma positive_update:
  "map_of todos v = Some c \<Longrightarrow> positive (AList.update v (c - 1) todos) + (if c - 1 = 0 then 1 else 0) \<le> positive todos"
  by (induction todos) (auto simp: positive_def)

lemma relax_positive:
  "foldR relax vs (todos, ops) = Inr (todos', ops') \<Longrightarrow> positive todos' + length ops' \<le> positive todos + length ops"
proof (induction vs arbitrary: todos ops)
  case (Cons v vs)
  then obtain c where c: "map_of todos v = Some c"
    "foldR relax vs (AList.update v (c - 1) todos, if c - 1 = 0 then ops @ [v] else ops) = Inr (todos', ops')"
    by (auto simp: relax_eq split: option.splits)
  from Cons.IH [OF c(2)] positive_update [OF c(1)] show ?case by (simp split: if_splits)
qed simp

text \<open>\<open>visit\<close> is what the callers do with a node besides; \<open>succs\<close> are the targets of its outgoing edges.\<close>

function kahn :: "('a \<Rightarrow> 'c \<Rightarrow> 'c py) \<Rightarrow> ('a \<Rightarrow> 'a list) \<Rightarrow> ('a \<times> int) list \<Rightarrow> 'a list \<Rightarrow> nat \<Rightarrow> 'c \<Rightarrow> ('a list \<times> 'c) py" where
  "kahn visit succs todos ops i acc =
     (if i < length ops
      then bindR (visit (ops ! i) acc) (\<lambda>acc.
           bindR (foldR relax (succs (ops ! i)) (todos, ops)) (\<lambda>r.
           kahn visit succs (fst r) (snd r) (i + 1) acc))
      else Inr (ops, acc))"
  by pat_completeness auto
termination
proof (relation "measure (\<lambda>(visit, succs, todos, ops, i, acc). positive todos + length ops - i)", goal_cases)
  case (2 visit succs todos ops i acc acc' r)
  from relax_positive [of "succs (ops ! i)" todos ops "fst r" "snd r"] 2(3,1) show ?case by simp
qed simp

declare kahn.simps [simp del]

section \<open>Correctness\<close>

definition deps :: "'a list \<Rightarrow> ('a \<Rightarrow> 'a list) \<Rightarrow> ('a \<times> 'a) set" where
  "deps nodes succs = {(u, v). u \<in> set nodes \<and> v \<in> set (succs u)}"

definition topological :: "('a \<times> 'a) set \<Rightarrow> 'a list \<Rightarrow> bool" where
  "topological R xs \<longleftrightarrow> (\<forall>j < length xs. \<forall>u. (u, xs ! j) \<in> R \<longrightarrow> u \<in> set (take j xs))"

definition indegree :: "'a list \<Rightarrow> ('a \<Rightarrow> 'a list) \<Rightarrow> 'a \<Rightarrow> nat" where
  "indegree nodes succs v = (\<Sum>u \<leftarrow> nodes. count_list (succs u) v)"

text \<open>
  What a caller has to provide: nodes without repetition, no edge out of them, and counts of the incoming edges. A count
  may include edges from outside (\<open>held\<close>), which the loop never takes away.
\<close>

locale worklist =
  fixes ok :: "'g \<Rightarrow> bool" and nodes :: "'g \<Rightarrow> 'a list" and succs :: "'g \<Rightarrow> 'a \<Rightarrow> 'a list"
    and held :: "'g \<Rightarrow> 'a \<Rightarrow> nat" and todos :: "'g \<Rightarrow> ('a \<times> int) list" and start :: "'g \<Rightarrow> 'a list"
  assumes distinct_nodes: "ok g \<Longrightarrow> distinct (nodes g)"
    and succs_closed: "ok g \<Longrightarrow> u \<in> set (nodes g) \<Longrightarrow> set (succs g u) \<subseteq> set (nodes g)"
    and todos_count: "ok g \<Longrightarrow> v \<in> set (nodes g) \<Longrightarrow> map_of (todos g) v = Some (int (indegree (nodes g) (succs g) v + held g v))"
    and start_eq: "ok g \<Longrightarrow> start g = filter (\<lambda>v. indegree (nodes g) (succs g) v + held g v = 0) (nodes g)"
begin

abbreviation R where "R g \<equiv> deps (nodes g) (succs g)"

text \<open>The edges into \<open>v\<close> from nodes that are not among the given ones, and from outside.\<close>

definition left :: "'g \<Rightarrow> 'a set \<Rightarrow> 'a \<Rightarrow> int" where
  "left g D v = int (indegree (filter (\<lambda>u. u \<notin> D) (nodes g)) (succs g) v + held g v)"

definition inv :: "'g \<Rightarrow> nat \<Rightarrow> ('a \<times> int) list \<Rightarrow> 'a list \<Rightarrow> bool" where
  "inv g i td ops \<longleftrightarrow> i \<le> length ops \<and> distinct ops \<and> set ops \<subseteq> set (nodes g) \<and> topological (R g) ops
     \<and> (\<forall>v \<in> set (nodes g). map_of td v = Some (left g (set (take i ops)) v) \<and> (v \<in> set ops \<longleftrightarrow> left g (set (take i ops)) v = 0))"

lemma left_0: "left g D v = 0 \<longleftrightarrow> held g v = 0 \<and> (\<forall>u. (u, v) \<in> R g \<longrightarrow> u \<in> D)"
  unfolding left_def of_nat_eq_0_iff add_is_0 by (auto simp: indegree_def deps_def sum_list_eq_0_iff count_list_0_iff)

lemma left_nonneg: "0 \<le> left g D v"
  by (simp add: left_def)

lemma left_insert: assumes g: "ok g" shows "w \<in> set (nodes g) \<Longrightarrow> w \<notin> D \<Longrightarrow> left g (insert w D) v = left g D v - int (count_list (succs g w) v)"
proof -
  have "w \<in> set xs \<Longrightarrow> distinct xs \<Longrightarrow> w \<notin> D \<Longrightarrow>
    indegree (filter (\<lambda>u. u \<notin> D) xs) (succs g) v = count_list (succs g w) v + indegree (filter (\<lambda>u. u \<notin> insert w D) xs) (succs g) v" for xs
  proof (induction xs)
    case (Cons x xs)
    show ?case
    proof (cases "x = w")
      case True
      have "filter (\<lambda>u. u \<noteq> w \<and> u \<notin> D) xs = filter (\<lambda>u. u \<notin> D) xs" using Cons.prems True by (intro filter_cong) auto
      thus ?thesis using True Cons.prems by (simp add: indegree_def)
    qed (use Cons in \<open>auto simp: indegree_def\<close>)
  qed simp
  from this [of "nodes g"] distinct_nodes [OF g] show "w \<in> set (nodes g) \<Longrightarrow> w \<notin> D \<Longrightarrow> left g (insert w D) v = left g D v - int (count_list (succs g w) v)"
    by (simp add: left_def)
qed

end

text \<open>The inner loop: counts drop by the number of edges, and the nodes whose count becomes zero are appended.\<close>

lemma foldR_relax:
  assumes "set vs \<subseteq> N" "\<And>v. v \<in> N \<Longrightarrow> map_of td v = Some (f v)" "\<And>v. v \<in> N \<Longrightarrow> int (count_list vs v) \<le> f v"
  shows "\<exists>td' new. foldR relax vs (td, ops) = Inr (td', ops @ new) \<and> distinct new
    \<and> set new = {v \<in> N. 0 < f v \<and> f v = int (count_list vs v)} \<and> (\<forall>v \<in> N. map_of td' v = Some (f v - int (count_list vs v)))"
  using assms
proof (induction vs arbitrary: td ops f)
  case Nil
  show ?case using Nil.prems by (auto intro!: exI [of _ "[]"])
next
  case (Cons v vs)
  let ?f = "f(v := f v - 1)" and ?td = "AList.update v (f v - 1) td" and ?ops = "if f v - 1 = 0 then ops @ [v] else ops"
  have v: "v \<in> N" "1 \<le> f v" using Cons.prems(1) Cons.prems(3) [of v] by auto
  have cnt: "int (count_list vs u) \<le> ?f u" if "u \<in> N" for u
    using Cons.prems(3) [OF that] by (cases "u = v") simp_all
  have vs: "set vs \<subseteq> N" using Cons.prems(1) by simp
  have td: "map_of ?td u = Some (?f u)" if "u \<in> N" for u using Cons.prems(2) [OF that] by (simp add: update_conv')
  obtain td' new where r: "foldR relax vs (?td, ?ops) = Inr (td', ?ops @ new)" "distinct new"
    "set new = {u \<in> N. 0 < ?f u \<and> ?f u = int (count_list vs u)}" "\<forall>u \<in> N. map_of td' u = Some (?f u - int (count_list vs u))"
    using Cons.IH [of ?td ?f ?ops, OF vs td cnt] by blast
  have run: "foldR relax (v # vs) (td, ops) = Inr (td', ops @ (if f v - 1 = 0 then v # new else new))"
    using r(1) Cons.prems(2) [OF v(1)] by (simp add: relax_eq)
  moreover have "f v - 1 = 0 \<Longrightarrow> v \<notin> set new" using r(3) by simp
  moreover have "set (if f v - 1 = 0 then v # new else new) = {u \<in> N. 0 < f u \<and> f u = int (count_list (v # vs) u)}"
  proof -
    have "u \<in> set (if f v - 1 = 0 then v # new else new) \<longleftrightarrow> u \<in> N \<and> 0 < f u \<and> f u = int (count_list (v # vs) u)" for u
      using r(3) v cnt [OF v(1)] by (cases "u = v") auto
    thus ?thesis by blast
  qed
  moreover have "\<forall>u \<in> N. map_of td' u = Some (f u - int (count_list (v # vs) u))" using r(4) by simp
  moreover have "distinct (if f v - 1 = 0 then v # new else new)" using r(2) calculation(2) by simp
  ultimately show ?case by blast
qed

text \<open>Apart from \<open>visit\<close> the run is that of the bare loop.\<close>

lemma kahn_visit:
  "kahn (\<lambda>_. Inr) succs td ops i () = Inr (ops', ()) \<Longrightarrow>
   kahn visit succs td ops i acc = bindR (foldR visit (drop i ops') acc) (\<lambda>acc. Inr (ops', acc)) \<and> take (length ops) ops' = ops"
proof (induction "\<lambda>_ :: 'a. Inr :: unit \<Rightarrow> unit py" succs td ops i "()" arbitrary: acc rule: kahn.induct)
  case (1 succs td ops i)
  show ?case
  proof (cases "i < length ops")
    case True
    obtain td1 ops1 where r: "foldR relax (succs (ops ! i)) (td, ops) = Inr (td1, ops1)"
      and k: "kahn (\<lambda>_. Inr) succs td1 ops1 (i + 1) () = Inr (ops', ())"
      using 1(2) True by (subst (asm) kahn.simps) (auto simp: bindR_Inr_iff)
    have IH: "kahn visit succs td1 ops1 (i + 1) acc = bindR (foldR visit (drop (i + 1) ops') acc) (\<lambda>acc. Inr (ops', acc))"
      "take (length ops1) ops' = ops1" for acc
      using 1(1) [OF True refl r, of acc] k by simp_all
    have "take (length ops) ops1 = ops"
    proof -
      have "foldR relax vs (a, b) = Inr (c, d) \<Longrightarrow> take (length b) d = b" for vs a b c and d :: "'a list"
      proof (induction vs arbitrary: a b)
        case (Cons v vs)
        then obtain a1 b1 where "relax v (a, b) = Inr (a1, b1)" "foldR relax vs (a1, b1) = Inr (c, d)" by (auto simp: bindR_Inr_iff)
        moreover from this(1) have "take (length b) b1 = b \<and> length b \<le> length b1" by (auto simp: relax_eq split: option.splits if_splits)
        ultimately show ?case using Cons.IH [of a1 b1] by (metis min.absorb1 take_take)
      qed simp
      from this [OF r] show ?thesis .
    qed
    moreover from this have "length ops \<le> length ops1" by (metis length_take min.cobounded1 nat_le_linear take_all)
    ultimately have t: "take (length ops) ops' = ops" using IH(2) by (metis min.absorb1 take_take)
    hence "i < length ops'" "ops' ! i = ops ! i" using True by (metis length_take min_less_iff_conj) (metis True nth_take t)
    hence "drop i ops' = ops ! i # drop (i + 1) ops'" by (simp add: Cons_nth_drop_Suc [symmetric])
    thus ?thesis using True r IH(1) t by (subst kahn.simps) (cases "visit (ops ! i) acc", auto simp: bindR_assoc)
  next
    case False
    hence "ops' = ops" using 1(2) by (subst (asm) kahn.simps) simp
    thus ?thesis using False by (subst kahn.simps) simp
  qed
qed

lemma topological_acyclic:
  assumes "topological S xs" "fst ` S \<union> snd ` S \<subseteq> set xs" "distinct xs"
  shows "acyclic S"
proof -
  have "\<exists>i j. i < j \<and> j < length xs \<and> u = xs ! i \<and> v = xs ! j" if "(u, v) \<in> S\<^sup>+" for u v
    using that
  proof (induction rule: trancl_induct)
    case (base v)
    then obtain j where j: "j < length xs" "v = xs ! j" using assms(2) by (force simp: in_set_conv_nth)
    with base assms(1) have "u \<in> set (take j xs)" by (auto simp: topological_def)
    then obtain i where "i < j" "u = xs ! i" using j by (auto simp: in_set_conv_nth)
    thus ?case using j by blast
  next
    case (step v w)
    then obtain i j where ij: "i < j" "j < length xs" "u = xs ! i" "v = xs ! j" by blast
    obtain k where k: "k < length xs" "w = xs ! k" using step(2) assms(2) by (force simp: in_set_conv_nth)
    with step(2) assms(1) have "v \<in> set (take k xs)" by (auto simp: topological_def)
    then obtain j' where "j' < k" "v = xs ! j'" using k by (auto simp: in_set_conv_nth)
    hence "j < k" using ij k nth_eq_iff_index_eq [OF assms(3), of j j'] by simp
    hence "i < k" using ij(1) by simp
    thus ?case using ij(3) k by blast
  qed
  moreover have False if "i < j" "j < length xs" "u = xs ! i" "u = xs ! j" for i j u
    using nth_eq_iff_index_eq [OF assms(3), of i j] that by simp
  ultimately show ?thesis unfolding acyclic_def by blast
qed

context worklist begin

lemma inv_start:
  assumes g: "ok g"
  shows "inv g 0 (todos g) (start g)"
proof -
  have l: "left g {} v = int (indegree (nodes g) (succs g) v + held g v)" for v by (simp add: left_def)
  have "left g {} v = 0" if "v \<in> set (start g)" for v using that start_eq [OF g] l by simp
  hence "topological (R g) (start g)" unfolding topological_def by (metis empty_iff left_0 nth_mem)
  thus ?thesis using start_eq [OF g] distinct_nodes [OF g] todos_count [OF g] l by (auto simp: inv_def)
qed

lemma inv_step:
  assumes g: "ok g" and I: "inv g i td ops" and i: "i < length ops"
  shows "\<exists>td' new. foldR relax (succs g (ops ! i)) (td, ops) = Inr (td', ops @ new) \<and> inv g (Suc i) td' (ops @ new)"
proof -
  let ?w = "ops ! i" and ?D = "set (take i ops)"
  have ops: "distinct ops" "set ops \<subseteq> set (nodes g)" "topological (R g) ops" using I by (simp_all add: inv_def)
  have td: "map_of td v = Some (left g ?D v)" and old: "v \<in> set ops \<longleftrightarrow> left g ?D v = 0" if "v \<in> set (nodes g)" for v
    using I that by (simp_all add: inv_def)
  have w: "?w \<in> set (nodes g)" using ops(2) nth_mem [OF i] by blast
  have "?w \<notin> ?D" using ops(1) i by (auto simp: distinct_conv_nth in_set_conv_nth)
  note w = w this
  note l = left_insert [OF g w]
  have c: "int (count_list (succs g ?w) v) \<le> left g ?D v" for v using l [of v] left_nonneg [of g "insert ?w ?D" v] by simp
  obtain td' new where r: "foldR relax (succs g ?w) (td, ops) = Inr (td', ops @ new)" "distinct new"
    "set new = {v \<in> set (nodes g). 0 < left g ?D v \<and> left g ?D v = int (count_list (succs g ?w) v)}"
    "\<forall>v \<in> set (nodes g). map_of td' v = Some (left g ?D v - int (count_list (succs g ?w) v))"
    using foldR_relax [of "succs g ?w" "set (nodes g)" td "left g ?D" ops, OF succs_closed [OF g w(1)] td c] by blast
  have D: "set (take (Suc i) (ops @ new)) = insert ?w ?D" using i by (simp add: take_Suc_conv_app_nth)
  have new: "set new = {v \<in> set (nodes g). left g ?D v \<noteq> 0 \<and> left g (insert ?w ?D) v = 0}"
    unfolding r(3) using l left_nonneg by (metis (no_types, lifting) diff_eq_eq add_0 order.strict_iff_order)
  have opset: "set ops = {v \<in> set (nodes g). left g ?D v = 0}" using old ops(2) by blast
  have mono: "left g ?D v = 0 \<Longrightarrow> left g (insert ?w ?D) v = 0" for v by (simp add: left_0)
  have "set ops \<inter> set new = {}" unfolding new opset by blast
  hence "distinct (ops @ new)" using ops(1) r(2) by simp
  moreover have "topological (R g) (ops @ new)" unfolding topological_def
  proof (intro allI impI)
    fix j u assume j: "j < length (ops @ new)" and u: "(u, (ops @ new) ! j) \<in> R g"
    show "u \<in> set (take j (ops @ new))"
    proof (cases "j < length ops")
      case True
      thus ?thesis using ops(3) u by (simp add: topological_def nth_append)
    next
      case False
      hence "(ops @ new) ! j \<in> set new" using j by (simp add: nth_append)
      hence "left g (insert ?w ?D) ((ops @ new) ! j) = 0" unfolding new by simp
      hence "u \<in> insert ?w ?D" using u unfolding left_0 by blast
      moreover have "insert ?w ?D \<subseteq> set (take j (ops @ new))" using i False unfolding D [symmetric] by (intro set_take_subset_set_take) simp
      ultimately show ?thesis by blast
    qed
  qed
  moreover have "map_of td' v = Some (left g (insert ?w ?D) v) \<and> (v \<in> set (ops @ new) \<longleftrightarrow> left g (insert ?w ?D) v = 0)"
    if "v \<in> set (nodes g)" for v
  proof
    show "map_of td' v = Some (left g (insert ?w ?D) v)" using r(4) that l [of v] by simp
    show "v \<in> set (ops @ new) \<longleftrightarrow> left g (insert ?w ?D) v = 0" unfolding set_append new opset using that mono [of v] by blast
  qed
  moreover have "set (ops @ new) \<subseteq> set (nodes g)" unfolding set_append new opset by blast
  moreover have "Suc i \<le> length (ops @ new)" using i by simp
  ultimately have "inv g (Suc i) td' (ops @ new)" unfolding inv_def D by blast
  thus ?thesis using r(1) by blast
qed

lemma kahn_inv:
  assumes g: "ok g" and "inv g i td ops"
  shows "\<exists>td' ops'. kahn (\<lambda>_. Inr) (succs g) td ops i () = Inr (ops', ()) \<and> inv g (length ops') td' ops'"
  using assms(2)
proof (induction "length (nodes g) - i" arbitrary: i td ops)
  case 0
  have d: "distinct ops" "set ops \<subseteq> set (nodes g)" using 0(2) by (simp_all add: inv_def)
  have "length ops \<le> length (nodes g)"
    using card_mono [OF finite_set d(2)] distinct_card [OF d(1)] distinct_card [OF distinct_nodes [OF g]] by simp
  hence "length ops = i" using 0 by (simp add: inv_def)
  thus ?case using 0(2) by (subst kahn.simps) auto
next
  case (Suc n)
  show ?case
  proof (cases "i < length ops")
    case True
    from inv_step [OF g Suc(3) True] obtain td' new where r: "foldR relax (succs g (ops ! i)) (td, ops) = Inr (td', ops @ new)"
      "inv g (Suc i) td' (ops @ new)" by blast
    have "n = length (nodes g) - Suc i" using Suc(2) by simp
    from Suc(1) [OF this r(2)] r(1) True show ?thesis by (subst kahn.simps) simp
  next
    case False
    hence "length ops = i" using Suc(3) by (simp add: inv_def)
    thus ?thesis using Suc(3) by (subst kahn.simps) auto
  qed
qed

text \<open>The list that the loop leaves: in topological order, with exactly the nodes whose predecessors are all in it.\<close>

definition order :: "'g \<Rightarrow> 'a list" where
  "order g = (case kahn (\<lambda>_. Inr) (succs g) (todos g) (start g) 0 () of Inr (ops, _) \<Rightarrow> ops | Inl _ \<Rightarrow> [])"

lemma kahn_order:
  assumes g: "ok g"
  shows "kahn visit (succs g) (todos g) (start g) 0 acc = bindR (foldR visit (order g) acc) (\<lambda>acc. Inr (order g, acc))"
    and "distinct (order g)" "set (order g) \<subseteq> set (nodes g)" "topological (R g) (order g)"
    and "v \<in> set (nodes g) \<Longrightarrow> v \<in> set (order g) \<longleftrightarrow> held g v = 0 \<and> (\<forall>u. (u, v) \<in> R g \<longrightarrow> u \<in> set (order g))"
proof -
  obtain td' ops where k: "kahn (\<lambda>_. Inr) (succs g) (todos g) (start g) 0 () = Inr (ops, ())" and I: "inv g (length ops) td' ops"
    using kahn_inv [OF g inv_start [OF g]] by blast
  have o: "order g = ops" by (simp add: order_def k)
  show "kahn visit (succs g) (todos g) (start g) 0 acc = bindR (foldR visit (order g) acc) (\<lambda>acc. Inr (order g, acc))"
    using kahn_visit [OF k, of visit acc] o by simp
  show "distinct (order g)" "set (order g) \<subseteq> set (nodes g)" "topological (R g) (order g)" using I o by (simp_all add: inv_def)
  show "v \<in> set (nodes g) \<Longrightarrow> v \<in> set (order g) \<longleftrightarrow> held g v = 0 \<and> (\<forall>u. (u, v) \<in> R g \<longrightarrow> u \<in> set (order g))"
    using I o by (simp add: inv_def left_0)
qed

end

text \<open>Without edges from outside the list is complete exactly when there is no cycle.\<close>

locale closed_worklist = worklist +
  assumes not_held: "ok g \<Longrightarrow> v \<in> set (nodes g) \<Longrightarrow> held g v = 0"
begin

lemma complete_iff_acyclic:
  assumes g: "ok g"
  shows "length (order g) = length (nodes g) \<longleftrightarrow> acyclic (R g)"
proof
  assume "length (order g) = length (nodes g)"
  hence "card (set (order g)) = card (set (nodes g))" by (simp add: distinct_card kahn_order(2) [OF g] distinct_nodes [OF g])
  hence "set (order g) = set (nodes g)" using kahn_order(3) [OF g] by (simp add: card_subset_eq)
  thus "acyclic (R g)" using topological_acyclic [OF kahn_order(4) [OF g] _ kahn_order(2) [OF g]] succs_closed [OF g] by (fastforce simp: deps_def)
next
  assume ac: "acyclic (R g)"
  have "R g \<subseteq> set (nodes g) \<times> set (nodes g)" using succs_closed [OF g] by (auto simp: deps_def)
  hence "wf (R g)" using ac by (meson finite_SigmaI finite_acyclic_wf finite_set finite_subset)
  have "v \<in> set (nodes g) \<longrightarrow> v \<in> set (order g)" for v
  proof (induction v rule: wf_induct_rule [OF \<open>wf (R g)\<close>])
    case (1 v)
    show ?case using 1 kahn_order(5) [OF g, of v] not_held [OF g, of v] by (auto simp: deps_def)
  qed
  hence "set (order g) = set (nodes g)" using kahn_order(3) [OF g] by blast
  thus "length (order g) = length (nodes g)" using distinct_card [OF kahn_order(2) [OF g]] distinct_card [OF distinct_nodes [OF g]] by simp
qed

end

end
