(* ===== verification/Dbocg_Graph.thy ===== *)
theory Dbocg_Graph
  imports Dbocg_Model Kahn
begin

text \<open>
  \<open>graph.py\<close>: the computation graph. \<open>inEdges\<close> and \<open>outEdges\<close> map each operator to the edges that end and that start at
  it; they are kept in step by \<open>add_edge\<close>, \<open>remove_edge\<close> and \<open>remove_node\<close>. The builder methods (\<open>conv2d\<close>, \<open>Graph_relu\<close>, \<open>reshape\<close> and
  the others) ask the model for an operator and connect it to the operators of its inputs.

  An \<open>OpMap\<close> is a list of operators with their edges, in the order of the sorted dictionary; looking up an operator that
  is missing adds it with no edges, as in the code. The positions at which the sorted containers put new elements are the
  parameter \<open>so\<close>. Costs are of an arbitrary type with addition and comparison; every operator has the same cost.
\<close>

section \<open>Edges and operator maps\<close>

record edge =
  srcOp :: op
  dstOp :: op
  srcIdx :: nat
  dstIdx :: nat

type_synonym opmap = "(op \<times> edge list) list"

record sorder =
  op_pos :: "op list \<Rightarrow> op \<Rightarrow> nat"
  edge_pos :: "edge list \<Rightarrow> edge \<Rightarrow> nat"

definition om_contains :: "opmap \<Rightarrow> op \<Rightarrow> bool" where
  "om_contains om q \<longleftrightarrow> q \<in> set (map fst om)"

definition om_get :: "opmap \<Rightarrow> op \<Rightarrow> edge list" where
  "om_get om q = (case map_of om q of Some es \<Rightarrow> es | None \<Rightarrow> [])"

text \<open>The side effect of \<open>OpMap.__getitem__\<close>.\<close>

definition om_touch :: "sorder \<Rightarrow> op \<Rightarrow> opmap \<Rightarrow> opmap" where
  "om_touch so q om = (if om_contains om q then om else insert_at (op_pos so (map fst om) q) (q, []) om)"

definition om_set :: "op \<Rightarrow> edge list \<Rightarrow> opmap \<Rightarrow> opmap" where
  "om_set q es om = AList.update q es om"

definition om_remove :: "op \<Rightarrow> opmap \<Rightarrow> opmap" where
  "om_remove q om = AList.delete q om"

definition om_add :: "sorder \<Rightarrow> op \<Rightarrow> edge \<Rightarrow> opmap \<Rightarrow> opmap" where
  "om_add so q e om = (let om = om_touch so q om in om_set q (sorted_add (edge_pos so) e (om_get om q)) om)"

section \<open>Graphs\<close>

record 'f graph =
  g_model :: model
  totalCost :: 'f
  inEdges :: opmap
  outEdges :: opmap
  subst_history :: "(op list \<times> op list) list"

definition new_Graph :: "'f::zero graph" where
  "new_Graph = \<lparr>g_model = new_Model, totalCost = 0, inEdges = [], outEdges = [], subst_history = []\<rparr>"

text \<open>The assertion of \<open>add_edge\<close> compares a number with an enumeration member and never fails.\<close>

definition add_edge :: "sorder \<Rightarrow> op \<Rightarrow> op \<Rightarrow> nat \<Rightarrow> nat \<Rightarrow> 'f graph \<Rightarrow> 'f graph" where
  "add_edge so src dst si di g =
     (let e = \<lparr>srcOp = src, dstOp = dst, srcIdx = si, dstIdx = di\<rparr>
      in g\<lparr>inEdges := om_add so dst e (inEdges g), outEdges := om_add so src e (outEdges g)\<rparr>)"

definition has_edge :: "sorder \<Rightarrow> op \<Rightarrow> op \<Rightarrow> nat \<Rightarrow> nat \<Rightarrow> 'f graph \<Rightarrow> 'f graph \<times> bool" where
  "has_edge so src dst si di g =
     (let om = om_touch so dst (inEdges g)
      in (g\<lparr>inEdges := om\<rparr>, \<lparr>srcOp = src, dstOp = dst, srcIdx = si, dstIdx = di\<rparr> \<in> set (om_get om dst)))"

definition remove_edge :: "edge \<Rightarrow> 'f graph \<Rightarrow> 'f graph py" where
  "remove_edge e g =
     py_assert (om_contains (outEdges g) (srcOp e)) (py_assert (om_contains (inEdges g) (dstOp e))
       (bindR (sorted_remove e (om_get (outEdges g) (srcOp e))) (\<lambda>outs.
        bindR (sorted_remove e (om_get (inEdges g) (dstOp e))) (\<lambda>ins.
        Inr (g\<lparr>outEdges := om_set (srcOp e) outs (outEdges g), inEdges := om_set (dstOp e) ins (inEdges g)\<rparr>)))))"

definition remove_node :: "sorder \<Rightarrow> op \<Rightarrow> 'f graph \<Rightarrow> 'f graph py" where
  "remove_node so old g =
     py_assert (om_contains (outEdges g) old) (py_assert (om_get (outEdges g) old = [])
       (let g = g\<lparr>inEdges := om_touch so old (inEdges g)\<rparr>
        in bindR (foldR remove_edge (om_get (inEdges g) old) g) (\<lambda>g.
           py_assert (om_get (inEdges g) old = [])
             (Inr (g\<lparr>inEdges := om_remove old (inEdges g), outEdges := om_remove old (outEdges g)\<rparr>)))))"

text \<open>\<open>op.ptr\<close>: the operator object behind a handle; a handle without one has no attributes.\<close>

definition deref :: "'d store \<Rightarrow> op \<Rightarrow> 'd opbase py" where
  "deref h q = (case ptr q of Some a \<Rightarrow> Inr (h ! a) | None \<Rightarrow> Inl AttributeError)"

text \<open>\<open>t = copy.deepcopy(op.ptr.outputs[0]); t.op = op\<close>\<close>

definition result_tensor :: "'d store \<Rightarrow> op \<Rightarrow> 'd tensor py" where
  "result_tensor h q = bindR (deref h q) (\<lambda>b. bindR (py_get (outputs b) 0) (\<lambda>t. Inr (t\<lparr>tensor_op := q\<rparr>)))"

definition connect1 :: "sorder \<Rightarrow> 'd store \<Rightarrow> 'f graph \<Rightarrow> model \<Rightarrow> op \<Rightarrow> op \<Rightarrow> nat \<Rightarrow> ('d store \<times> 'f graph \<times> 'd tensor) py" where
  "connect1 so h g m q src i =
     (let g = add_edge so src q i 0 (g\<lparr>g_model := m\<rparr>)
      in bindR (result_tensor h q) (\<lambda>t. Inr (h, g, t)))"

definition connect2 :: "sorder \<Rightarrow> 'd store \<Rightarrow> 'f graph \<Rightarrow> model \<Rightarrow> op \<Rightarrow> 'd tensor \<Rightarrow> 'd tensor \<Rightarrow> ('d store \<times> 'f graph \<times> 'd tensor) py" where
  "connect2 so h g m q t1 t2 =
     (let g = add_edge so (tensor_op t1) q (idx t1) 0 (g\<lparr>g_model := m\<rparr>);
          g = add_edge so (tensor_op t2) q (idx t2) 1 g
      in bindR (result_tensor h q) (\<lambda>t. Inr (h, g, t)))"

definition new_input :: "sorder \<Rightarrow> 'd store \<Rightarrow> 'f graph \<Rightarrow> int list \<Rightarrow> ('d store \<times> 'f graph \<times> 'd tensor) py" where
  "new_input so h g dims =
     py_assert (length dims < 16)
       (bindR (Tensor (length dims) dims GUID_INPUT None) (\<lambda>inp.
        bindR (create_input h (g_model g) inp OP_INPUT) (\<lambda>(h, m, q). connect1 so h g m q (tensor_op inp) 0)))"

definition new_weight :: "sorder \<Rightarrow> 'd store \<Rightarrow> 'f graph \<Rightarrow> int list \<Rightarrow> (int list \<Rightarrow> 'd py) option \<Rightarrow> ('d store \<times> 'f graph \<times> 'd tensor) py" where
  "new_weight so h g dims data =
     py_assert (length dims < 16)
       (bindR (Tensor (length dims) dims GUID_WEIGHT data) (\<lambda>weight.
        bindR (create_weight h (g_model g) weight OP_WEIGHT) (\<lambda>(h, m, q). connect1 so h g m q (tensor_op weight) 0)))"

definition conv2d :: "sorder \<Rightarrow> 'd store \<Rightarrow> 'f graph \<Rightarrow> 'd tensor \<Rightarrow> 'd tensor \<Rightarrow> int \<Rightarrow> int \<Rightarrow> PaddingMode \<Rightarrow> ActiMode
    \<Rightarrow> ('d store \<times> 'f graph \<times> 'd tensor) py" where
  "conv2d so h g inp weight sH sW pad acti =
     bindR (get_or_create_conv2d h (g_model g) inp weight sH sW pad acti) (\<lambda>(h, m, q).
     py_assert (q \<noteq> INVALID_OP) (connect2 so h g m q inp weight))"

definition element :: "sorder \<Rightarrow> 'd store \<Rightarrow> 'f graph \<Rightarrow> OpType \<Rightarrow> 'd tensor \<Rightarrow> 'd tensor \<Rightarrow> ('d store \<times> 'f graph \<times> 'd tensor) py" where
  "element so h g ty t1 t2 =
     py_assert (broadcastable t1 t2)
       (bindR (get_or_create_element h (g_model g) ty t1 t2) (\<lambda>(h, m, q). connect2 so h g m q t1 t2))"

definition matmul :: "sorder \<Rightarrow> 'd store \<Rightarrow> 'f graph \<Rightarrow> 'd tensor \<Rightarrow> 'd tensor \<Rightarrow> ActiMode \<Rightarrow> ('d store \<times> 'f graph \<times> 'd tensor) py" where
  "matmul so h g inp weight acti =
     bindR (get_or_create_matmul h (g_model g) inp weight acti) (\<lambda>(h, m, q).
     py_assert (q \<noteq> INVALID_OP) (connect2 so h g m q inp weight))"

text \<open>\<open>avg\<close> stands for the conversion by numpy of the list of averages to an array.\<close>

definition pool2d_avg :: "sorder \<Rightarrow> (int \<Rightarrow> int \<Rightarrow> int list \<Rightarrow> 'd py) \<Rightarrow> 'd store \<Rightarrow> 'f graph \<Rightarrow> 'd tensor \<Rightarrow> int \<Rightarrow> int \<Rightarrow> int \<Rightarrow> int
    \<Rightarrow> PaddingMode \<Rightarrow> ActiMode \<Rightarrow> ('d store \<times> 'f graph \<times> 'd tensor) py" where
  "pool2d_avg so avg h g inp kH kW sH sW pad acti =
     bindR (new_weight so h g [dim inp ! 1, 1, kH, kW] (Some (avg kH kW))) (\<lambda>(h, g, weight).
     bindR (get_or_create_pool2d h (g_model g) inp weight OP_POOL2D_AVG kH kW sH sW pad acti) (\<lambda>(h, m, q).
     connect2 so h g m q inp weight))"

text \<open>A new activation operator resets the output index of its input before the edge is added.\<close>

definition Graph_relu :: "sorder \<Rightarrow> 'd store \<Rightarrow> 'f graph \<Rightarrow> 'd tensor \<Rightarrow> bool \<Rightarrow> ('d store \<times> 'f graph \<times> 'd tensor) py" where
  "Graph_relu so h g inp inpl =
     bindR (get_or_create_activation h (g_model g) inp OP_RELU inpl) (\<lambda>(h', m, q).
     py_assert (q \<noteq> INVALID_OP)
       (connect1 so h' g m q (tensor_op inp) (if length h' = length h then idx inp else 0)))"

definition reshape_zeros :: "'d tensor \<Rightarrow> int list \<Rightarrow> int list py" where
  "reshape_zeros inp shp =
     foldR (\<lambda>i shp. if shp ! i = 0 then bindR (py_get (dim inp) (int i)) (\<lambda>d. Inr (shp[i := d])) else Inr shp) [0..<length shp] shp"

definition reshape_divide :: "int list \<Rightarrow> int \<Rightarrow> int py" where
  "reshape_divide shp sz =
     foldR (\<lambda>i sz. if shp ! i \<noteq> -1
         then bindR (py_mod sz (shp ! i)) (\<lambda>r. py_assert (r = 0) (py_div sz (shp ! i))) else Inr sz) [0..<length shp] sz"

definition reshape_fill :: "int list \<Rightarrow> int \<Rightarrow> int list \<times> int" where
  "reshape_fill shp sz =
     fold (\<lambda>i (shp, sz). if shp ! i = -1 then (shp[i := sz], 1) else (shp, sz)) [0..<length shp] (shp, sz)"

definition reshape :: "sorder \<Rightarrow> 'd store \<Rightarrow> 'f graph \<Rightarrow> 'd tensor \<Rightarrow> int list \<Rightarrow> ('d store \<times> 'f graph \<times> 'd tensor) py" where
  "reshape so h g inp shp =
     bindR (reshape_zeros inp shp) (\<lambda>shp.
     bindR (reshape_divide shp (volume inp)) (\<lambda>sz.
     let (shp, sz) = reshape_fill shp sz
     in py_assert (sz = 1)
       (bindR (get_or_create_reshape h (g_model g) inp shp) (\<lambda>(h, m, q). connect1 so h g m q (tensor_op inp) (idx inp)))))"

definition transpose :: "sorder \<Rightarrow> 'd store \<Rightarrow> 'f graph \<Rightarrow> 'd tensor \<Rightarrow> int list \<Rightarrow> bool \<Rightarrow> ('d store \<times> 'f graph \<times> 'd tensor) py" where
  "transpose so h g inp perm shuf =
     bindR (get_or_create_transpose h (g_model g) inp perm shuf) (\<lambda>(h, m, q). connect1 so h g m q (tensor_op inp) (idx inp))"

section \<open>Orders of a graph\<close>

definition graph_nodes :: "'f graph \<Rightarrow> op list" where
  "graph_nodes g = map fst (inEdges g)"

definition graph_succs :: "'f graph \<Rightarrow> op \<Rightarrow> op list" where
  "graph_succs g q = map dstOp (om_get (outEdges g) q)"

text \<open>The dictionary \<open>todos\<close>: how many incoming edges start at an operator of the graph.\<close>

definition graph_todos :: "'f graph \<Rightarrow> (op \<times> int) list" where
  "graph_todos g = map (\<lambda>(q, es). (q, int (length (filter (\<lambda>e. guid (srcOp e) > GUID_PRESERVED) es)))) (inEdges g)"

definition graph_start :: "'f graph \<Rightarrow> op list" where
  "graph_start g = map fst (filter (\<lambda>(q, c). c = 0) (graph_todos g))"

definition has_loop :: "sorder \<Rightarrow> 'f graph \<Rightarrow> ('f graph \<times> bool) py" where
  "has_loop so g =
     bindR (kahn (\<lambda>q om. Inr (om_touch so q om)) (graph_succs g) (graph_todos g) (graph_start g) 0 (outEdges g)) (\<lambda>(ops, om).
     Inr (g\<lparr>outEdges := om\<rparr>, length ops < length (inEdges g)))"

definition get_operator_list :: "sorder \<Rightarrow> 'd store \<Rightarrow> 'f graph \<Rightarrow> ('f graph \<times> op list) py" where
  "get_operator_list so h g =
     bindR (kahn (\<lambda>q (om, ops). bindR (deref h q) (\<lambda>b.
         Inr (om_touch so q om, if op_type b = OP_INPUT \<or> op_type b = OP_WEIGHT then ops else ops @ [q])))
       (graph_succs g) (graph_todos g) (graph_start g) 0 (outEdges g, [])) (\<lambda>(opList, om, ops).
     py_assert (length opList = length (inEdges g)) (Inr (g\<lparr>outEdges := om\<rparr>, ops)))"

definition total_cost :: "'f \<Rightarrow> 'f::{zero, plus, ord} graph \<Rightarrow> ('f graph \<times> 'f) py" where
  "total_cost opCost g =
     (if 0 < totalCost g then Inr (g, totalCost g)
      else bindR (foldR (\<lambda>(q, _) total. if ptr q = None then Inl AttributeError else Inr (total + opCost)) (inEdges g) 0) (\<lambda>total.
        Inr (g\<lparr>totalCost := total\<rparr>, total)))"

section \<open>Checks, weights and attributes\<close>

definition check_edge :: "sorder \<Rightarrow> 'd store \<Rightarrow> edge \<Rightarrow> 'f graph \<Rightarrow> 'f graph py" where
  "check_edge so h e g =
     (let (g, found) = has_edge so (srcOp e) (dstOp e) (srcIdx e) (dstIdx e) g
      in py_assert found
        (if ptr (srcOp e) = None then Inr g
         else bindR (deref h (srcOp e)) (\<lambda>sb. bindR (py_get (outputs sb) (int (srcIdx e))) (\<lambda>st.
              bindR (deref h (dstOp e)) (\<lambda>db. bindR (py_get (inputs db) (int (dstIdx e))) (\<lambda>dt.
              py_assert (numDim st = numDim dt)
                (py_assert (list_all (\<lambda>i. dim st ! i = dim dt ! i \<or> (op_type sb = OP_CONV2D \<and> i = 0)
                     \<or> (broadcastable st dt \<and> op_type db = OP_EW_ADD)) [0..<numDim st])
                  (Inr g))))))))"

definition check_correctness :: "sorder \<Rightarrow> 'd store \<Rightarrow> 'f graph \<Rightarrow> ('f graph \<times> bool) py" where
  "check_correctness so h g =
     bindR (foldR (\<lambda>(q, es) g. foldR (check_edge so h) es g) (outEdges g) g) (\<lambda>g. Inr (g, True))"

text \<open>
  \<open>preprocess_weights\<close>: copy the graph, find the operators that depend on weights only, and remove those of them that
  nothing uses. The loop of the second step changes nothing, but it reads the type of the source of every edge into an
  operator that is neither input nor weight.
\<close>

definition pw_clone :: "sorder \<Rightarrow> 'f::zero graph \<Rightarrow> 'f graph" where
  "pw_clone so g =
     fold (\<lambda>(q, es) new. fold (\<lambda>e. add_edge so (srcOp e) (dstOp e) (srcIdx e) (dstIdx e)) es new) (inEdges g)
       (new_Graph\<lparr>subst_history := subst_history g\<rparr>)"

definition pw_scan :: "'d store \<Rightarrow> 'f graph \<Rightarrow> unit py" where
  "pw_scan h g = foldR (\<lambda>(q, es) u. bindR (deref h q) (\<lambda>b.
       if op_type b = OP_INPUT \<or> op_type b = OP_WEIGHT \<or> op_type b = OP_TRANSPOSE then Inr ()
       else bindR (foldR (\<lambda>e all. if \<not> all then Inr False else bindR (deref h (srcOp e)) (\<lambda>sb. Inr (op_type sb = OP_WEIGHT))) es True)
         (\<lambda>_. Inr ()))) (inEdges g) ()"

definition pw_todos :: "'f graph \<Rightarrow> (op \<times> int) list" where
  "pw_todos g = map (\<lambda>(q, es). (q, int (length (filter (\<lambda>e. guid (srcOp e) \<noteq> GUID_WEIGHT) es)))) (inEdges g)"

definition pw_start :: "'f graph \<Rightarrow> op list" where
  "pw_start g = map fst (filter (\<lambda>(q, c). c = 0) (pw_todos g))"

text \<open>One pass of the last loop: the first weight-only operator without outgoing edges.\<close>

fun pw_removable :: "sorder \<Rightarrow> op set \<Rightarrow> opmap \<Rightarrow> opmap \<Rightarrow> opmap \<times> op option" where
  "pw_removable so weightOps [] outs = (outs, None)"
| "pw_removable so weightOps ((q, _) # ins) outs =
     (if q \<in> weightOps
      then let outs = om_touch so q outs in if om_get outs q = [] then (outs, Some q) else pw_removable so weightOps ins outs
      else pw_removable so weightOps ins outs)"

lemma map_fst_om_set: "om_contains om q \<Longrightarrow> map fst (om_set q es om) = map fst om"
  by (simp add: om_contains_def om_set_def update_keys)

lemma remove_node_shrinks:
  assumes "remove_node so q g = Inr g'" "om_contains (inEdges g) q"
  shows "length (inEdges g') < length (inEdges g)"
proof -
  have "map fst (inEdges g2) = map fst (inEdges g1)" if "foldR remove_edge es g1 = Inr g2" for es and g1 g2 :: "'a graph"
    using that
  proof (induction es arbitrary: g1)
    case (Cons e es)
    then obtain g where "remove_edge e g1 = Inr g" "foldR remove_edge es g = Inr g2" by (auto simp: bindR_Inr_iff)
    moreover from this(1) have "map fst (inEdges g) = map fst (inEdges g1)"
      by (auto simp: remove_edge_def bindR_Inr_iff require_Inr_iff map_fst_om_set)
    ultimately show ?case using Cons.IH by metis
  qed simp
  moreover obtain g1 where "foldR remove_edge (om_get (inEdges g) q) g = Inr g1" "inEdges g' = om_remove q (inEdges g1)"
    using assms by (auto simp: remove_node_def om_touch_def bindR_Inr_iff require_Inr_iff)
  ultimately have "map fst (inEdges g1) = map fst (inEdges g)" "map fst (inEdges g') = removeAll q (map fst (inEdges g1))"
    by (simp_all add: om_remove_def delete_keys)
  thus ?thesis using assms(2) by (metis length_map length_removeAll_less om_contains_def)
qed

lemma pw_removable_found:
  "pw_removable so W ins outs = (outs', Some q) \<Longrightarrow> q \<in> W \<and> q \<in> fst ` set ins \<and> om_contains outs' q \<and> om_get outs' q = []"
proof (induction so W ins outs rule: pw_removable.induct)
  case (2 so W p es ins outs)
  have "om_contains (om_touch so p outs) p" by (simp add: om_touch_def om_contains_def)
  thus ?case using 2 by (auto simp: Let_def split: if_splits)
qed simp

function pw_remove :: "sorder \<Rightarrow> op set \<Rightarrow> 'f graph \<Rightarrow> 'f graph py" where
  "pw_remove so W g =
     (let (outs, found) = pw_removable so W (inEdges g) (outEdges g); g = g\<lparr>outEdges := outs\<rparr>
      in case found of None \<Rightarrow> Inr g | Some q \<Rightarrow> bindR (remove_node so q g) (\<lambda>g. pw_remove so W g))"
  by pat_completeness auto
termination
proof (relation "measure (\<lambda>(so, W, g). length (inEdges g))", goal_cases)
  case (2 so W g r outs found g1 q g2)
  hence "q \<in> fst ` set (inEdges g1)" using pw_removable_found [of so W "inEdges g" "outEdges g" outs q] by simp
  thus ?case using 2 remove_node_shrinks [of so q g1 g2] by (simp add: om_contains_def)
qed simp

declare pw_remove.simps [simp del]

definition preprocess_weights :: "sorder \<Rightarrow> 'd store \<Rightarrow> 'f::zero graph \<Rightarrow> 'f graph py" where
  "preprocess_weights so h g =
     (let new = pw_clone so g
      in bindR (pw_scan h new) (\<lambda>_.
         bindR (kahn (\<lambda>q (om, weightOps). Inr (om_touch so q om, insert q weightOps))
             (graph_succs new) (pw_todos new) (pw_start new) 0 (outEdges new, {})) (\<lambda>(_, om, weightOps).
         pw_remove so weightOps (new\<lparr>outEdges := om\<rparr>))))"

definition get_input_edges :: "'d store \<Rightarrow> 'f graph \<Rightarrow> op \<Rightarrow> edge option list py" where
  "get_input_edges h g q =
     py_assert (om_contains (inEdges g) q)
       (let es = om_get (inEdges g) q
        in bindR (foldR (\<lambda>e xs. py_set xs (int (dstIdx e)) (Some e)) es (replicate (length es) None)) (\<lambda>xs.
           bindR (deref h q) (\<lambda>b.
           if op_type b = OP_POOL2D_MAX \<or> op_type b = OP_POOL2D_AVG
           then py_assert (length xs = 1 \<or> length xs = 2) (Inr (if length xs = 2 then butlast xs else xs))
           else Inr xs)))"

definition get_input_dims :: "'d store \<Rightarrow> op \<Rightarrow> nat \<Rightarrow> int list py" where
  "get_input_dims h q i = bindR (deref h q) (\<lambda>b. py_assert (numInputs b > i) (Inr (shape (inputs b ! i))))"

definition get_output_dims :: "'d store \<Rightarrow> op \<Rightarrow> nat \<Rightarrow> int list py" where
  "get_output_dims h q i = bindR (deref h q) (\<lambda>b. py_assert (numOutputs b > i) (Inr (shape (outputs b ! i))))"

definition get_weight_value :: "'d store \<Rightarrow> op \<Rightarrow> 'd py" where
  "get_weight_value h q =
     bindR (deref h q) (\<lambda>b. py_assert (op_type b = OP_WEIGHT) (py_assert (numInputs b = 1) (py_assert (numOutputs b = 1)
       (case data_ptr (inputs b ! 0) of None \<Rightarrow> Inl AssertionError | Some d \<Rightarrow> Inr d))))"

text \<open>An integer parameter that the caller asserts to be present.\<close>

definition int_parameter :: "'d opbase \<Rightarrow> PMParameter \<Rightarrow> int py" where
  "int_parameter b para =
     bindR (get_int_parameter b para) (\<lambda>v. case v of Some (V_int i) \<Rightarrow> Inr i | Some _ \<Rightarrow> Inl TypeError | None \<Rightarrow> Inl AssertionError)"

definition kernel_shape_attr :: "'d opbase \<Rightarrow> int list py" where
  "kernel_shape_attr b =
     bindR (int_parameter b PM_KERNEL_H) (\<lambda>kh. bindR (int_parameter b PM_KERNEL_H) (\<lambda>kw. Inr [kh, kw]))"

definition strides_attr :: "'d opbase \<Rightarrow> int list py" where
  "strides_attr b =
     bindR (int_parameter b PM_STRIDE_H) (\<lambda>sh. bindR (int_parameter b PM_STRIDE_W) (\<lambda>sw. Inr [sh, sw]))"

text \<open>The total padding of one dimension, rounded up to an even number.\<close>

definition pad_total :: "int \<Rightarrow> int \<Rightarrow> int \<Rightarrow> int py" where
  "pad_total i k s =
     bindR (py_mod i s) (\<lambda>r.
     let p = (if r = 0 then max (k - s) 0 else max (k - r) 0)
     in Inr (if p mod 2 = 1 then p + 1 else p))"

definition pads_attr :: "'d opbase \<Rightarrow> int list py" where
  "pads_attr b =
     bindR (get_int_parameter b PM_PAD) (\<lambda>pm.
     case pm of Some (V_pad PD_MODE_VALID) \<Rightarrow> Inr [0, 0, 0, 0]
     | Some (V_pad PD_MODE_SAME) \<Rightarrow>
         py_assert (numInputs b > 0)
           (let dims = shape (inputs b ! 0)
            in py_assert (length dims = 4)
              (bindR (int_parameter b PM_KERNEL_H) (\<lambda>kh. bindR (int_parameter b PM_KERNEL_H) (\<lambda>kw.
               bindR (int_parameter b PM_STRIDE_H) (\<lambda>sh. bindR (int_parameter b PM_STRIDE_W) (\<lambda>sw.
               bindR (pad_total (dims ! 2) kh sh) (\<lambda>padH. bindR (pad_total (dims ! 3) kw sw) (\<lambda>padW.
               Inr [padH div 2, padW div 2, padH - padH div 2, padW - padW div 2]))))))))
     | _ \<Rightarrow> Inl AssertionError)"

section \<open>Operator maps as functions\<close>

lemma map_of_insert_at: "q \<notin> set (map fst om) \<Longrightarrow> map_of (insert_at n (q, es) om) = (map_of om)(q \<mapsto> es)"
proof
  fix p assume q: "q \<notin> set (map fst om)"
  have "map_of om = map_of (drop n om) ++ map_of (take n om)" by (metis append_take_drop_id map_of_append)
  moreover have "map_of (take n om) q = None" "map_of (drop n om) q = None"
    using q by (auto simp: map_of_eq_None_iff dest!: in_set_takeD in_set_dropD)
  ultimately show "map_of (insert_at n (q, es) om) p = ((map_of om)(q \<mapsto> es)) p"
    unfolding insert_at_def by (simp add: map_add_def split: option.splits)
qed

lemma om_get_touch [simp]: "om_get (om_touch so q om) p = om_get om p"
  using map_of_eq_None_iff [of om q]
  by (cases "q \<in> fst ` set om") (simp_all add: om_touch_def om_get_def om_contains_def map_of_insert_at)

lemma keys_touch [simp]: "fst ` set (om_touch so q om) = insert q (fst ` set om)"
  by (auto simp: om_touch_def om_contains_def)

lemma distinct_touch [simp]: "distinct (map fst (om_touch so q om)) = distinct (map fst om)"
proof -
  have "map fst (insert_at n (q, []) om) = insert_at n q (map fst om)" for n
    by (simp add: insert_at_def take_map drop_map)
  thus ?thesis by (simp add: om_touch_def om_contains_def)
qed

lemma om_get_set: "om_get (om_set q es om) p = (if p = q then es else om_get om p)"
  by (simp add: om_get_def om_set_def update_conv')

lemma keys_set [simp]: "fst ` set (om_set q es om) = insert q (fst ` set om)" "distinct (map fst om) \<Longrightarrow> distinct (map fst (om_set q es om))"
  using dom_update [of q es om] distinct_update [of om q es] by (simp_all add: om_set_def dom_map_of_conv_image_fst)

lemma length_set [simp]: "q \<in> fst ` set om \<Longrightarrow> map fst (om_set q es om) = map fst om"
  by (simp add: om_set_def update_keys)

lemma om_get_add: "om_get (om_add so q e om) p = (if p = q then sorted_add (edge_pos so) e (om_get om q) else om_get om p)"
  by (simp add: om_add_def Let_def om_get_set)

lemma keys_add [simp]: "fst ` set (om_add so q e om) = insert q (fst ` set om)" "distinct (map fst om) \<Longrightarrow> distinct (map fst (om_add so q e om))"
  by (simp_all add: om_add_def Let_def)

lemma om_get_remove: "distinct (map fst om) \<Longrightarrow> om_get (om_remove q om) p = (if p = q then [] else om_get om p)"
  by (simp add: om_get_def om_remove_def delete_conv')

lemma keys_remove [simp]: "fst ` set (om_remove q om) = fst ` set om - {q}" "distinct (map fst om) \<Longrightarrow> distinct (map fst (om_remove q om))"
  using delete_keys [of q om] by (metis om_remove_def set_map set_removeAll) (simp add: om_remove_def delete_keys distinct_removeAll)

lemma om_get_missing: "q \<notin> fst ` set om \<Longrightarrow> om_get om q = []"
  using map_of_eq_None_iff [of om q] by (simp add: om_get_def)

lemma om_get_key: "e \<in> set (om_get om q) \<Longrightarrow> q \<in> fst ` set om"
  using om_get_missing [of q om] by (cases "q \<in> fst ` set om") simp_all

lemma om_get_in: "distinct (map fst om) \<Longrightarrow> (q, es) \<in> set om \<Longrightarrow> om_get om q = es"
  by (simp add: om_get_def)

section \<open>The invariant of a graph\<close>

text \<open>
  Edges are filed under the operator they belong to, without repetition, and an edge is among the incoming edges of its
  target exactly when it is among the outgoing edges of its source.
\<close>

definition opmap_ok :: "(edge \<Rightarrow> op) \<Rightarrow> opmap \<Rightarrow> bool" where
  "opmap_ok f om \<longleftrightarrow> distinct (map fst om) \<and> (\<forall>q. distinct (om_get om q) \<and> (\<forall>e \<in> set (om_get om q). f e = q))"

definition graph_ok :: "'f graph \<Rightarrow> bool" where
  "graph_ok g \<longleftrightarrow> opmap_ok dstOp (inEdges g) \<and> opmap_ok srcOp (outEdges g)
     \<and> (\<forall>e. e \<in> set (om_get (inEdges g) (dstOp e)) \<longleftrightarrow> e \<in> set (om_get (outEdges g) (srcOp e)))"

definition graph_edges :: "'f graph \<Rightarrow> edge set" where
  "graph_edges g = {e. e \<in> set (om_get (inEdges g) (dstOp e))}"

lemma opmap_ok_touch [simp]: "opmap_ok f (om_touch so q om) = opmap_ok f om"
  by (simp add: opmap_ok_def)

lemma opmap_ok_add: "opmap_ok f om \<Longrightarrow> opmap_ok f (om_add so (f e) e om)"
  by (auto simp: opmap_ok_def om_get_add)

lemma opmap_ok_remove1: "opmap_ok f om \<Longrightarrow> opmap_ok f (om_set q (remove1 e (om_get om q)) om)"
  by (auto simp: opmap_ok_def om_get_set dest: notin_set_remove1)

lemma opmap_ok_remove: "opmap_ok f om \<Longrightarrow> opmap_ok f (om_remove q om)"
  by (auto simp: opmap_ok_def om_get_remove)

lemma in_edgeD: "graph_ok g \<Longrightarrow> e \<in> set (om_get (inEdges g) q) \<Longrightarrow> dstOp e = q \<and> e \<in> graph_edges g"
  by (auto simp: graph_ok_def opmap_ok_def graph_edges_def)

lemma out_edgeD: "graph_ok g \<Longrightarrow> e \<in> set (om_get (outEdges g) q) \<Longrightarrow> srcOp e = q \<and> e \<in> graph_edges g"
  by (auto simp: graph_ok_def opmap_ok_def graph_edges_def)

lemma edge_out: "graph_ok g \<Longrightarrow> e \<in> graph_edges g \<longleftrightarrow> e \<in> set (om_get (outEdges g) (srcOp e))"
  by (simp add: graph_ok_def graph_edges_def)

lemma edge_nodes: "graph_ok g \<Longrightarrow> e \<in> graph_edges g \<Longrightarrow> dstOp e \<in> set (graph_nodes g)"
  using om_get_key [of e "inEdges g" "dstOp e"] by (simp add: graph_edges_def graph_nodes_def)

lemma graph_ok_new [simp]: "graph_ok new_Graph" "graph_edges new_Graph = {}" "graph_nodes new_Graph = []"
  by (simp_all add: graph_ok_def opmap_ok_def graph_edges_def graph_nodes_def new_Graph_def om_get_def)

lemma graph_ok_model [simp]: "graph_ok (g\<lparr>g_model := m\<rparr>) = graph_ok g" "graph_edges (g\<lparr>g_model := m\<rparr>) = graph_edges g"
  "graph_nodes (g\<lparr>g_model := m\<rparr>) = graph_nodes g"
  by (simp_all add: graph_ok_def graph_edges_def graph_nodes_def)

lemma add_edge_ok:
  assumes "graph_ok g"
  shows "graph_ok (add_edge so s d i j g)"
    "graph_edges (add_edge so s d i j g) = insert \<lparr>srcOp = s, dstOp = d, srcIdx = i, dstIdx = j\<rparr> (graph_edges g)"
    "set (graph_nodes (add_edge so s d i j g)) = insert d (set (graph_nodes g))"
    "g_model (add_edge so s d i j g) = g_model g"
proof -
  let ?e = "\<lparr>srcOp = s, dstOp = d, srcIdx = i, dstIdx = j\<rparr>"
  let ?g = "add_edge so s d i j g"
  have mem: "f \<in> set (om_get (inEdges ?g) q) \<longleftrightarrow> f \<in> set (om_get (inEdges g) q) \<or> f = ?e \<and> q = d"
    "f \<in> set (om_get (outEdges ?g) q) \<longleftrightarrow> f \<in> set (om_get (outEdges g) q) \<or> f = ?e \<and> q = s" for f q
    by (simp_all add: add_edge_def Let_def om_get_add disj_commute)
  have "opmap_ok dstOp (inEdges ?g)" "opmap_ok srcOp (outEdges ?g)"
    using assms opmap_ok_add [of dstOp "inEdges g" so ?e] opmap_ok_add [of srcOp "outEdges g" so ?e]
    by (simp_all add: graph_ok_def add_edge_def Let_def)
  moreover have "f \<in> set (om_get (inEdges ?g) (dstOp f)) \<longleftrightarrow> f \<in> set (om_get (outEdges ?g) (srcOp f))" for f
    unfolding mem using assms by (auto simp: graph_ok_def)
  ultimately show "graph_ok ?g" unfolding graph_ok_def by blast
  show "graph_edges ?g = insert ?e (graph_edges g)" unfolding graph_edges_def mem by auto
qed (simp_all add: graph_nodes_def add_edge_def Let_def)

lemma remove_edge_ok:
  assumes g: "graph_ok g" and e: "e \<in> graph_edges g"
  shows "\<exists>g'. remove_edge e g = Inr g' \<and> graph_ok g' \<and> graph_edges g' = graph_edges g - {e} \<and> graph_nodes g' = graph_nodes g
    \<and> map fst (outEdges g') = map fst (outEdges g) \<and> g_model g' = g_model g
    \<and> (\<forall>q. om_get (inEdges g') q = (if q = dstOp e then remove1 e (om_get (inEdges g) q) else om_get (inEdges g) q))
    \<and> (\<forall>q. om_get (outEdges g') q = (if q = srcOp e then remove1 e (om_get (outEdges g) q) else om_get (outEdges g) q))"
proof -
  have ins: "e \<in> set (om_get (inEdges g) (dstOp e))" "dstOp e \<in> fst ` set (inEdges g)"
    using e om_get_key [of e "inEdges g" "dstOp e"] by (simp_all add: graph_edges_def)
  have outs: "e \<in> set (om_get (outEdges g) (srcOp e))" "srcOp e \<in> fst ` set (outEdges g)"
    using e edge_out [OF g, of e] om_get_key [of e "outEdges g" "srcOp e"] by simp_all
  let ?g = "g\<lparr>outEdges := om_set (srcOp e) (remove1 e (om_get (outEdges g) (srcOp e))) (outEdges g),
      inEdges := om_set (dstOp e) (remove1 e (om_get (inEdges g) (dstOp e))) (inEdges g)\<rparr>"
  have run: "remove_edge e g = Inr ?g"
    using ins outs by (simp add: remove_edge_def om_contains_def sorted_remove_def)
  have d: "distinct (om_get (inEdges g) q)" "distinct (om_get (outEdges g) q)" for q using g by (simp_all add: graph_ok_def opmap_ok_def)
  have rest: "f \<in> set (om_get (inEdges ?g) q) \<longleftrightarrow> f \<in> set (om_get (inEdges g) q) \<and> \<not> (f = e \<and> q = dstOp e)"
    "f \<in> set (om_get (outEdges ?g) q) \<longleftrightarrow> f \<in> set (om_get (outEdges g) q) \<and> \<not> (f = e \<and> q = srcOp e)" for f q
    using d by (simp_all add: om_get_set)
  have "opmap_ok dstOp (inEdges ?g)" "opmap_ok srcOp (outEdges ?g)"
    using g by (simp_all add: graph_ok_def opmap_ok_remove1)
  moreover have "f \<in> set (om_get (inEdges ?g) (dstOp f)) \<longleftrightarrow> f \<in> set (om_get (outEdges ?g) (srcOp f))" for f
    unfolding rest using g by (auto simp: graph_ok_def)
  ultimately have "graph_ok ?g" unfolding graph_ok_def by blast
  moreover have "graph_edges ?g = graph_edges g - {e}" unfolding graph_edges_def rest by auto
  ultimately show ?thesis using run ins(2) outs(2) by (simp add: graph_nodes_def om_get_set)
qed

lemma remove_edge_Inr:
  assumes g: "graph_ok g"
  shows "(\<exists>g'. remove_edge e g = Inr g') \<longleftrightarrow> e \<in> graph_edges g"
  using remove_edge_ok [OF g, of e] edge_out [OF g, of e]
  by (auto simp: remove_edge_def bindR_Inr_iff require_Inr_iff sorted_remove_Inr)

lemma foldR_remove_edge:
  assumes "graph_ok g" "distinct es" "set es \<subseteq> graph_edges g"
  shows "\<exists>g'. foldR remove_edge es g = Inr g' \<and> graph_ok g' \<and> graph_edges g' = graph_edges g - set es \<and> graph_nodes g' = graph_nodes g
    \<and> map fst (outEdges g') = map fst (outEdges g) \<and> g_model g' = g_model g"
  using assms
proof (induction es arbitrary: g)
  case (Cons e es)
  have "e \<in> graph_edges g" using Cons.prems(3) by simp
  from remove_edge_ok [OF Cons.prems(1) this]
  obtain g1 where g1: "remove_edge e g = Inr g1" "graph_ok g1" "graph_edges g1 = graph_edges g - {e}" "graph_nodes g1 = graph_nodes g"
    "map fst (outEdges g1) = map fst (outEdges g)" "g_model g1 = g_model g" by blast
  have "set es \<subseteq> graph_edges g1" "distinct es" using Cons.prems g1(3) by auto
  from Cons.IH [OF g1(2) this(2,1)] obtain g2 where g2: "foldR remove_edge es g1 = Inr g2" "graph_ok g2"
    "graph_edges g2 = graph_edges g1 - set es" "graph_nodes g2 = graph_nodes g1" "map fst (outEdges g2) = map fst (outEdges g1)"
    "g_model g2 = g_model g1" by blast
  have "foldR remove_edge (e # es) g = Inr g2" using g1(1) g2(1) by simp
  moreover have "graph_edges g2 = graph_edges g - set (e # es)" unfolding g2(3) g1(3) by auto
  ultimately show ?case using g1 g2 by metis
qed simp

lemma isolated_remove:
  assumes g: "graph_ok g" and iso: "om_get (inEdges g) q = []" "om_get (outEdges g) q = []"
  shows "graph_ok (g\<lparr>inEdges := om_remove q (inEdges g), outEdges := om_remove q (outEdges g)\<rparr>)" (is "graph_ok ?g")
    "graph_edges (g\<lparr>inEdges := om_remove q (inEdges g), outEdges := om_remove q (outEdges g)\<rparr>) = graph_edges g"
proof -
  have d: "distinct (map fst (inEdges g))" "distinct (map fst (outEdges g))" using g by (simp_all add: graph_ok_def opmap_ok_def)
  have eq: "om_get (inEdges ?g) p = om_get (inEdges g) p" "om_get (outEdges ?g) p = om_get (outEdges g) p" for p
    using d iso by (simp_all add: om_get_remove)
  have "opmap_ok dstOp (inEdges ?g)" "opmap_ok srcOp (outEdges ?g)" using g by (simp_all add: graph_ok_def opmap_ok_remove)
  thus "graph_ok ?g" using g unfolding graph_ok_def eq by blast
  show "graph_edges ?g = graph_edges g" unfolding graph_edges_def eq by simp
qed

lemma graph_ok_touch [simp]:
  "graph_ok (g\<lparr>inEdges := om_touch so q (inEdges g)\<rparr>) = graph_ok g" "graph_ok (g\<lparr>outEdges := om_touch so q (outEdges g)\<rparr>) = graph_ok g"
  "graph_edges (g\<lparr>inEdges := om_touch so q (inEdges g)\<rparr>) = graph_edges g" "graph_edges (g\<lparr>outEdges := om\<rparr>) = graph_edges g"
  by (simp_all add: graph_ok_def graph_edges_def)

lemma remove_node_ok:
  assumes g: "graph_ok g" and q: "om_contains (outEdges g) q" "om_get (outEdges g) q = []"
  shows "\<exists>g'. remove_node so q g = Inr g' \<and> graph_ok g' \<and> graph_edges g' = {e \<in> graph_edges g. dstOp e \<noteq> q}
    \<and> set (graph_nodes g') = set (graph_nodes g) - {q} \<and> g_model g' = g_model g"
proof -
  let ?g = "g\<lparr>inEdges := om_touch so q (inEdges g)\<rparr>" and ?es = "om_get (inEdges g) q"
  have ok: "graph_ok ?g" and es: "distinct ?es" using g by (simp_all add: graph_ok_def opmap_ok_def)
  have ed: "set ?es = {e \<in> graph_edges g. dstOp e = q}" using in_edgeD [OF g] by (auto simp: graph_edges_def)
  hence "set ?es \<subseteq> graph_edges ?g" by (simp add: subset_eq)
  then obtain g1 where g1: "foldR remove_edge ?es ?g = Inr g1" "graph_ok g1" "graph_edges g1 = graph_edges g - set ?es"
    "graph_nodes g1 = graph_nodes ?g" "g_model g1 = g_model g"
    using foldR_remove_edge [OF ok es] by auto
  have "om_get (inEdges g1) q = []"
    using in_edgeD [OF g1(2)] g1(3) ed by (metis (mono_tags, lifting) DiffE last_in_set mem_Collect_eq)
  moreover have "om_get (outEdges g1) q = []"
    using out_edgeD [OF g1(2)] g1(3) edge_out [OF g] q(2) by (metis DiffD1 last_in_set list.set(1) equals0D)
  ultimately have i: "graph_ok (g1\<lparr>inEdges := om_remove q (inEdges g1), outEdges := om_remove q (outEdges g1)\<rparr>)"
    "graph_edges (g1\<lparr>inEdges := om_remove q (inEdges g1), outEdges := om_remove q (outEdges g1)\<rparr>) = graph_edges g1"
    using isolated_remove [OF g1(2)] by simp_all
  have "remove_node so q g = Inr (g1\<lparr>inEdges := om_remove q (inEdges g1), outEdges := om_remove q (outEdges g1)\<rparr>)"
    using q g1(1) \<open>om_get (inEdges g1) q = []\<close> by (simp add: remove_node_def)
  moreover have "fst ` set (inEdges g1) = insert q (fst ` set (inEdges g))" using g1(4) by (metis graph_nodes_def keys_touch list.set_map select_convs(3) surjective update_convs(3))
  ultimately show ?thesis using i g1(3,5) ed by (auto simp: graph_nodes_def)
qed

section \<open>Edits refine sets of edges\<close>

datatype edit = Add_edge op op nat nat | Remove_edge edge | Remove_node op

primrec apply_edit :: "sorder \<Rightarrow> edit \<Rightarrow> 'f graph \<Rightarrow> 'f graph py" where
  "apply_edit so (Add_edge s d i j) g = Inr (add_edge so s d i j g)"
| "apply_edit so (Remove_edge e) g = remove_edge e g"
| "apply_edit so (Remove_node q) g = remove_node so q g"

primrec edit_edges :: "edit \<Rightarrow> edge set \<Rightarrow> edge set" where
  "edit_edges (Add_edge s d i j) E = insert \<lparr>srcOp = s, dstOp = d, srcIdx = i, dstIdx = j\<rparr> E"
| "edit_edges (Remove_edge e) E = E - {e}"
| "edit_edges (Remove_node q) E = {e \<in> E. dstOp e \<noteq> q}"

lemma apply_edit_ok:
  assumes "graph_ok g" "apply_edit so ed g = Inr g'"
  shows "graph_ok g' \<and> graph_edges g' = edit_edges ed (graph_edges g)"
proof (cases ed)
  case (Remove_edge e)
  hence "e \<in> graph_edges g" using assms remove_edge_Inr [OF assms(1), of e] by auto
  from remove_edge_ok [OF assms(1) this] assms(2) Remove_edge show ?thesis by auto
next
  case (Remove_node q)
  hence "om_contains (outEdges g) q" "om_get (outEdges g) q = []" using assms(2) by (auto simp: remove_node_def require_Inr_iff)
  from remove_node_ok [OF assms(1) this, of so] assms(2) Remove_node show ?thesis by auto
next
  case (Add_edge s d i j)
  thus ?thesis using assms add_edge_ok [OF assms(1), of so s d i j] by simp
qed

text \<open>
  C11: Every sequence of edits of a graph that returns keeps \<open>inEdges\<close> and \<open>outEdges\<close> in step, and changes the set of edges
  as the same edits of a set do; an edge can be removed exactly when it is there.
\<close>

theorem edits_refine:
  assumes "graph_ok g"
  shows "(foldR (apply_edit so) eds g = Inr g' \<longrightarrow> graph_ok g' \<and> graph_edges g' = fold edit_edges eds (graph_edges g))
    \<and> (\<exists>g'. apply_edit so (Remove_edge e) g = Inr g') = (e \<in> graph_edges g)"
proof
  show "foldR (apply_edit so) eds g = Inr g' \<longrightarrow> graph_ok g' \<and> graph_edges g' = fold edit_edges eds (graph_edges g)"
    using assms
  proof (induction eds arbitrary: g)
    case (Cons ed eds)
    show ?case
    proof
      assume "foldR (apply_edit so) (ed # eds) g = Inr g'"
      then obtain g1 where "apply_edit so ed g = Inr g1" "foldR (apply_edit so) eds g1 = Inr g'" by (auto simp: bindR_Inr_iff)
      with Cons.IH [of g1] apply_edit_ok [OF Cons.prems, of so ed g1]
      show "graph_ok g' \<and> graph_edges g' = fold edit_edges (ed # eds) (graph_edges g)" by simp
    qed
  qed auto
  show "(\<exists>g'. apply_edit so (Remove_edge e) g = Inr g') = (e \<in> graph_edges g)" using remove_edge_Inr [OF assms] by simp
qed

text \<open>An input, an activation of it, and a weight that nothing uses.\<close>

definition first_place :: sorder where
  "first_place = \<lparr>op_pos = \<lambda>_ _. 0, edge_pos = \<lambda>_ _. 0\<rparr>"

definition handle :: "nat \<Rightarrow> nat option \<Rightarrow> op" where
  "handle n a = \<lparr>guid = n, ptr = a\<rparr>"

definition sample_graph :: "int graph" where
  "sample_graph = add_edge first_place (handle 11 None) (handle 102 (Some 2)) 0 0
     (add_edge first_place (handle 100 (Some 0)) (handle 101 (Some 1)) 0 0
     (add_edge first_place (handle 10 None) (handle 100 (Some 0)) 0 0 new_Graph))"

definition sample_store :: "int store" where
  "sample_store = map (\<lambda>ty. \<lparr>op_type = ty, numInputs = 0, inputs = [], numOutputs = 0, outputs = [], attrs = NoOp_attrs\<rparr>) [OP_INPUT, OP_RELU, OP_WEIGHT]"

lemma handle_eq [simp]: "handle n a = handle m b \<longleftrightarrow> n = m \<and> a = b" "guid (handle n a) = n" "ptr (handle n a) = a"
  by (auto simp: handle_def)

lemma sample_graph_ok:
  "graph_ok sample_graph" "graph_edges sample_graph = {\<lparr>srcOp = handle 11 None, dstOp = handle 102 (Some 2), srcIdx = 0, dstIdx = 0\<rparr>,
     \<lparr>srcOp = handle 100 (Some 0), dstOp = handle 101 (Some 1), srcIdx = 0, dstIdx = 0\<rparr>,
     \<lparr>srcOp = handle 10 None, dstOp = handle 100 (Some 0), srcIdx = 0, dstIdx = 0\<rparr>}"
  "set (graph_nodes sample_graph) = {handle 102 (Some 2), handle 101 (Some 1), handle 100 (Some 0)}"
  unfolding sample_graph_def by (simp_all add: add_edge_ok)

theorem edits_refine_witness:
  "graph_ok sample_graph
    \<and> (\<exists>g'. foldR (apply_edit first_place) [Remove_edge \<lparr>srcOp = handle 100 (Some 0), dstOp = handle 101 (Some 1), srcIdx = 0, dstIdx = 0\<rparr>,
          Remove_node (handle 100 (Some 0))] sample_graph = Inr g'
        \<and> graph_ok g' \<and> graph_edges g' = {\<lparr>srcOp = handle 11 None, dstOp = handle 102 (Some 2), srcIdx = 0, dstIdx = 0\<rparr>})"
proof -
  let ?eds = "[Remove_edge \<lparr>srcOp = handle 100 (Some 0), dstOp = handle 101 (Some 1), srcIdx = 0, dstIdx = 0\<rparr>, Remove_node (handle 100 (Some 0))]"
  have "\<not> isl (foldR (apply_edit first_place) ?eds sample_graph)" by code_simp
  then obtain g' where r: "foldR (apply_edit first_place) ?eds sample_graph = Inr g'"
    by (cases "foldR (apply_edit first_place) ?eds sample_graph") simp_all
  have e: "fold edit_edges ?eds (graph_edges sample_graph) = {\<lparr>srcOp = handle 11 None, dstOp = handle 102 (Some 2), srcIdx = 0, dstIdx = 0\<rparr>}"
    unfolding sample_graph_ok(2) by (simp add: insert_Diff_if Collect_conj_eq Collect_disj_eq)
  from edits_refine [OF sample_graph_ok(1), of first_place ?eds g'] sample_graph_ok(1) r
  have "graph_ok g' \<and> graph_edges g' = fold edit_edges ?eds (graph_edges sample_graph)" by blast
  with r e sample_graph_ok(1) show ?thesis by metis
qed

section \<open>Cycles and topological order\<close>

text \<open>
  Sources with a reserved number (the placeholders of inputs and weights) are not operators of the graph; all other
  sources are.
\<close>

definition graph_closed :: "'f graph \<Rightarrow> bool" where
  "graph_closed g \<longleftrightarrow> (\<forall>q \<in> set (graph_nodes g). GUID_PRESERVED < guid q)
     \<and> (\<forall>e \<in> graph_edges g. GUID_PRESERVED < guid (srcOp e) \<longrightarrow> srcOp e \<in> set (graph_nodes g))"

definition graph_deps :: "'f graph \<Rightarrow> (op \<times> op) set" where
  "graph_deps g = {(srcOp e, dstOp e) | e. e \<in> graph_edges g}"

lemma count_list_map: "count_list (map f xs) v = length (filter (\<lambda>x. f x = v) xs)"
  by (induction xs) auto

lemma map_fst_filter_snd:
  "distinct (map fst xs) \<Longrightarrow> map fst (filter (\<lambda>(k, c). P c) xs) = filter (\<lambda>k. P (the (map_of xs k))) (map fst xs)"
proof (induction xs)
  case (Cons x xs)
  have "k \<noteq> fst x" if "k \<in> set (map fst xs)" for k
    using Cons.prems that by (metis distinct.simps(2) list.simps(9))
  hence "filter (\<lambda>k. P (the (map_of (x # xs) k))) (map fst xs) = filter (\<lambda>k. P (the (map_of xs k))) (map fst xs)"
    by (intro filter_cong) (cases x, simp_all)
  with Cons show ?case by (cases x) auto
qed simp

lemma graph_nodes_distinct: "graph_ok g \<Longrightarrow> distinct (graph_nodes g)"
  by (simp add: graph_ok_def opmap_ok_def graph_nodes_def)

lemma om_map_of: "q \<in> fst ` set om \<Longrightarrow> map_of om q = Some (om_get om q)"
  using map_of_eq_None_iff [of om q] by (auto simp: om_get_def split: option.splits)

lemma graph_indegree:
  assumes g: "graph_ok g" "graph_closed g"
  shows "length (filter (\<lambda>e. guid (srcOp e) > GUID_PRESERVED) (om_get (inEdges g) v)) = indegree (graph_nodes g) (graph_succs g) v"
proof -
  let ?N = "set (graph_nodes g)" and ?E = "\<lambda>u. {e. dstOp e = v} \<inter> set (om_get (outEdges g) u)"
  have d: "distinct (om_get (inEdges g) q)" "distinct (om_get (outEdges g) q)" for q using g(1) by (simp_all add: graph_ok_def opmap_ok_def)
  have "indegree (graph_nodes g) (graph_succs g) v = (\<Sum>u \<in> ?N. card (?E u))"
    unfolding indegree_def graph_succs_def count_list_map
    using d by (simp add: sum_list_distinct_conv_sum_set [OF graph_nodes_distinct [OF g(1)]] distinct_length_filter)
  also have "\<dots> = card (\<Union>u \<in> ?N. ?E u)"
    using out_edgeD [OF g(1)] by (intro card_UN_disjoint [symmetric]) auto
  also have "(\<Union>u \<in> ?N. ?E u) = {e. guid (srcOp e) > GUID_PRESERVED} \<inter> set (om_get (inEdges g) v)"
  proof (intro set_eqI iffI)
    fix e assume "e \<in> (\<Union>u \<in> ?N. ?E u)"
    then obtain u where "u \<in> ?N" "dstOp e = v" "e \<in> set (om_get (outEdges g) u)" by blast
    thus "e \<in> {e. guid (srcOp e) > GUID_PRESERVED} \<inter> set (om_get (inEdges g) v)"
      using out_edgeD [OF g(1), of e u] g(2) by (auto simp: graph_closed_def graph_edges_def)
  next
    fix e assume e: "e \<in> {e. guid (srcOp e) > GUID_PRESERVED} \<inter> set (om_get (inEdges g) v)"
    hence "dstOp e = v" "e \<in> graph_edges g" "srcOp e \<in> ?N" using in_edgeD [OF g(1), of e v] g(2) by (auto simp: graph_closed_def)
    thus "e \<in> (\<Union>u \<in> ?N. ?E u)" using edge_out [OF g(1), of e] by blast
  qed
  finally show ?thesis using d by (simp add: distinct_length_filter)
qed

text \<open>A dictionary of counts, and the operators whose count is zero.\<close>

lemma counted_todos:
  fixes g :: "'f graph"
  assumes g: "graph_ok g"
    and td: "td = map (\<lambda>(q, es). (q, int (length (filter P es)))) (inEdges g)"
    and n: "\<And>v. v \<in> set (graph_nodes g) \<Longrightarrow> length (filter P (om_get (inEdges g) v)) = n v"
  shows "v \<in> set (graph_nodes g) \<Longrightarrow> map_of td v = Some (int (n v))"
    "map fst (filter (\<lambda>(q, c). c = 0) td) = filter (\<lambda>v. n v = 0) (graph_nodes g)"
proof -
  have c: "map_of td v = Some (int (n v))" if "v \<in> set (graph_nodes g)" for v
    using that n [of v] om_map_of [of v "inEdges g"] by (simp add: td map_of_map graph_nodes_def)
  thus "v \<in> set (graph_nodes g) \<Longrightarrow> map_of td v = Some (int (n v))" .
  have k: "map fst td = graph_nodes g" by (simp add: td graph_nodes_def comp_def case_prod_beta)
  have "distinct (map fst td)" using k g graph_nodes_distinct by metis
  from map_fst_filter_snd [OF this, of "\<lambda>c. c = 0"]
  have "map fst (filter (\<lambda>(q, c). c = 0) td) = filter (\<lambda>q. the (map_of td q) = 0) (graph_nodes g)" by (simp add: k)
  also have "\<dots> = filter (\<lambda>v. n v = 0) (graph_nodes g)" using c by (intro filter_cong) simp_all
  finally show "map fst (filter (\<lambda>(q, c). c = 0) td) = filter (\<lambda>v. n v = 0) (graph_nodes g)" .
qed

lemma graph_succs_nodes: "graph_ok g \<Longrightarrow> set (graph_succs g u) \<subseteq> set (graph_nodes g)"
  using out_edgeD [of g _ u] edge_nodes [of g] by (auto simp: graph_succs_def)

interpretation graph_order: closed_worklist "\<lambda>g. graph_ok g \<and> graph_closed g" graph_nodes graph_succs "\<lambda>_ _. 0" graph_todos graph_start
proof (unfold_locales, goal_cases)
  case (1 g)
  thus ?case using graph_nodes_distinct by blast
next
  case (2 g u)
  thus ?case using graph_succs_nodes by blast
next
  case (3 g v)
  thus ?case using counted_todos(1) [OF _ graph_todos_def graph_indegree] by auto
next
  case (4 g)
  thus ?case unfolding graph_start_def using counted_todos(2) [OF _ graph_todos_def graph_indegree] by auto
qed simp

text \<open>An edge from a placeholder is on no cycle.\<close>

lemma graph_acyclic:
  assumes g: "graph_ok g" "graph_closed g"
  shows "acyclic (deps (graph_nodes g) (graph_succs g)) \<longleftrightarrow> acyclic (graph_deps g)"
proof
  have sub: "deps (graph_nodes g) (graph_succs g) \<subseteq> graph_deps g"
    using out_edgeD [OF g(1)] by (fastforce simp: deps_def graph_succs_def graph_deps_def)
  show "acyclic (graph_deps g) \<Longrightarrow> acyclic (deps (graph_nodes g) (graph_succs g))" using sub acyclic_subset by blast
  have step: "(x, y) \<in> deps (graph_nodes g) (graph_succs g)" if "(x, y) \<in> graph_deps g" "x \<in> set (graph_nodes g)" for x y
    using that edge_out [OF g(1)] by (auto simp: deps_def graph_succs_def graph_deps_def)
  have dst: "y \<in> set (graph_nodes g)" if "(x, y) \<in> graph_deps g" for x y using that edge_nodes [OF g(1)] by (auto simp: graph_deps_def)
  have "(x, y) \<in> (deps (graph_nodes g) (graph_succs g))\<^sup>+" if "(x, y) \<in> (graph_deps g)\<^sup>+" "x \<in> set (graph_nodes g)" for x y
    using that
  proof (induction rule: trancl_induct)
    case (step y z)
    have "y \<in> set (graph_nodes g)" using step(1) dst by (metis tranclE)
    thus ?case using step \<open>\<And>y x. (x, y) \<in> graph_deps g \<Longrightarrow> x \<in> set (graph_nodes g) \<Longrightarrow> (x, y) \<in> deps (graph_nodes g) (graph_succs g)\<close>
      by (meson trancl.trancl_into_trancl)
  qed (use step in blast)
  moreover have "x \<in> set (graph_nodes g)" if "(x, x) \<in> (graph_deps g)\<^sup>+" for x using that dst by (metis tranclE)
  ultimately show "acyclic (deps (graph_nodes g) (graph_succs g)) \<Longrightarrow> acyclic (graph_deps g)" unfolding acyclic_def by blast
qed

lemma foldR_touch:
  "\<exists>om. foldR (\<lambda>q om. Inr (om_touch so q om)) qs om0 = (Inr om :: opmap py) \<and> (\<forall>q. om_get om q = om_get om0 q)
      \<and> (distinct (map fst om0) \<longrightarrow> distinct (map fst om))"
proof (induction qs arbitrary: om0)
  case (Cons q qs)
  from Cons.IH [of "om_touch so q om0"] show ?case by simp
qed simp

text \<open>
  C12: \<open>has_loop\<close> answers for every graph whose sources are operators of the graph or placeholders, and answers \<open>True\<close>
  exactly for graphs with a cycle.
\<close>

theorem has_loop_correct:
  assumes g: "graph_ok g" "graph_closed g"
  shows "\<exists>g'. has_loop so g = Inr (g', \<not> acyclic (graph_deps g)) \<and> graph_ok g' \<and> graph_edges g' = graph_edges g \<and> inEdges g' = inEdges g"
proof -
  have ok: "graph_ok g \<and> graph_closed g" using g by simp
  let ?ord = "graph_order.order g"
  obtain om where om: "foldR (\<lambda>q om. Inr (om_touch so q om)) ?ord (outEdges g) = (Inr om :: opmap py)" "\<forall>q. om_get om q = om_get (outEdges g) q"
    "distinct (map fst om)" using foldR_touch [of so ?ord "outEdges g"] g(1) by (auto simp: graph_ok_def opmap_ok_def)
  have run: "has_loop so g = Inr (g\<lparr>outEdges := om\<rparr>, length ?ord < length (inEdges g))"
    unfolding has_loop_def graph_order.kahn_order(1) [OF ok] om(1) by simp
  have "length ?ord \<le> length (inEdges g)"
    using card_mono [OF finite_set graph_order.kahn_order(3) [OF ok]] distinct_card [OF graph_order.kahn_order(2) [OF ok]]
      distinct_card [OF graph_nodes_distinct [OF g(1)]] by (simp add: graph_nodes_def)
  hence "(length ?ord < length (inEdges g)) = (\<not> acyclic (graph_deps g))"
    using graph_order.complete_iff_acyclic [OF ok] graph_acyclic [OF g] by (auto simp: graph_nodes_def)
  moreover have "graph_ok (g\<lparr>outEdges := om\<rparr>)" using g(1) om by (simp add: graph_ok_def opmap_ok_def)
  ultimately show ?thesis using run by simp
qed

lemma sample_graph_order:
  "graph_closed sample_graph" "acyclic (graph_deps sample_graph)"
proof -
  show "graph_closed sample_graph" by (auto simp: graph_closed_def sample_graph_ok)
  have "graph_deps sample_graph \<subseteq> measure guid" by (auto simp: graph_deps_def sample_graph_ok)
  thus "acyclic (graph_deps sample_graph)" by (meson acyclic_subset wf_acyclic wf_measure)
qed

theorem has_loop_correct_witness:
  "graph_ok sample_graph \<and> graph_closed sample_graph \<and> (\<exists>g'. has_loop first_place sample_graph = Inr (g', False) \<and> graph_ok g')"
  using has_loop_correct [OF sample_graph_ok(1) sample_graph_order(1), of first_place] sample_graph_ok(1) sample_graph_order by auto

text \<open>The operators that the exporter walks over: all but inputs and weights.\<close>

definition is_operator :: "'d store \<Rightarrow> op \<Rightarrow> bool" where
  "is_operator h q \<longleftrightarrow> (case ptr q of Some a \<Rightarrow> op_type (h ! a) \<noteq> OP_INPUT \<and> op_type (h ! a) \<noteq> OP_WEIGHT | None \<Rightarrow> False)"

lemma nth_filter:
  "i < length (filter P xs) \<Longrightarrow> \<exists>j < length xs. filter P xs ! i = xs ! j \<and> take i (filter P xs) = filter P (take j xs)"
proof (induction xs arbitrary: i)
  case (Cons x xs)
  show ?case
  proof (cases "P x \<and> i = 0")
    case False
    then obtain k where k: "k < length (filter P xs)" "filter P (x # xs) ! i = filter P xs ! k"
      "take i (filter P (x # xs)) = (if P x then x # take k (filter P xs) else take k (filter P xs))"
      using Cons.prems by (cases "P x"; cases i) auto
    from Cons.IH [OF k(1)] obtain j where "j < length xs" "filter P xs ! k = xs ! j" "take k (filter P xs) = filter P (take j xs)" by blast
    thus ?thesis using k by (intro exI [of _ "Suc j"]) auto
  qed (intro exI [of _ 0], auto)
qed simp

lemma topological_filter:
  assumes "topological R xs" "i < length (filter P xs)" "(u, filter P xs ! i) \<in> R" "P u"
  shows "u \<in> set (take i (filter P xs))"
proof -
  obtain j where "j < length xs" "filter P xs ! i = xs ! j" "take i (filter P xs) = filter P (take j xs)" using nth_filter [OF assms(2)] by blast
  thus ?thesis using assms(1,3,4) by (simp add: topological_def)
qed

lemma foldR_list_visit:
  assumes "list_all (\<lambda>q. ptr q \<noteq> None) qs"
  shows "\<exists>om. foldR (\<lambda>q (om, ops). bindR (deref h q) (\<lambda>b.
         Inr (om_touch so q om, if op_type b = OP_INPUT \<or> op_type b = OP_WEIGHT then ops else ops @ [q]))) qs (om0, acc)
      = Inr (om, acc @ filter (is_operator h) qs)"
  using assms
proof (induction qs arbitrary: om0 acc)
  case (Cons q qs)
  then obtain a where a: "ptr q = Some a" by auto
  have "deref h q = Inr (h ! a)" "is_operator h q \<longleftrightarrow> \<not> (op_type (h ! a) = OP_INPUT \<or> op_type (h ! a) = OP_WEIGHT)"
    using a by (simp_all add: deref_def is_operator_def)
  thus ?case using Cons.IH [of "om_touch so q om0" acc] Cons.IH [of "om_touch so q om0" "acc @ [q]"] Cons.prems
    by (cases "is_operator h q") simp_all
qed simp

text \<open>
  C10: For an acyclic graph \<open>get_operator_list\<close> returns every operator that is not an input or a weight once, each after the
  operators whose results it uses; for a graph with a cycle its assertion fails.
\<close>

theorem get_operator_list_topological:
  assumes g: "graph_ok g" "graph_closed g" and p: "list_all (\<lambda>q. ptr q \<noteq> None) (graph_nodes g)"
  shows "(acyclic (graph_deps g) \<longrightarrow> (\<exists>g' ops. get_operator_list so h g = Inr (g', ops) \<and> distinct ops
        \<and> set ops = {q \<in> set (graph_nodes g). is_operator h q}
        \<and> (\<forall>i < length ops. \<forall>e \<in> graph_edges g. dstOp e = ops ! i \<longrightarrow> srcOp e \<in> set ops \<longrightarrow> srcOp e \<in> set (take i ops))
        \<and> graph_edges g' = graph_edges g))
    \<and> (\<not> acyclic (graph_deps g) \<longrightarrow> get_operator_list so h g = Inl AssertionError)"
proof -
  have ok: "graph_ok g \<and> graph_closed g" using g by simp
  let ?ord = "graph_order.order g" and ?ops = "filter (is_operator h) (graph_order.order g)"
  note ord = graph_order.kahn_order(2-4) [OF ok]
  have "list_all (\<lambda>q. ptr q \<noteq> None) ?ord" using p ord(2) by (auto simp: list_all_iff)
  from foldR_list_visit [OF this, of h so "outEdges g" "[]"] obtain om where
    v: "foldR (\<lambda>q (om, ops). bindR (deref h q) (\<lambda>b.
         Inr (om_touch so q om, if op_type b = OP_INPUT \<or> op_type b = OP_WEIGHT then ops else ops @ [q]))) ?ord (outEdges g, []) = Inr (om, ?ops)"
    by auto
  have run: "get_operator_list so h g = py_assert (length ?ord = length (inEdges g)) (Inr (g\<lparr>outEdges := om\<rparr>, ?ops))"
    unfolding get_operator_list_def graph_order.kahn_order(1) [OF ok] v by simp
  have ac: "(length ?ord = length (inEdges g)) = acyclic (graph_deps g)"
    using graph_order.complete_iff_acyclic [OF ok] graph_acyclic [OF g] by (simp add: graph_nodes_def)
  show ?thesis
  proof (cases "acyclic (graph_deps g)")
    case True
    hence "length ?ord = length (graph_nodes g)" using ac by (simp add: graph_nodes_def)
    hence "card (set ?ord) = card (set (graph_nodes g))"
      by (simp add: distinct_card [OF ord(1)] distinct_card [OF graph_nodes_distinct [OF g(1)]])
    hence all: "set ?ord = set (graph_nodes g)" using ord(2) by (simp add: card_subset_eq)
    have "srcOp e \<in> set (take i ?ops)" if "i < length ?ops" "e \<in> graph_edges g" "dstOp e = ?ops ! i" "srcOp e \<in> set ?ops" for i e
    proof -
      have "(srcOp e, ?ops ! i) \<in> deps (graph_nodes g) (graph_succs g)"
        unfolding that(3) [symmetric] using that(2,4) all edge_out [OF g(1), of e] by (simp add: deps_def graph_succs_def)
      from topological_filter [OF ord(3) that(1) this] that(4) show ?thesis by simp
    qed
    thus ?thesis using True run ac ord(1) all by auto
  qed (use run ac in simp)
qed

theorem get_operator_list_topological_witness:
  "\<exists>g'. get_operator_list first_place sample_store sample_graph = Inr (g', [handle 101 (Some 1)]) \<and> graph_edges g' = graph_edges sample_graph"
proof -
  have p: "list_all (\<lambda>q. ptr q \<noteq> None) (graph_nodes sample_graph)" using sample_graph_ok(3) by (simp add: list_all_iff)
  obtain g' ops where r: "get_operator_list first_place sample_store sample_graph = Inr (g', ops)" "distinct ops"
    "set ops = {q \<in> set (graph_nodes sample_graph). is_operator sample_store q}" "graph_edges g' = graph_edges sample_graph"
    using get_operator_list_topological [OF sample_graph_ok(1) sample_graph_order(1) p, of first_place sample_store] sample_graph_order(2) by blast
  have "set ops = {handle 101 (Some 1)}" unfolding r(3) sample_graph_ok(3) by (auto simp: is_operator_def sample_store_def)
  hence "ops = [handle 101 (Some 1)]" using r(2) by (cases ops; cases "tl ops") auto
  thus ?thesis using r by blast
qed

end
