(* ===== verification/Dbocg_Weights.thy ===== *)
theory Dbocg_Weights
  imports Dbocg_Graph
begin

text \<open>
  \<open>Graph.preprocess_weights\<close>: what it keeps of a graph.
\<close>

section \<open>Weight-only operators\<close>

text \<open>Edges from placeholders other than those of weights.\<close>

definition pw_held :: "'f graph \<Rightarrow> op \<Rightarrow> nat" where
  "pw_held g v = length (filter (\<lambda>e. guid (srcOp e) \<le> GUID_PRESERVED \<and> guid (srcOp e) \<noteq> GUID_WEIGHT) (om_get (inEdges g) v))"

lemma pw_count:
  assumes g: "graph_ok g" "graph_closed g"
  shows "length (filter (\<lambda>e. guid (srcOp e) \<noteq> GUID_WEIGHT) (om_get (inEdges g) v))
    = indegree (graph_nodes g) (graph_succs g) v + pw_held g v"
proof -
  have "length (filter (\<lambda>e. guid (srcOp e) \<noteq> GUID_WEIGHT) es)
      = length (filter (\<lambda>e. guid (srcOp e) > GUID_PRESERVED) es)
        + length (filter (\<lambda>e. guid (srcOp e) \<le> GUID_PRESERVED \<and> guid (srcOp e) \<noteq> GUID_WEIGHT) es)" for es
    by (induction es) auto
  thus ?thesis unfolding graph_indegree [OF g, symmetric] pw_held_def .
qed

interpretation weight_order: worklist "\<lambda>g. graph_ok g \<and> graph_closed g" graph_nodes graph_succs pw_held pw_todos pw_start
proof (unfold_locales, goal_cases)
  case (3 g v)
  thus ?case using counted_todos(1) [OF _ pw_todos_def pw_count] by blast
next
  case (4 g)
  thus ?case unfolding pw_start_def using counted_todos(2) [OF _ pw_todos_def pw_count] by blast
qed (use graph_nodes_distinct graph_succs_nodes in blast)+

text \<open>What depends on an input, and what is used, possibly through other operators, by something that does.\<close>

definition input_dependent :: "'f graph \<Rightarrow> op set" where
  "input_dependent g = {r. \<exists>s. guid s \<le> GUID_PRESERVED \<and> guid s \<noteq> GUID_WEIGHT \<and> (s, r) \<in> (graph_deps g)\<^sup>+}"

definition needed :: "'f graph \<Rightarrow> op set" where
  "needed g = {q. \<exists>r \<in> input_dependent g. (q, r) \<in> (graph_deps g)\<^sup>*}"

lemma pw_held_0:
  assumes g: "graph_ok g"
  shows "pw_held g v = 0 \<longleftrightarrow> (\<forall>s. (s, v) \<in> graph_deps g \<longrightarrow> GUID_PRESERVED < guid s \<or> guid s = GUID_WEIGHT)"
  using in_edgeD [OF g] by (auto simp: pw_held_def graph_deps_def graph_edges_def filter_empty_conv not_le)

lemma deps_graph_deps:
  assumes g: "graph_ok g" shows "(u, v) \<in> deps (graph_nodes g) (graph_succs g) \<longleftrightarrow> (u, v) \<in> graph_deps g \<and> u \<in> set (graph_nodes g)"
proof
  assume "(u, v) \<in> deps (graph_nodes g) (graph_succs g)"
  then obtain e where "e \<in> set (om_get (outEdges g) u)" "v = dstOp e" "u \<in> set (graph_nodes g)" by (auto simp: deps_def graph_succs_def)
  with out_edgeD [OF g this(1)] show "(u, v) \<in> graph_deps g \<and> u \<in> set (graph_nodes g)" unfolding graph_deps_def by blast
next
  assume "(u, v) \<in> graph_deps g \<and> u \<in> set (graph_nodes g)"
  then obtain e where "e \<in> graph_edges g" "u = srcOp e" "v = dstOp e" "u \<in> set (graph_nodes g)" by (auto simp: graph_deps_def)
  with edge_out [OF g, of e] show "(u, v) \<in> deps (graph_nodes g) (graph_succs g)" by (simp add: deps_def graph_succs_def)
qed

lemma graph_deps_dst: "graph_ok g \<Longrightarrow> (u, v) \<in> graph_deps g \<Longrightarrow> v \<in> set (graph_nodes g)"
  using edge_nodes by (auto simp: graph_deps_def)

lemma deps_wf:
  assumes g: "graph_ok g" "graph_closed g" and ac: "acyclic (graph_deps g)"
  shows "wf (deps (graph_nodes g) (graph_succs g))"
proof -
  have "deps (graph_nodes g) (graph_succs g) \<subseteq> set (graph_nodes g) \<times> set (graph_nodes g)"
    using graph_succs_nodes [OF g(1)] by (auto simp: deps_def)
  hence "finite (deps (graph_nodes g) (graph_succs g))" by (rule finite_subset) simp
  thus ?thesis using graph_acyclic [OF g] ac finite_acyclic_wf by blast
qed

lemma weight_order_set:
  assumes g: "graph_ok g" "graph_closed g" and ac: "acyclic (graph_deps g)"
  shows "set (weight_order.order g) = set (graph_nodes g) - input_dependent g"
proof -
  have ok: "graph_ok g \<and> graph_closed g" using g by simp
  define W where "W = set (weight_order.order g)"
  have W: "W \<subseteq> set (graph_nodes g)" unfolding W_def by (rule weight_order.kahn_order(3) [OF ok])
  have ord: "v \<in> W \<longleftrightarrow> pw_held g v = 0 \<and> (\<forall>u. (u, v) \<in> graph_deps g \<and> u \<in> set (graph_nodes g) \<longrightarrow> u \<in> W)"
    if "v \<in> set (graph_nodes g)" for v
    using weight_order.kahn_order(5) [OF ok that] unfolding W_def deps_graph_deps [OF g(1)] .
  have "r \<notin> W" if "(s, r) \<in> (graph_deps g)\<^sup>+" "guid s \<le> GUID_PRESERVED" "guid s \<noteq> GUID_WEIGHT" for s r
    using that
  proof (induction rule: trancl_induct)
    case (base r)
    hence "pw_held g r \<noteq> 0" unfolding pw_held_0 [OF g(1)] using not_le by blast
    thus ?case using ord [of r] W by auto
  next
    case (step q r)
    have "q \<in> set (graph_nodes g)" using step(1) graph_deps_dst [OF g(1)] by (metis tranclE)
    thus ?case using step(2-) ord [of r] W by blast
  qed
  hence "W \<inter> input_dependent g = {}" unfolding input_dependent_def by blast
  moreover have "v \<in> set (graph_nodes g) \<longrightarrow> v \<notin> input_dependent g \<longrightarrow> v \<in> W" for v
  proof (induction v rule: wf_induct_rule [OF deps_wf [OF g ac]])
    case (1 v)
    have "u \<notin> input_dependent g" if "(u, v) \<in> graph_deps g" "v \<notin> input_dependent g" for u
      using that unfolding input_dependent_def by (blast intro: trancl_into_trancl)
    moreover have "pw_held g v = 0" if "v \<notin> input_dependent g"
      using that unfolding pw_held_0 [OF g(1)] input_dependent_def by (metis (mono_tags, lifting) mem_Collect_eq not_le r_into_trancl')
    ultimately show ?case using 1 ord [of v] unfolding deps_graph_deps [OF g(1)] by blast
  qed
  ultimately show ?thesis using W unfolding W_def by blast
qed

lemma graph_edges_concat:
  assumes g: "graph_ok g"
  shows "set (concat (map snd (inEdges g))) = graph_edges g"
proof -
  have "e \<in> graph_edges g" if "(q, es) \<in> set (inEdges g)" "e \<in> set es" for e q es
    using that g in_edgeD [OF g, of e q] om_get_in [of "inEdges g" q es] by (simp add: graph_ok_def opmap_ok_def)
  moreover have "\<exists>x \<in> set (inEdges g). e \<in> set (snd x)" if "e \<in> graph_edges g" for e
    using that om_map_of [OF om_get_key, of e "inEdges g" "dstOp e"] by (force simp: graph_edges_def dest: map_of_SomeD)
  ultimately show ?thesis by fastforce
qed

text \<open>Step 1: the copy has the same edges.\<close>

lemma fold_add_edges:
  fixes new :: "'f graph"
  assumes "graph_ok new"
  shows "graph_ok (fold (\<lambda>e. add_edge so (srcOp e) (dstOp e) (srcIdx e) (dstIdx e)) es new)
    \<and> graph_edges (fold (\<lambda>e. add_edge so (srcOp e) (dstOp e) (srcIdx e) (dstIdx e)) es new) = graph_edges new \<union> set es
    \<and> set (graph_nodes (fold (\<lambda>e. add_edge so (srcOp e) (dstOp e) (srcIdx e) (dstIdx e)) es new)) = set (graph_nodes new) \<union> dstOp ` set es"
  using assms
proof (induction es arbitrary: new)
  case (Cons e es)
  have "\<lparr>srcOp = srcOp e, dstOp = dstOp e, srcIdx = srcIdx e, dstIdx = dstIdx e\<rparr> = e" by simp
  with add_edge_ok [OF Cons.prems, of so "srcOp e" "dstOp e" "srcIdx e" "dstIdx e"] Cons.IH
  show ?case by simp
qed simp

lemma pw_clone_ok:
  fixes g :: "'f::zero graph"
  assumes g: "graph_ok g"
  shows "graph_ok (pw_clone so g)" "graph_edges (pw_clone so g) = graph_edges g" "set (graph_nodes (pw_clone so g)) = dstOp ` graph_edges g"
proof -
  let ?add = "\<lambda>e. add_edge so (srcOp e) (dstOp e) (srcIdx e) (dstIdx e)"
  have flat: "fold (\<lambda>(q, es) new. fold ?add es new) om new = fold ?add (concat (map snd om)) new" for om :: opmap and new :: "'f graph"
    by (induction om arbitrary: new) auto
  have "graph_ok (new_Graph\<lparr>subst_history := subst_history g\<rparr> :: 'f graph)"
    "graph_edges (new_Graph\<lparr>subst_history := subst_history g\<rparr> :: 'f graph) = {}"
    "graph_nodes (new_Graph\<lparr>subst_history := subst_history g\<rparr> :: 'f graph) = []"
    by (simp_all add: graph_ok_def opmap_ok_def graph_edges_def graph_nodes_def new_Graph_def om_get_def)
  from fold_add_edges [OF this(1), of so "concat (map snd (inEdges g))"] this(2,3)
  show "graph_ok (pw_clone so g)" "graph_edges (pw_clone so g) = graph_edges g" "set (graph_nodes (pw_clone so g)) = dstOp ` graph_edges g"
    unfolding pw_clone_def flat graph_edges_concat [OF g] by simp_all
qed

text \<open>The last loop removes operators of the given set that nothing uses, until there are none.\<close>

lemma pw_removable_touch:
  "pw_removable so W ins outs = (outs', found) \<Longrightarrow> (\<forall>q. om_get outs' q = om_get outs q) \<and> distinct (map fst outs') = distinct (map fst outs)
     \<and> (found = None \<longrightarrow> (\<forall>q \<in> fst ` set ins \<inter> W. om_get outs q \<noteq> []))"
proof (induction so W ins outs rule: pw_removable.induct)
  case (2 so W p es ins outs)
  show ?case
  proof (cases "p \<in> W \<and> om_get outs p = []")
    case True
    thus ?thesis using 2(3) by (auto simp: Let_def)
  next
    case False
    thus ?thesis using 2 by (cases "p \<in> W") (auto simp: Let_def)
  qed
qed simp

definition removed :: "op set \<Rightarrow> 'f graph \<Rightarrow> op set \<Rightarrow> 'f graph \<Rightarrow> bool" where
  "removed W g X g' \<longleftrightarrow> graph_ok g' \<and> X \<subseteq> W \<and> set (graph_nodes g') = set (graph_nodes g) - X
     \<and> graph_edges g' = {e \<in> graph_edges g. dstOp e \<notin> X} \<and> (\<forall>e \<in> graph_edges g. srcOp e \<in> X \<longrightarrow> dstOp e \<in> X)"

lemma removed_step:
  assumes g1: "graph_ok g1" "graph_edges g1 = {e \<in> graph_edges g. dstOp e \<noteq> q}" "set (graph_nodes g1) = set (graph_nodes g) - {q}"
    and q: "q \<in> W" "\<forall>e \<in> graph_edges g. srcOp e \<noteq> q" and r: "removed W g1 X g'"
  shows "removed W g (insert q X) g'"
  using assms unfolding removed_def by auto

lemma pw_remove_ok:
  assumes "graph_ok g"
  shows "\<exists>X g'. pw_remove so W g = Inr g' \<and> removed W g X g' \<and> (\<forall>q \<in> W \<inter> set (graph_nodes g'). \<exists>e \<in> graph_edges g'. srcOp e = q)"
  using assms
proof (induction so W g rule: pw_remove.induct)
  case (1 so W g)
  obtain outs found where r: "pw_removable so W (inEdges g) (outEdges g) = (outs, found)" by fastforce
  let ?g = "g\<lparr>outEdges := outs\<rparr>"
  have t: "om_get outs q = om_get (outEdges g) q" "distinct (map fst outs)" for q
    using pw_removable_touch [OF r] 1(2) by (simp_all add: graph_ok_def opmap_ok_def)
  hence ok: "graph_ok ?g" using 1(2) by (simp add: graph_ok_def opmap_ok_def)
  show ?case
  proof (cases found)
    case None
    have "\<exists>e \<in> graph_edges g. srcOp e = q" if "q \<in> W" "q \<in> set (graph_nodes g)" for q
    proof -
      have "om_get (outEdges g) q \<noteq> []" using pw_removable_touch [OF r] None that by (auto simp: graph_nodes_def)
      then obtain e where "e \<in> set (om_get (outEdges g) q)" by (meson list.set_sel(1))
      from out_edgeD [OF 1(2) this] show ?thesis by blast
    qed
    moreover have "graph_nodes ?g = graph_nodes g" by (simp add: graph_nodes_def)
    ultimately show ?thesis using r None ok by (intro exI [of _ "{}"] exI [of _ ?g]) (simp add: pw_remove.simps [of so W g] removed_def)
  next
    case (Some q)
    have q: "q \<in> W" "om_contains (outEdges ?g) q" "om_get (outEdges ?g) q = []"
      using pw_removable_found [OF r [unfolded Some]] by simp_all
    from remove_node_ok [OF ok q(2,3), of so] obtain g1 where g1: "remove_node so q ?g = Inr g1" "graph_ok g1"
      "graph_edges g1 = {e \<in> graph_edges g. dstOp e \<noteq> q}" "set (graph_nodes g1) = set (graph_nodes g) - {q}"
      by (auto simp: graph_nodes_def)
    have iso: "\<forall>e \<in> graph_edges g. srcOp e \<noteq> q" using edge_out [OF 1(2)] q(3) t(1) [of q] by auto
    from 1(1) [OF r [symmetric] refl refl Some g1(1,2)] obtain X g' where IH: "pw_remove so W g1 = Inr g'" "removed W g1 X g'"
      "\<forall>q \<in> W \<inter> set (graph_nodes g'). \<exists>e \<in> graph_edges g'. srcOp e = q" by blast
    have "pw_remove so W g = Inr g'" using r Some g1(1) IH(1) by (simp add: pw_remove.simps [of so W g])
    thus ?thesis using removed_step [OF g1(2-4) q(1) iso IH(2)] IH(3) by blast
  qed
qed

lemma removed_needed:
  assumes g: "graph_ok g" "acyclic (graph_deps g)" and r: "removed (set (graph_nodes g) - input_dependent g) g X g'"
    and stop: "\<forall>q \<in> (set (graph_nodes g) - input_dependent g) \<inter> set (graph_nodes g'). \<exists>e \<in> graph_edges g'. srcOp e = q"
  shows "set (graph_nodes g') = set (graph_nodes g) \<inter> needed g" "graph_edges g' = {e \<in> graph_edges g. dstOp e \<in> needed g}"
proof -
  have X: "X \<inter> input_dependent g = {}" "set (graph_nodes g') = set (graph_nodes g) - X" "graph_edges g' = {e \<in> graph_edges g. dstOp e \<notin> X}"
    "\<forall>e \<in> graph_edges g. srcOp e \<in> X \<longrightarrow> dstOp e \<in> X" using r unfolding removed_def by blast+
  have keep: "q \<notin> X" if "(q, r) \<in> (graph_deps g)\<^sup>*" "r \<notin> X" for q r
    using that by (induction rule: converse_rtrancl_induct) (use X(4) in \<open>auto simp: graph_deps_def\<close>)
  have "finite (graph_edges g)" using graph_edges_concat [OF g(1)] by (metis finite_set)
  hence "finite (graph_deps g)" by (simp add: graph_deps_def)
  hence wf: "wf ((graph_deps g)\<inverse>)" using g(2) by (simp add: finite_acyclic_wf_converse)
  have used: "q \<in> set (graph_nodes g') \<longrightarrow> q \<in> needed g" for q
  proof (induction q rule: wf_induct_rule [OF wf])
    case (1 q)
    show ?case
    proof (cases "q \<in> input_dependent g")
      case True
      thus ?thesis unfolding needed_def by blast
    next
      case False
      show ?thesis
      proof
        assume "q \<in> set (graph_nodes g')"
        with False stop X(2) obtain e where e: "e \<in> graph_edges g'" "srcOp e = q" by blast
        hence d: "(q, dstOp e) \<in> graph_deps g" "dstOp e \<in> set (graph_nodes g')"
          using X(2,3) edge_nodes [OF g(1), of e] by (auto simp: graph_deps_def)
        with 1 [of "dstOp e"] have "dstOp e \<in> needed g" by simp
        with d(1) show "q \<in> needed g" unfolding needed_def by (blast intro: converse_rtrancl_into_rtrancl)
      qed
    qed
  qed
  have "needed g \<inter> X = {}" using keep X(1) unfolding needed_def by blast
  moreover have "dstOp e \<in> set (graph_nodes g)" if "e \<in> graph_edges g" for e using edge_nodes [OF g(1) that] .
  ultimately show "set (graph_nodes g') = set (graph_nodes g) \<inter> needed g" "graph_edges g' = {e \<in> graph_edges g. dstOp e \<in> needed g}"
    using used X(2,3) by blast+
qed

lemma pw_scan_ok:
  assumes "\<forall>e \<in> set (concat (map snd (inEdges g))). is_operator h (dstOp e) \<longrightarrow> ptr (srcOp e) \<noteq> None"
    "\<forall>(q, es) \<in> set (inEdges g). ptr q \<noteq> None \<and> (\<forall>e \<in> set es. dstOp e = q)"
  shows "pw_scan h g = Inr ()"
proof -
  have all: "\<exists>b. foldR (\<lambda>e all. if \<not> all then Inr False else bindR (deref h (srcOp e)) (\<lambda>sb. Inr (op_type sb = OP_WEIGHT))) es a = (Inr b :: bool py)"
    if "\<forall>e \<in> set es. ptr (srcOp e) \<noteq> None" for es :: "edge list" and a
    using that by (induction es arbitrary: a) (auto simp: deref_def)
  have "foldR (\<lambda>(q, es) u. bindR (deref h q) (\<lambda>b.
       if op_type b = OP_INPUT \<or> op_type b = OP_WEIGHT \<or> op_type b = OP_TRANSPOSE then Inr ()
       else bindR (foldR (\<lambda>e all. if \<not> all then Inr False else bindR (deref h (srcOp e)) (\<lambda>sb. Inr (op_type sb = OP_WEIGHT))) es True)
         (\<lambda>_. Inr ()))) om () = (Inr () :: unit py)"
    if "\<forall>e \<in> set (concat (map snd om)). is_operator h (dstOp e) \<longrightarrow> ptr (srcOp e) \<noteq> None"
      "\<forall>(q, es) \<in> set om. ptr q \<noteq> None \<and> (\<forall>e \<in> set es. dstOp e = q)" for om :: opmap
    using that
  proof (induction om)
    case (Cons x om)
    obtain q es where x: "x = (q, es)" by fastforce
    then obtain a where a: "ptr q = Some a" using Cons.prems(2) by auto
    show ?case
    proof (cases "is_operator h q")
      case True
      hence "\<forall>e \<in> set es. ptr (srcOp e) \<noteq> None" using Cons.prems x by auto
      from all [OF this, of True] Cons x a show ?thesis by (auto simp: deref_def)
    next
      case False
      thus ?thesis using Cons x a by (auto simp: deref_def is_operator_def)
    qed
  qed simp
  from this [OF assms] show ?thesis by (simp add: pw_scan_def)
qed

lemma foldR_weight_visit:
  "\<exists>om. foldR (\<lambda>q (om, weightOps). Inr (om_touch so q om, insert q weightOps)) qs (om0, W) = (Inr (om, W \<union> set qs) :: (opmap \<times> op set) py)
      \<and> (\<forall>q. om_get om q = om_get om0 q) \<and> (distinct (map fst om0) \<longrightarrow> distinct (map fst om))"
proof (induction qs arbitrary: om0 W)
  case (Cons q qs)
  from Cons.IH [of "om_touch so q om0" "insert q W"] show ?case by simp
qed simp

lemma same_edges:
  assumes "graph_edges g' = graph_edges g"
  shows "graph_deps g' = graph_deps g" "input_dependent g' = input_dependent g" "needed g' = needed g"
  using assms by (simp_all add: graph_deps_def input_dependent_def needed_def)

text \<open>
  Operators are created with the edges that lead to them, and only the operators for inputs and weights have a
  placeholder as source.
\<close>

definition graph_typed :: "'d store \<Rightarrow> 'f graph \<Rightarrow> bool" where
  "graph_typed h g \<longleftrightarrow> set (graph_nodes g) = dstOp ` graph_edges g
     \<and> (\<forall>e \<in> graph_edges g. ptr (dstOp e) \<noteq> None \<and> (is_operator h (dstOp e) \<longrightarrow> ptr (srcOp e) \<noteq> None))"

text \<open>
  C9: \<open>preprocess_weights\<close> returns for every acyclic graph, and what it returns has exactly the operators that depend on an
  input or are used, directly or not, by one that does, with all their incoming edges: constants that nothing uses are
  dropped and nothing else.
\<close>

theorem preprocess_weights_keeps_needed:
  fixes g :: "'f::zero graph"
  assumes g: "graph_ok g" "graph_closed g" "graph_typed h g" and ac: "acyclic (graph_deps g)"
  shows "\<exists>g'. preprocess_weights so h g = Inr g' \<and> graph_ok g' \<and> set (graph_nodes g') = set (graph_nodes g) \<inter> needed g
    \<and> graph_edges g' = {e \<in> graph_edges g. dstOp e \<in> needed g}"
proof -
  let ?new = "pw_clone so g"
  note new = pw_clone_ok [OF g(1), of so] and same = same_edges [OF pw_clone_ok(2) [OF g(1), of so]]
  have nodes: "set (graph_nodes ?new) = set (graph_nodes g)" using new(3) g(3) by (simp add: graph_typed_def)
  have cl: "graph_closed ?new" using g(2) nodes new(2) by (simp add: graph_closed_def)
  have "ptr q \<noteq> None \<and> (\<forall>e \<in> set es. dstOp e = q)" if "(q, es) \<in> set (inEdges ?new)" for q es
  proof
    have "q \<in> dstOp ` graph_edges g" using that new(3) by (force simp: graph_nodes_def)
    thus "ptr q \<noteq> None" using g(3) by (auto simp: graph_typed_def)
    have "om_get (inEdges ?new) q = es" using that om_get_in new(1) by (auto simp: graph_ok_def opmap_ok_def)
    thus "\<forall>e \<in> set es. dstOp e = q" using new(1) by (auto simp: graph_ok_def opmap_ok_def)
  qed
  hence scan: "pw_scan h ?new = Inr ()"
    using g(3) unfolding graph_typed_def by (intro pw_scan_ok) (auto simp only: graph_edges_concat [OF new(1)] new(2))
  let ?W = "set (graph_nodes ?new) - input_dependent ?new"
  have "set (weight_order.order ?new) = ?W" using weight_order_set [OF new(1) cl] ac same(1) by simp
  with foldR_weight_visit [of so "weight_order.order ?new" "outEdges ?new" "{}"] obtain om where
    om: "foldR (\<lambda>q (om, weightOps). Inr (om_touch so q om, insert q weightOps)) (weight_order.order ?new) (outEdges ?new, {})
        = (Inr (om, ?W) :: (opmap \<times> op set) py)"
      "\<forall>q. om_get om q = om_get (outEdges ?new) q" "distinct (map fst om)"
    using new(1) by (auto simp: graph_ok_def opmap_ok_def)
  let ?g = "?new\<lparr>outEdges := om\<rparr>"
  have ok: "graph_ok ?g" "graph_edges ?g = graph_edges g" "set (graph_nodes ?g) = set (graph_nodes g)"
    using new om(2,3) nodes by (simp_all add: graph_ok_def opmap_ok_def graph_nodes_def)
  note same' = same_edges [OF ok(2)]
  have run: "preprocess_weights so h g = pw_remove so ?W ?g"
    using scan weight_order.kahn_order(1) [of ?new "\<lambda>q (om, weightOps). Inr (om_touch so q om, insert q weightOps)" "(outEdges ?new, {})"] new(1) cl om(1)
    by (simp add: preprocess_weights_def Let_def)
  have W: "?W = set (graph_nodes ?g) - input_dependent ?g" using nodes ok(3) same(2) same'(2) by simp
  from pw_remove_ok [OF ok(1), of so ?W] obtain X g' where r: "pw_remove so ?W ?g = Inr g'" "removed ?W ?g X g'"
    "\<forall>q \<in> ?W \<inter> set (graph_nodes g'). \<exists>e \<in> graph_edges g'. srcOp e = q" by blast
  have ac': "acyclic (graph_deps ?g)" using ac same'(1) by simp
  from removed_needed [OF ok(1) ac' r(2,3) [unfolded W]] r(1,2) run ok(2,3) same'(3)
  show ?thesis by (simp add: removed_def)
qed

theorem preprocess_weights_keeps_needed_witness:
  "\<exists>g'. preprocess_weights first_place sample_store sample_graph = Inr g' \<and> graph_ok g'
     \<and> set (graph_nodes g') = {handle 101 (Some 1), handle 100 (Some 0)}"
proof -
  have t: "graph_typed sample_store sample_graph"
    by (auto simp: graph_typed_def sample_graph_ok is_operator_def sample_store_def)
  have "graph_deps g = (\<lambda>e. (srcOp e, dstOp e)) ` graph_edges g" for g :: "int graph" by (auto simp: graph_deps_def)
  hence dep: "graph_deps sample_graph = {(handle 11 None, handle 102 (Some 2)), (handle 100 (Some 0), handle 101 (Some 1)),
      (handle 10 None, handle 100 (Some 0))}"
    by (simp add: sample_graph_ok(2))
  have "(handle 10 None, handle 100 (Some 0)) \<in> (graph_deps sample_graph)\<^sup>+" unfolding dep by blast
  moreover from this have "(handle 10 None, handle 101 (Some 1)) \<in> (graph_deps sample_graph)\<^sup>+"
    by (rule trancl_into_trancl) (simp add: dep)
  ultimately have "{handle 100 (Some 0), handle 101 (Some 1)} \<subseteq> input_dependent sample_graph"
    unfolding input_dependent_def by force
  hence "{handle 100 (Some 0), handle 101 (Some 1)} \<subseteq> needed sample_graph" unfolding needed_def by blast
  moreover have "handle 102 (Some 2) \<notin> needed sample_graph"
  proof
    assume "handle 102 (Some 2) \<in> needed sample_graph"
    then obtain s r where s: "(s, r) \<in> (graph_deps sample_graph)\<^sup>+" "guid s \<le> 19" "guid s \<noteq> 11" "(handle 102 (Some 2), r) \<in> (graph_deps sample_graph)\<^sup>*"
      unfolding needed_def input_dependent_def by blast
    have "handle 102 (Some 2) \<notin> Domain (graph_deps sample_graph)" unfolding dep by auto
    with s(4) have "r = handle 102 (Some 2)" by (metis Not_Domain_rtrancl)
    with s(1) have "s = handle 11 None"
    proof (induction rule: converse_trancl_induct)
      case (base y)
      thus ?case unfolding dep by auto
    next
      case (step y z)
      thus ?case unfolding dep by auto
    qed
    with s(3) show False by simp
  qed
  ultimately have "set (graph_nodes sample_graph) \<inter> needed sample_graph = {handle 101 (Some 1), handle 100 (Some 0)}"
    unfolding sample_graph_ok(3) by auto
  with preprocess_weights_keeps_needed [OF sample_graph_ok(1) sample_graph_order(1) t sample_graph_order(2), of first_place]
  show ?thesis by auto
qed

end
