(* ===== verification/Dbocg_Build.thy ===== *)
theory Dbocg_Build
  imports Dbocg_Weights
begin

text \<open>
  Graphs that are built with the methods of \<open>Graph\<close>. Every builder method keeps the invariant \<open>built\<close>: operators have
  fresh numbers, edges lead from smaller to larger numbers, and every source is an operator of the graph or the
  placeholder of an input or a weight. Built graphs are acyclic, so that \<open>has_loop\<close> answers no and \<open>get_operator_list\<close> and
  \<open>preprocess_weights\<close> return.
\<close>

section \<open>New handles\<close>

definition caches_in :: "'d store \<Rightarrow> model \<Rightarrow> bool" where
  "caches_in h m \<longleftrightarrow> list_all (\<lambda>c. \<forall>(k, a) \<in> set c. a < length h)
     [m_concat m, m_conv2d m, m_element m, m_reshape m, m_activation m, m_pool2d m, m_transpose m, m_matmul m]"

definition fresh_handle :: "'d store \<Rightarrow> model \<Rightarrow> 'd store \<Rightarrow> model \<Rightarrow> op \<Rightarrow> bool" where
  "fresh_handle h m h' m' q \<longleftrightarrow> guid q = global_unique_id m \<and> (\<exists>a < length h'. ptr q = Some a) \<and> global_unique_id m' = global_unique_id m + 1
     \<and> take (length h) h' = h \<and> caches_in h' m'"

lemma file_key_Inr: "file_key k a c = Inr c' \<longleftrightarrow> list_all (\<lambda>(k', _). \<not> isl (KeyCompare_lt (length k) k k')) c \<and> c' = (k, a) # c"
  by (auto simp: file_key_def)

lemma caches_in_append: "caches_in h m \<Longrightarrow> caches_in (h @ bs) m"
  unfolding caches_in_def by (fastforce simp: list_all_iff)

lemma cached_fresh:
  assumes m: "caches_in h m" and c: "\<forall>(k, a) \<in> set c. a < length h" and run: "cached h m (map_of c k) built filed = Inr (h', m', q)"
    and filed: "\<And>b m1. filed (length h) = Inr m1 \<Longrightarrow> global_unique_id m1 = global_unique_id m \<and> caches_in (h @ [b]) m1"
  shows "fresh_handle h m h' m' q"
proof (cases "map_of c k")
  case (Some a)
  hence "a < length h" using c map_of_SomeD [OF Some] by auto
  thus ?thesis using Some m run by (auto simp: cached_def new_handle_def fresh_handle_def caches_in_def)
next
  case None
  then obtain b m1 where "built = Inr b" "filed (length h) = Inr m1" "h' = h @ [b]" "m' = m1\<lparr>global_unique_id := global_unique_id m1 + 1\<rparr>"
    "q = \<lparr>guid = global_unique_id m1, ptr = Some (length h)\<rparr>"
    using run by (auto simp: cached_def new_handle_def bindR_Inr_iff)
  with filed [of m1 b] show ?thesis by (auto simp: fresh_handle_def caches_in_def)
qed

lemma caches_in_fields:
  assumes "caches_in h m"
  shows "\<forall>(k, a) \<in> set (m_concat m). a < length h"
    "\<forall>(k, a) \<in> set (m_conv2d m). a < length h"
    "\<forall>(k, a) \<in> set (m_element m). a < length h"
    "\<forall>(k, a) \<in> set (m_reshape m). a < length h"
    "\<forall>(k, a) \<in> set (m_activation m). a < length h"
    "\<forall>(k, a) \<in> set (m_pool2d m). a < length h"
    "\<forall>(k, a) \<in> set (m_transpose m). a < length h"
    "\<forall>(k, a) \<in> set (m_matmul m). a < length h"
  using assms by (simp_all add: caches_in_def)

lemma caches_in_file:
  assumes "caches_in h m"
  shows "caches_in (h @ [b]) (m\<lparr>m_concat := (k, length h) # m_concat m\<rparr>)"
    "caches_in (h @ [b]) (m\<lparr>m_conv2d := (k, length h) # m_conv2d m\<rparr>)"
    "caches_in (h @ [b]) (m\<lparr>m_element := (k, length h) # m_element m\<rparr>)"
    "caches_in (h @ [b]) (m\<lparr>m_reshape := (k, length h) # m_reshape m\<rparr>)"
    "caches_in (h @ [b]) (m\<lparr>m_activation := (k, length h) # m_activation m\<rparr>)"
    "caches_in (h @ [b]) (m\<lparr>m_pool2d := (k, length h) # m_pool2d m\<rparr>)"
    "caches_in (h @ [b]) (m\<lparr>m_transpose := (k, length h) # m_transpose m\<rparr>)"
    "caches_in (h @ [b]) (m\<lparr>m_matmul := (k, length h) # m_matmul m\<rparr>)"
  using caches_in_append [OF assms, of "[b]"] by (simp_all add: caches_in_def)

lemma get_or_create_fresh:
  assumes m: "caches_in h m"
  shows "get_or_create_pool2d h m inp w ty kH kW sH sW pad acti = Inr (h', m', q) \<Longrightarrow> fresh_handle h m h' m' q"
    and "get_or_create_activation h m inp ty inpl = Inr (h', m', q) \<Longrightarrow> fresh_handle h m h' m' q"
    and "get_or_create_reshape h m inp shp = Inr (h', m', q) \<Longrightarrow> fresh_handle h m h' m' q"
    and "get_or_create_transpose h m inp perm shuf = Inr (h', m', q) \<Longrightarrow> fresh_handle h m h' m' q"
    and "broadcastable inp w \<Longrightarrow> get_or_create_element h m ty inp w = Inr (h', m', q) \<Longrightarrow> fresh_handle h m h' m' q"
    and "q \<noteq> INVALID_OP \<Longrightarrow> get_or_create_conv2d h m inp w sH sW pad acti = Inr (h', m', q) \<Longrightarrow> fresh_handle h m h' m' q"
    and "q \<noteq> INVALID_OP \<Longrightarrow> get_or_create_matmul h m inp w acti = Inr (h', m', q) \<Longrightarrow> fresh_handle h m h' m' q"
  unfolding get_or_create_pool2d_def get_or_create_activation_def get_or_create_reshape_def get_or_create_transpose_def
    get_or_create_element_def get_or_create_conv2d_def get_or_create_matmul_def
  by (auto simp: bindR_Inr_iff file_key_Inr m caches_in_file caches_in_append split: if_splits
      elim!: cached_fresh [OF m caches_in_fields(1) [OF m]] cached_fresh [OF m caches_in_fields(2) [OF m]]
        cached_fresh [OF m caches_in_fields(3) [OF m]] cached_fresh [OF m caches_in_fields(4) [OF m]]
        cached_fresh [OF m caches_in_fields(5) [OF m]] cached_fresh [OF m caches_in_fields(6) [OF m]]
        cached_fresh [OF m caches_in_fields(7) [OF m]] cached_fresh [OF m caches_in_fields(8) [OF m]])

section \<open>Built graphs\<close>

definition edge_built :: "'d store \<Rightarrow> 'f graph \<Rightarrow> edge \<Rightarrow> bool" where
  "edge_built h g e \<longleftrightarrow> guid (srcOp e) < guid (dstOp e) \<and> GUID_PRESERVED < guid (dstOp e) \<and> guid (dstOp e) < global_unique_id (g_model g)
     \<and> (\<exists>a < length h. ptr (dstOp e) = Some a)
     \<and> (srcOp e \<in> set (graph_nodes g) \<or> guid (srcOp e) \<le> GUID_PRESERVED \<and> \<not> is_operator h (dstOp e))"

definition built :: "'d store \<Rightarrow> 'f graph \<Rightarrow> bool" where
  "built h g \<longleftrightarrow> graph_ok g \<and> caches_in h (g_model g) \<and> GUID_PRESERVED < global_unique_id (g_model g)
     \<and> set (graph_nodes g) = dstOp ` graph_edges g \<and> (\<forall>e \<in> graph_edges g. edge_built h g e)"

lemma built_node: "built h g \<Longrightarrow> q \<in> set (graph_nodes g) \<Longrightarrow> GUID_PRESERVED < guid q \<and> guid q < global_unique_id (g_model g) \<and> (\<exists>a < length h. ptr q = Some a)"
  by (auto simp: built_def edge_built_def)

lemma built_graph:
  assumes b: "built h g"
  shows "graph_ok g" "graph_closed g" "graph_typed h g" "acyclic (graph_deps g)" "list_all (\<lambda>q. ptr q \<noteq> None) (graph_nodes g)"
proof -
  show "graph_ok g" using b by (simp add: built_def)
  have e: "edge_built h g e" if "e \<in> graph_edges g" for e using b that by (simp add: built_def)
  show "graph_closed g"
    unfolding graph_closed_def
  proof (intro conjI ballI impI)
    fix e' assume "e' \<in> graph_edges g" "GUID_PRESERVED < guid (srcOp e')"
    with e [OF this(1)] show "srcOp e' \<in> set (graph_nodes g)" by (simp add: edge_built_def)
  qed (use built_node [OF b] in simp)
  show "graph_typed h g" unfolding graph_typed_def
  proof (intro conjI ballI)
    show "set (graph_nodes g) = dstOp ` graph_edges g" using b by (simp add: built_def)
    fix e' assume "e' \<in> graph_edges g"
    note e [OF this]
    thus "ptr (dstOp e') \<noteq> None" "is_operator h (dstOp e') \<longrightarrow> ptr (srcOp e') \<noteq> None"
      using built_node [OF b, of "srcOp e'"] by (auto simp: edge_built_def)
  qed
  have "graph_deps g \<subseteq> measure guid" using e by (auto simp: graph_deps_def edge_built_def)
  thus "acyclic (graph_deps g)" by (meson acyclic_subset wf_acyclic wf_measure)
  show "list_all (\<lambda>q. ptr q \<noteq> None) (graph_nodes g)" using built_node [OF b] by (fastforce simp: list_all_iff)
qed

lemma built_new [simp]: "built [] (new_Graph :: 'f::zero graph)"
  by (simp add: built_def) (simp add: new_Graph_def new_Model_def caches_in_def)

lemma is_operator_grow: "take (length h) h' = h \<Longrightarrow> ptr q = Some a \<Longrightarrow> a < length h \<Longrightarrow> is_operator h' q = is_operator h q"
  using nth_take [of a "length h" h'] by (simp add: is_operator_def)

text \<open>The store grows and new numbers are given out.\<close>

lemma built_grow:
  assumes b: "built h g" and f: "take (length h) h' = h" "caches_in h' m" "global_unique_id (g_model g) \<le> global_unique_id m"
  shows "built h' (g\<lparr>g_model := m\<rparr>)"
proof -
  have l: "length h \<le> length h'" using f(1) by (metis length_take min.cobounded1)
  have "edge_built h' (g\<lparr>g_model := m\<rparr>) e" if "e \<in> graph_edges g" for e
  proof -
    have eb: "edge_built h g e" using b that by (simp add: built_def)
    then obtain a where "a < length h" "ptr (dstOp e) = Some a" by (auto simp: edge_built_def)
    hence "\<exists>a < length h'. ptr (dstOp e) = Some a" using l by (meson order_less_le_trans)
    moreover have "is_operator h' (dstOp e) = is_operator h (dstOp e)" by (rule is_operator_grow [OF f(1)]) fact+
    ultimately show ?thesis using eb f(3) by (simp add: edge_built_def)
  qed
  thus ?thesis using b f by (simp add: built_def)
qed

text \<open>An edge into an operator with the largest number.\<close>

lemma built_add_edge:
  assumes b: "built h g" and q: "a < length h" "ptr q = Some a" "GUID_PRESERVED < guid q" "guid q < global_unique_id (g_model g)"
    and s: "src \<in> set (graph_nodes g) \<and> guid src < guid q \<or> guid src \<le> GUID_PRESERVED \<and> \<not> is_operator h q"
  shows "built h (add_edge so src q i j g)"
proof -
  have g: "graph_ok g" using b by (simp add: built_def)
  note ok = add_edge_ok [OF g, of so src q i j]
  let ?g = "add_edge so src q i j g"
  have "edge_built h ?g e" if "e \<in> graph_edges ?g" for e
  proof (cases "e \<in> graph_edges g")
    case True
    thus ?thesis using b ok(3,4) by (auto simp: built_def edge_built_def)
  next
    case False
    hence "e = \<lparr>srcOp = src, dstOp = q, srcIdx = i, dstIdx = j\<rparr>" using that ok(2) by simp
    thus ?thesis using q s ok(3,4) by (auto simp: edge_built_def)
  qed
  thus ?thesis using b ok by (simp add: built_def)
qed

section \<open>Builder methods\<close>

text \<open>What a builder method returns: a built graph with the old operators, and a tensor of one of its operators.\<close>

definition extended :: "'f graph \<Rightarrow> 'd store \<times> 'f graph \<times> 'd tensor \<Rightarrow> bool" where
  "extended g r \<longleftrightarrow> (case r of (h', g', t) \<Rightarrow> built h' g' \<and> tensor_op t \<in> set (graph_nodes g') \<and> set (graph_nodes g) \<subseteq> set (graph_nodes g'))"

definition of_graph :: "'f graph \<Rightarrow> 'd tensor \<Rightarrow> bool" where
  "of_graph g t \<longleftrightarrow> tensor_op t \<in> set (graph_nodes g)"

lemma fresh_built:
  assumes b: "built h g" and f: "fresh_handle h (g_model g) h' m q"
    and s: "src \<in> set (graph_nodes g) \<or> guid src \<le> GUID_PRESERVED \<and> \<not> is_operator h' q"
  shows "built h' (add_edge so src q i j (g\<lparr>g_model := m\<rparr>))"
    "src' \<in> set (graph_nodes g) \<Longrightarrow> built h' (add_edge so src' q i' j' (add_edge so src q i j (g\<lparr>g_model := m\<rparr>)))"
proof -
  let ?g = "g\<lparr>g_model := m\<rparr>"
  obtain a where a: "a < length h'" "ptr q = Some a" using f by (auto simp: fresh_handle_def)
  have q: "GUID_PRESERVED < guid q" "guid q < global_unique_id (g_model ?g)" using b f by (simp_all add: built_def fresh_handle_def)
  have bg: "built h' ?g" using f by (intro built_grow [OF b]) (simp_all add: fresh_handle_def)
  have lt: "guid p < guid q" if "p \<in> set (graph_nodes g)" for p using built_node [OF b that] f by (simp add: fresh_handle_def)
  show b1: "built h' (add_edge so src q i j ?g)" using s lt by (intro built_add_edge [OF bg a q]) auto
  have g: "graph_ok ?g" using bg by (simp add: built_def)
  show "built h' (add_edge so src' q i' j' (add_edge so src q i j ?g))" if "src' \<in> set (graph_nodes g)"
    using that lt q add_edge_ok(3,4) [OF g, of so src q i j] by (intro built_add_edge [OF b1 a]) auto
qed

lemma connect1_extended:
  assumes b: "built h g" and f: "fresh_handle h (g_model g) h' m q"
    and s: "src \<in> set (graph_nodes g) \<or> guid src \<le> GUID_PRESERVED \<and> \<not> is_operator h' q" and run: "connect1 so h' g m q src i = Inr r"
  shows "extended g r"
proof -
  have g: "graph_ok (g\<lparr>g_model := m\<rparr>)" using b by (simp add: built_def)
  obtain t where r: "r = (h', add_edge so src q i 0 (g\<lparr>g_model := m\<rparr>), t)" "tensor_op t = q"
    using run by (auto simp: connect1_def result_tensor_def bindR_Inr_iff)
  show ?thesis using fresh_built(1) [OF b f s, of so i 0] add_edge_ok(3) [OF g, of so src q i 0] unfolding extended_def r(1) r(2) [symmetric] by (simp add: subset_insertI)
qed

lemma connect2_extended:
  assumes b: "built h g" and f: "fresh_handle h (g_model g) h' m q" and s: "of_graph g t1" "of_graph g t2" and run: "connect2 so h' g m q t1 t2 = Inr r"
  shows "extended g r"
proof -
  have g: "graph_ok (g\<lparr>g_model := m\<rparr>)" using b by (simp add: built_def)
  have n: "set (graph_nodes (add_edge so (tensor_op t2) q j 1 (add_edge so (tensor_op t1) q i 0 (g\<lparr>g_model := m\<rparr>)))) = insert q (set (graph_nodes g))" for i j
    using add_edge_ok(3) [OF g] add_edge_ok(3) [OF add_edge_ok(1) [OF g]] by simp
  have "built h' (add_edge so (tensor_op t2) q (idx t2) 1 (add_edge so (tensor_op t1) q (idx t1) 0 (g\<lparr>g_model := m\<rparr>)))"
    using s by (intro fresh_built(2) [OF b f]) (simp_all add: of_graph_def)
  moreover obtain t where r: "r = (h', add_edge so (tensor_op t2) q (idx t2) 1 (add_edge so (tensor_op t1) q (idx t1) 0 (g\<lparr>g_model := m\<rparr>)), t)" "tensor_op t = q"
    using run by (auto simp: connect2_def result_tensor_def bindR_Inr_iff Let_def)
  ultimately show ?thesis using n unfolding extended_def r(1) r(2) [symmetric] by auto
qed

lemma Tensor_op:
  assumes "Tensor n dims i data = Inr t" "i \<le> GUID_PRESERVED"
  shows "guid (tensor_op t) \<le> GUID_PRESERVED"
proof (cases "n \<noteq> 0 \<and> dims \<noteq> [] \<and> i \<noteq> 0")
  case True
  then obtain u c where u: "foldR (\<lambda>i (t, count).
             bindR (py_get dims (int i)) (\<lambda>d.
             bindR (set_dim (int i) d t) (\<lambda>t.
             bindR (set_stride (int i) count t) (\<lambda>t.
             bindR (set_split (int i) NO_SPLIT t) (\<lambda>t. Inr (t, count * d))))))
           (rev [0..<n]) (Tensor_default\<lparr>numDim := n, tensor_op := new_Op i None\<rparr>, 1) = Inr (u, c)"
      and d: "(case data of None \<Rightarrow> Inr u | Some conv \<Rightarrow> bindR (conv dims) (\<lambda>d. Inr (u\<lparr>data_ptr := Some d\<rparr>))) = Inr t"
    using assms(1) by (auto simp: Tensor_def bindR_Inr_iff require_Inr_iff)
  have "tensor_op t = tensor_op u" using d by (cases data) (auto simp: bindR_Inr_iff)
  have "tensor_op (fst (u, c)) = new_Op i None"
    by (rule foldR_keeps [OF u]) (auto simp: bindR_Inr_iff set_dim_def set_stride_def set_split_def)
  thus ?thesis using \<open>tensor_op t = tensor_op u\<close> assms(2) by (simp add: new_Op_def)
next
  case False
  thus ?thesis using assms(1) by (auto simp: Tensor_def Tensor_default_def split: if_splits)
qed

lemma created_extended:
  assumes b: "built h g" and n: "NoOp inp ty = Inr b'" "ty = OP_INPUT \<or> ty = OP_WEIGHT" and t: "guid (tensor_op inp) \<le> GUID_PRESERVED"
    and q: "new_handle (h @ [b']) (g_model g) (length h) = (h', m, q)" and run: "connect1 so h' g m q (tensor_op inp) i = Inr r"
  shows "extended g r"
proof (rule connect1_extended [OF b _ _ run])
  have h: "h' = h @ [b']" "m = (g_model g)\<lparr>global_unique_id := global_unique_id (g_model g) + 1\<rparr>" "q = \<lparr>guid = global_unique_id (g_model g), ptr = Some (length h)\<rparr>"
    using q by (simp_all add: new_handle_def)
  have "caches_in (h @ [b']) (g_model g)" using b caches_in_append by (auto simp: built_def)
  thus "fresh_handle h (g_model g) h' m q" unfolding h by (simp add: fresh_handle_def caches_in_def)
  have "op_type b' = ty" using n(1) by (auto simp: NoOp_def OpBase_init_def set_output_def require_Inr_iff bindR_Inr_iff)
  thus "tensor_op inp \<in> set (graph_nodes g) \<or> guid (tensor_op inp) \<le> GUID_PRESERVED \<and> \<not> is_operator h' q"
    using n(2) t unfolding h by (auto simp: is_operator_def)
qed

lemma new_input_extended:
  assumes b: "built h g" and run: "new_input so h g dims = Inr r"
  shows "extended g r"
proof -
  obtain inp h' m q where t: "Tensor (length dims) dims GUID_INPUT None = Inr inp" and c: "create_input h (g_model g) inp OP_INPUT = Inr (h', m, q)"
    and r: "connect1 so h' g m q (tensor_op inp) 0 = Inr r"
    using run by (auto simp: new_input_def bindR_Inr_iff require_Inr_iff)
  from c obtain b' where "NoOp inp OP_INPUT = Inr b'" "new_handle (h @ [b']) (g_model g) (length h) = (h', m, q)"
    by (auto simp: create_input_def bindR_Inr_iff)
  from created_extended [OF b this(1) _ Tensor_op [OF t] this(2) r] show ?thesis by simp
qed

lemma new_weight_extended:
  assumes b: "built h g" and run: "new_weight so h g dims data = Inr r"
  shows "extended g r"
proof -
  obtain w h' m q where t: "Tensor (length dims) dims GUID_WEIGHT data = Inr w" and c: "create_weight h (g_model g) w OP_WEIGHT = Inr (h', m, q)"
    and r: "connect1 so h' g m q (tensor_op w) 0 = Inr r"
    using run by (auto simp: new_weight_def bindR_Inr_iff require_Inr_iff)
  from c obtain b' where "NoOp w OP_WEIGHT = Inr b'" "new_handle (h @ [b']) (g_model g) (length h) = (h', m, q)"
    by (auto simp: create_weight_def bindR_Inr_iff split: if_splits)
  from created_extended [OF b this(1) _ Tensor_op [OF t] this(2) r] show ?thesis by simp
qed

lemma builders_extended:
  fixes h :: "'d store"
  assumes b: "built h g" and t: "of_graph g t"
  shows "of_graph g w \<Longrightarrow> conv2d so h g t w sH sW pad acti = Inr r \<Longrightarrow> extended g r"
    and "of_graph g w \<Longrightarrow> element so h g ty t w = Inr r \<Longrightarrow> extended g r"
    and "of_graph g w \<Longrightarrow> matmul so h g t w acti = Inr r \<Longrightarrow> extended g r"
    and "Graph_relu so h g t inpl = Inr r \<Longrightarrow> extended g r"
    and "reshape so h g t shp = Inr r \<Longrightarrow> extended g r"
    and "transpose so h g t perm shuf = Inr r \<Longrightarrow> extended g r"
proof -
  have c: "caches_in h (g_model g)" using b by (simp add: built_def)
  note fresh = get_or_create_fresh [OF c]
  show "extended g r" if w: "of_graph g w" and run: "conv2d so h g t w sH sW pad acti = Inr r"
  proof -
    obtain h' m q where "get_or_create_conv2d h (g_model g) t w sH sW pad acti = Inr (h', m, q)" "q \<noteq> INVALID_OP" "connect2 so h' g m q t w = Inr r"
      using run by (auto simp: conv2d_def bindR_Inr_iff require_Inr_iff)
    thus ?thesis using connect2_extended [OF b fresh(6) t w] by blast
  qed
  show "extended g r" if w: "of_graph g w" and run: "element so h g ty t w = Inr r"
  proof -
    obtain h' m q where "broadcastable t w" "get_or_create_element h (g_model g) ty t w = Inr (h', m, q)" "connect2 so h' g m q t w = Inr r"
      using run by (auto simp: element_def bindR_Inr_iff require_Inr_iff)
    thus ?thesis using connect2_extended [OF b fresh(5) t w] by blast
  qed
  show "extended g r" if w: "of_graph g w" and run: "matmul so h g t w acti = Inr r"
  proof -
    obtain h' m q where "get_or_create_matmul h (g_model g) t w acti = Inr (h', m, q)" "q \<noteq> INVALID_OP" "connect2 so h' g m q t w = Inr r"
      using run by (auto simp: matmul_def bindR_Inr_iff require_Inr_iff)
    thus ?thesis using connect2_extended [OF b fresh(7) t w] by blast
  qed
  have s: "tensor_op t \<in> set (graph_nodes g) \<or> guid (tensor_op t) \<le> GUID_PRESERVED \<and> \<not> is_operator h' q" for h' :: "'d store" and q
    using t by (simp add: of_graph_def)
  show "extended g r" if run: "Graph_relu so h g t inpl = Inr r"
  proof -
    obtain h' m q i where "get_or_create_activation h (g_model g) t OP_RELU inpl = Inr (h', m, q)" "connect1 so h' g m q (tensor_op t) i = Inr r"
      using run by (auto simp: Graph_relu_def bindR_Inr_iff require_Inr_iff)
    thus ?thesis using connect1_extended [OF b fresh(2) s] by blast
  qed
  show "extended g r" if run: "reshape so h g t shp = Inr r"
  proof -
    obtain h' m q shp' where "get_or_create_reshape h (g_model g) t shp' = Inr (h', m, q)" "connect1 so h' g m q (tensor_op t) (idx t) = Inr r"
      using run by (auto simp: reshape_def bindR_Inr_iff require_Inr_iff Let_def case_prod_beta)
    thus ?thesis using connect1_extended [OF b fresh(3) s] by blast
  qed
  show "extended g r" if run: "transpose so h g t perm shuf = Inr r"
  proof -
    obtain h' m q where "get_or_create_transpose h (g_model g) t perm shuf = Inr (h', m, q)" "connect1 so h' g m q (tensor_op t) (idx t) = Inr r"
      using run by (auto simp: transpose_def bindR_Inr_iff)
    thus ?thesis using connect1_extended [OF b fresh(4) s] by blast
  qed
qed

lemma extended_trans:
  assumes "extended g (h1, g1, t1)" "extended g1 r"
  shows "extended g r"
  using assms by (cases r) (auto simp: extended_def)

lemma extended_of_graph: "extended g (h', g', t) \<Longrightarrow> of_graph g' t" "extended g (h', g', t) \<Longrightarrow> of_graph g u \<Longrightarrow> of_graph g' u"
  "extended g (h', g', t) \<Longrightarrow> built h' g'"
  by (auto simp: extended_def of_graph_def)

lemma pool2d_avg_extended:
  assumes b: "built h g" and t: "of_graph g t" and run: "pool2d_avg so avg h g t kH kW sH sW pad acti = Inr r"
  shows "extended g r"
proof -
  obtain h1 g1 w h' m q where w: "new_weight so h g [dim t ! 1, 1, kH, kW] (Some (avg kH kW)) = Inr (h1, g1, w)"
    and c: "get_or_create_pool2d h1 (g_model g1) t w OP_POOL2D_AVG kH kW sH sW pad acti = Inr (h', m, q)"
    and r: "connect2 so h' g1 m q t w = Inr r"
    using run by (auto simp: pool2d_avg_def bindR_Inr_iff)
  have e: "extended g (h1, g1, w)" by (rule new_weight_extended [OF b w])
  note o = extended_of_graph [OF e]
  have "caches_in h1 (g_model g1)" using o(3) by (simp add: built_def)
  from connect2_extended [OF o(3) get_or_create_fresh(1) [OF this c] o(2) [OF t] o(1) r] extended_trans [OF e]
  show ?thesis by blast
qed

section \<open>Reshaping\<close>

text \<open>The target shape with zeros replaced, its entries that are given, and the result with the wildcard filled in.\<close>

definition resolved :: "'d tensor \<Rightarrow> int list \<Rightarrow> int list" where
  "resolved inp shp = map (\<lambda>i. if shp ! i = 0 then dim inp ! i else shp ! i) [0..<length shp]"

definition given :: "int list \<Rightarrow> int list" where
  "given ds = filter (\<lambda>d. d \<noteq> -1) ds"

fun fill :: "int list \<Rightarrow> int \<Rightarrow> int list" where
  "fill [] sz = []"
| "fill (d # ds) sz = (if d = -1 then sz # fill ds 1 else d # fill ds sz)"

lemma foldR_nth: "foldR (\<lambda>i. f (xs ! i)) [0..<length xs] s = foldR f xs s"
proof -
  have "foldR f (map g ys) = foldR (\<lambda>i. f (g i)) ys" for g and ys :: "nat list"
  proof (induction ys)
    case (Cons y ys)
    show ?case by (rule ext) (simp add: Cons)
  qed (rule ext, simp)
  from this [of "nth xs" "[0..<length xs]"] show ?thesis by (simp add: map_nth)
qed

lemma reshape_zeros_eq:
  assumes "wf_tensor inp" "length shp \<le> MAX_DIM"
  shows "reshape_zeros inp shp = Inr (resolved inp shp)"
proof -
  let ?P = "\<lambda>i s. s = map (\<lambda>j. if j < i \<and> shp ! j = 0 then dim inp ! j else shp ! j) [0..<length shp]"
  have "\<exists>s. foldR (\<lambda>i s. if s ! i = 0 then bindR (py_get (dim inp) (int i)) (\<lambda>d. Inr (s[i := d])) else Inr s) [0..<length shp] shp
      = (Inr s :: int list py) \<and> ?P (length shp) s"
  proof (rule foldR_upt_inv [where P = ?P])
    show "?P 0 shp" by (simp add: map_nth)
    fix i s assume i: "i < length shp" "?P i s"
    have "py_get (dim inp) (int i) = Inr (dim inp ! i)" using i(1) assms by (simp add: wf_tensor_def)
    moreover have "s ! i = shp ! i" using i by simp
    moreover have "?P (Suc i) (s[i := dim inp ! i])" if "shp ! i = 0" using i that by (auto intro!: nth_equalityI simp: nth_list_update less_Suc_eq)
    moreover have "?P (Suc i) s" if "shp ! i \<noteq> 0" using i that by (auto simp: less_Suc_eq)
    ultimately show "\<exists>s'. (if s ! i = 0 then bindR (py_get (dim inp) (int i)) (\<lambda>d. Inr (s[i := d])) else Inr s) = (Inr s' :: int list py) \<and> ?P (Suc i) s'"
      by auto
  qed
  thus ?thesis by (auto simp: reshape_zeros_def resolved_def)
qed

lemma reshape_divide_eq:
  "0 \<notin> set ds \<Longrightarrow> reshape_divide ds v = (if prod_list (given ds) dvd v then Inr (v div prod_list (given ds)) else Inl AssertionError)"
  "0 \<in> set ds \<Longrightarrow> reshape_divide ds v \<noteq> Inr z"
proof -
  let ?f = "\<lambda>d sz. if d \<noteq> -1 then bindR (py_mod sz d) (\<lambda>r. py_assert (r = 0) (py_div sz d)) else Inr sz"
  have eq: "reshape_divide ds v = foldR ?f ds v"
    unfolding reshape_divide_def by (rule foldR_nth)
  have "0 \<notin> set ds \<Longrightarrow> foldR ?f ds v = (if prod_list (given ds) dvd v then Inr (v div prod_list (given ds)) else Inl AssertionError)"
  proof (induction ds arbitrary: v)
    case (Cons d ds)
    show ?case
    proof (cases "d dvd v")
      case True
      then obtain k where "v = d * k" by (auto simp: dvd_def)
      thus ?thesis using Cons by (auto simp: given_def)
    next
      case False
      hence "d \<noteq> -1" "v mod d \<noteq> 0" "\<not> d * prod_list (given ds) dvd v" by (auto dest: dvd_mult_left)
      thus ?thesis using Cons.prems by (simp add: given_def)
    qed
  qed (simp add: given_def)
  thus "0 \<notin> set ds \<Longrightarrow> reshape_divide ds v = (if prod_list (given ds) dvd v then Inr (v div prod_list (given ds)) else Inl AssertionError)"
    unfolding eq .
  have "0 \<in> set ds \<Longrightarrow> foldR ?f ds v \<noteq> Inr z"
    by (induction ds arbitrary: v) (auto simp: bindR_Inr_iff require_Inr_iff py_mod_def)
  thus "0 \<in> set ds \<Longrightarrow> reshape_divide ds v \<noteq> Inr z" unfolding eq .
qed

lemma fill_append: "fill (xs @ [d]) sz = fill xs sz @ [if d = -1 then (if -1 \<in> set xs then 1 else sz) else d]"
  by (induction xs sz rule: fill.induct) auto

lemma length_fill [simp]: "length (fill ds sz) = length ds"
  by (induction ds sz rule: fill.induct) auto

lemma prod_fill: "prod_list (fill ds sz) = prod_list (given ds) * (if -1 \<in> set ds then sz else 1)"
  by (induction ds sz rule: fill.induct) (auto simp: given_def)

lemma reshape_fill_eq: "reshape_fill ds sz = (fill ds sz, if -1 \<in> set ds then 1 else sz)"
proof -
  have "n \<le> length ds \<Longrightarrow> fold (\<lambda>i (shp, sz). if shp ! i = -1 then (shp[i := sz], 1) else (shp, sz)) [0..<n] (ds, sz)
      = (fill (take n ds) sz @ drop n ds, if -1 \<in> set (take n ds) then 1 else sz)" for n
  proof (induction n)
    case (Suc n)
    let ?x = "fill (take n ds) sz @ drop n ds"
    have "?x ! n = ds ! n" "?x[n := v] = fill (take n ds) sz @ v # drop (Suc n) ds" for v
      using Suc.prems by (simp_all add: nth_append list_update_append Cons_nth_drop_Suc [symmetric])
    thus ?case using Suc by (simp add: take_Suc_conv_app_nth fill_append Cons_nth_drop_Suc)
  qed simp
  from this [of "length ds"] show ?thesis by (simp add: reshape_fill_def)
qed

lemma get_or_create_reshape_shape:
  assumes m: "model_ok h m" and t: "wf_tensor inp" "no_split inp" and shp: "length shp \<le> MAX_DIM" "prod_list (shape inp) = prod_list shp"
  shows "\<exists>h' m' q a. get_or_create_reshape h m inp shp = Inr (h', m', q) \<and> ptr q = Some a \<and> yields (h' ! a) shp"
proof -
  let ?x = "Reshape_request inp shp"
  have x: "is_Reshape ?x" using t shp(1) by (simp add: is_Reshape_def)
  obtain b where b: "construct ?x = Inr b" "yields b shp" using Reshape_eq(1) [OF t(1) shp] by auto
  obtain k where k: "request_key ?x = Inr k" using ReshapeKey_eq [OF t shp(1)] by simp
  have c: "cache_sound request_key construct is_Reshape h (m_reshape m)" using m by (simp add: model_ok_def)
  show ?thesis
  proof (cases "map_of (m_reshape m) k")
    case None
    thus ?thesis using b k reshape_cache.file_key_ok [OF c x k]
      by (auto simp: get_or_create_reshape_def cached_def new_handle_def)
  next
    case (Some a)
    then obtain y where y: "is_Reshape y" "request_key y = Inr k" "construct y = Inr (h ! a)"
      using c map_of_SomeD [OF Some] by (auto simp: cache_sound_def)
    then obtain t' shp' where y': "y = Reshape_request t' shp'" "wf_tensor t'" "length shp' \<le> MAX_DIM"
      by (cases y) (auto simp: is_Reshape_def)
    hence "yields (h ! a) shp'" using y(3) Reshape_eq [OF y'(2,3)] by (cases "prod_list (shape t') = prod_list shp'") auto
    moreover have "shape (outputs (h ! a) ! 0) = shape (outputs b ! 0)"
      using reshape_cache.key_determines [OF y(1) x y(2) k y(3) b(1)] by (simp add: same_output_def)
    ultimately have "yields (h ! a) shp" using b(2) by (simp add: yields_def)
    thus ?thesis using Some k by (auto simp: get_or_create_reshape_def cached_def new_handle_def)
  qed
qed

text \<open>
  C16: \<open>Graph.reshape\<close> returns exactly when no entry of the target is zero after zeros were replaced by dimensions of the
  input, the product of the given entries divides the volume of the input, and there is a wildcard or the product is the
  volume. The result has the given entries, the remaining factor at the first wildcard and one at the others, and the
  volume of the input. The input is a well-formed tensor without splits, the target has at most \<open>MAX_DIM\<close> entries, and the
  caches of the model are consistent.
\<close>

theorem reshape_keeps_volume:
  assumes t: "wf_tensor inp" "no_split inp" and m: "model_ok h (g_model g)" and shp: "length shp \<le> MAX_DIM"
  shows "((\<exists>r. reshape so h g inp shp = Inr r) \<longleftrightarrow> 0 \<notin> set (resolved inp shp) \<and> prod_list (given (resolved inp shp)) dvd volume inp
        \<and> (-1 \<in> set (resolved inp shp) \<or> prod_list (given (resolved inp shp)) = volume inp))
    \<and> (\<forall>h' g' t'. reshape so h g inp shp = Inr (h', g', t') \<longrightarrow> volume t' = volume inp
        \<and> shape t' = fill (resolved inp shp) (volume inp div prod_list (given (resolved inp shp))))"
proof -
  let ?rs = "resolved inp shp" and ?v = "volume inp"
  let ?p = "prod_list (given ?rs)"
  note z = reshape_zeros_eq [OF t(1) shp]
  have len: "length ?rs = length shp" by (simp add: resolved_def)
  show ?thesis
  proof (cases "0 \<notin> set ?rs \<and> ?p dvd ?v \<and> (-1 \<in> set ?rs \<or> ?p = ?v)")
    case True
    have d: "reshape_divide ?rs ?v = Inr (?v div ?p)" using reshape_divide_eq(1) [of ?rs ?v] True by simp
    have p0: "?p \<noteq> 0" using True by (auto simp: given_def prod_list_zero_iff)
    have s: "(if -1 \<in> set ?rs then 1 else ?v div ?p) = 1" using True p0 by auto
    have prod: "prod_list (fill ?rs (?v div ?p)) = ?v" using True by (auto simp: prod_fill)
    hence "prod_list (shape inp) = prod_list (fill ?rs (?v div ?p))" using volume_shape [OF t(1)] by simp
    from get_or_create_reshape_shape [OF m t _ this] len shp
    obtain h' m' q a where r: "get_or_create_reshape h (g_model g) inp (fill ?rs (?v div ?p)) = Inr (h', m', q)" "ptr q = Some a"
      "yields (h' ! a) (fill ?rs (?v div ?p))" by auto
    let ?t = "(outputs (h' ! a) ! 0)\<lparr>tensor_op := q\<rparr>"
    have "reshape so h g inp shp = Inr (h', add_edge so (tensor_op inp) q (idx inp) 0 (g\<lparr>g_model := m'\<rparr>), ?t)"
      using r by (simp add: reshape_def z d reshape_fill_eq s connect1_def result_tensor_def deref_def yields_def py_get_in)
    moreover have "shape ?t = fill ?rs (?v div ?p)" "wf_tensor ?t" using r(3) by (simp_all add: yields_def shape_def wf_tensor_def)
    ultimately show ?thesis using True prod volume_shape [of ?t] by auto
  next
    case False
    have "reshape so h g inp shp \<noteq> Inr r" for r
    proof
      assume run: "reshape so h g inp shp = Inr r"
      then obtain sz where sz: "reshape_divide ?rs ?v = Inr sz" "(if -1 \<in> set ?rs then 1 else sz) = 1"
        by (auto simp: reshape_def z bindR_Inr_iff reshape_fill_eq require_Inr_iff)
      have 0: "0 \<notin> set ?rs" using reshape_divide_eq(2) [of ?rs ?v sz] sz(1) by blast
      hence "?p dvd ?v" "sz = ?v div ?p" using reshape_divide_eq(1) [OF 0, of ?v] sz(1) by (auto split: if_splits)
      thus False using False 0 sz(2) by (auto split: if_splits)
    qed
    thus ?thesis using False by blast
  qed
qed

theorem reshape_keeps_volume_witness:
  "\<exists>h' g' t'. reshape first_place [] (new_Graph :: int graph) (tensor_of [2, 3, 4] :: unit tensor) [0, -1] = Inr (h', g', t') \<and> shape t' = [2, 12]"
proof -
  have v: "volume (tensor_of [2, 3, 4] :: unit tensor) = 24" "resolved (tensor_of [2, 3, 4] :: unit tensor) [0, -1] = [2, -1]" by code_simp+
  have m: "model_ok [] (g_model (new_Graph :: int graph))" by (simp add: new_Graph_def model_ok_new)
  from reshape_keeps_volume [OF _ _ m, of "tensor_of [2, 3, 4] :: unit tensor" "[0, -1]" first_place] v
  show ?thesis by (auto simp: given_def)
qed

end
