(* ===== verification/Pg_Array.thy ===== *)
theory Pg_Array
  imports C_Prelude "HOL-Library.Word"
begin

text \<open>
  PostgreSQL arrays as the extension handles them (\<open>pg-src/src/include/utils/array.h\<close>,
  \<open>pg-src/src/backend/utils/adt/arrayutils.c\<close>) and the two constructors of
  \<open>aqua_extension/src/matrix_op.c\<close>.

  An \<open>ArrayType\<close> is a header (number of dimensions, element type, optional null bitmap), the
  dimensions, the lower bounds and the element data, laid out one after the other. The number of
  dimensions is the length of \<open>arr_dims\<close>. The kernels read \<open>ARR_DIMS(a)[i]\<close> without looking at
  \<open>ARR_NDIM(a)\<close>; past the last dimension they read the lower bounds, which follow in memory.
\<close>

type_synonym oid = nat

abbreviation FLOAT4OID :: oid where
  "FLOAT4OID \<equiv> 700"

record 'd ArrayType =
  arr_dims :: "int list"
  arr_lbound :: "int list"
  arr_elemtype :: oid
  arr_nullbitmap :: "8 word list option"
  arr_data :: "'d list"

definition ARR_NDIM :: "'d ArrayType \<Rightarrow> int" where
  "ARR_NDIM a = int (length (arr_dims a))"

definition ARR_DIMS :: "'d ArrayType \<Rightarrow> int \<Rightarrow> int result" where
  "ARR_DIMS a i = rd (arr_dims a @ arr_lbound a) i"

text \<open>\<open>dims[0] = v\<close> through the pointer \<open>ARR_DIMS(a)\<close>: the datum itself changes.\<close>

definition set_dim0 :: "'d ArrayType \<Rightarrow> int \<Rightarrow> 'd ArrayType" where
  "set_dim0 a v = a\<lparr>arr_dims := (arr_dims a)[0 := v]\<rparr>"

definition MAXALIGN :: "int \<Rightarrow> int" where
  "MAXALIGN n = (n + 7) div 8 * 8"

definition ARR_OVERHEAD_NONULLS :: "int \<Rightarrow> int" where
  "ARR_OVERHEAD_NONULLS ndims = MAXALIGN (16 + 2 * 4 * ndims)"

definition ARR_OVERHEAD_WITHNULLS :: "int \<Rightarrow> int \<Rightarrow> int" where
  "ARR_OVERHEAD_WITHNULLS ndims nitems = MAXALIGN (16 + 2 * 4 * ndims + (nitems + 7) div 8)"

abbreviation MaxArraySize :: int where
  "MaxArraySize \<equiv> 134217727"

fun nitems_loop :: "int \<Rightarrow> int list \<Rightarrow> int result" where
  "nitems_loop ret [] = Inr ret"
| "nitems_loop ret (d # ds) =
     (if d < 0 then Inl (Elog ''array size exceeds the maximum allowed'')
      else let prod = ret * d; ret' = wrap32 prod in
        if ret' \<noteq> prod then Inl (Elog ''array size exceeds the maximum allowed'')
        else nitems_loop ret' ds)"

definition ArrayGetNItems :: "int list \<Rightarrow> int result" where
  "ArrayGetNItems dims =
     (if dims = [] then Inr 0
      else bindR (nitems_loop 1 dims) (\<lambda>ret.
        if ret > MaxArraySize then Inl (Elog ''array size exceeds the maximum allowed'')
        else Inr ret))"

text \<open>
  \<open>float4construct_md_array\<close> and its variant without the final copy. \<open>int nbytes = sizeof(float4) *
  size\<close> keeps 32 bits; the sum passed to \<open>palloc0\<close> is a \<open>size_t\<close>; \<open>memcpy\<close> takes \<open>nbytes\<close> as a
  \<open>size_t\<close> again, so that a negative value runs off every buffer.
\<close>

definition md_array_alloc :: "int \<Rightarrow> int \<Rightarrow> int result" where
  "md_array_alloc sz ndims =
     (let nbytes = wrap32 (4 * sz);
          total = (nbytes + ARR_OVERHEAD_NONULLS ndims) mod 2 ^ 64
      in if total > MaxAllocSize then Inl (Elog ''invalid memory alloc request size'')
         else Inr nbytes)"

definition float4construct_md_array ::
  "'f list \<Rightarrow> int \<Rightarrow> int list \<Rightarrow> int list \<Rightarrow> 'f ArrayType result" where
  "float4construct_md_array res_data sz dims lbs =
     bindR (md_array_alloc sz (int (length dims))) (\<lambda>nbytes.
       if nbytes < 0 \<or> nbytes div 4 > int (length res_data) then Inl (Undefined Out_of_bounds)
       else Inr \<lparr>arr_dims = dims, arr_lbound = lbs, arr_elemtype = FLOAT4OID,
                 arr_nullbitmap = None, arr_data = take (nat (nbytes div 4)) res_data\<rparr>)"

definition float4construct_md_array_ncpy ::
  "int \<Rightarrow> int list \<Rightarrow> int list \<Rightarrow> 'f::zero ArrayType result" where
  "float4construct_md_array_ncpy sz dims lbs =
     bindR (md_array_alloc sz (int (length dims))) (\<lambda>nbytes.
       if nbytes < 0 then Inl (Undefined Out_of_bounds)
       else Inr \<lparr>arr_dims = dims, arr_lbound = lbs, arr_elemtype = FLOAT4OID,
                 arr_nullbitmap = None, arr_data = replicate (nat (nbytes div 4)) 0\<rparr>)"

text \<open>
  \<open>construct_md_array\<close> for \<open>float4\<close> elements without nulls (four bytes each), with the bound check of
  \<open>ArrayCheckBounds\<close>, and \<open>construct_array\<close>, its one-dimensional case.
\<close>

definition ArrayCheckBounds :: "int list \<Rightarrow> int list \<Rightarrow> unit result" where
  "ArrayCheckBounds dims lb =
     (if list_all2 (\<lambda>d l. in_int (d + l)) dims lb then Inr ()
      else Inl (Elog ''array lower bound is too large''))"

definition construct_empty_array :: "oid \<Rightarrow> 'f ArrayType" where
  "construct_empty_array elmtype =
     \<lparr>arr_dims = [], arr_lbound = [], arr_elemtype = elmtype, arr_nullbitmap = None, arr_data = []\<rparr>"

definition construct_md_array :: "'f list \<Rightarrow> int list \<Rightarrow> int list \<Rightarrow> 'f ArrayType result" where
  "construct_md_array elems dims lbs =
     bindR (ArrayGetNItems dims) (\<lambda>nelems.
     bindR (ArrayCheckBounds dims lbs) (\<lambda>_.
       if nelems \<le> 0 then Inr (construct_empty_array FLOAT4OID)
       else if nelems > int (length elems) then Inl (Undefined Out_of_bounds)
       else if 4 * nelems + ARR_OVERHEAD_NONULLS (int (length dims)) > MaxAllocSize
         then Inl (Elog ''invalid memory alloc request size'')
       else Inr \<lparr>arr_dims = dims, arr_lbound = lbs, arr_elemtype = FLOAT4OID,
                 arr_nullbitmap = None, arr_data = take (nat nelems) elems\<rparr>))"

definition construct_array :: "'f list \<Rightarrow> int \<Rightarrow> 'f ArrayType result" where
  "construct_array elems nelems = construct_md_array elems [nelems] [1]"

text \<open>
  A two-dimensional array without nulls: what the SQL signatures \<open>real[][]\<close> promise the kernels.
\<close>

definition matrix :: "int \<Rightarrow> int \<Rightarrow> 'd list \<Rightarrow> 'd ArrayType" where
  "matrix r c xs = \<lparr>arr_dims = [r, c], arr_lbound = [1, 1], arr_elemtype = FLOAT4OID,
                    arr_nullbitmap = None, arr_data = xs\<rparr>"

section \<open>Lemmas\<close>

lemma ARR_DIMS_matrix [simp, c_simps]:
  "ARR_DIMS (matrix r c xs) 0 = Inr r"
  "ARR_DIMS (matrix r c xs) 1 = Inr c"
  by (simp_all add: ARR_DIMS_def matrix_def rd_def)

lemma matrix_sel [simp]:
  "arr_dims (matrix r c xs) = [r, c]"
  "arr_data (matrix r c xs) = xs"
  "arr_lbound (matrix r c xs) = [1, 1]"
  by (simp_all add: matrix_def)

lemma matrix_data_update [simp]: "(matrix r c xs)\<lparr>arr_data := ys\<rparr> = matrix r c ys"
  by (simp add: matrix_def)

lemma set_dim0_matrix [simp]: "set_dim0 (matrix r c xs) v = matrix v c xs"
  by (simp add: set_dim0_def matrix_def)

lemma md_array_alloc_ok:
  assumes "0 \<le> sz" and "4 * sz + 32 \<le> MaxAllocSize"
  shows "md_array_alloc sz 2 = Inr (4 * sz)"
proof -
  have "in_int (4 * sz)" using assms by (simp add: in_int_def)
  then show ?thesis
    using assms by (simp add: md_array_alloc_def ARR_OVERHEAD_NONULLS_def MAXALIGN_def Let_def)
qed

lemma float4construct_md_array_matrix:
  assumes "0 \<le> sz" and "4 * sz + 32 \<le> MaxAllocSize" and "sz \<le> int (length xs)"
  shows "float4construct_md_array xs sz [r, c] [1, 1] = Inr (matrix r c (take (nat sz) xs))"
  using assms by (simp add: float4construct_md_array_def md_array_alloc_ok matrix_def)

lemma float4construct_md_array_nat:
  assumes "length xs = n" and "4 * int n + 32 \<le> MaxAllocSize"
  shows "float4construct_md_array xs (int n) [r, c] [1, 1] = Inr (matrix r c xs)"
  using float4construct_md_array_matrix [of "int n" xs r c] assms by simp

text \<open>The size computation, allocation and final copy of an operator whose \<open>M\<close> by \<open>N\<close> result fits.\<close>

lemma result_allocs:
  assumes "4 * int (M * N) + 32 \<le> MaxAllocSize"
  shows "cint (int M * int N) = Inr (int (M * N))"
    and "palloc 4 (int (M * N)) = Inr (replicate (M * N) None)"
    and "palloc0 4 (int M * int N) = Inr (replicate (M * N) (Some 0))"
    and "palloc 4 (int M * int N) = Inr (replicate (M * N) None)"
    and "length xs = M * N \<Longrightarrow> float4construct_md_array xs (int (M * N)) [r, c] [1, 1] = Inr (matrix r c xs)"
proof -
  have a: "4 * int (M * N) \<le> MaxAllocSize" using assms by simp
  then show "cint (int M * int N) = Inr (int (M * N))" by (rule cint_size)
  from a show "palloc 4 (int (M * N)) = Inr (replicate (M * N) None)" by (rule palloc_nat)
  from palloc_nat [OF a] show "palloc 4 (int M * int N) = Inr (replicate (M * N) None)" by simp
  from palloc0_nat [OF a] show "palloc0 4 (int M * int N) = Inr (replicate (M * N) (Some 0))" by simp
  show "length xs = M * N \<Longrightarrow> float4construct_md_array xs (int (M * N)) [r, c] [1, 1] = Inr (matrix r c xs)"
    using assms by (rule float4construct_md_array_nat [rotated])
qed

lemma float4construct_md_array_ncpy_matrix:
  assumes "0 \<le> sz" and "4 * sz + 32 \<le> MaxAllocSize"
  shows "float4construct_md_array_ncpy sz [r, c] [1, 1] = Inr (matrix r c (replicate (nat sz) 0))"
  using assms by (simp add: float4construct_md_array_ncpy_def md_array_alloc_ok matrix_def)

lemma prod_list_ge_1: "\<forall>d \<in> set ds. 1 \<le> d \<Longrightarrow> 1 \<le> prod_list (ds :: int list)"
proof (induction ds)
  case Nil
  then show ?case by simp
next
  case (Cons d ds)
  then have "1 * 1 \<le> d * prod_list ds" by (intro mult_mono) auto
  then show ?case by simp
qed

lemma nitems_loop_pos:
  assumes "\<forall>d \<in> set ds. 1 \<le> d" and "1 \<le> ret" and "in_int ret"
  shows "nitems_loop ret ds =
    (if ret * prod_list ds \<le> INT_MAX then Inr (ret * prod_list ds)
     else Inl (Elog ''array size exceeds the maximum allowed''))"
  using assms
proof (induction ds arbitrary: ret)
  case Nil
  then show ?case by (simp add: in_int_def)
next
  case (Cons d ds)
  have p: "1 \<le> prod_list ds"
    using Cons.prems(1) by (simp add: prod_list_ge_1)
  have rd: "1 \<le> ret * d"
    using mult_mono [of 1 ret 1 d] Cons.prems by simp
  show ?case
  proof (cases "in_int (ret * d)")
    case True
    then show ?thesis using Cons rd by (simp add: Let_def mult.assoc)
  next
    case False
    have "wrap32 (ret * d) \<noteq> ret * d"
      using False in_int_wrap32 [of "ret * d"] by metis
    moreover have "ret * d * 1 \<le> ret * d * prod_list ds"
      using p rd by (intro mult_left_mono) auto
    then have "\<not> ret * (d * prod_list ds) \<le> INT_MAX"
      using False rd by (simp add: in_int_def mult.assoc)
    ultimately show ?thesis
      using Cons.prems by (simp add: Let_def)
  qed
qed

lemma ArrayGetNItems_pos:
  assumes "\<forall>d \<in> set dims. 1 \<le> d" and "dims \<noteq> []"
  shows "ArrayGetNItems dims =
    (if prod_list dims \<le> MaxArraySize then Inr (prod_list dims)
     else Inl (Elog ''array size exceeds the maximum allowed''))"
  using assms nitems_loop_pos [OF assms(1), of 1]
  by (simp add: ArrayGetNItems_def in_int_def)

text \<open>A one-dimensional array without nulls.\<close>

definition vector :: "'d list \<Rightarrow> 'd ArrayType" where
  "vector xs = \<lparr>arr_dims = [int (length xs)], arr_lbound = [1], arr_elemtype = FLOAT4OID,
                arr_nullbitmap = None, arr_data = xs\<rparr>"

lemma ARR_DIMS_vector [simp, c_simps]: "ARR_DIMS (vector xs) 0 = Inr (int (length xs))"
  by (simp add: ARR_DIMS_def vector_def rd_def)

lemma vector_sel [simp]: "arr_data (vector xs) = xs" "arr_dims (vector xs) = [int (length xs)]"
  by (simp_all add: vector_def)

lemma construct_array_vector:
  assumes "xs \<noteq> []" and "int (length xs) \<le> MaxArraySize"
  shows "construct_array xs (int (length xs)) = Inr (vector xs)"
  using assms
  by (simp add: construct_array_def construct_md_array_def ArrayGetNItems_pos Suc_le_eq ArrayCheckBounds_def
      in_int_def vector_def ARR_OVERHEAD_NONULLS_def MAXALIGN_def)

lemma construct_md_array_matrix:
  assumes "1 \<le> r" "1 \<le> c" "r * c = int (length xs)" and "int (length xs) \<le> MaxArraySize"
  shows "construct_md_array xs [r, c] [1, 1] = Inr (matrix r c xs)"
proof -
  have "r * 1 \<le> r * c" "1 * c \<le> r * c"
    using assms by (intro mult_left_mono mult_right_mono; simp)+
  then have "in_int (r + 1)" "in_int (c + 1)" using assms by (simp_all add: in_int_def)
  moreover have "1 * 1 \<le> r * c" using assms(1,2) by (intro mult_mono) auto
  ultimately show ?thesis using assms
    by (cases xs) (simp_all add: construct_md_array_def ArrayGetNItems_pos ArrayCheckBounds_def matrix_def
        ARR_OVERHEAD_NONULLS_def MAXALIGN_def)
qed

end
