(* ===== verification/Im2col.thy ===== *)
theory Im2col
  imports Pg_Array
begin

text \<open>
  The image-to-column kernels of \<open>aqua_extension/src/matrix_op.c\<close> (\<open>im2col\<close>),
  \<open>aqua_extension/src/conv.c\<close> (\<open>im2col_core\<close>, \<open>im2col_core_W\<close>, \<open>im2col_core_H\<close>) and the stand-alone
  program \<open>aqua_extension/src/im2col.c\<close>. A feature map is a two-dimensional array with one row per
  channel; a channel holds a square image, row by row. The kernels copy, for every position of the
  sliding window, the window's pixels of all channels into consecutive cells of the output.

  A pointer into an array is the list of its elements and an offset (\<open>base\<close>). The \<open>collapse(2)\<close>
  parallel loops are run in their sequential order; every iteration computes the position of its
  block from its own counters.

  Sizes are checked against the range of \<open>int\<close> where a variable gets them; a product of several factors is checked as
  a whole. The running positions \<open>res_idx_local\<close> and \<open>matrix_head\<close> stay below the sizes of the buffers they index.
\<close>

section \<open>The loop nests\<close>

text \<open>The loops over channels, kernel rows and kernel columns, with the test for the padding.\<close>

definition window_padded ::
  "'f::zero list \<Rightarrow> int \<Rightarrow> int \<Rightarrow> int \<Rightarrow> int \<Rightarrow> int \<Rightarrow> int \<Rightarrow> int \<Rightarrow> int \<Rightarrow> int
   \<Rightarrow> 'f buf \<times> int \<Rightarrow> ('f buf \<times> int) result" where
  "window_padded src base height width num_channel nelems_channel kernel_H kernel_W rn cn =
     for_loop 0 num_channel 1 (\<lambda>c. for_loop 0 kernel_H 1 (\<lambda>ky. for_loop 0 kernel_W 1 (\<lambda>kx st.
       if ky + rn < 0 \<or> ky + rn \<ge> height \<or> kx + cn < 0 \<or> kx + cn \<ge> width
       then put st 0
       else bindR (rd src (base + (rn * width + cn + nelems_channel * c) + ky * width + kx)) (put st))))"

definition window_plain ::
  "'f list \<Rightarrow> int \<Rightarrow> int \<Rightarrow> int \<Rightarrow> int \<Rightarrow> int \<Rightarrow> int \<Rightarrow> int \<Rightarrow> int
   \<Rightarrow> 'f buf \<times> int \<Rightarrow> ('f buf \<times> int) result" where
  "window_plain src base width num_channel nelems_channel kernel_H kernel_W rn cn =
     for_loop 0 num_channel 1 (\<lambda>c. for_loop 0 kernel_H 1 (\<lambda>ky. for_loop 0 kernel_W 1 (\<lambda>kx st.
       bindR (rd src (base + (rn * width + cn + nelems_channel * c) + ky * width + kx)) (put st))))"

text \<open>\<open>(size + 2 * padding - kernel) / stride + 1\<close>\<close>

definition conv_out_dim :: "int \<Rightarrow> int \<Rightarrow> int \<Rightarrow> int \<Rightarrow> int result" where
  "conv_out_dim sz padding ksize stride =
     bindR (cdiv (sz + 2 * padding - ksize) stride) (\<lambda>q. cint (q + 1))"

text \<open>The SQL function \<open>im2col\<close>: the output size uses \<open>(width + 2 * padding - kernel_size + 1) / stride\<close>.\<close>

definition im2col :: "'f::zero ArrayType \<Rightarrow> int \<Rightarrow> int \<Rightarrow> int \<Rightarrow> 'f ArrayType result" where
  "im2col input_f kernel_size padding stride =
     bindR (ARR_DIMS input_f 0) (\<lambda>num_channel.
     bindR (ARR_DIMS input_f 1) (\<lambda>nelems_channel.
     bindR (csqrt nelems_channel) (\<lambda>width. let height = width in
     bindR (bindR (cdiv (width + 2 * padding - kernel_size + 1) stride) cint) (\<lambda>out_width.
     bindR (bindR (cdiv (height + 2 * padding - kernel_size + 1) stride) cint) (\<lambda>out_height.
     bindR (cint (out_width * out_height * num_channel * kernel_size * kernel_size)) (\<lambda>out_nelems.
     bindR (palloc 4 out_nelems) (\<lambda>res_data.
     bindR (for_loop (- padding) (height + padding - kernel_size + 1) stride (\<lambda>rn.
              for_loop (- padding) (width + padding - kernel_size + 1) stride (\<lambda>cn.
                window_padded (arr_data input_f) 0 height width num_channel nelems_channel
                  kernel_size kernel_size rn cn)) (res_data, 0)) (\<lambda>(res_data, res_idx).
     bindR (sealed res_data) (\<lambda>res_data.
       float4construct_md_array res_data out_nelems
         [out_width * out_height, num_channel * kernel_size * kernel_size] [1, 1])))))))))"

definition im2col_core ::
  "'f::zero list \<Rightarrow> int \<Rightarrow> int \<Rightarrow> int \<Rightarrow> 'f buf \<Rightarrow> int \<Rightarrow> int \<Rightarrow> int \<Rightarrow> 'f buf result" where
  "im2col_core input_f base num_channel nelems_channel f_matrix kernel_size padding stride =
     bindR (csqrt nelems_channel) (\<lambda>width. let height = width in
     bindR (conv_out_dim height padding kernel_size stride) (\<lambda>out_height.
     bindR (conv_out_dim width padding kernel_size stride) (\<lambda>out_width.
     require (0 < kernel_size) (Undefined Out_of_bounds)
     (if padding \<noteq> 0 then
        for_loop (- padding) (height + padding - kernel_size + 1) stride (\<lambda>rn.
          for_loop (- padding) (width + padding - kernel_size + 1) stride (\<lambda>cn f_matrix.
            bindR (cdiv (rn + padding) stride) (\<lambda>ro. bindR (cdiv (cn + padding) stride) (\<lambda>co.
              let res_idx_local = (ro * out_width + co) * num_channel * kernel_size * kernel_size in
              bindR (window_padded input_f base height width num_channel nelems_channel
                       kernel_size kernel_size rn cn (f_matrix, res_idx_local)) (\<lambda>(m, _). Inr m)))))
          f_matrix
      else
        for_loop 0 (height - kernel_size + 1) stride (\<lambda>rn.
          for_loop 0 (width - kernel_size + 1) stride (\<lambda>cn f_matrix.
            bindR (cdiv (rn + padding) stride) (\<lambda>ro. bindR (cdiv (cn + padding) stride) (\<lambda>co.
              let res_idx_local = (ro * out_width + co) * num_channel * kernel_size * kernel_size in
              bindR (window_plain input_f base width num_channel nelems_channel
                       kernel_size kernel_size rn cn (f_matrix, res_idx_local)) (\<lambda>(m, _). Inr m)))))
          f_matrix))))"

definition im2col_core_W ::
  "'f::zero list \<Rightarrow> int \<Rightarrow> int \<Rightarrow> int \<Rightarrow> 'f buf \<Rightarrow> int \<Rightarrow> int \<Rightarrow> int \<Rightarrow> 'f buf result" where
  "im2col_core_W input_f base num_channel nelems_channel f_matrix kernel_W padding_W stride =
     bindR (csqrt nelems_channel) (\<lambda>width. let height = width in
     bindR (conv_out_dim width padding_W kernel_W stride) (\<lambda>out_width.
       for_loop 0 height stride (\<lambda>rn.
         for_loop (- padding_W) (width + padding_W - kernel_W + 1) stride (\<lambda>cn f_matrix.
           bindR (cdiv rn stride) (\<lambda>ro. bindR (cdiv (cn + padding_W) stride) (\<lambda>co.
             let res_idx_local = (ro * out_width + co) * num_channel * kernel_W in
             bindR (for_loop 0 num_channel 1 (\<lambda>c. for_loop 0 kernel_W 1 (\<lambda>kx st.
                 if kx + cn < 0 \<or> kx + cn \<ge> width then put st 0
                 else bindR (rd input_f (base + (rn * width + cn + nelems_channel * c) + kx)) (put st)))
               (f_matrix, res_idx_local)) (\<lambda>(m, _). Inr m)))))
         f_matrix))"

definition im2col_core_H ::
  "'f::zero list \<Rightarrow> int \<Rightarrow> int \<Rightarrow> int \<Rightarrow> 'f buf \<Rightarrow> int \<Rightarrow> int \<Rightarrow> int \<Rightarrow> 'f buf result" where
  "im2col_core_H input_f base num_channel nelems_channel f_matrix kernel_H padding_H stride =
     bindR (csqrt nelems_channel) (\<lambda>width. let height = width in
     bindR (conv_out_dim height padding_H kernel_H stride) (\<lambda>out_height.
     require (0 < kernel_H) (Undefined Out_of_bounds)
     (for_loop (- padding_H) (height + padding_H - kernel_H + 1) stride (\<lambda>rn.
        for_loop 0 width stride (\<lambda>cn f_matrix.
          bindR (cdiv (rn + padding_H) stride) (\<lambda>ro. bindR (cdiv cn stride) (\<lambda>co.
            let res_idx_local = (ro * out_height + co) * num_channel * kernel_H in
            bindR (for_loop 0 num_channel 1 (\<lambda>c. for_loop 0 kernel_H 1 (\<lambda>ky st.
                if ky + rn < 0 \<or> ky + rn \<ge> height then put st 0
                else bindR (rd input_f (base + (rn * width + cn + nelems_channel * c) + width * ky)) (put st)))
              (f_matrix, res_idx_local)) (\<lambda>(m, _). Inr m)))))
        f_matrix)))"

section \<open>What a window contains\<close>

definition pixel :: "'f::zero list \<Rightarrow> nat \<Rightarrow> nat \<Rightarrow> nat \<Rightarrow> nat \<Rightarrow> nat \<Rightarrow> int \<Rightarrow> int \<Rightarrow> 'f" where
  "pixel src B NE H W c y x =
     (if 0 \<le> y \<and> y < int H \<and> 0 \<le> x \<and> x < int W then src ! (B + NE * c + nat y * W + nat x) else 0)"

definition window_vals ::
  "'f::zero list \<Rightarrow> nat \<Rightarrow> nat \<Rightarrow> nat \<Rightarrow> nat \<Rightarrow> nat \<Rightarrow> nat \<Rightarrow> nat \<Rightarrow> int \<Rightarrow> int \<Rightarrow> 'f list" where
  "window_vals src B NE H W C KH KW rn cn =
     concat (map (\<lambda>c. concat (map (\<lambda>ky. map (\<lambda>kx.
       pixel src B NE H W c (rn + int ky) (cn + int kx)) [0..<KW]) [0..<KH])) [0..<C])"

text \<open>A feature map of \<open>C\<close> channels starting at offset \<open>B\<close>, each an image of \<open>H\<close> rows of \<open>W\<close> pixels.\<close>

definition holds_image :: "'f list \<Rightarrow> nat \<Rightarrow> nat \<Rightarrow> nat \<Rightarrow> nat \<Rightarrow> nat \<Rightarrow> bool" where
  "holds_image src B NE H W C \<longleftrightarrow> H * W \<le> NE \<and> B + C * NE \<le> length src"

lemma length_window_vals [simp, buf_simps]:
  "length (window_vals src B NE H W C KH KW rn cn) = C * (KH * KW)"
  by (simp add: window_vals_def length_concat comp_def sum_list_triv)

lemma pixel_address:
  assumes "holds_image src B NE H W C" and "c < C" and "0 \<le> y" "y < int H" and "0 \<le> x" "x < int W"
  shows "rd src (int B + (rn * int W + cn + int NE * int c) + (y - rn) * int W + (x - cn))
       = Inr (pixel src B NE H W c y x)"
proof -
  have "nat y * W + nat x < H * W"
  proof -
    have "nat y * W + nat x < (nat y + 1) * W" using assms by (simp add: nat_less_iff)
    also have "\<dots> \<le> H * W" using assms by (intro mult_le_mono1) linarith
    finally show ?thesis .
  qed
  moreover have "NE * c + NE \<le> C * NE"
    using assms(2) by (metis Suc_leI add.commute mult.commute mult_Suc mult_le_mono1)
  ultimately have lt: "B + NE * c + nat y * W + nat x < length src"
    using assms(1) unfolding holds_image_def by linarith
  have "int B + (rn * int W + cn + int NE * int c) + (y - rn) * int W + (x - cn)
      = int (B + NE * c + nat y * W + nat x)"
    using assms by (simp add: algebra_simps)
  with lt show ?thesis
    using assms by (simp only: rd_nth pixel_def) simp
qed

lemma window_padded_emits:
  assumes img: "holds_image src B NE H W C"
  shows "emits L (window_padded src (int B) (int H) (int W) (int C) (int NE) (int KH) (int KW) rn cn)
           (window_vals src B NE H W C KH KW rn cn)"
proof -
  let ?px = "\<lambda>c ky kx. pixel src B NE H W c (rn + int ky) (cn + int kx)"
  let ?cell = "\<lambda>c ky kx st. if ky + rn < 0 \<or> ky + rn \<ge> int H \<or> kx + cn < 0 \<or> kx + cn \<ge> int W
       then put st 0
       else bindR (rd src (int B + (rn * int W + cn + int NE * c) + ky * int W + kx)) (put st)"
  have cell: "emits L (?cell (int c) (int ky) (int kx)) [?px c ky kx]" if c: "c < C" for c ky kx
  proof (cases "0 \<le> rn + int ky \<and> rn + int ky < int H \<and> 0 \<le> cn + int kx \<and> cn + int kx < int W")
    case True
    then have "rd src (int B + (rn * int W + cn + int NE * int c) + int ky * int W + int kx) = Inr (?px c ky kx)"
      using pixel_address [OF img c, of "rn + int ky" "cn + int kx" rn cn] by simp
    from emits_rd [OF this, of L] show ?thesis using True by (simp add: add.commute)
  next
    case False
    then show ?thesis using emits_put [of L 0] by (auto simp: pixel_def add.commute)
  qed
  have "emits L (for_loop 0 (int C) 1 (\<lambda>c. for_loop 0 (int KH) 1 (\<lambda>ky. for_loop 0 (int KW) 1 (?cell c ky))))
      (concat (map (\<lambda>c. concat (map (\<lambda>ky. concat (map (\<lambda>kx. [?px c ky kx]) [0..<KW])) [0..<KH])) [0..<C]))"
    by (intro emits_for_loop_unit cell)
  then show ?thesis
    by (simp add: window_padded_def window_vals_def)
qed

lemmas window_padded_emit = emitsD [OF window_padded_emits]

lemma window_plain_padded:
  assumes "0 \<le> rn" "rn + kh \<le> h" "0 \<le> cn" "cn + kw \<le> w"
  shows "window_plain src base w C ne kh kw rn cn st = window_padded src base h w C ne kh kw rn cn st"
  unfolding window_plain_def window_padded_def
  by (intro for_loop_cong) (use assms in auto)

section \<open>The unfolded matrix\<close>

definition im2col_vals ::
  "'f::zero list \<Rightarrow> nat \<Rightarrow> nat \<Rightarrow> nat \<Rightarrow> nat \<Rightarrow> nat \<Rightarrow> nat \<Rightarrow> nat \<Rightarrow> nat \<Rightarrow> nat \<Rightarrow> nat \<Rightarrow> nat \<Rightarrow> nat \<Rightarrow> 'f list" where
  "im2col_vals src B NE H W C KH KW PH PW S OH OW =
     concat (map (\<lambda>oy. concat (map (\<lambda>ox.
       window_vals src B NE H W C KH KW (int (oy * S) - int PH) (int (ox * S) - int PW)) [0..<OW])) [0..<OH])"

abbreviation out_size :: "nat \<Rightarrow> nat \<Rightarrow> nat \<Rightarrow> nat \<Rightarrow> nat" where
  "out_size W P K S \<equiv> (W + 2 * P - K) div S + 1"

lemma length_im2col_vals [simp, buf_simps]:
  "length (im2col_vals src B NE H W C KH KW PH PW S OH OW) = OH * (OW * (C * (KH * KW)))"
  by (simp add: im2col_vals_def length_concat comp_def sum_list_triv)

lemma conv_out_dim_ok:
  assumes "K \<le> W + 2 * P" and "0 < S" and "int (W + 2 * P) < INT_MAX"
  shows "conv_out_dim (int W) (int P) (int K) (int S) = Inr (int (out_size W P K S))"
proof -
  have "int W + 2 * int P - int K = int (W + 2 * P - K)" using assms by simp
  then have "cdiv (int W + 2 * int P - int K) (int S) = Inr (int ((W + 2 * P - K) div S))"
    using assms(2) by (simp only: cdiv_nonneg of_nat_0_le_iff of_nat_0_less_iff zdiv_int)
  moreover have "(W + 2 * P - K) div S \<le> W + 2 * P"
    by (meson diff_le_self div_le_dividend le_trans)
  then have "in_int (int ((W + 2 * P - K) div S) + 1)"
    using assms(3) by (simp add: in_int_def)
  ultimately show ?thesis
    by (simp add: conv_out_dim_def add.commute)
qed

lemma im2col_core_correct:
  assumes img: "holds_image src B NE W W C" and w: "isqrt NE = W"
    and K: "0 < K" "K \<le> W + 2 * P" and S: "0 < S" and range: "int (W + 2 * P) < INT_MAX"
    and OW: "OW = out_size W P K S"
    and m: "OW * (OW * (C * (K * K))) \<le> length m"
  shows "im2col_core src (int B) (int C) (int NE) m (int K) (int P) (int S)
       = Inr (blit m 0 (im2col_vals src B NE W W C K K P P S OW OW))"
proof -
  let ?b = "C * (K * K)"
  let ?vs = "\<lambda>rn cn. window_vals src B NE W W C K K rn cn"
  define body where "body = (\<lambda>rn cn f_matrix.
      bindR (cdiv (rn + int P) (int S)) (\<lambda>ro. bindR (cdiv (cn + int P) (int S)) (\<lambda>co.
        let res_idx_local = (ro * int OW + co) * int C * int K * int K in
        bindR (window_padded src (int B) (int W) (int W) (int C) (int NE) (int K) (int K) rn cn
           (f_matrix, res_idx_local)) (\<lambda>(m, _). Inr m))))"
  have body: "body (- int P + int i * int S) (- int P + int k * int S) m'
      = Inr (blit m' ((i * OW + k) * ?b) (?vs (- int P + int i * int S) (- int P + int k * int S)))"
    if "i < OW" "k < OW" "length m' = length m" for i k m'
  proof -
    have fit: "(i * OW + k) * ?b + ?b \<le> length m'"
      using tile_fits [OF that(1,2), of ?b] that(3) m by (simp add: algebra_simps)
    have idx: "(int i * int OW + int k) * int C * int K * int K = int ((i * OW + k) * ?b)"
      by (simp add: algebra_simps)
    show ?thesis
      unfolding body_def using S window_padded_emit [OF img refl, where m = m' and j = "(i * OW + k) * ?b" and KH = K and KW = K]
        fit idx
      by (simp add: cdiv_nonneg Let_def mult.assoc)
  qed
  have loops: "for_loop (- int P) (int W + int P - int K + 1) (int S)
        (\<lambda>rn. for_loop (- int P) (int W + int P - int K + 1) (int S) (body rn)) m
      = Inr (blit m 0 (im2col_vals src B NE W W C K K P P S OW OW))"
  proof -
    have t: "OW = trips (- int P) (int W + int P - int K + 1) (int S)"
      using K S OW by (simp add: trips_window)
    let ?st = "steps (- int P) (int W + int P - int K + 1) (int S)"
    have vals: "concat (map (\<lambda>rn. concat (map (?vs rn) ?st)) ?st)
        = im2col_vals src B NE W W C K K P P S OW OW"
      unfolding steps_window [OF K(2) S] im2col_vals_def OW by (simp add: comp_def del: upt_Suc)
    show ?thesis
      unfolding vals [symmetric]
      by (rule for_loop_tile2 [OF _ t t, where b = ?b and L = "length m"])
        (use S body m in simp_all)
  qed
  have out: "conv_out_dim (int W) (int P) (int K) (int S) = Inr (int OW)"
    using K S range OW by (simp add: conv_out_dim_ok)
  have sq: "csqrt (int NE) = Inr (int W)" using w by (simp add: csqrt_def)
  show ?thesis
  proof (cases "P = 0")
    case False
    then show ?thesis
      using loops K by (simp add: im2col_core_def sq out body_def)
  next
    case True
    have "for_loop 0 (int W - int K + 1) (int S) (\<lambda>rn. for_loop 0 (int W - int K + 1) (int S) (\<lambda>cn f_matrix.
            bindR (cdiv rn (int S)) (\<lambda>ro. bindR (cdiv cn (int S)) (\<lambda>co.
              let res_idx_local = (ro * int OW + co) * int C * int K * int K in
              bindR (window_plain src (int B) (int W) (int C) (int NE) (int K) (int K) rn cn
                (f_matrix, res_idx_local)) (\<lambda>(m, _). Inr m))))) m
        = for_loop 0 (int W - int K + 1) (int S) (\<lambda>rn. for_loop 0 (int W - int K + 1) (int S) (body rn)) m"
      by (intro for_loop_cong)
        (use True in \<open>auto simp: body_def window_plain_padded [where h = "int W"]\<close>)
    then show ?thesis
      using loops K True out by (simp add: im2col_core_def sq)
  qed
qed

lemma im2col_core_overflow:
  assumes img: "holds_image src B NE W W C" and w: "isqrt NE = W"
    and K: "0 < K" "K \<le> W + 2 * P" and S: "0 < S" and range: "int (W + 2 * P) < INT_MAX"
    and OW: "OW = out_size W P K S"
    and m: "length m < OW * OW * (C * (K * K))"
  shows "im2col_core src (int B) (int C) (int NE) m (int K) (int P) (int S) = Inl (Undefined Out_of_bounds)"
proof -
  let ?b = "C * (K * K)"
  let ?vs = "\<lambda>rn cn. window_vals src B NE W W C K K rn cn"
  define body where "body = (\<lambda>rn cn f_matrix.
      bindR (cdiv (rn + int P) (int S)) (\<lambda>ro. bindR (cdiv (cn + int P) (int S)) (\<lambda>co.
        let res_idx_local = (ro * int OW + co) * int C * int K * int K in
        bindR (window_padded src (int B) (int W) (int W) (int C) (int NE) (int K) (int K) rn cn
           (f_matrix, res_idx_local)) (\<lambda>(m, _). Inr m))))"
  have body: "body (- int P + int i * int S) (- int P + int k * int S) m' = (if (i * OW + k) * ?b + ?b \<le> length m
      then Inr (blit m' ((i * OW + k) * ?b) (?vs (- int P + int i * int S) (- int P + int k * int S)))
      else Inl (Undefined Out_of_bounds))"
    if "length m' = length m" "(i * OW + k) * ?b \<le> length m" for i k m'
  proof -
    let ?j = "(i * OW + k) * ?b" and ?y = "- int P + int i * int S" and ?x = "- int P + int k * int S"
    have idx: "(int i * int OW + int k) * int C * int K * int K = int ?j" by (simp add: algebra_simps)
    have "window_padded src (int B) (int W) (int W) (int C) (int NE) (int K) (int K) ?y ?x (m', int ?j)
        = (if ?j + ?b \<le> length m then Inr (blit m' ?j (?vs ?y ?x), int (?j + ?b)) else Inl (Undefined Out_of_bounds))"
      using window_padded_emits [OF img, of "length m" K K ?y ?x] that unfolding emits_def length_window_vals by blast
    then show ?thesis unfolding body_def using S by (simp add: cdiv_nonneg Let_def idx del: of_nat_mult of_nat_add)
  qed
  have t: "OW = trips (- int P) (int W + int P - int K + 1) (int S)" using K S OW by (simp add: trips_window)
  have loops: "for_loop (- int P) (int W + int P - int K + 1) (int S)
        (\<lambda>rn. for_loop (- int P) (int W + int P - int K + 1) (int S) (body rn)) m = Inl (Undefined Out_of_bounds)"
    by (rule for_loop_tile2_overflow [OF _ t t, where b = ?b and L = "length m" and vs = ?vs]) (use S body m in simp_all)
  have out: "conv_out_dim (int W) (int P) (int K) (int S) = Inr (int OW)" using K S range OW by (simp add: conv_out_dim_ok)
  have sq: "csqrt (int NE) = Inr (int W)" using w by (simp add: csqrt_def)
  show ?thesis
  proof (cases "P = 0")
    case False
    then show ?thesis using loops K by (simp add: im2col_core_def sq out body_def)
  next
    case True
    have "for_loop 0 (int W - int K + 1) (int S) (\<lambda>rn. for_loop 0 (int W - int K + 1) (int S) (\<lambda>cn f_matrix.
            bindR (cdiv rn (int S)) (\<lambda>ro. bindR (cdiv cn (int S)) (\<lambda>co.
              let res_idx_local = (ro * int OW + co) * int C * int K * int K in
              bindR (window_plain src (int B) (int W) (int C) (int NE) (int K) (int K) rn cn
                (f_matrix, res_idx_local)) (\<lambda>(m, _). Inr m))))) m
        = for_loop 0 (int W - int K + 1) (int S) (\<lambda>rn. for_loop 0 (int W - int K + 1) (int S) (body rn)) m"
      by (intro for_loop_cong) (use True in \<open>auto simp: body_def window_plain_padded [where h = "int W"]\<close>)
    then show ?thesis using loops K True out by (simp add: im2col_core_def sq)
  qed
qed


section \<open>The one-dimensional variants\<close>

lemma window_W_padded:
  assumes "0 \<le> rn" "rn < h"
  shows "for_loop 0 C 1 (\<lambda>c. for_loop 0 kw 1 (\<lambda>kx st.
      if kx + cn < 0 \<or> kx + cn \<ge> w then put st 0
      else bindR (rd src (base + (rn * w + cn + ne * c) + kx)) (put st))) st
    = window_padded src base h w C ne 1 kw rn cn st"
  unfolding window_padded_def for_loop_single by (intro for_loop_cong) (use assms in simp)

lemma window_H_padded:
  assumes "0 \<le> cn" "cn < w"
  shows "for_loop 0 C 1 (\<lambda>c. for_loop 0 kh 1 (\<lambda>ky st.
      if ky + rn < 0 \<or> ky + rn \<ge> h then put st 0
      else bindR (rd src (base + (rn * w + cn + ne * c) + w * ky)) (put st))) st
    = window_padded src base h w C ne kh 1 rn cn st"
  unfolding window_padded_def for_loop_single
  by (intro for_loop_cong) (use assms in \<open>simp add: mult.commute\<close>)

lemma im2col_core_W_correct:
  assumes img: "holds_image src B NE W W C" and w: "isqrt NE = W"
    and K: "K \<le> W + 2 * P" and W0: "0 < W" and S: "0 < S" and range: "int (W + 2 * P) < INT_MAX"
    and OW: "OW = out_size W P K S" and OH: "OH = out_size W 0 1 S"
    and m: "OH * (OW * (C * K)) \<le> length m"
  shows "im2col_core_W src (int B) (int C) (int NE) m (int K) (int P) (int S)
       = Inr (blit m 0 (im2col_vals src B NE W W C 1 K 0 P S OH OW))"
proof -
  let ?b = "C * K"
  let ?vs = "\<lambda>rn cn. window_vals src B NE W W C 1 K rn cn"
  let ?cols = "steps (- int P) (int W + int P - int K + 1) (int S)"
  define body where "body = (\<lambda>rn cn f_matrix.
      bindR (cdiv rn (int S)) (\<lambda>ro. bindR (cdiv (cn + int P) (int S)) (\<lambda>co.
        let res_idx_local = (ro * int OW + co) * int C * int K in
        bindR (window_padded src (int B) (int W) (int W) (int C) (int NE) 1 (int K) rn cn
           (f_matrix, res_idx_local)) (\<lambda>(m, _). Inr m))))"
  have body: "body (0 + int i * int S) (- int P + int k * int S) m'
      = Inr (blit m' ((i * OW + k) * ?b) (?vs (0 + int i * int S) (- int P + int k * int S)))"
    if "i < OH" "k < OW" "length m' = length m" for i k m'
    unfolding body_def
    using S tile_fits [OF that(1,2), of ?b] that(3) m
      window_padded_emit [OF img refl, where m = m' and j = "(i * OW + k) * ?b" and KH = 1 and KW = K]
    by (simp add: cdiv_nonneg Let_def mult.assoc)
  have sq: "csqrt (int NE) = Inr (int W)" using w by (simp add: csqrt_def)
  have out: "conv_out_dim (int W) (int P) (int K) (int S) = Inr (int OW)"
    using K S range OW by (simp add: conv_out_dim_ok)
  have tH: "OH = trips 0 (int W) (int S)" and tW: "OW = length ?cols"
    using trips_window [of 1 W 0 S] trips_window [OF K S] W0 S OH OW by simp_all
  have vals: "concat (map (\<lambda>rn. concat (map (?vs rn) ?cols)) (steps 0 (int W) (int S)))
      = im2col_vals src B NE W W C 1 K 0 P S OH OW"
    using steps_window [of 1 W 0 S] W0 S
    by (simp add: steps_window [OF K S] im2col_vals_def OW OH comp_def del: upt_Suc)
  have "im2col_core_W src (int B) (int C) (int NE) m (int K) (int P) (int S)
      = for_loop 0 (int W) (int S) (\<lambda>rn.
          for_loop (- int P) (int W + int P - int K + 1) (int S) (body rn)) m"
    unfolding im2col_core_W_def sq out bindR_simps Let_def
    by (intro for_loop_cong) (simp add: body_def window_W_padded)
  also have "\<dots> = Inr (blit m 0 (im2col_vals src B NE W W C 1 K 0 P S OH OW))"
    unfolding vals [symmetric]
    by (rule for_loop_tile2 [OF _ tW [unfolded length_steps] tH, where b = ?b and L = "length m"])
      (use S body m in simp_all)
  finally show ?thesis .
qed

text \<open>
  \<open>im2col_core_H\<close> computes the start of a block with \<open>out_height\<close> blocks per row although a row has
  \<open>ceil(width / stride)\<close> of them; it is correct where the two numbers agree.
\<close>

lemma im2col_core_H_correct:
  assumes img: "holds_image src B NE W W C" and w: "isqrt NE = W"
    and K: "0 < K" "K \<le> W + 2 * P" and W0: "0 < W" and S: "0 < S" and range: "int (W + 2 * P) < INT_MAX"
    and OH: "OH = out_size W P K S" and pitch: "OH = out_size W 0 1 S"
    and m: "OH * (OH * (C * K)) \<le> length m"
  shows "im2col_core_H src (int B) (int C) (int NE) m (int K) (int P) (int S)
       = Inr (blit m 0 (im2col_vals src B NE W W C K 1 P 0 S OH OH))"
proof -
  let ?b = "C * K"
  let ?vs = "\<lambda>rn cn. window_vals src B NE W W C K 1 rn cn"
  let ?rows = "steps (- int P) (int W + int P - int K + 1) (int S)"
  define body where "body = (\<lambda>rn cn f_matrix.
      bindR (cdiv (rn + int P) (int S)) (\<lambda>ro. bindR (cdiv cn (int S)) (\<lambda>co.
        let res_idx_local = (ro * int OH + co) * int C * int K in
        bindR (window_padded src (int B) (int W) (int W) (int C) (int NE) (int K) 1 rn cn
           (f_matrix, res_idx_local)) (\<lambda>(m, _). Inr m))))"
  have body: "body (- int P + int i * int S) (0 + int k * int S) m'
      = Inr (blit m' ((i * OH + k) * ?b) (?vs (- int P + int i * int S) (0 + int k * int S)))"
    if "i < OH" "k < OH" "length m' = length m" for i k m'
    unfolding body_def
    using S tile_fits [OF that(1,2), of ?b] that(3) m
      window_padded_emit [OF img refl, where m = m' and j = "(i * OH + k) * ?b" and KH = K and KW = 1]
    by (simp add: cdiv_nonneg Let_def mult.assoc)
  have sq: "csqrt (int NE) = Inr (int W)" using w by (simp add: csqrt_def)
  have out: "conv_out_dim (int W) (int P) (int K) (int S) = Inr (int OH)"
    using K S range OH by (simp add: conv_out_dim_ok)
  have tW: "OH = trips 0 (int W) (int S)" and tH: "OH = length ?rows"
    using trips_window [of 1 W 0 S] trips_window [OF K(2) S] W0 S OH pitch by simp_all
  have vals: "concat (map (\<lambda>rn. concat (map (?vs rn) (steps 0 (int W) (int S)))) ?rows)
      = im2col_vals src B NE W W C K 1 P 0 S OH OH"
    using steps_window [of 1 W 0 S] W0 S pitch OH
    by (simp add: steps_window [OF K(2) S] im2col_vals_def comp_def del: upt_Suc)
  have "im2col_core_H src (int B) (int C) (int NE) m (int K) (int P) (int S)
      = for_loop (- int P) (int W + int P - int K + 1) (int S) (\<lambda>rn.
          for_loop 0 (int W) (int S) (body rn)) m"
    unfolding im2col_core_H_def sq out bindR_simps Let_def require_def using K
    by (simp, intro for_loop_cong) (simp add: body_def window_H_padded)
  also have "\<dots> = Inr (blit m 0 (im2col_vals src B NE W W C K 1 P 0 S OH OH))"
    unfolding vals [symmetric]
    by (rule for_loop_tile2 [OF _ tW tH [unfolded length_steps], where b = ?b and L = "length m"])
      (use S body m in simp_all)
  finally show ?thesis .
qed

text \<open>
  The arguments on which the kernels keep the contract of \<open>buffer_kernel\<close>: source, offset, elements per
  channel, image width, channels, kernel size, padding and stride.
\<close>

type_synonym 'f conv_call = "'f list \<times> nat \<times> nat \<times> nat \<times> nat \<times> nat \<times> nat \<times> nat"

fun conv_ok :: "'f conv_call \<Rightarrow> bool" where
  "conv_ok (src, B, NE, W, C, K, P, S) \<longleftrightarrow> holds_image src B NE W W C \<and> isqrt NE = W \<and> 0 < W \<and> 0 < K
     \<and> K \<le> W + 2 * P \<and> 0 < S \<and> int (W + 2 * P) < INT_MAX"

fun core_vals :: "'f::zero conv_call \<Rightarrow> 'f list" where
  "core_vals (src, B, NE, W, C, K, P, S) =
     im2col_vals src B NE W W C K K P P S (out_size W P K S) (out_size W P K S)"

fun core_W_vals :: "'f::zero conv_call \<Rightarrow> 'f list" where
  "core_W_vals (src, B, NE, W, C, K, P, S) =
     im2col_vals src B NE W W C 1 K 0 P S (out_size W 0 1 S) (out_size W P K S)"

fun core_H_vals :: "'f::zero conv_call \<Rightarrow> 'f list" where
  "core_H_vals (src, B, NE, W, C, K, P, S) =
     im2col_vals src B NE W W C K 1 P 0 S (out_size W P K S) (out_size W P K S)"

fun core_H_ok :: "'f conv_call \<Rightarrow> bool" where
  "core_H_ok (src, B, NE, W, C, K, P, S) \<longleftrightarrow> conv_ok (src, B, NE, W, C, K, P, S) \<and> out_size W P K S = out_size W 0 1 S"

interpretation square: buffer_kernel
  "\<lambda>(src, B, NE, W, C, K, P, S) m. im2col_core src (int B) (int C) (int NE) m (int K) (int P) (int S)" conv_ok core_vals
proof
  fix p :: "'f::zero conv_call" and m :: "'f buf"
  assume "conv_ok p" "length (core_vals p) \<le> length m"
  then show "(case p of (src, B, NE, W, C, K, P, S) \<Rightarrow> \<lambda>m. im2col_core src (int B) (int C) (int NE) m (int K) (int P) (int S)) m
      = Inr (blit m 0 (core_vals p))"
    by (cases p) (auto intro!: im2col_core_correct)
qed

interpretation wide: buffer_kernel
  "\<lambda>(src, B, NE, W, C, K, P, S) m. im2col_core_W src (int B) (int C) (int NE) m (int K) (int P) (int S)" conv_ok core_W_vals
proof
  fix p :: "'f::zero conv_call" and m :: "'f buf"
  assume "conv_ok p" "length (core_W_vals p) \<le> length m"
  then show "(case p of (src, B, NE, W, C, K, P, S) \<Rightarrow> \<lambda>m. im2col_core_W src (int B) (int C) (int NE) m (int K) (int P) (int S)) m
      = Inr (blit m 0 (core_W_vals p))"
  proof -
    obtain src B NE W C K P S where "p = (src, B, NE, W, C, K, P, S)" by (metis surj_pair)
    with \<open>conv_ok p\<close> \<open>length (core_W_vals p) \<le> length m\<close> show ?thesis
      using im2col_core_W_correct [of src B NE W C K P S "out_size W P K S" "out_size W 0 1 S" m] by simp
  qed
qed

interpretation tall: buffer_kernel
  "\<lambda>(src, B, NE, W, C, K, P, S) m. im2col_core_H src (int B) (int C) (int NE) m (int K) (int P) (int S)" core_H_ok core_H_vals
proof
  fix p :: "'f::zero conv_call" and m :: "'f buf"
  assume "core_H_ok p" "length (core_H_vals p) \<le> length m"
  then show "(case p of (src, B, NE, W, C, K, P, S) \<Rightarrow> \<lambda>m. im2col_core_H src (int B) (int C) (int NE) m (int K) (int P) (int S)) m
      = Inr (blit m 0 (core_H_vals p))"
  proof -
    obtain src B NE W C K P S where "p = (src, B, NE, W, C, K, P, S)" by (metis surj_pair)
    with \<open>core_H_ok p\<close> \<open>length (core_H_vals p) \<le> length m\<close> show ?thesis
      using im2col_core_H_correct [of src B NE W C K P S "out_size W P K S" m] by simp
  qed
qed

section \<open>Entries of the unfolded matrix\<close>

lemma window_vals_nth:
  assumes "c < C" "ky < KH" "kx < KW"
  shows "window_vals src B NE H W C KH KW rn cn ! (c * (KH * KW) + (ky * KW + kx))
       = pixel src B NE H W c (rn + int ky) (cn + int kx)"
proof -
  let ?row = "\<lambda>c ky. map (\<lambda>kx. pixel src B NE H W c (rn + int ky) (cn + int kx)) [0..<KW]"
  have lt: "ky * KW + kx < KH * KW"
    using tile_fits [OF assms(2,3), of 1] by simp
  have "window_vals src B NE H W C KH KW rn cn ! (c * (KH * KW) + (ky * KW + kx))
      = concat (map (?row ([0..<C] ! c)) [0..<KH]) ! (ky * KW + kx)"
    unfolding window_vals_def
    by (rule concat_nth_const) (use assms lt in \<open>simp_all add: length_concat comp_def sum_list_triv\<close>)
  also have "\<dots> = ?row ([0..<C] ! c) ([0..<KH] ! ky) ! kx"
    by (rule concat_nth_const) (use assms in simp_all)
  finally show ?thesis using assms by simp
qed

lemma im2col_vals_window:
  assumes "oy < OH" "ox < OW" "l < C * (KH * KW)"
  shows "im2col_vals src B NE H W C KH KW PH PW S OH OW ! ((oy * OW + ox) * (C * (KH * KW)) + l)
       = window_vals src B NE H W C KH KW (int (oy * S) - int PH) (int (ox * S) - int PW) ! l"
proof -
  let ?b = "C * (KH * KW)"
  let ?win = "\<lambda>oy ox. window_vals src B NE H W C KH KW (int (oy * S) - int PH) (int (ox * S) - int PW)"
  have "ox * ?b + l < (ox + 1) * ?b" using assms(3) by simp
  also have "\<dots> \<le> OW * ?b" using assms(2) by (intro mult_le_mono1) simp
  finally have lt: "ox * ?b + l < OW * ?b" .
  have "im2col_vals src B NE H W C KH KW PH PW S OH OW ! (oy * (OW * ?b) + (ox * ?b + l))
      = concat (map (?win ([0..<OH] ! oy)) [0..<OW]) ! (ox * ?b + l)"
    unfolding im2col_vals_def
    by (rule concat_nth_const) (use assms lt in \<open>simp_all add: length_concat comp_def sum_list_triv\<close>)
  also have "\<dots> = ?win ([0..<OH] ! oy) ([0..<OW] ! ox) ! l"
    by (rule concat_nth_const) (use assms in simp_all)
  finally show ?thesis using assms by (simp add: algebra_simps)
qed

lemma im2col_vals_nth:
  assumes "oy < OH" "ox < OW" "c < C" "ky < KH" "kx < KW"
  shows "im2col_vals src B NE H W C KH KW PH PW S OH OW
           ! ((oy * OW + ox) * (C * (KH * KW)) + (c * (KH * KW) + (ky * KW + kx)))
       = pixel src B NE H W c (int (oy * S + ky) - int PH) (int (ox * S + kx) - int PW)"
proof -
  have lt: "c * (KH * KW) + (ky * KW + kx) < C * (KH * KW)"
    using tile_fits [OF assms(4,5), of 1] tile_fits [of c C 0 1 "KH * KW"] assms by simp
  have "im2col_vals src B NE H W C KH KW PH PW S OH OW
          ! ((oy * OW + ox) * (C * (KH * KW)) + (c * (KH * KW) + (ky * KW + kx)))
      = pixel src B NE H W c (int (oy * S) - int PH + int ky) (int (ox * S) - int PW + int kx)"
    unfolding im2col_vals_window [OF assms(1,2) lt] by (rule window_vals_nth [OF assms(3-5)])
  then show ?thesis by (simp add: algebra_simps)
qed

section \<open>The SQL function im2col\<close>

lemma im2col_loops_emit:
  assumes img: "holds_image xs 0 NE W W C" and K: "K \<le> W + 2 * P" and S: "0 < S"
    and OW: "OW = out_size W P K S"
  shows "emits L (for_loop (- int P) (int W + int P - int K + 1) (int S) (\<lambda>rn.
            for_loop (- int P) (int W + int P - int K + 1) (int S) (\<lambda>cn.
              window_padded xs 0 (int W) (int W) (int C) (int NE) (int K) (int K) rn cn)))
          (im2col_vals xs 0 NE W W C K K P P S OW OW)"
proof -
  let ?st = "steps (- int P) (int W + int P - int K + 1) (int S)"
  have "emits L (for_loop (- int P) (int W + int P - int K + 1) (int S) (\<lambda>rn.
            for_loop (- int P) (int W + int P - int K + 1) (int S) (\<lambda>cn.
              window_padded xs 0 (int W) (int W) (int C) (int NE) (int K) (int K) rn cn)))
          (concat (map (\<lambda>rn. concat (map (\<lambda>cn. window_vals xs 0 NE W W C K K rn cn) ?st)) ?st))"
    using S window_padded_emits [OF img] by (intro emits_for_loop) simp_all
  then show ?thesis
    unfolding steps_window [OF K S] im2col_vals_def OW by (simp add: comp_def del: upt_Suc)
qed

text \<open>
  The output size of \<open>im2col\<close> is \<open>floor((W + 2 P - K + 1) / S)\<close> per side, the loops visit
  \<open>ceil((W + 2 P - K + 1) / S)\<close> positions per side.
\<close>

lemma im2col_size_dvd: "0 < S \<Longrightarrow> S dvd (X + 1) \<Longrightarrow> (X + 1) div S = X div S + (1::nat)"
  by (simp add: div_Suc dvd_eq_mod_eq_0)

lemma im2col_size_not_dvd: "0 < S \<Longrightarrow> \<not> S dvd (X + 1) \<Longrightarrow> (X + 1) div S = X div (S::nat)"
  by (simp add: div_Suc dvd_eq_mod_eq_0)

lemma im2col_unfold:
  assumes img: "holds_image xs 0 NE W W C" and w: "isqrt NE = W"
    and K: "K \<le> W + 2 * P" and S: "0 < S" and range: "int (W + 2 * P) < INT_MAX"
    and OS: "OS = (W + 2 * P - K + 1) div S"
    and alloc: "4 * int (OS * OS * C * K * K) + 32 \<le> MaxAllocSize"
    and vals: "vals = im2col_vals xs 0 NE W W C K K P P S (out_size W P K S) (out_size W P K S)"
  shows "im2col (matrix (int C) (int NE) xs) (int K) (int P) (int S)
       = (if length vals \<le> OS * OS * C * K * K
          then bindR (sealed (blit (replicate (OS * OS * C * K * K) None) 0 vals)) (\<lambda>d.
            float4construct_md_array d (int (OS * OS * C * K * K)) [int (OS * OS), int (C * K * K)] [1, 1])
          else Inl (Undefined Out_of_bounds))"
proof -
  let ?n = "OS * OS * C * K * K"
  have q: "int W + 2 * int P - int K + 1 = int (W + 2 * P - K + 1)" using K by simp
  have "OS \<le> W + 2 * P - K + 1" unfolding OS by (rule div_le_dividend)
  then have os: "in_int (int OS)" using range K by (simp add: in_int_def)
  have d: "bindR (cdiv (int W + 2 * int P - int K + 1) (int S)) cint = Inr (int OS)"
    unfolding q OS using S os [unfolded OS]
    by (simp only: cdiv_nonneg of_nat_0_le_iff of_nat_0_less_iff zdiv_int [symmetric] bindR_simps cint_in)
  have n: "int OS * int OS * int C * int K * int K = int ?n" by simp
  have "in_int (int ?n)" using alloc by (simp add: in_int_def del: of_nat_mult)
  moreover have "palloc 4 (int ?n) = (Inr (replicate ?n None) :: 'a buf result)"
    using alloc by (simp add: palloc_ok del: of_nat_mult)
  moreover have "csqrt (int NE) = Inr (int W)" using w by (simp add: csqrt_def)
  moreover have "for_loop (- int P) (int W + int P - int K + 1) (int S) (\<lambda>rn.
            for_loop (- int P) (int W + int P - int K + 1) (int S) (\<lambda>cn.
              window_padded xs 0 (int W) (int W) (int C) (int NE) (int K) (int K) rn cn))
            (replicate ?n None, 0)
        = (if length vals \<le> ?n then Inr (blit (replicate ?n None) 0 vals, int (length vals))
           else Inl (Undefined Out_of_bounds))"
    using im2col_loops_emit [OF img K S refl, of ?n, folded vals]
    unfolding emits_def by (force dest!: spec [of _ "replicate ?n None"] spec [of _ 0])
  ultimately show ?thesis
    by (simp add: im2col_def d n Let_def del: of_nat_mult) (simp add: of_nat_mult)
qed

lemma im2col_correct:
  assumes "holds_image xs 0 NE W W C" and "isqrt NE = W"
    and "K \<le> W + 2 * P" and "0 < S" and "int (W + 2 * P) < INT_MAX"
    and dvd: "S dvd (W + 2 * P - K + 1)" and OW: "OW = out_size W P K S"
    and alloc: "4 * int (OW * OW * C * K * K) + 32 \<le> MaxAllocSize"
  shows "im2col (matrix (int C) (int NE) xs) (int K) (int P) (int S)
       = Inr (matrix (int (OW * OW)) (int (C * K * K)) (im2col_vals xs 0 NE W W C K K P P S OW OW))"
proof -
  have OS: "OW = (W + 2 * P - K + 1) div S"
    unfolding OW by (rule im2col_size_dvd [symmetric]) (use assms in simp_all)
  let ?vals = "im2col_vals xs 0 NE W W C K K P P S OW OW"
  have len: "length ?vals = OW * OW * C * K * K" by simp
  then have "blit (replicate (OW * OW * C * K * K) None) 0 ?vals = map Some ?vals"
    by (simp add: blit_full)
  then show ?thesis
    using im2col_unfold [OF assms(1-5) OS alloc refl, folded OW] alloc len
    by (simp add: float4construct_md_array_matrix del: of_nat_mult)
qed

lemma im2col_overflow:
  assumes "holds_image xs 0 NE W W C" and "isqrt NE = W"
    and "K \<le> W + 2 * P" and "0 < S" and "int (W + 2 * P) < INT_MAX"
    and ndvd: "\<not> S dvd (W + 2 * P - K + 1)" and pos: "0 < C" "0 < K"
    and alloc: "4 * int (OS * OS * C * K * K) + 32 \<le> MaxAllocSize"
    and OS: "OS = (W + 2 * P - K + 1) div S"
  shows "im2col (matrix (int C) (int NE) xs) (int K) (int P) (int S) = Inl (Undefined Out_of_bounds)"
proof -
  have "out_size W P K S = OS + 1"
    unfolding OS using im2col_size_not_dvd [OF assms(4) ndvd] by simp
  moreover have "OS * OS < (OS + 1) * (OS + 1)" by simp
  then have "OS * OS * C * K * K < (OS + 1) * (OS + 1) * C * K * K"
    using pos by (simp only: mult_less_cancel2)
  ultimately have "\<not> length (im2col_vals xs 0 NE W W C K K P P S (out_size W P K S) (out_size W P K S))
      \<le> OS * OS * C * K * K"
    by (simp only: length_im2col_vals mult.assoc not_le)
  then show ?thesis
    unfolding im2col_unfold [OF assms(1-5) OS alloc refl] by (simp only: if_False)
qed


section \<open>Properties\<close>

text \<open>
  C2: im2col_core fills a destination of the right size completely, and the cell for output position
  (oy, ox), channel c and kernel position (ky, kx) holds the pixel (oy * stride + ky - padding,
  ox * stride + kx - padding) of channel c, or zero where that lies in the padding.
\<close>

theorem im2col_core_cells:
  assumes "holds_image src B NE W W C" "isqrt NE = W" "0 < K" "K \<le> W + 2 * P" "0 < S"
    and "int (W + 2 * P) < INT_MAX" "length m = out_size W P K S * (out_size W P K S * (C * (K * K)))"
  shows "\<exists>out. im2col_core src (int B) (int C) (int NE) m (int K) (int P) (int S) = Inr (map Some out)
     \<and> length out = length m
     \<and> (\<forall>oy < out_size W P K S. \<forall>ox < out_size W P K S. \<forall>c < C. \<forall>ky < K. \<forall>kx < K.
          out ! ((oy * out_size W P K S + ox) * (C * (K * K)) + (c * (K * K) + (ky * K + kx)))
          = pixel src B NE W W c (int (oy * S + ky) - int P) (int (ox * S + kx) - int P))"
proof (intro exI conjI allI impI)
  show "im2col_core src (int B) (int C) (int NE) m (int K) (int P) (int S)
      = Inr (map Some (im2col_vals src B NE W W C K K P P S (out_size W P K S) (out_size W P K S)))"
    using im2col_core_correct [OF assms(1-6) refl, of m] assms(7) by (simp add: blit_full)
  show "length (im2col_vals src B NE W W C K K P P S (out_size W P K S) (out_size W P K S)) = length m"
    by (simp only: length_im2col_vals assms(7) ac_simps)
qed (rule im2col_vals_nth)

theorem im2col_core_cells_witness:
  "\<exists>out. im2col_core [1, 2, 3, 4 :: int] 0 1 4 (replicate 16 None) 2 1 2 = Inr (map Some out)
     \<and> length out = 16 \<and> out ! 3 = 1 \<and> out ! 0 = 0 \<and> out ! 12 = 4"
proof -
  have q: "isqrt 4 = 2" using isqrt_square [of 2] by simp
  have o: "out_size 2 1 2 2 = 2" by simp
  obtain out where out: "im2col_core [1, 2, 3, 4 :: int] (int 0) (int 1) (int 4) (replicate 16 None) (int 2) (int 1) (int 2)
      = Inr (map Some out)" "length out = 16"
    and cells: "\<forall>oy < 2. \<forall>ox < 2. \<forall>c < 1. \<forall>ky < 2. \<forall>kx < 2.
      out ! ((oy * 2 + ox) * (1 * (2 * 2)) + (c * (2 * 2) + (ky * 2 + kx)))
      = pixel [1, 2, 3, 4] 0 4 2 2 c (int (oy * 2 + ky) - int 1) (int (ox * 2 + kx) - int 1)"
    using im2col_core_cells [of "[1, 2, 3, 4 :: int]" 0 4 2 1 2 1 2 "replicate 16 None"] q
    by (auto simp: holds_image_def)
  have "out ! 3 = 1" "out ! 0 = 0" "out ! 12 = 4"
    using cells [rule_format, of 0 0 0 1 1] cells [rule_format, of 0 0 0 0 0] cells [rule_format, of 1 1 0 0 0]
    by (simp_all add: pixel_def)
  with out show ?thesis by (intro exI [of _ out]) simp
qed

text \<open>
  C18: The SQL function im2col returns the window matrix (one row per output position, one column per
  channel and kernel cell) whenever the stride divides size + 2 * padding - kernel + 1.
\<close>

theorem im2col_returns_windows:
  assumes "holds_image xs 0 NE W W C" "isqrt NE = W" "K \<le> W + 2 * P" "0 < S"
    and "int (W + 2 * P) < INT_MAX" "S dvd (W + 2 * P - K + 1)"
    and "4 * int (out_size W P K S * out_size W P K S * C * K * K) + 32 \<le> MaxAllocSize"
  shows "im2col (matrix (int C) (int NE) xs) (int K) (int P) (int S)
       = Inr (matrix (int (out_size W P K S * out_size W P K S)) (int (C * K * K))
               (im2col_vals xs 0 NE W W C K K P P S (out_size W P K S) (out_size W P K S)))"
  by (rule im2col_correct [OF assms(1-6) refl assms(7)])

theorem im2col_returns_windows_witness:
  "im2col (matrix 1 4 [1, 2, 3, 4 :: int]) 1 0 1 = Inr (matrix 4 1 [1, 2, 3, 4])"
proof -
  have q: "isqrt 4 = 2" using isqrt_square [of 2] by simp
  have "im2col (matrix (int 1) (int 4) [1, 2, 3, 4 :: int]) (int 1) (int 0) (int 1)
      = Inr (matrix (int (2 * 2)) (int (1 * 1 * 1)) (im2col_vals [1, 2, 3, 4] 0 4 2 2 1 1 1 0 0 1 2 2))"
    using im2col_returns_windows [of "[1, 2, 3, 4 :: int]" 4 2 1 1 0 1] q
    by (simp add: holds_image_def numeral_2_eq_2 [symmetric])
  moreover have "im2col_vals [1, 2, 3, 4 :: int] 0 4 2 2 1 1 1 0 0 1 2 2 = [1, 2, 3, 4]" by code_simp
  ultimately show ?thesis by simp
qed

text \<open>
  C19: When the stride does not divide size + 2 * padding - kernel + 1, im2col allocates one row and one
  column of windows less than its loops visit, and writes past the end of its result buffer.
\<close>

theorem im2col_writes_past_buffer:
  assumes "holds_image xs 0 NE W W C" "isqrt NE = W" "K \<le> W + 2 * P" "0 < S"
    and "int (W + 2 * P) < INT_MAX" "\<not> S dvd (W + 2 * P - K + 1)" "0 < C" "0 < K"
    and "4 * int (((W + 2 * P - K + 1) div S) * ((W + 2 * P - K + 1) div S) * C * K * K) + 32 \<le> MaxAllocSize"
  shows "im2col (matrix (int C) (int NE) xs) (int K) (int P) (int S) = Inl (Undefined Out_of_bounds)"
  by (rule im2col_overflow [OF assms(1-9) refl])

theorem im2col_writes_past_buffer_witness:
  "im2col (matrix 1 9 [1 .. 9 :: int]) 1 0 2 = Inl (Undefined Out_of_bounds)"
  using im2col_writes_past_buffer [of "[1 .. 9 :: int]" 9 3 1 1 0 2] isqrt_square [of 3]
  by (simp add: holds_image_def)

end
