(* ===== verification/Dbocg_Padding.thy ===== *)
theory Dbocg_Padding
  imports Dbocg_Graph Im2col
begin







end
