(* ===== verification/Hashfn.thy ===== *)
theory Hashfn
  imports Main "HOL-Library.Word"
begin

unbundle bit_operations_syntax

text \<open>
  The hash function of PostgreSQL's string-keyed hash tables
  (\<open>pg-src/src/common/hashfn.c\<close>: \<open>mix\<close>, \<open>final\<close>, \<open>hash_bytes\<close>, \<open>string_hash\<close>), which the weight pool
  of the extension names in its \<open>HASHCTL\<close>. Both little-endian code paths are modelled: the one that
  fetches aligned 32-bit words and the one that assembles words from bytes.
\<close>

section \<open>Definitions\<close>

type_synonym u8 = "8 word"
type_synonym u32 = "32 word"

definition rot :: "u32 \<Rightarrow> nat \<Rightarrow> u32" where
  "rot x k = word_rotl k x"

definition mix :: "u32 \<times> u32 \<times> u32 \<Rightarrow> u32 \<times> u32 \<times> u32" where
  "mix abc = (case abc of (a, b, c) \<Rightarrow>
     let a = a - c; a = a XOR rot c 4; c = c + b;
         b = b - a; b = b XOR rot a 6; a = a + c;
         c = c - b; c = c XOR rot b 8; b = b + a;
         a = a - c; a = a XOR rot c 16; c = c + b;
         b = b - a; b = b XOR rot a 19; a = a + c;
         c = c - b; c = c XOR rot b 4; b = b + a
     in (a, b, c))"

definition final :: "u32 \<times> u32 \<times> u32 \<Rightarrow> u32 \<times> u32 \<times> u32" where
  "final abc = (case abc of (a, b, c) \<Rightarrow>
     let c = c XOR b; c = c - rot b 14;
         a = a XOR c; a = a - rot c 11;
         b = b XOR a; b = b - rot a 25;
         c = c XOR b; c = c - rot b 16;
         a = a XOR c; a = a - rot c 4;
         b = b XOR a; b = b - rot a 14;
         c = c XOR b; c = c - rot b 24
     in (a, b, c))"

text \<open>\<open>(uint32) k[i] << n\<close>, and the aligned little-endian fetch \<open>((uint32 *) (k + i))[0]\<close>.\<close>

definition byte_at :: "u8 list \<Rightarrow> nat \<Rightarrow> nat \<Rightarrow> u32" where
  "byte_at k i n = push_bit n (ucast (k ! i))"

definition word_at :: "u8 list \<Rightarrow> nat \<Rightarrow> u32" where
  "word_at k i = word_rcat [k ! (i + 3), k ! (i + 2), k ! (i + 1), k ! i]"

definition hash_init :: "nat \<Rightarrow> u32" where
  "hash_init len = 0x9e3779b9 + of_nat len + 3923095"

fun aligned_loop :: "u8 list \<Rightarrow> u32 \<times> u32 \<times> u32 \<Rightarrow> u8 list \<times> u32 \<times> u32 \<times> u32" where
  "aligned_loop k (a, b, c) =
     (if 12 \<le> length k
      then aligned_loop (drop 12 k) (mix (a + word_at k 0, b + word_at k 4, c + word_at k 8))
      else (k, a, b, c))"

declare aligned_loop.simps [simp del]

definition aligned_tail :: "u8 list \<Rightarrow> u32 \<times> u32 \<times> u32 \<Rightarrow> u32 \<times> u32 \<times> u32" where
  "aligned_tail k abc = (case abc of (a, b, c) \<Rightarrow>
     let len = length k;
         c = (if 11 \<le> len then c + byte_at k 10 24 else c);
         c = (if 10 \<le> len then c + byte_at k 9 16 else c);
         c = (if 9 \<le> len then c + byte_at k 8 8 else c)
     in if 8 \<le> len then (a + word_at k 0, b + word_at k 4, c)
        else let b = (if 7 \<le> len then b + byte_at k 6 16 else b);
                 b = (if 6 \<le> len then b + byte_at k 5 8 else b);
                 b = (if 5 \<le> len then b + byte_at k 4 0 else b)
             in if 4 \<le> len then (a + word_at k 0, b, c)
                else let a = (if 3 \<le> len then a + byte_at k 2 16 else a);
                         a = (if 2 \<le> len then a + byte_at k 1 8 else a);
                         a = (if 1 \<le> len then a + byte_at k 0 0 else a)
                     in (a, b, c))"

fun unaligned_loop :: "u8 list \<Rightarrow> u32 \<times> u32 \<times> u32 \<Rightarrow> u8 list \<times> u32 \<times> u32 \<times> u32" where
  "unaligned_loop k (a, b, c) =
     (if 12 \<le> length k
      then unaligned_loop (drop 12 k) (mix
        (a + (byte_at k 0 0 + byte_at k 1 8 + byte_at k 2 16 + byte_at k 3 24),
         b + (byte_at k 4 0 + byte_at k 5 8 + byte_at k 6 16 + byte_at k 7 24),
         c + (byte_at k 8 0 + byte_at k 9 8 + byte_at k 10 16 + byte_at k 11 24)))
      else (k, a, b, c))"

declare unaligned_loop.simps [simp del]

definition unaligned_tail :: "u8 list \<Rightarrow> u32 \<times> u32 \<times> u32 \<Rightarrow> u32 \<times> u32 \<times> u32" where
  "unaligned_tail k abc = (case abc of (a, b, c) \<Rightarrow>
     let len = length k;
         c = (if 11 \<le> len then c + byte_at k 10 24 else c);
         c = (if 10 \<le> len then c + byte_at k 9 16 else c);
         c = (if 9 \<le> len then c + byte_at k 8 8 else c);
         b = (if 8 \<le> len then b + byte_at k 7 24 else b);
         b = (if 7 \<le> len then b + byte_at k 6 16 else b);
         b = (if 6 \<le> len then b + byte_at k 5 8 else b);
         b = (if 5 \<le> len then b + byte_at k 4 0 else b);
         a = (if 4 \<le> len then a + byte_at k 3 24 else a);
         a = (if 3 \<le> len then a + byte_at k 2 16 else a);
         a = (if 2 \<le> len then a + byte_at k 1 8 else a);
         a = (if 1 \<le> len then a + byte_at k 0 0 else a)
     in (a, b, c))"

text \<open>\<open>hash_bytes(k, keylen)\<close> for a key at an aligned or an unaligned address.\<close>

definition hash_bytes :: "bool \<Rightarrow> u8 list \<Rightarrow> u32" where
  "hash_bytes aligned k =
     (let h = hash_init (length k);
          abc = (if aligned then (case aligned_loop k (h, h, h) of (k', s) \<Rightarrow> aligned_tail k' s)
                 else (case unaligned_loop k (h, h, h) of (k', s) \<Rightarrow> unaligned_tail k' s))
      in snd (snd (final abc)))"

definition string_bytes :: "string \<Rightarrow> u8 list" where
  "string_bytes s = map of_char s"

definition string_hash :: "bool \<Rightarrow> string \<Rightarrow> nat \<Rightarrow> u32" where
  "string_hash aligned key keysize = hash_bytes aligned (string_bytes (take (keysize - 1) key))"

section \<open>Mixing loses nothing\<close>

text \<open>The inverse of \<open>mix\<close>: the assignments undone in reverse order.\<close>

definition unmix :: "u32 \<times> u32 \<times> u32 \<Rightarrow> u32 \<times> u32 \<times> u32" where
  "unmix abc = (case abc of (a, b, c) \<Rightarrow>
     let b = b - a; c = c XOR rot b 4; c = c + b;
         a = a - c; b = b XOR rot a 19; b = b + a;
         c = c - b; a = a XOR rot c 16; a = a + c;
         b = b - a; c = c XOR rot b 8; c = c + b;
         a = a - c; b = b XOR rot a 6; b = b + a;
         c = c - b; a = a XOR rot c 4; a = a + c
     in (a, b, c))"

lemma xor_cancel [simp]: "(x XOR y) XOR y = (x :: 'a::len word)"
  by (simp add: xor.assoc)

lemma unmix_mix: "unmix (mix abc) = abc"
  by (cases abc) (simp only: unmix_def mix_def Let_def prod.case xor_cancel add_diff_cancel_right' diff_add_cancel)

lemma mix_unmix: "mix (unmix abc) = abc"
  by (cases abc) (simp only: unmix_def mix_def Let_def prod.case xor_cancel add_diff_cancel_right' diff_add_cancel)

section \<open>The two code paths agree\<close>

lemma byte_at_int: "byte_at k i n = word_of_int (uint (k ! i)) * 2 ^ n"
  by (simp only: byte_at_def push_bit_eq_mult ucast_eq)

lemma word_rcat_4:
  "word_rcat [b3, b2, b1, b0 :: u8]
   = (word_of_int (uint b0 + 256 * (uint b1 + 256 * (uint b2 + 256 * uint b3))) :: u32)"
  by (simp only: word_rcat_def comp_def rev.simps append.simps horner_sum_simps) simp

lemma horner_4:
  "b0 + 256 * (b1 + 256 * (b2 + 256 * b3)) = b0 * 2 ^ 0 + b1 * 2 ^ 8 + b2 * 2 ^ 16 + b3 * (2 ^ 24 :: int)"
  by simp

lemma word_at_bytes:
  "word_at k i = byte_at k i 0 + byte_at k (i + 1) 8 + byte_at k (i + 2) 16 + byte_at k (i + 3) 24"
  by (simp only: word_at_def word_rcat_4 horner_4 byte_at_int of_int_add of_int_mult of_int_power
      of_int_numeral)

lemma word_at_parts:
  "word_at k 0 = byte_at k 0 0 + byte_at k 1 8 + byte_at k 2 16 + byte_at k 3 24"
  "word_at k 4 = byte_at k 4 0 + byte_at k 5 8 + byte_at k 6 16 + byte_at k 7 24"
  "word_at k 8 = byte_at k 8 0 + byte_at k 9 8 + byte_at k 10 16 + byte_at k 11 24"
  by (simp_all only: word_at_bytes add_0) simp_all

lemma unaligned_aligned_loop: "unaligned_loop k abc = aligned_loop k abc"
  by (induction k abc rule: aligned_loop.induct)
     (simp add: aligned_loop.simps unaligned_loop.simps word_at_parts)

lemma unaligned_aligned_tail: "unaligned_tail k abc = aligned_tail k abc"
proof -
  obtain a b c where abc: "abc = (a, b, c)" by (cases abc)
  consider "8 \<le> length k" | "4 \<le> length k" "\<not> 8 \<le> length k" | "\<not> 4 \<le> length k" by linarith
  then show ?thesis
  proof cases
    case 1
    then have "7 \<le> length k" "6 \<le> length k" "5 \<le> length k" "4 \<le> length k" "3 \<le> length k"
      "2 \<le> length k" "1 \<le> length k" by simp_all
    with 1 show ?thesis unfolding abc unaligned_tail_def aligned_tail_def Let_def prod.case word_at_parts
      by (simp only: if_True) (simp only: ac_simps)
  next
    case 2
    then have "3 \<le> length k" "2 \<le> length k" "1 \<le> length k" "\<not> 9 \<le> length k" "\<not> 10 \<le> length k"
      "\<not> 11 \<le> length k" by simp_all
    with 2 show ?thesis unfolding abc unaligned_tail_def aligned_tail_def Let_def prod.case word_at_parts
      by (simp only: if_True if_False) (simp only: ac_simps)
  next
    case 3
    then show ?thesis unfolding abc unaligned_tail_def aligned_tail_def Let_def prod.case
      by simp
  qed
qed

lemma hash_bytes_aligned: "hash_bytes False k = hash_bytes True k"
  by (simp add: hash_bytes_def Let_def unaligned_aligned_loop unaligned_aligned_tail split: prod.splits)

lemma string_hash_aligned: "string_hash al key n = string_hash True key n"
  by (cases al) (simp_all add: string_hash_def hash_bytes_aligned)


section \<open>Properties\<close>

text \<open>
  The comment above mix says that it is reversible, so that no information in (a, b, c) is lost. It is
  a bijection on triples of 32-bit words.
\<close>

theorem mix_reversible: "bij mix"
  by (rule bij_betw_byWitness [of _ unmix]) (simp_all add: unmix_mix mix_unmix)

text \<open>
  C40: hash_bytes gives the same value on its aligned and on its unaligned little-endian code path, for keys
  of every length, so a string hashes alike wherever it lies in memory.
\<close>

theorem hash_bytes_paths_agree: "hash_bytes aligned k = hash_bytes aligned' k"
  by (cases aligned; cases aligned') (simp_all add: hash_bytes_aligned)

end
