(* ===== verification/Table_Spec.thy ===== *)
theory Table_Spec
  imports C_Prelude
begin

text \<open>
  The contract between a string-keyed table of caller-filled elements and its clients: what a lookup
  returns, what an insertion adds, and that a write through an element pointer changes that element
  only. The clients' facts about "insert, fill in, look up" are proved here once; \<open>Dynahash\<close>
  discharges the laws for the table of \<open>dynahash.c\<close>.
\<close>

locale string_table =
  fixes inv :: "'t \<Rightarrow> bool"
    and ready :: "'t \<Rightarrow> bool"
    and norm :: "'t \<Rightarrow> string \<Rightarrow> string"
    and ptr :: "'t \<Rightarrow> string \<Rightarrow> 'a option"
    and data :: "'t \<Rightarrow> 'a \<Rightarrow> 'd option"
    and find :: "'t \<Rightarrow> string \<Rightarrow> ('t \<times> 'a option \<times> bool) result"
    and enter :: "'t \<Rightarrow> string \<Rightarrow> ('t \<times> 'a option \<times> bool) result"
    and store :: "'t \<Rightarrow> 'a \<Rightarrow> 'd \<Rightarrow> 't"
  assumes find_law: "inv t \<Longrightarrow> find t k = Inr (t, ptr t (norm t k), ptr t (norm t k) \<noteq> None)"
    and enter_law: "inv t \<Longrightarrow> ready t \<Longrightarrow> \<exists>t' a. enter t k = Inr (t', Some a, ptr t (norm t k) \<noteq> None)
      \<and> inv t' \<and> norm t' = norm t \<and> ptr t' = (ptr t)(norm t k \<mapsto> a)
      \<and> (\<forall>x j. ptr t j = Some x \<longrightarrow> data t' x = data t x)"
    and ptr_inj: "inv t \<Longrightarrow> ptr t j = Some a \<Longrightarrow> ptr t k = Some a \<Longrightarrow> j = k"
    and store_law: "inv t \<Longrightarrow> ptr t k = Some a \<Longrightarrow> inv (store t a d) \<and> norm (store t a d) = norm t
      \<and> ptr (store t a d) = ptr t \<and> data (store t a d) = (data t)(a \<mapsto> d)"
begin

definition lookup :: "'t \<Rightarrow> string \<Rightarrow> 'd option" where
  "lookup t k = Option.bind (ptr t k) (data t)"

lemma lookup_store:
  assumes "inv t" "ptr t k = Some a"
  shows "lookup (store t a d) j = (if j = k then Some d else lookup t j)"
proof -
  have s: "ptr (store t a d) = ptr t" "data (store t a d) = (data t)(a \<mapsto> d)"
    using store_law [OF assms] by simp_all
  show ?thesis
  proof (cases "ptr t j")
    case None
    then show ?thesis using assms(2) by (auto simp: lookup_def s)
  next
    case (Some b)
    have "b = a \<longleftrightarrow> j = k" using Some assms ptr_inj [of t j a k] by auto
    then show ?thesis using Some by (simp add: lookup_def s)
  qed
qed

lemma enter_store:
  assumes "inv t" "ready t"
  obtains t' a where "enter t k = Inr (t', Some a, ptr t (norm t k) \<noteq> None)" "inv t'" "norm t' = norm t"
    "ptr t' = (ptr t)(norm t k \<mapsto> a)"
    "\<And>x j. ptr t j = Some x \<Longrightarrow> data t' x = data t x"
    "\<And>d j. lookup (store t' a d) j = (if j = norm t k then Some d else lookup t j)"
proof -
  obtain t' a where e: "enter t k = Inr (t', Some a, ptr t (norm t k) \<noteq> None)" "inv t'" "norm t' = norm t"
    "ptr t' = (ptr t)(norm t k \<mapsto> a)" and d: "\<And>x j. ptr t j = Some x \<Longrightarrow> data t' x = data t x"
    using enter_law [OF assms] by blast
  have p: "ptr t' (norm t k) = Some a" unfolding e by simp
  have "lookup t' j = lookup t j" if "j \<noteq> norm t k" for j
    using that d [of j] unfolding lookup_def e(4) by (cases "ptr t j") simp_all
  then have "lookup (store t' a d) j = (if j = norm t k then Some d else lookup t j)" for d j
    unfolding lookup_store [OF e(2) p] by simp
  with e d show thesis by (rule that)
qed

lemma find_lookup:
  "inv t \<Longrightarrow> find t k = Inr (t', p, f) \<Longrightarrow> Option.bind p (data t) = lookup t (norm t k) \<and> t' = t"
  unfolding find_law by (auto simp: lookup_def)

end

end
