(* ===== verification/Dynahash.thy ===== *)
theory Dynahash
  imports C_Prelude Hashfn Table_Spec "HOL-Library.Multiset"
begin

text \<open>
  PostgreSQL's extensible hash table (\<open>pg-src/src/backend/utils/hash/dynahash.c\<close>) as the extension
  uses it: a local (not shared), unpartitioned table with string keys and the default segment
  geometry. A table element has an address (its index in the order of allocation); bucket chains and
  the free list are the lists of the addresses their \<open>link\<close> fields thread, and \<open>elems\<close> is the memory
  behind those addresses, so pointers handed to the callers keep their meaning when the table grows.
  An element's user data is an option: \<^term>\<open>None\<close> until the caller has filled it in.
\<close>

section \<open>State\<close>

record 'e HASHELEMENT =
  hashvalue :: u32
  key :: string
  entry :: "'e option"

record 'e HTAB =
  hid :: nat
  tabname :: string
  keysize :: nat
  entrysize :: nat
  isfixed :: bool
  frozen :: bool
  dsize :: nat
  dir :: "nat list list list"
  max_bucket :: nat
  high_mask :: nat
  low_mask :: nat
  nelem_alloc :: nat
  nentries :: nat
  freeList :: "nat list"
  brk :: nat
  elems :: "nat \<Rightarrow> 'e HASHELEMENT option"

datatype HASHACTION = HASH_FIND | HASH_ENTER | HASH_REMOVE | HASH_ENTER_NULL

abbreviation DEF_SEGSIZE :: nat where "DEF_SEGSIZE \<equiv> 256"
abbreviation DEF_SEGSIZE_SHIFT :: nat where "DEF_SEGSIZE_SHIFT \<equiv> 8"
abbreviation DEF_DIRSIZE :: nat where "DEF_DIRSIZE \<equiv> 256"
abbreviation MAX_SEQ_SCANS :: nat where "MAX_SEQ_SCANS \<equiv> 100"

section \<open>Active scans\<close>

text \<open>\<open>seq_scan_tables[0 .. num_seq_scans - 1]\<close> is a list of table identities.\<close>

definition register_seq_scan :: "nat list \<Rightarrow> 'e HTAB \<Rightarrow> nat list result" where
  "register_seq_scan reg h =
     require (length reg < MAX_SEQ_SCANS) (Elog ''too many active hash_seq_search scans'')
       (Inr (reg @ [hid h]))"

text \<open>The backward search for the table and the move of the last slot into the freed one.\<close>

fun last_index :: "nat \<Rightarrow> nat list \<Rightarrow> nat \<Rightarrow> nat option" where
  "last_index x reg 0 = None"
| "last_index x reg (Suc i) = (if reg ! i = x then Some i else last_index x reg i)"

definition deregister_seq_scan :: "nat list \<Rightarrow> 'e HTAB \<Rightarrow> nat list result" where
  "deregister_seq_scan reg h =
     (case last_index (hid h) reg (length reg) of
        Some i \<Rightarrow> Inr (butlast (reg[i := last reg]))
      | None \<Rightarrow> Inl (Elog ''no hash_seq_search scan for hash table''))"

definition has_seq_scans :: "nat list \<Rightarrow> 'e HTAB \<Rightarrow> bool" where
  "has_seq_scans reg h = list_ex (\<lambda>t. t = hid h) reg"

section \<open>Sizes\<close>

definition my_log2 :: "nat \<Rightarrow> nat" where
  "my_log2 num =
     (let num = (if num > 4611686018427387903 then 4611686018427387903 else num)
      in if num < 2 then 0 else leftmost_one_pos (num - 1) + 1)"

definition next_pow2_int :: "nat \<Rightarrow> nat" where
  "next_pow2_int num = (let num = (if num > 1073741823 then 1073741823 else num) in 2 ^ my_log2 num)"

text \<open>\<open>MAXALIGN(sizeof(HASHELEMENT)) + MAXALIGN(entrysize)\<close>; the header is a pointer and a \<open>uint32\<close>.\<close>

definition elementSize :: "nat \<Rightarrow> nat" where
  "elementSize esize = 16 + (esize + 7) div 8 * 8"

partial_function (option) choose_loop :: "nat \<Rightarrow> nat \<Rightarrow> nat option" where
  "choose_loop es allocSize =
     (let allocSize = allocSize * 2; n = allocSize div es
      in if n < 32 then choose_loop es allocSize else Some n)"

definition choose_nelem_alloc :: "nat \<Rightarrow> nat option" where
  "choose_nelem_alloc esize = choose_loop (elementSize esize) (32 * 4)"

section \<open>Allocation\<close>

definition seg_alloc :: "nat list list" where
  "seg_alloc = replicate DEF_SEGSIZE []"

definition element_alloc :: "'e HTAB \<Rightarrow> nat \<Rightarrow> 'e HTAB option result" where
  "element_alloc h nelem =
     (if isfixed h then Inr None
      else require (int (nelem * elementSize (entrysize h)) \<le> MaxAllocSize)
             (Elog ''invalid memory alloc request size'')
           (require (0 < nelem) (Undefined Out_of_bounds)
             (Inr (Some (h\<lparr>freeList := rev [brk h ..< brk h + nelem] @ freeList h,
                          brk := brk h + nelem\<rparr>)))))"

text \<open>The loop of \<open>get_hash_entry\<close> runs a second time only after \<open>element_alloc\<close> has succeeded.\<close>

definition pop_free :: "'e HTAB \<Rightarrow> ('e HTAB \<times> nat) result" where
  "pop_free h = (case freeList h of
      [] \<Rightarrow> Inl (Undefined Null_deref)
    | a # fl \<Rightarrow> Inr (h\<lparr>freeList := fl, nentries := nentries h + 1\<rparr>, a))"

definition get_hash_entry :: "'e HTAB \<Rightarrow> ('e HTAB \<times> nat) option result" where
  "get_hash_entry h =
     (if freeList h \<noteq> [] then bindR (pop_free h) (\<lambda>r. Inr (Some r))
      else bindR (element_alloc h (nelem_alloc h)) (\<lambda>r. case r of
             None \<Rightarrow> Inr None
           | Some h' \<Rightarrow> bindR (pop_free h') (\<lambda>r. Inr (Some r))))"

definition dir_realloc :: "'e HTAB \<Rightarrow> 'e HTAB result" where
  "dir_realloc h =
     (let new_dsize = 2 * dsize h
      in require (int (new_dsize * 8) \<le> MaxAllocSize) (Elog ''invalid memory alloc request size'')
           (Inr (h\<lparr>dsize := new_dsize\<rparr>)))"

section \<open>Buckets\<close>

definition calc_bucket :: "'e HTAB \<Rightarrow> u32 \<Rightarrow> nat" where
  "calc_bucket h hash_val =
     (let bucket = unat hash_val AND high_mask h
      in if bucket > max_bucket h then bucket AND low_mask h else bucket)"

text \<open>
  \<open>hashp->dir[bucket >> sshift][MOD(bucket, ssize)]\<close>. A directory slot at or above \<open>nsegs\<close> holds no
  segment yet.
\<close>

definition get_chain :: "'e HTAB \<Rightarrow> nat \<Rightarrow> nat list result" where
  "get_chain h b =
     (let segment_num = drop_bit DEF_SEGSIZE_SHIFT b; segment_ndx = b AND (DEF_SEGSIZE - 1)
      in require (segment_num < length (dir h)) (Undefined Uninitialised)
           (require (segment_ndx < length (dir h ! segment_num)) (Undefined Out_of_bounds)
             (Inr (dir h ! segment_num ! segment_ndx))))"

definition set_chain :: "'e HTAB \<Rightarrow> nat \<Rightarrow> nat list \<Rightarrow> 'e HTAB" where
  "set_chain h b c =
     (let segment_num = drop_bit DEF_SEGSIZE_SHIFT b; segment_ndx = b AND (DEF_SEGSIZE - 1)
      in h\<lparr>dir := (dir h)[segment_num := (dir h ! segment_num)[segment_ndx := c]]\<rparr>)"

text \<open>The relocation loop: each element is linked to the end of the old or of the new chain.\<close>

fun split_chain :: "'e HTAB \<Rightarrow> nat \<Rightarrow> nat list \<Rightarrow> (nat list \<times> nat list) result" where
  "split_chain h old_bucket [] = Inr ([], [])"
| "split_chain h old_bucket (a # chain) = (case elems h a of
     None \<Rightarrow> Inl (Undefined Uninitialised)
   | Some e \<Rightarrow> bindR (split_chain h old_bucket chain) (\<lambda>(olds, news).
       if calc_bucket h (hashvalue e) = old_bucket then Inr (a # olds, news)
       else Inr (olds, a # news)))"

definition new_segment :: "'e HTAB \<Rightarrow> nat \<Rightarrow> 'e HTAB result" where
  "new_segment h new_segnum =
     (if new_segnum \<ge> length (dir h)
      then bindR (if new_segnum \<ge> dsize h then dir_realloc h else Inr h) (\<lambda>h.
             Inr (h\<lparr>dir := dir h @ [seg_alloc]\<rparr>))
      else Inr h)"

definition grow_masks :: "'e HTAB \<Rightarrow> nat \<Rightarrow> 'e HTAB" where
  "grow_masks h new_bucket =
     (let h = h\<lparr>max_bucket := (max_bucket h + 1) mod 2 ^ 32\<rparr>
      in if new_bucket > high_mask h
         then h\<lparr>low_mask := high_mask h, high_mask := new_bucket OR high_mask h\<rparr> else h)"

definition expand_table :: "'e HTAB \<Rightarrow> 'e HTAB result" where
  "expand_table h =
     (let new_bucket = (max_bucket h + 1) mod 2 ^ 32;
          old_bucket = new_bucket AND low_mask h
      in bindR (new_segment h (drop_bit DEF_SEGSIZE_SHIFT new_bucket)) (\<lambda>h.
         let h = grow_masks h new_bucket in
         bindR (get_chain h old_bucket) (\<lambda>chain.
         bindR (get_chain h new_bucket) (\<lambda>_.
         bindR (split_chain h old_bucket chain) (\<lambda>(olds, news).
           Inr (set_chain (set_chain h old_bucket olds) new_bucket news))))))"

section \<open>Search\<close>

text \<open>\<open>strlcpy\<close> into a field of \<open>keysize\<close> bytes; \<open>string_compare\<close> looks at \<open>keysize - 1\<close> bytes.\<close>

definition keycopy :: "nat \<Rightarrow> string \<Rightarrow> string" where
  "keycopy ks s = take (ks - 1) s"

definition string_compare :: "string \<Rightarrow> string \<Rightarrow> nat \<Rightarrow> bool" where
  "string_compare key1 key2 ks \<longleftrightarrow> take (ks - 1) key1 = take (ks - 1) key2"

fun chain_find :: "'e HTAB \<Rightarrow> u32 \<Rightarrow> string \<Rightarrow> nat list \<Rightarrow> nat option result" where
  "chain_find h hv keyPtr [] = Inr None"
| "chain_find h hv keyPtr (a # chain) = (case elems h a of
     None \<Rightarrow> Inl (Undefined Uninitialised)
   | Some e \<Rightarrow> if hashvalue e = hv \<and> string_compare (key e) keyPtr (keysize h) then Inr (Some a)
               else chain_find h hv keyPtr chain)"

text \<open>
  The lookup and the switch over the action. The result is the table, the element pointer (or NULL)
  and \<open>*foundPtr\<close>.
\<close>

definition hash_action ::
  "'e HTAB \<Rightarrow> string \<Rightarrow> u32 \<Rightarrow> HASHACTION \<Rightarrow> ('e HTAB \<times> nat option \<times> bool) result" where
  "hash_action h keyPtr hv action =
     (let bucket = calc_bucket h hv in
      bindR (get_chain h bucket) (\<lambda>chain.
      bindR (chain_find h hv keyPtr chain) (\<lambda>curBucket.
      case action of
        HASH_FIND \<Rightarrow> Inr (h, curBucket, curBucket \<noteq> None)
      | HASH_REMOVE \<Rightarrow> (case curBucket of
          Some a \<Rightarrow> Inr ((set_chain h bucket (remove1 a chain))\<lparr>nentries := nentries h - 1,
                           freeList := a # freeList h\<rparr>, Some a, True)
        | None \<Rightarrow> Inr (h, None, False))
      | _ \<Rightarrow> (case curBucket of
          Some a \<Rightarrow> Inr (h, Some a, True)
        | None \<Rightarrow>
            require (\<not> frozen h) (Elog ''cannot insert into frozen hashtable'') (
            bindR (get_hash_entry h) (\<lambda>r. case r of
              None \<Rightarrow> if action = HASH_ENTER_NULL then Inr (h, None, False) else Inl (Elog ''out of memory'')
            | Some (h, a) \<Rightarrow>
                let h = set_chain h bucket (chain @ [a]);
                    old = (case elems h a of None \<Rightarrow> None | Some e \<Rightarrow> entry e)
                in Inr (h\<lparr>elems := (elems h)(a \<mapsto> \<lparr>hashvalue = hv, key = keycopy (keysize h) keyPtr,
                                                entry = old\<rparr>)\<rparr>, Some a, False)))))))"

text \<open>An insertion first splits a bucket when the load factor asks for it and nothing forbids it.\<close>

definition hash_search_with_hash_value ::
  "nat list \<Rightarrow> 'e HTAB \<Rightarrow> string \<Rightarrow> u32 \<Rightarrow> HASHACTION \<Rightarrow> ('e HTAB \<times> nat option \<times> bool) result" where
  "hash_search_with_hash_value reg h keyPtr hv action =
     bindR (if (action = HASH_ENTER \<or> action = HASH_ENTER_NULL) \<and> nentries h > max_bucket h \<and> \<not> frozen h \<and> \<not> has_seq_scans reg h
            then expand_table h else Inr h) (\<lambda>h. hash_action h keyPtr hv action)"

definition hash_search ::
  "nat list \<Rightarrow> 'e HTAB \<Rightarrow> string \<Rightarrow> HASHACTION \<Rightarrow> ('e HTAB \<times> nat option \<times> bool) result" where
  "hash_search reg h keyPtr action =
     hash_search_with_hash_value reg h keyPtr (string_hash True keyPtr (keysize h)) action"

section \<open>Creation\<close>

text \<open>\<open>init_htab\<close> for a table whose directory is not preallocated.\<close>

definition init_htab :: "'e HTAB \<Rightarrow> nat \<Rightarrow> 'e HTAB option result" where
  "init_htab h nelem =
     (let nbuckets = next_pow2_int nelem;
          h = h\<lparr>max_bucket := nbuckets - 1, low_mask := nbuckets - 1, high_mask := 2 * nbuckets - 1\<rparr>;
          nsegs = next_pow2_int ((nbuckets - 1) div DEF_SEGSIZE + 1);
          h = (if nsegs > dsize h then h\<lparr>dsize := nsegs\<rparr> else h)
      in require (int (dsize h * 8) \<le> MaxAllocSize) (Elog ''invalid memory alloc request size'') (
         let h = h\<lparr>dir := replicate nsegs seg_alloc\<rparr>
         in case choose_nelem_alloc (entrysize h) of
              None \<Rightarrow> Inr None
            | Some n \<Rightarrow> Inr (Some (h\<lparr>nelem_alloc := n\<rparr>))))"

text \<open>\<open>hash_create\<close> with \<open>HASH_ELEM | HASH_FUNCTION\<close> and \<open>info->hash = string_hash\<close>.\<close>

definition hash_create :: "nat \<Rightarrow> string \<Rightarrow> nat \<Rightarrow> nat \<Rightarrow> nat \<Rightarrow> 'e HTAB result" where
  "hash_create ident name nelem ksize esize =
     (let h = \<lparr>hid = ident, tabname = name, keysize = ksize, entrysize = esize, isfixed = False,
               frozen = False, dsize = DEF_DIRSIZE, dir = [], max_bucket = 0, high_mask = 0,
               low_mask = 0, nelem_alloc = 0, nentries = 0, freeList = [], brk = 0,
               elems = Map.empty\<rparr>
      in bindR (init_htab h nelem) (\<lambda>r. case r of
           None \<Rightarrow> Inl (Elog ''failed to initialize hash table'')
         | Some h \<Rightarrow>
             if nelem < nelem_alloc h
             then bindR (element_alloc h (if nelem = 0 then 1 else nelem)) (\<lambda>r. case r of
                    None \<Rightarrow> Inl (Elog ''out of memory'') | Some h \<Rightarrow> Inr h)
             else Inr h))"

definition hash_get_num_entries :: "'e HTAB \<Rightarrow> nat" where
  "hash_get_num_entries h = nentries h"

definition hash_freeze :: "nat list \<Rightarrow> 'e HTAB \<Rightarrow> 'e HTAB result" where
  "hash_freeze reg h =
     require (frozen h \<or> \<not> has_seq_scans reg h) (Elog ''cannot freeze hashtable'')
       (Inr (h\<lparr>frozen := True\<rparr>))"

section \<open>Sequential scans\<close>

text \<open>
  \<open>curEntry\<close> is the rest of the chain of \<open>curBucket\<close>: the element the next call returns and what is
  linked behind it, empty for NULL.
\<close>

record HASH_SEQ_STATUS =
  curBucket :: nat
  curEntry :: "nat list"

definition hash_seq_init :: "nat list \<Rightarrow> 'e HTAB \<Rightarrow> (nat list \<times> HASH_SEQ_STATUS) result" where
  "hash_seq_init reg h =
     bindR (if \<not> frozen h then register_seq_scan reg h else Inr reg) (\<lambda>reg.
       Inr (reg, \<lparr>curBucket = 0, curEntry = []\<rparr>))"

definition hash_seq_term :: "nat list \<Rightarrow> 'e HTAB \<Rightarrow> nat list result" where
  "hash_seq_term reg h = (if \<not> frozen h then deregister_seq_scan reg h else Inr reg)"

text \<open>The walk to the next nonempty bucket; \<^term>\<open>None\<close> when it passes \<open>max_bucket\<close>.\<close>

function next_nonempty :: "'e HTAB \<Rightarrow> nat \<Rightarrow> (nat \<times> nat list) result" where
  "next_nonempty h b =
     (if b > max_bucket h then Inr (b, [])
      else bindR (get_chain h b) (\<lambda>chain.
             if chain = [] then next_nonempty h (b + 1) else Inr (b, chain)))"
  by pat_completeness auto
termination
  by (relation "measure (\<lambda>(h, b). Suc (max_bucket h) - b)") auto

declare next_nonempty.simps [simp del]

definition hash_seq_search ::
  "nat list \<Rightarrow> 'e HTAB \<Rightarrow> HASH_SEQ_STATUS \<Rightarrow> (nat list \<times> HASH_SEQ_STATUS \<times> nat option) result" where
  "hash_seq_search reg h status = (case curEntry status of
     a # rest \<Rightarrow>
       Inr (reg, \<lparr>curBucket = (if rest = [] then curBucket status + 1 else curBucket status),
                 curEntry = rest\<rparr>, Some a)
   | [] \<Rightarrow>
       bindR (next_nonempty h (curBucket status)) (\<lambda>(b, chain). case chain of
         [] \<Rightarrow> bindR (hash_seq_term reg h) (\<lambda>reg.
                Inr (reg, status\<lparr>curBucket := b\<rparr>, None))
       | a # rest \<Rightarrow>
           Inr (reg, \<lparr>curBucket = (if rest = [] then b + 1 else b), curEntry = rest\<rparr>, Some a)))"


text \<open>What a caller does with the element pointer it got: it writes the element's user data.\<close>

definition set_entry :: "'e HTAB \<Rightarrow> nat \<Rightarrow> 'e \<Rightarrow> 'e HTAB" where
  "set_entry h a d = h\<lparr>elems := (elems h)(a := map_option (\<lambda>e. e\<lparr>entry := Some d\<rparr>) (elems h a))\<rparr>"

section \<open>Invariant and abstraction\<close>

text \<open>
  \<open>bucket_of\<close> is the address rule of linear hashing; \<open>chain\<close> the chain of a bucket; \<open>live\<close> the elements
  in bucket order; \<open>ptr_of\<close> the abstract content: the element that holds a (truncated) key.
\<close>

definition bucket_of :: "nat \<Rightarrow> nat \<Rightarrow> nat \<Rightarrow> nat" where
  "bucket_of k m x = (if x mod 2 ^ Suc k > m then x mod 2 ^ k else x mod 2 ^ Suc k)"

definition chain :: "'e HTAB \<Rightarrow> nat \<Rightarrow> nat list" where
  "chain h b = dir h ! (b div DEF_SEGSIZE) ! (b mod DEF_SEGSIZE)"

definition live :: "'e HTAB \<Rightarrow> nat list" where
  "live h = concat (map (chain h) [0 ..< Suc (max_bucket h)])"

definition key_at :: "'e HTAB \<Rightarrow> nat \<Rightarrow> string option" where
  "key_at h a = map_option key (elems h a)"

definition entry_at :: "'e HTAB \<Rightarrow> nat \<Rightarrow> 'e option" where
  "entry_at h a = Option.bind (elems h a) entry"

definition ptr_of :: "'e HTAB \<Rightarrow> string \<Rightarrow> nat option" where
  "ptr_of h k = List.find (\<lambda>a. key_at h a = Some k) (live h)"

definition masks :: "'e HTAB \<Rightarrow> nat \<Rightarrow> bool" where
  "masks h k \<longleftrightarrow> low_mask h = 2 ^ k - 1 \<and> high_mask h = 2 ^ Suc k - 1
     \<and> low_mask h \<le> max_bucket h \<and> max_bucket h \<le> high_mask h"

definition shape :: "'e HTAB \<Rightarrow> bool" where
  "shape h \<longleftrightarrow> list_all (\<lambda>s. length s = DEF_SEGSIZE) (dir h)
     \<and> max_bucket h < DEF_SEGSIZE * length (dir h)"

definition elem_ok :: "'e HTAB \<Rightarrow> nat \<Rightarrow> nat \<Rightarrow> bool" where
  "elem_ok h b a = (case elems h a of
     None \<Rightarrow> False
   | Some e \<Rightarrow> calc_bucket h (hashvalue e) = b \<and> hashvalue e = string_hash True (key e) (keysize h)
       \<and> keycopy (keysize h) (key e) = key e)"

definition placed :: "'e HTAB \<Rightarrow> bool" where
  "placed h \<longleftrightarrow> (\<forall>b \<le> max_bucket h. \<forall>a \<in> set (chain h b). elem_ok h b a)"

definition owned :: "'e HTAB \<Rightarrow> bool" where
  "owned h \<longleftrightarrow> distinct (live h @ freeList h) \<and> (\<forall>a \<in> set (live h @ freeList h). a < brk h)
     \<and> inj_on (key_at h) (set (live h)) \<and> nentries h = length (live h)"

definition alloc_ok :: "'e HTAB \<Rightarrow> bool" where
  "alloc_ok h \<longleftrightarrow> \<not> isfixed h \<and> 0 < nelem_alloc h
     \<and> int (nelem_alloc h * elementSize (entrysize h)) \<le> MaxAllocSize"

definition hash_inv :: "'e HTAB \<Rightarrow> bool" where
  "hash_inv h \<longleftrightarrow> (\<exists>k. masks h k) \<and> shape h \<and> placed h \<and> owned h \<and> alloc_ok h"

text \<open>One more bucket fits: the bucket number stays a \<open>uint32\<close>, a doubled directory can be allocated.\<close>

definition room :: "'e HTAB \<Rightarrow> bool" where
  "room h \<longleftrightarrow> max_bucket h + 1 < 2 ^ 32 \<and> int (16 * dsize h) \<le> MaxAllocSize"

text \<open>A bound on the geometry that grows by one with every insertion and implies \<open>room\<close>.\<close>

definition within :: "'e HTAB \<Rightarrow> nat \<Rightarrow> bool" where
  "within h n \<longleftrightarrow> max_bucket h \<le> n \<and> dsize h \<le> 2 ^ 15 + n"

lemma within_room: "within h n \<Longrightarrow> n < 2 ^ 25 \<Longrightarrow> room h"
  by (simp add: within_def room_def)

section \<open>Lemmas\<close>

lemma and_mask_mod: "n AND (2 ^ k - 1) = (n :: nat) mod 2 ^ k"
  by (metis mask_eq_exp_minus_1 take_bit_eq_mask take_bit_eq_mod)

lemma and_255: "n AND 255 = (n :: nat) mod 256"
  using and_mask_mod [of n 8] by simp

lemma drop_bit_8: "drop_bit 8 n = (n :: nat) div 256"
  by (simp add: drop_bit_eq_div)

lemma exp_or_mask: "2 ^ k OR (2 ^ k - 1) = (2 ^ Suc k - 1 :: nat)"
  by (metis mask_Suc_exp mask_eq_exp_minus_1)

lemma calc_bucket_of: "masks h k \<Longrightarrow> calc_bucket h v = bucket_of k (max_bucket h) (unat v)"
proof -
  assume m: "masks h k"
  have "unat v mod 2 ^ Suc k mod 2 ^ k = unat v mod 2 ^ k"
    by (simp add: mod_mod_cancel)
  with m show ?thesis
    by (simp add: calc_bucket_def masks_def bucket_of_def Let_def and_mask_mod
        del: power_Suc One_nat_def)
qed

lemma bucket_of_le: "2 ^ k - 1 \<le> m \<Longrightarrow> bucket_of k m x \<le> m"
  by (auto simp: bucket_of_def not_less simp del: power_Suc)
     (metis Suc_pred le_trans less_Suc_eq_le mod_less_divisor zero_less_numeral zero_less_power)

text \<open>One bucket more: only the values of one old bucket move, and they move to the new bucket.\<close>

lemma bucket_of_grow:
  assumes "2 ^ k - 1 \<le> m" "Suc m < 2 ^ Suc k"
  shows "bucket_of k (Suc m) x = (if x mod 2 ^ Suc k = Suc m then Suc m else bucket_of k m x)"
    and "x mod 2 ^ Suc k = Suc m \<Longrightarrow> bucket_of k m x = Suc m mod 2 ^ k"
proof -
  show "bucket_of k (Suc m) x = (if x mod 2 ^ Suc k = Suc m then Suc m else bucket_of k m x)"
    using assms by (auto simp: bucket_of_def simp del: power_Suc)
  have "x mod 2 ^ k = x mod 2 ^ Suc k mod 2 ^ k"
    by (simp add: mod_mod_cancel)
  then show "x mod 2 ^ Suc k = Suc m \<Longrightarrow> bucket_of k m x = Suc m mod 2 ^ k"
    by (simp add: bucket_of_def del: power_Suc)
qed

lemma bucket_of_double: "bucket_of k (2 ^ Suc k - 1) x = bucket_of (Suc k) (2 ^ Suc k - 1) x"
proof -
  define n where "n = (2 :: nat) ^ Suc k"
  define y where "y = x mod 2 ^ Suc (Suc k)"
  have n: "0 < n" by (simp add: n_def)
  have xy: "x mod n = y mod n"
    by (simp add: n_def y_def mod_mod_cancel)
  have l: "bucket_of k (n - 1) x = x mod n"
    unfolding bucket_of_def n_def [symmetric] using mod_less_divisor [OF n, of x] by simp
  have r: "bucket_of (Suc k) (n - 1) x = (if y > n - 1 then x mod n else y)"
    unfolding bucket_of_def n_def y_def ..
  have "\<not> y > n - 1 \<Longrightarrow> y mod n = y" using n by simp
  then have "bucket_of k (n - 1) x = bucket_of (Suc k) (n - 1) x"
    unfolding l r by (simp add: xy)
  then show ?thesis unfolding n_def .
qed


lemmas address_simps = and_255 drop_bit_8 Let_def

lemma div_mod_256_less: "shape h \<Longrightarrow> b < 256 * length (dir h) \<Longrightarrow>
    b div 256 < length (dir h) \<and> b mod 256 < length (dir h ! (b div 256))"
  by (auto simp: shape_def list_all_length less_mult_imp_div_less mult.commute)

lemma get_chain_ok: "shape h \<Longrightarrow> b < 256 * length (dir h) \<Longrightarrow> get_chain h b = Inr (chain h b)"
  using div_mod_256_less [of h b]
  by (simp add: get_chain_def chain_def require_def address_simps)

lemma get_chain_inv: "shape h \<Longrightarrow> b \<le> max_bucket h \<Longrightarrow> get_chain h b = Inr (chain h b)"
  by (rule get_chain_ok) (auto simp: shape_def)

lemma set_chain_sel [simp]:
  "hid (set_chain h b c) = hid h" "keysize (set_chain h b c) = keysize h"
  "entrysize (set_chain h b c) = entrysize h" "isfixed (set_chain h b c) = isfixed h"
  "frozen (set_chain h b c) = frozen h" "dsize (set_chain h b c) = dsize h"
  "max_bucket (set_chain h b c) = max_bucket h" "high_mask (set_chain h b c) = high_mask h"
  "low_mask (set_chain h b c) = low_mask h" "nelem_alloc (set_chain h b c) = nelem_alloc h"
  "nentries (set_chain h b c) = nentries h" "freeList (set_chain h b c) = freeList h"
  "brk (set_chain h b c) = brk h" "elems (set_chain h b c) = elems h"
  "length (dir (set_chain h b c)) = length (dir h)"
  by (simp_all add: set_chain_def Let_def)

lemma shape_set_chain [simp]: "shape h \<Longrightarrow> shape (set_chain h b c)"
  by (auto simp: shape_def set_chain_def list_all_length Let_def)
     (metis length_list_update nth_list_update_eq nth_list_update_neq)

lemma chain_set_chain:
  assumes "shape h" "b < 256 * length (dir h)"
  shows "chain (set_chain h b c) b' = (if b' = b then c else chain h b')"
proof (cases "b' div 256 = b div 256")
  case True
  then have "b' = b \<longleftrightarrow> b' mod 256 = b mod 256"
    by (metis div_mult_mod_eq)
  with True div_mod_256_less [OF assms] show ?thesis
    by (auto simp: chain_def set_chain_def address_simps)
next
  case False
  then show ?thesis by (auto simp: chain_def set_chain_def address_simps)
qed

lemma calc_bucket_set_chain [simp]: "calc_bucket (set_chain h b c) = calc_bucket h"
  by (simp add: fun_eq_iff calc_bucket_def Let_def)

lemma chain_cong: "dir h' = dir h \<Longrightarrow> chain h' = chain h"
  by (simp add: chain_def fun_eq_iff)

lemma calc_bucket_cong:
  "max_bucket h' = max_bucket h \<Longrightarrow> high_mask h' = high_mask h \<Longrightarrow> low_mask h' = low_mask h \<Longrightarrow>
    calc_bucket h' = calc_bucket h"
  by (simp add: calc_bucket_def fun_eq_iff Let_def)

lemma split_chain_filter:
  "(\<And>a. a \<in> set c \<Longrightarrow> elems h a \<noteq> None) \<Longrightarrow>
    split_chain h ob c = Inr (filter (\<lambda>a. calc_bucket h (hashvalue (the (elems h a))) = ob) c,
                              filter (\<lambda>a. calc_bucket h (hashvalue (the (elems h a))) \<noteq> ob) c)"
  by (induction c) (auto split: option.splits)

lemma mset_concat_upt: "mset (concat (map f [0 ..< n])) = (\<Sum>b<n. mset (f b))"
  by (induction n) (simp_all add: lessThan_Suc)

lemma mset_live: "mset (live h) = (\<Sum>b<Suc (max_bucket h). mset (chain h b))"
  by (simp only: live_def mset_concat_upt)

lemma set_live: "a \<in> set (live h) \<longleftrightarrow> (\<exists>b \<le> max_bucket h. a \<in> set (chain h b))"
  by (auto simp: live_def less_Suc_eq_le simp del: upt_Suc)

lemma mset_upd:
  assumes "(b :: nat) < n"
  shows "(\<Sum>i<n. if i = b then y else f i) + f b = (\<Sum>i<n. f i) + (y :: 'a multiset)"
proof -
  have "(\<Sum>i<n. if i = b then y else f i) = y + (\<Sum>i\<in>{..<n} - {b}. f i)"
    using assms by (simp add: sum.remove [of "{..<n}" b])
  moreover have "(\<Sum>i<n. f i) = f b + (\<Sum>i\<in>{..<n} - {b}. f i)"
    using assms by (simp add: sum.remove [of "{..<n}" b])
  ultimately show ?thesis by simp
qed

lemma masks_bucket_le: "masks h k \<Longrightarrow> calc_bucket h v \<le> max_bucket h"
  using bucket_of_le [of k "max_bucket h" "unat v"] by (simp add: calc_bucket_of masks_def)

lemma owned_mset:
  assumes live: "mset (live h') = mset (live h)"
    and "freeList h' = freeList h" "brk h' = brk h" "elems h' = elems h" "nentries h' = nentries h"
    and "owned h"
  shows "owned h'"
proof -
  have "set (live h') = set (live h)" "distinct (live h') = distinct (live h)"
    "length (live h') = length (live h)"
    using live by (rule mset_eq_setD, rule mset_eq_imp_distinct_iff, metis size_mset)
  moreover have "key_at h' = key_at h" using assms by (simp add: key_at_def fun_eq_iff)
  ultimately show ?thesis using assms by (simp add: owned_def)
qed


lemma new_segment_ok:
  assumes "shape h" "room h"
  obtains ds segs where
    "new_segment h (drop_bit 8 (Suc (max_bucket h))) = Inr (h\<lparr>dsize := ds, dir := dir h @ segs\<rparr>)"
    "list_all (\<lambda>s. length s = 256) (dir h @ segs)" "Suc (max_bucket h) < 256 * length (dir h @ segs)"
    "ds = dsize h \<or> ds \<le> Suc (max_bucket h)"
proof (cases "Suc (max_bucket h) div 256 \<ge> length (dir h)")
  case True
  let ?ds = "if Suc (max_bucket h) div 256 \<ge> dsize h then 2 * dsize h else dsize h"
  have "new_segment h (drop_bit 8 (Suc (max_bucket h)))
      = Inr (h\<lparr>dsize := ?ds, dir := dir h @ [seg_alloc]\<rparr>)"
    using True assms(2) by (simp add: new_segment_def drop_bit_8 dir_realloc_def require_def room_def)
  then show thesis
    by (rule that) (use assms(1) in \<open>auto simp: shape_def seg_alloc_def\<close>)
next
  case False
  then have "new_segment h (drop_bit 8 (Suc (max_bucket h)))
      = Inr (h\<lparr>dsize := dsize h, dir := dir h @ []\<rparr>)"
    by (simp add: new_segment_def drop_bit_8)
  then show thesis
    by (rule that) (use assms(1) False in \<open>auto simp: shape_def not_le div_less_iff_less_mult mult.commute\<close>)
qed

lemma grow_masks_ok:
  assumes m: "masks h k" and r: "max_bucket h + 1 < 2 ^ 32"
  defines "g \<equiv> grow_masks h (Suc (max_bucket h))"
  shows "\<exists>k. masks g k" "max_bucket g = Suc (max_bucket h)"
    and "calc_bucket g v = calc_bucket h v
       \<or> calc_bucket g v = Suc (max_bucket h) \<and> calc_bucket h v = Suc (max_bucket h) AND low_mask h"
proof -
  have lo: "low_mask h = 2 ^ k - 1" and hi: "high_mask h = 2 ^ Suc k - 1"
    and le: "2 ^ k - 1 \<le> max_bucket h" "max_bucket h \<le> 2 ^ Suc k - 1"
    using m by (simp_all add: masks_def)
  have old: "Suc (max_bucket h) AND low_mask h = Suc (max_bucket h) mod 2 ^ k"
    by (simp only: lo and_mask_mod)
  show mb: "max_bucket g = Suc (max_bucket h)"
    using r by (simp add: g_def grow_masks_def Let_def)
  consider (in_range) "Suc (max_bucket h) < 2 ^ Suc k" | (full) "max_bucket h = 2 ^ Suc k - 1"
    using le(2) by linarith
  then have "(\<exists>k. masks g k) \<and> (calc_bucket g v = calc_bucket h v
       \<or> calc_bucket g v = Suc (max_bucket h) \<and> calc_bucket h v = Suc (max_bucket h) AND low_mask h)"
  proof cases
    case in_range
    then have gm: "masks g k"
      using r le by (auto simp: g_def grow_masks_def masks_def lo hi Let_def simp del: power_Suc)
    show ?thesis
      using bucket_of_grow [OF le(1) in_range, of "unat v"] gm
      by (auto simp: calc_bucket_of [OF gm] calc_bucket_of [OF m] mb old simp del: power_Suc)
  next
    case full
    then have e: "Suc (max_bucket h) = 2 ^ Suc k" by simp
    have up: "(2 :: nat) ^ Suc k \<le> 2 ^ Suc (Suc k) - Suc 0"
      using one_le_power [of "2 :: nat" k] by simp
    have gm: "masks g (Suc k)"
      using r up exp_or_mask [of "Suc k"] by (simp add: g_def grow_masks_def masks_def hi e Let_def del: power_Suc)
    have "2 ^ Suc k - 1 \<le> max_bucket h" "Suc (max_bucket h) < 2 ^ Suc (Suc k)"
      using full e by simp_all
    note grow = bucket_of_grow [OF this, of "unat v"]
    have "calc_bucket h v = bucket_of (Suc k) (max_bucket h) (unat v)"
      using bucket_of_double [of k "unat v"] by (simp only: calc_bucket_of [OF m] full)
    moreover have "Suc (max_bucket h) mod 2 ^ k = 0" "Suc (max_bucket h) mod 2 ^ Suc k = 0"
      unfolding e by simp_all
    ultimately have "calc_bucket g v = calc_bucket h v
       \<or> calc_bucket g v = Suc (max_bucket h) \<and> calc_bucket h v = Suc (max_bucket h) AND low_mask h"
      unfolding calc_bucket_of [OF gm] mb old using grow by (metis (full_types))
    with gm show ?thesis by blast
  qed
  then show "\<exists>k. masks g k" and "calc_bucket g v = calc_bucket h v
       \<or> calc_bucket g v = Suc (max_bucket h) \<and> calc_bucket h v = Suc (max_bucket h) AND low_mask h"
    by blast+
qed


lemma live_set_two:
  assumes sh: "shape h" "ob \<le> m" "max_bucket h = Suc m"
    and ch: "mset olds + mset news = mset (chain h ob)"
  shows "mset (live (set_chain (set_chain h ob olds) (Suc m) news)) = (\<Sum>b<Suc m. mset (chain h b))"
proof -
  have b: "ob < 256 * length (dir h)" "Suc m < 256 * length (dir h)"
    using sh by (auto simp: shape_def)
  have "mset (live (set_chain (set_chain h ob olds) (Suc m) news))
      = (\<Sum>b<Suc (Suc m). if b = Suc m then mset news else if b = ob then mset olds else mset (chain h b))"
    unfolding mset_live set_chain_sel sh(3)
    by (rule sum.cong) (use sh(1) b in \<open>simp_all add: chain_set_chain\<close>)
  also have "\<dots> = (\<Sum>b<Suc m. if b = ob then mset olds else mset (chain h b)) + mset news"
    unfolding sum.lessThan_Suc [of _ "Suc m"] by (intro arg_cong2 [where f = plus] sum.cong) auto
  also have "\<dots> = (\<Sum>b<Suc m. mset (chain h b))"
  proof -
    have "(\<Sum>b<Suc m. if b = ob then mset olds else mset (chain h b)) + mset (chain h ob)
        = (\<Sum>b<Suc m. mset (chain h b)) + mset olds"
      by (rule mset_upd) (use sh(2) in simp)
    then show ?thesis unfolding ch [symmetric] by (simp add: ac_simps)
  qed
  finally show ?thesis .
qed


lemma elem_okD:
  assumes "elem_ok h b a"
  obtains e where "elems h a = Some e" "calc_bucket h (hashvalue e) = b"
    "hashvalue e = string_hash True (key e) (keysize h)" "keycopy (keysize h) (key e) = key e"
  using assms by (auto simp: elem_ok_def split: option.splits)

lemma elem_ok_moved:
  "elem_ok h b a \<Longrightarrow> elems h' a = elems h a \<Longrightarrow> keysize h' = keysize h \<Longrightarrow>
    calc_bucket h' (hashvalue (the (elems h a))) = b' \<Longrightarrow> elem_ok h' b' a"
  by (auto simp: elem_ok_def split: option.splits)

lemma placed_split:
  assumes sh: "shape g" "max_bucket g = Suc m" "ob \<le> m"
    and el: "\<And>a b. b \<le> m \<Longrightarrow> a \<in> set (chain g b) \<Longrightarrow> elem_ok h b a"
    and sel: "elems g = elems h" "keysize g = keysize h"
    and cb: "\<And>v. calc_bucket g v = calc_bucket h v \<or> calc_bucket g v = Suc m \<and> calc_bucket h v = ob"
  defines "P \<equiv> \<lambda>a. calc_bucket g (hashvalue (the (elems g a))) = ob"
  shows "placed (set_chain (set_chain g ob (filter P (chain g ob))) (Suc m)
                   (filter (\<lambda>a. \<not> P a) (chain g ob)))" (is "placed ?h'")
  unfolding placed_def
proof (intro allI impI ballI)
  fix b a
  assume b: "b \<le> max_bucket ?h'" and a: "a \<in> set (chain ?h' b)"
  let ?v = "hashvalue (the (elems h a))"
  have len: "Suc m < 256 * length (dir g)" using sh by (simp add: shape_def)
  have chb: "chain ?h' b = (if b = Suc m then filter (\<lambda>a. \<not> P a) (chain g ob)
      else if b = ob then filter P (chain g ob) else chain g b)"
    using sh len by (simp add: chain_set_chain)
  note a' = a [unfolded chb]
  have hb: "calc_bucket h ?v = b0" if "b0 \<le> m" "a \<in> set (chain g b0)" for b0
    using el [OF that] by (auto elim!: elem_okD)
  have "\<exists>b0 \<le> m. a \<in> set (chain g b0) \<and> calc_bucket g ?v = b"
  proof (cases "b = Suc m \<or> b = ob")
    case True
    then show ?thesis
      using a' cb [of ?v] hb [OF sh(3)] sh(3)
      by (intro exI [of _ ob]) (auto simp: P_def sel split: if_splits)
  next
    case False
    then show ?thesis using a' b cb [of ?v] hb [of b] sh by (intro exI [of _ b]) auto
  qed
  then obtain b0 where "b0 \<le> m" "a \<in> set (chain g b0)" "calc_bucket g ?v = b" by blast
  then show "elem_ok ?h' b a" by (intro elem_ok_moved [OF el]) (simp_all add: sel)
qed

text \<open>A split keeps every element, its address and its data; the table has one bucket more.\<close>

lemma expand_table_ok:
  assumes inv: "hash_inv h" and r: "room h"
  obtains h' where "expand_table h = Inr h'" "hash_inv h'" "mset (live h') = mset (live h)"
    "elems h' = elems h" "freeList h' = freeList h" "brk h' = brk h" "nentries h' = nentries h"
    "keysize h' = keysize h" "frozen h' = frozen h" "hid h' = hid h"
    "max_bucket h' = Suc (max_bucket h)" "\<forall>n. within h n \<longrightarrow> within h' (Suc n)"
proof -
  obtain k where m: "masks h k" and sh: "shape h" and pl: "placed h" and ow: "owned h" and al: "alloc_ok h"
    using inv by (auto simp: hash_inv_def)
  obtain ds segs where ns: "new_segment h (drop_bit 8 (Suc (max_bucket h)))
        = Inr (h\<lparr>dsize := ds, dir := dir h @ segs\<rparr>)"
    and d: "list_all (\<lambda>s. length s = 256) (dir h @ segs)" "Suc (max_bucket h) < 256 * length (dir h @ segs)"
    and ds: "ds = dsize h \<or> ds \<le> Suc (max_bucket h)"
    using sh r by (rule new_segment_ok)
  define h1 where "h1 = h\<lparr>dsize := ds, dir := dir h @ segs\<rparr>"
  have mk: "masks h1 k" "max_bucket h1 + 1 < 2 ^ 32"
    using m r by (simp_all add: masks_def h1_def room_def)
  define g where "g = grow_masks h1 (Suc (max_bucket h1))"
  define ob where "ob = Suc (max_bucket h) AND low_mask h"
  have mb1: "max_bucket h1 = max_bucket h" "low_mask h1 = low_mask h" by (simp_all add: h1_def)
  have gsel: "elems g = elems h" "freeList g = freeList h" "brk g = brk h" "nentries g = nentries h"
    "keysize g = keysize h" "frozen g = frozen h" "hid g = hid h" "dir g = dir h @ segs"
    "isfixed g = isfixed h" "nelem_alloc g = nelem_alloc h" "entrysize g = entrysize h" "dsize g = ds"
    by (simp_all add: g_def grow_masks_def h1_def Let_def)
  note gm = grow_masks_ok [OF mk, folded g_def, unfolded mb1, folded ob_def]
  have cb1: "calc_bucket h1 = calc_bucket h" by (rule calc_bucket_cong) (simp_all add: h1_def)
  have ob: "ob \<le> max_bucket h"
    using m by (simp add: ob_def masks_def) (metis One_nat_def and_mask_mod le_trans less_Suc_eq_le
        mod_less_divisor Suc_pred zero_less_numeral zero_less_power)
  have gsh: "shape g" using d by (simp add: shape_def gsel gm(2))
  have ch: "chain g b = chain h b" if "b \<le> max_bucket h" for b
  proof -
    have "b div 256 < length (dir h)" using div_mod_256_less [OF sh, of b] that sh by (simp add: shape_def)
    then show ?thesis by (simp add: chain_def gsel nth_append)
  qed
  let ?P = "\<lambda>a. calc_bucket g (hashvalue (the (elems g a))) = ob"
  let ?olds = "filter ?P (chain g ob)" and ?news = "filter (\<lambda>a. \<not> ?P a) (chain g ob)"
  let ?h' = "set_chain (set_chain g ob ?olds) (Suc (max_bucket h)) ?news"
  have el: "elem_ok h b a" if "b \<le> max_bucket h" "a \<in> set (chain g b)" for a b
    using pl that by (simp add: placed_def ch)
  have sp: "split_chain g ob (chain g ob) = Inr (?olds, ?news)"
    by (rule split_chain_filter) (use el [OF ob] in \<open>auto simp: gsel elim!: elem_okD\<close>)
  have len: "Suc (max_bucket h) < 256 * length (dir g)" using d by (simp add: gsel)
  have ex: "expand_table h = Inr ?h'"
    using r ns len sp get_chain_ok [OF gsh, of ob] get_chain_ok [OF gsh, of "Suc (max_bucket h)"] ob
    by (simp add: expand_table_def room_def Let_def h1_def [symmetric] g_def [symmetric, unfolded mb1]
        ob_def [symmetric])
  have "mset (live ?h') = (\<Sum>b<Suc (max_bucket h). mset (chain g b))"
    by (rule live_set_two [OF gsh ob gm(2)]) (simp flip: mset_append)
  also have "\<dots> = mset (live h)" unfolding mset_live by (rule sum.cong) (simp_all add: ch)
  finally have ms: "mset (live ?h') = mset (live h)" .
  have "placed ?h'"
    by (rule placed_split [OF gsh gm(2) ob el gsel(1,5) gm(3) [unfolded cb1]])
  moreover have "owned ?h'" by (rule owned_mset [OF ms]) (use ow gsel in simp_all)
  moreover have "alloc_ok ?h'" using al by (simp add: alloc_ok_def gsel)
  moreover have "\<exists>k. masks ?h' k" using gm(1) by (simp add: masks_def)
  ultimately have "hash_inv ?h'" using gsh by (simp add: hash_inv_def)
  then show thesis
    by (rule that [OF ex _ ms]) (use ds in \<open>auto simp: gsel gm(2) within_def\<close>)
qed


subsection \<open>Lookup\<close>

lemma keycopy_idem [simp]: "keycopy n (keycopy n s) = keycopy n s"
  by (simp add: keycopy_def)

lemma string_hash_keycopy [simp]: "string_hash al (keycopy n s) n = string_hash al s n"
  by (simp add: string_hash_def keycopy_def)

lemma find_unique:
  assumes "inj_on f (set xs)"
  shows "List.find (\<lambda>x. f x = v) xs = Some a \<longleftrightarrow> a \<in> set xs \<and> f a = v"
  using assms
proof (induction xs)
  case (Cons x xs)
  then have "inj_on f (set xs)" by (auto intro: inj_on_subset)
  with Cons show ?case by (auto simp: inj_on_def)
qed simp

lemma ptr_of_iff: "owned h \<Longrightarrow> ptr_of h k = Some a \<longleftrightarrow> a \<in> set (live h) \<and> key_at h a = Some k"
  by (simp add: ptr_of_def find_unique owned_def)

lemma ptr_of_eqI:
  assumes "owned h" "\<And>a. a \<in> set (live h) \<and> key_at h a = Some k \<longleftrightarrow> r = Some a"
  shows "ptr_of h k = r"
  using assms by (metis not_None_eq ptr_of_iff)

lemma ptr_of_cong:
  "owned h \<Longrightarrow> owned h' \<Longrightarrow> set (live h') = set (live h) \<Longrightarrow> elems h' = elems h \<Longrightarrow> ptr_of h' = ptr_of h"
  by (rule ext, rule ptr_of_eqI) (auto simp: ptr_of_iff key_at_def)

lemma live_elem:
  assumes "hash_inv h" "a \<in> set (live h)"
  obtains e where "elems h a = Some e" "a \<in> set (chain h (calc_bucket h (hashvalue e)))"
    "hashvalue e = string_hash True (key e) (keysize h)" "keycopy (keysize h) (key e) = key e"
proof -
  obtain b where b: "b \<le> max_bucket h" "a \<in> set (chain h b)" using assms(2) by (auto simp: set_live)
  with assms(1) have "elem_ok h b a" by (simp add: hash_inv_def placed_def)
  then show thesis by (rule elem_okD) (use b that in blast)
qed

lemma chain_find_ok:
  assumes "\<And>a. a \<in> set c \<Longrightarrow> elem_ok h b a"
  shows "chain_find h (string_hash True k (keysize h)) k c
       = Inr (List.find (\<lambda>a. key_at h a = Some (keycopy (keysize h) k)) c)"
  using assms
proof (induction c)
  case (Cons a c)
  obtain e where e: "elems h a = Some e" "hashvalue e = string_hash True (key e) (keysize h)"
    "keycopy (keysize h) (key e) = key e"
    using Cons.prems [of a] by (auto elim: elem_okD)
  have "hashvalue e = string_hash True k (keysize h) \<and> string_compare (key e) k (keysize h)
      \<longleftrightarrow> key_at h a = Some (keycopy (keysize h) k)"
  proof -
    have "string_compare (key e) k (keysize h) \<longleftrightarrow> key e = keycopy (keysize h) k"
      unfolding string_compare_def keycopy_def [symmetric] e(3) ..
    moreover have "key e = keycopy (keysize h) k \<Longrightarrow> hashvalue e = string_hash True k (keysize h)"
      unfolding e(2) by simp
    ultimately show ?thesis by (auto simp: key_at_def e(1))
  qed
  then show ?case using Cons e(1) by simp
qed simp

lemma bucket_find:
  fixes k :: string
  assumes inv: "hash_inv h"
  defines "b \<equiv> calc_bucket h (string_hash True k (keysize h))"
  shows "b \<le> max_bucket h"
    "List.find (\<lambda>a. key_at h a = Some (keycopy (keysize h) k)) (chain h b) = ptr_of h (keycopy (keysize h) k)"
proof -
  show b: "b \<le> max_bucket h" using inv masks_bucket_le by (auto simp: hash_inv_def b_def)
  have ow: "owned h" using inv by (simp add: hash_inv_def)
  have sub: "set (chain h b) \<subseteq> set (live h)" using b by (auto simp: set_live)
  have inj: "inj_on (key_at h) (set (chain h b))"
    using ow sub by (auto simp: owned_def intro: inj_on_subset)
  have "a \<in> set (chain h b)" if "a \<in> set (live h)" "key_at h a = Some (keycopy (keysize h) k)" for a
  proof -
    obtain e where e: "elems h a = Some e" "a \<in> set (chain h (calc_bucket h (hashvalue e)))"
      "hashvalue e = string_hash True (key e) (keysize h)"
      using live_elem [OF inv \<open>a \<in> set (live h)\<close>] by blast
    moreover have "key e = keycopy (keysize h) k" using that(2) e(1) by (simp add: key_at_def)
    ultimately show ?thesis by (simp add: b_def)
  qed
  then show "List.find (\<lambda>a. key_at h a = Some (keycopy (keysize h) k)) (chain h b)
      = ptr_of h (keycopy (keysize h) k)"
    using sub by (intro ptr_of_eqI [OF ow, symmetric]) (auto simp: find_unique [OF inj])
qed


lemma hash_lookup:
  fixes k :: string
  assumes inv: "hash_inv h"
  defines "b \<equiv> calc_bucket h (string_hash True k (keysize h))"
  shows "get_chain h b = Inr (chain h b)"
    "chain_find h (string_hash True k (keysize h)) k (chain h b) = Inr (ptr_of h (keycopy (keysize h) k))"
proof -
  note b = bucket_find [OF inv, of k, folded b_def]
  show "get_chain h b = Inr (chain h b)"
    using inv b(1) by (intro get_chain_inv) (simp_all add: hash_inv_def)
  have "elem_ok h b a" if "a \<in> set (chain h b)" for a
    using inv that b(1) by (simp add: hash_inv_def placed_def)
  then show "chain_find h (string_hash True k (keysize h)) k (chain h b)
      = Inr (ptr_of h (keycopy (keysize h) k))"
    by (simp add: chain_find_ok [where b = b] b(2))
qed

lemma hash_search_find:
  "hash_inv h \<Longrightarrow> hash_search reg h k HASH_FIND
     = Inr (h, ptr_of h (keycopy (keysize h) k), ptr_of h (keycopy (keysize h) k) \<noteq> None)"
  by (simp add: hash_search_def hash_search_with_hash_value_def hash_action_def hash_lookup Let_def)

subsection \<open>Insertion\<close>

lemma get_hash_entry_ok:
  assumes ow: "owned h" and al: "alloc_ok h"
  obtains fl b a where
    "get_hash_entry h = Inr (Some (h\<lparr>nentries := nentries h + 1, freeList := fl, brk := b\<rparr>, a))"
    "distinct (live h @ a # fl)" "\<forall>x \<in> set (live h @ a # fl). x < b"
proof (cases "freeList h")
  case (Cons a fl)
  then have "get_hash_entry h = Inr (Some (h\<lparr>nentries := nentries h + 1, freeList := fl, brk := brk h\<rparr>, a))"
    by (simp add: get_hash_entry_def pop_free_def)
  then show thesis by (rule that) (use ow Cons in \<open>auto simp: owned_def\<close>)
next
  case Nil
  obtain n where n: "nelem_alloc h = Suc n" using al by (auto simp: alloc_ok_def gr0_conv_Suc)
  have "element_alloc h (Suc n) = Inr (Some (h\<lparr>freeList := (brk h + n) # rev [brk h ..< brk h + n],
      brk := brk h + Suc n\<rparr>))"
    using al Nil by (simp add: element_alloc_def require_def alloc_ok_def n)
  then have "get_hash_entry h = Inr (Some (h\<lparr>nentries := nentries h + 1,
      freeList := rev [brk h ..< brk h + n], brk := brk h + Suc n\<rparr>, brk h + n))"
    using Nil by (simp add: get_hash_entry_def pop_free_def n)
  then show thesis by (rule that) (use ow Nil in \<open>auto simp: owned_def\<close>)
qed

lemma live_append:
  assumes "shape h" "b \<le> max_bucket h"
  shows "mset (live (set_chain h b (chain h b @ [a]))) = add_mset a (mset (live h))"
proof -
  have b: "b < 256 * length (dir h)" using assms by (auto simp: shape_def)
  have "mset (live (set_chain h b (chain h b @ [a])))
      = (\<Sum>i<Suc (max_bucket h). if i = b then mset (chain h b) + {#a#} else mset (chain h i))"
    unfolding mset_live set_chain_sel by (rule sum.cong) (use assms b in \<open>auto simp: chain_set_chain\<close>)
  also have "\<dots> = add_mset a (mset (live h))"
    using mset_upd [of b "Suc (max_bucket h)" "mset (chain h b) + {#a#}" "\<lambda>i. mset (chain h i)"] assms(2)
    by (simp add: mset_live del: sum.lessThan_Suc)
  finally show ?thesis .
qed


lemma live_cong: "dir h' = dir h \<Longrightarrow> max_bucket h' = max_bucket h \<Longrightarrow> live h' = live h"
  using chain_cong [of h' h] by (simp add: live_def del: upt_Suc)

lemma ptr_of_None: "owned h \<Longrightarrow> ptr_of h k = None \<Longrightarrow> x \<in> set (live h) \<Longrightarrow> key_at h x \<noteq> Some k"
  by (metis not_None_eq ptr_of_iff)

lemma owned_add:
  assumes ow: "owned h" and none: "ptr_of h k = None"
    and lv: "mset (live h') = add_mset a (mset (live h))"
    and d: "distinct (live h @ a # fl)" "\<forall>x \<in> set (live h @ a # fl). x < bk"
    and sel: "freeList h' = fl" "brk h' = bk" "nentries h' = nentries h + 1"
    and ka: "key_at h' = (key_at h)(a := Some k)"
  shows "owned h'" "ptr_of h' = (ptr_of h)(k \<mapsto> a)"
proof -
  have lv': "mset (live h') = mset (a # live h)" using lv by simp
  have slv: "set (live h') = insert a (set (live h))" using mset_eq_setD [OF lv'] by simp
  have new: "a \<notin> set (live h)" using d by simp
  have dl: "distinct (live h')" using mset_eq_imp_distinct_iff [OF lv'] d by simp
  have len: "length (live h') = Suc (length (live h))" using mset_eq_length [OF lv'] by simp
  have other: "key_at h x \<noteq> Some k" if "x \<in> set (live h)" for x
    using ow none that by (rule ptr_of_None)
  have "inj_on (key_at h) (set (live h))" "nentries h = length (live h)" using ow by (simp_all add: owned_def)
  moreover from this(1) have "inj_on (key_at h') (set (live h'))"
    unfolding slv ka using other by (intro inj_onI) (metis fun_upd_apply insertE inj_onD)
  ultimately show ow': "owned h'" using d dl unfolding owned_def sel distinct_append set_append slv len by auto
  show "ptr_of h' = (ptr_of h)(k \<mapsto> a)"
  proof
    fix j
    show "ptr_of h' j = ((ptr_of h)(k \<mapsto> a)) j"
    proof (rule ptr_of_eqI [OF ow'])
      fix x
      show "x \<in> set (live h') \<and> key_at h' x = Some j \<longleftrightarrow> ((ptr_of h)(k \<mapsto> a)) j = Some x"
        using other [of x] new ptr_of_iff [OF ow, of j x] unfolding slv ka
        by (cases "x = a"; cases "j = k") auto
    qed
  qed
qed

text \<open>A new element at the end of its chain: the invariant, and the content it adds.\<close>

lemma link_new_ok:
  fixes k :: string and h :: "'e HTAB" and old :: "'e option"
  assumes inv: "hash_inv h" and none: "ptr_of h (keycopy (keysize h) k) = None"
    and d: "distinct (live h @ a # fl)" "\<forall>x \<in> set (live h @ a # fl). x < bk"
  defines "b \<equiv> calc_bucket h (string_hash True k (keysize h))"
    and "e \<equiv> \<lparr>hashvalue = string_hash True k (keysize h), key = keycopy (keysize h) k, entry = old\<rparr>"
  defines "g0 \<equiv> h\<lparr>nentries := nentries h + 1, freeList := fl, brk := bk\<rparr>"
  defines "g \<equiv> set_chain g0 b (chain h b @ [a])"
  defines "h' \<equiv> g\<lparr>elems := (elems h)(a \<mapsto> e)\<rparr>"
  shows "hash_inv h'" "ptr_of h' = (ptr_of h)(keycopy (keysize h) k \<mapsto> a)"
proof -
  have sh: "shape h" and pl: "placed h" and ow: "owned h" and b: "b \<le> max_bucket h"
    using inv bucket_find(1) [OF inv, of k] by (simp_all add: hash_inv_def b_def)
  have sh0: "shape g0" using sh by (simp add: shape_def g0_def)
  have ch0: "chain g0 = chain h" "live g0 = live h" by (rule chain_cong, simp add: g0_def, rule live_cong, simp_all add: g0_def)
  have ch: "chain h' c = (if c = b then chain h b @ [a] else chain h c)" for c
  proof -
    have "chain h' = chain g" by (rule chain_cong) (simp add: h'_def)
    moreover have "b < 256 * length (dir g0)" using b sh by (simp add: shape_def g0_def)
    ultimately show ?thesis using chain_set_chain [OF sh0] by (simp add: g_def ch0)
  qed
  have lv: "mset (live h') = add_mset a (mset (live h))"
  proof -
    have "live h' = live g" by (rule live_cong) (simp_all add: h'_def)
    then show ?thesis using live_append [OF sh0, of b a] b by (simp add: g_def ch0) (simp add: g0_def)
  qed
  have sel: "max_bucket h' = max_bucket h" "low_mask h' = low_mask h" "high_mask h' = high_mask h"
    "keysize h' = keysize h" "isfixed h' = isfixed h" "nelem_alloc h' = nelem_alloc h"
    "entrysize h' = entrysize h" "freeList h' = fl" "brk h' = bk" "nentries h' = nentries h + 1"
    "elems h' = (elems h)(a \<mapsto> e)" by (simp_all add: h'_def g_def g0_def)
  have cb: "calc_bucket h' = calc_bucket h" by (rule calc_bucket_cong) (simp_all add: sel)
  have ka: "key_at h' = (key_at h)(a := Some (keycopy (keysize h) k))"
    by (rule ext) (simp add: key_at_def sel e_def)
  note add = owned_add [OF ow none lv d sel(8-10) ka]
  have "elem_ok h' c x" if c: "c \<le> max_bucket h" and x: "x \<in> set (chain h' c)" for c x
  proof (cases "x = a")
    case True
    have "a \<notin> set (chain h c)" using d c by (auto simp: set_live)
    then have "c = b" using True x by (auto simp: ch split: if_splits)
    then show ?thesis using True by (simp add: elem_ok_def cb sel b_def e_def)
  next
    case False
    then have "x \<in> set (chain h c)" using x by (auto simp: ch split: if_splits)
    then have ok: "elem_ok h c x" using pl c by (simp add: placed_def)
    then have "calc_bucket h (hashvalue (the (elems h x))) = c" by (auto elim: elem_okD)
    then show ?thesis by (intro elem_ok_moved [OF ok]) (simp_all add: sel cb False)
  qed
  then have "placed h'" by (simp add: placed_def sel)
  moreover have "shape h'" using shape_set_chain [OF sh0, of b] by (simp add: shape_def h'_def g_def)
  moreover have "alloc_ok h'" "\<exists>k. masks h' k" using inv by (simp_all add: hash_inv_def alloc_ok_def masks_def sel)
  ultimately show "hash_inv h'" using add(1) by (simp add: hash_inv_def)
  show "ptr_of h' = (ptr_of h)(keycopy (keysize h) k \<mapsto> a)" by (rule add(2))
qed


definition enters :: "'e HTAB \<Rightarrow> string \<Rightarrow> 'e HTAB \<Rightarrow> nat \<Rightarrow> bool" where
  "enters h k h' a \<longleftrightarrow> hash_inv h' \<and> ptr_of h' = (ptr_of h)(k \<mapsto> a)
     \<and> (\<forall>x \<in> set (live h). elems h' x = elems h x)
     \<and> keysize h' = keysize h \<and> frozen h' = frozen h \<and> hid h' = hid h
     \<and> (\<forall>n. within h n \<longrightarrow> within h' (Suc n)) \<and> (\<forall>x. ptr_of h k = Some x \<longrightarrow> x = a)"

lemma hash_action_enter:
  assumes inv: "hash_inv h" and fr: "\<not> frozen h"
  obtains h' a where "hash_action h k (string_hash True k (keysize h)) HASH_ENTER
      = Inr (h', Some a, ptr_of h (keycopy (keysize h) k) \<noteq> None)" "enters h (keycopy (keysize h) k) h' a"
    "max_bucket h' = max_bucket h" "dsize h' = dsize h"
proof (cases "ptr_of h (keycopy (keysize h) k)")
  case (Some a)
  show thesis
    by (rule that [of h a])
       (use Some inv hash_lookup [OF inv, of k] in \<open>auto simp: hash_action_def enters_def within_def Let_def\<close>)
next
  case None
  have ow: "owned h" "alloc_ok h" using inv by (simp_all add: hash_inv_def)
  obtain fl bk a where g: "get_hash_entry h
        = Inr (Some (h\<lparr>nentries := nentries h + 1, freeList := fl, brk := bk\<rparr>, a))"
    and d: "distinct (live h @ a # fl)" "\<forall>x \<in> set (live h @ a # fl). x < bk"
    using ow by (rule get_hash_entry_ok)
  note new = link_new_ok [OF inv None d, of "case elems h a of None \<Rightarrow> None | Some e \<Rightarrow> entry e"]
  show thesis
    by (rule that, simp add: hash_action_def hash_lookup [OF inv] None fr g require_def Let_def)
       (use new d None in \<open>auto simp: enters_def within_def\<close>)
qed


lemma hash_search_enter:
  assumes inv: "hash_inv h" and fr: "\<not> frozen h" and r: "room h"
  obtains h' a where "hash_search reg h k HASH_ENTER = Inr (h', Some a, ptr_of h (keycopy (keysize h) k) \<noteq> None)"
    "enters h (keycopy (keysize h) k) h' a"
proof (cases "nentries h > max_bucket h \<and> \<not> has_seq_scans reg h")
  case True
  obtain g where g: "expand_table h = Inr g" "hash_inv g" "mset (live g) = mset (live h)"
    "elems g = elems h" "keysize g = keysize h" "frozen g = frozen h" "hid g = hid h"
    "\<forall>n. within h n \<longrightarrow> within g (Suc n)"
    using inv r by (rule expand_table_ok)
  have p: "ptr_of g = ptr_of h" "set (live g) = set (live h)"
    using inv g mset_eq_setD [OF g(3)] by (simp_all add: hash_inv_def ptr_of_cong)
  obtain h' a where "hash_action g k (string_hash True k (keysize g)) HASH_ENTER
      = Inr (h', Some a, ptr_of g (keycopy (keysize g) k) \<noteq> None)" "enters g (keycopy (keysize g) k) h' a"
    "max_bucket h' = max_bucket g" "dsize h' = dsize g"
    by (rule hash_action_enter [OF g(2), of k]) (use fr g in simp_all)
  then show thesis
    by (intro that [of h' a])
       (use True fr g p in \<open>auto simp: hash_search_def hash_search_with_hash_value_def enters_def within_def\<close>)
next
  case False
  obtain h' a where "hash_action h k (string_hash True k (keysize h)) HASH_ENTER
      = Inr (h', Some a, ptr_of h (keycopy (keysize h) k) \<noteq> None)" "enters h (keycopy (keysize h) k) h' a"
    using inv fr by (rule hash_action_enter)
  with False show thesis
    by (intro that [of h' a]) (auto simp: hash_search_def hash_search_with_hash_value_def)
qed

lemma hash_search_enter_frozen:
  assumes inv: "hash_inv h" and fr: "frozen h"
  shows "hash_search reg h k HASH_ENTER = (case ptr_of h (keycopy (keysize h) k) of
           None \<Rightarrow> Inl (Elog ''cannot insert into frozen hashtable'') | Some a \<Rightarrow> Inr (h, Some a, True))"
  using fr by (simp add: hash_search_def hash_search_with_hash_value_def hash_action_def hash_lookup [OF inv]
      require_def Let_def split: option.splits)

subsection \<open>Removal\<close>

lemma live_remove:
  assumes "shape h" "b \<le> max_bucket h" "a \<in> set (chain h b)"
  shows "add_mset a (mset (live (set_chain h b (remove1 a (chain h b))))) = mset (live h)"
proof -
  have b: "b < 256 * length (dir h)" using assms by (auto simp: shape_def)
  have "mset (live (set_chain h b (remove1 a (chain h b))))
      = (\<Sum>i<Suc (max_bucket h). if i = b then mset (chain h b) - {#a#} else mset (chain h i))"
    unfolding mset_live set_chain_sel
    by (rule sum.cong) (use assms b in \<open>auto simp: chain_set_chain\<close>)
  moreover have "(\<Sum>i<Suc (max_bucket h). if i = b then mset (chain h b) - {#a#} else mset (chain h i))
      + mset (chain h b) = (\<Sum>i<Suc (max_bucket h). mset (chain h i)) + (mset (chain h b) - {#a#})"
    by (rule mset_upd) (use assms(2) in simp)
  moreover have "mset (chain h b) = add_mset a (mset (chain h b) - {#a#})" using assms(3) by simp
  ultimately show ?thesis unfolding mset_live [of h]
    by (metis (no_types, lifting) add_right_cancel add_mset_add_single union_mset_add_mset_left
        union_mset_add_mset_right)
qed


lemma owned_remove:
  assumes ow: "owned h" and p: "ptr_of h k = Some a"
    and lv: "add_mset a (mset (live h')) = mset (live h)"
    and sel: "freeList h' = a # freeList h" "brk h' = brk h" "nentries h' = nentries h - 1" "elems h' = elems h"
  shows "owned h'" "ptr_of h' = (ptr_of h)(k := None)"
proof -
  have lv': "mset (a # live h') = mset (live h)" using lv by simp
  have slv: "set (live h) = insert a (set (live h'))" using mset_eq_setD [OF lv'] by simp
  have dl: "distinct (a # live h')" using mset_eq_imp_distinct_iff [OF lv'] ow by (simp add: owned_def)
  have len: "length (live h) = Suc (length (live h'))" using mset_eq_length [OF lv'] by simp
  have ka: "key_at h' = key_at h" by (rule ext) (simp add: key_at_def sel)
  have inj: "inj_on (key_at h) (set (live h))" using ow by (simp add: owned_def)
  show ow': "owned h'"
    using ow dl unfolding owned_def sel ka distinct_append set_append slv len
    by (auto intro: inj_on_subset)
  have a: "key_at h a = Some k" using ptr_of_iff [OF ow] p by simp
  show "ptr_of h' = (ptr_of h)(k := None)"
  proof
    fix j
    show "ptr_of h' j = ((ptr_of h)(k := None)) j"
    proof (rule ptr_of_eqI [OF ow'])
      fix x
      have "x = a" if "x \<in> set (live h)" "key_at h x = Some k"
        using inj that a by (auto simp: slv inj_on_def)
      then show "x \<in> set (live h') \<and> key_at h' x = Some j \<longleftrightarrow> ((ptr_of h)(k := None)) j = Some x"
        using dl a ptr_of_iff [OF ow, of j x] unfolding slv ka by (cases "x = a"; cases "j = k") auto
    qed
  qed
qed

lemma hash_search_remove:
  assumes inv: "hash_inv h"
  shows "ptr_of h (keycopy (keysize h) k) = None \<Longrightarrow>
      hash_search reg h k HASH_REMOVE = Inr (h, None, False)"
    and "ptr_of h (keycopy (keysize h) k) = Some a \<Longrightarrow>
      \<exists>h'. hash_search reg h k HASH_REMOVE = Inr (h', Some a, True) \<and> hash_inv h'
         \<and> ptr_of h' = (ptr_of h)(keycopy (keysize h) k := None) \<and> elems h' = elems h
         \<and> frozen h' = frozen h \<and> keysize h' = keysize h \<and> max_bucket h' = max_bucket h
         \<and> dsize h' = dsize h \<and> nentries h = Suc (nentries h')"
proof -
  let ?b = "calc_bucket h (string_hash True k (keysize h))" and ?k = "keycopy (keysize h) k"
  note look = hash_lookup [OF inv, of k]
  show "ptr_of h ?k = None \<Longrightarrow> hash_search reg h k HASH_REMOVE = Inr (h, None, False)"
    by (simp add: hash_search_def hash_search_with_hash_value_def hash_action_def look Let_def)
  assume p: "ptr_of h ?k = Some a"
  have sh: "shape h" "placed h" "owned h" using inv by (simp_all add: hash_inv_def)
  have b: "?b \<le> max_bucket h" "a \<in> set (chain h ?b)"
    using bucket_find [OF inv, of k] p by (simp_all add: find_Some_iff) (metis nth_mem)
  define h' where "h' = (set_chain h ?b (remove1 a (chain h ?b)))\<lparr>nentries := nentries h - 1,
    freeList := a # freeList h\<rparr>"
  have sel: "freeList h' = a # freeList h" "brk h' = brk h" "nentries h' = nentries h - 1"
    "elems h' = elems h" "max_bucket h' = max_bucket h" "low_mask h' = low_mask h"
    "high_mask h' = high_mask h" "keysize h' = keysize h" "isfixed h' = isfixed h"
    "nelem_alloc h' = nelem_alloc h" "entrysize h' = entrysize h" "frozen h' = frozen h" "dsize h' = dsize h"
    by (simp_all add: h'_def)
  have eq: "live h' = live (set_chain h ?b (remove1 a (chain h ?b)))"
    "chain h' = chain (set_chain h ?b (remove1 a (chain h ?b)))"
    by (rule live_cong, simp_all add: h'_def, rule chain_cong, simp)
  have cb: "calc_bucket h' = calc_bucket h" by (rule calc_bucket_cong) (simp_all add: sel)
  have lv: "add_mset a (mset (live h')) = mset (live h)" unfolding eq by (rule live_remove [OF sh(1) b])
  note rem = owned_remove [OF sh(3) p lv sel(1-4)]
  have ch: "chain h' c = (if c = ?b then remove1 a (chain h c) else chain h c)" for c
    using chain_set_chain [OF sh(1), of ?b] b(1) sh(1) by (simp add: eq shape_def)
  have sub: "set (chain h' c) \<subseteq> set (chain h c)" for c
    unfolding ch by (simp add: set_remove1_subset)
  have "elem_ok h' c x" if "c \<le> max_bucket h" "x \<in> set (chain h' c)" for c x
  proof -
    have ok: "elem_ok h c x" using sh(2) sub that by (auto simp: placed_def)
    then have "calc_bucket h (hashvalue (the (elems h x))) = c" by (auto elim: elem_okD)
    then show ?thesis by (intro elem_ok_moved [OF ok]) (simp_all add: sel cb)
  qed
  then have "placed h'" by (simp add: placed_def sel)
  moreover have "shape h'" using shape_set_chain [OF sh(1)] by (simp add: shape_def h'_def)
  moreover have "alloc_ok h'" "\<exists>k. masks h' k" using inv by (simp_all add: hash_inv_def alloc_ok_def masks_def sel)
  ultimately have "hash_inv h'" using rem(1) by (simp add: hash_inv_def)
  moreover have "hash_search reg h k HASH_REMOVE = Inr (h', Some a, True)"
    by (simp add: hash_search_def hash_search_with_hash_value_def hash_action_def look p h'_def Let_def)
  moreover have "nentries h = Suc (nentries h')"
    using sh(3) rem(1) arg_cong [OF lv, of size] by (simp add: owned_def)
  ultimately show "\<exists>h'. hash_search reg h k HASH_REMOVE = Inr (h', Some a, True) \<and> hash_inv h'
         \<and> ptr_of h' = (ptr_of h)(?k := None) \<and> elems h' = elems h
         \<and> frozen h' = frozen h \<and> keysize h' = keysize h \<and> max_bucket h' = max_bucket h
         \<and> dsize h' = dsize h \<and> nentries h = Suc (nentries h')"
    using rem(2) sel by blast
qed


subsection \<open>Creation\<close>

lemma my_log2_bounds:
  "1 < n \<Longrightarrow> n \<le> 4611686018427387903 \<Longrightarrow> n \<le> 2 ^ my_log2 n \<and> 2 ^ my_log2 n < 2 * n"
  using leftmost_one_pos_bounds [of "n - 1"] by (simp add: my_log2_def Let_def) linarith

text \<open>\<open>next_pow2_int\<close> is the least power of two that is not below its argument.\<close>

lemma next_pow2_int_bounds:
  assumes "0 < n" "n \<le> 1073741823"
  shows "n \<le> next_pow2_int n" "next_pow2_int n < 2 * n" "\<exists>k. next_pow2_int n = 2 ^ k"
proof -
  have "n \<le> next_pow2_int n \<and> next_pow2_int n < 2 * n"
    using assms my_log2_bounds [of n]
    by (cases "n = 1") (simp_all add: next_pow2_int_def my_log2_def Let_def)
  then show "n \<le> next_pow2_int n" "next_pow2_int n < 2 * n" by simp_all
  show "\<exists>k. next_pow2_int n = 2 ^ k" by (auto simp: next_pow2_int_def Let_def)
qed

lemma choose_loop_ok:
  "0 < alloc \<Longrightarrow> alloc < 32 * es \<Longrightarrow> \<exists>n. choose_loop es alloc = Some n \<and> 32 \<le> n \<and> n < 64"
proof (induction "32 * es - alloc" arbitrary: alloc rule: less_induct)
  case less
  have es: "0 < es" using less.prems by (cases es) simp_all
  show ?case
  proof (cases "alloc * 2 div es < 32")
    case True
    then have "alloc * 2 < 32 * es" using es by (simp add: div_less_iff_less_mult)
    then have "\<exists>n. choose_loop es (alloc * 2) = Some n \<and> 32 \<le> n \<and> n < 64"
      using less.prems by (intro less.hyps) simp_all
    with True show ?thesis by (simp add: choose_loop.simps [of es alloc] Let_def)
  next
    case False
    have "alloc * 2 div es < 64" using less.prems es by (simp add: div_less_iff_less_mult)
    then show ?thesis using False by (simp add: choose_loop.simps [of es alloc] Let_def)
  qed
qed

lemma choose_nelem_alloc_ok:
  "\<exists>n. choose_nelem_alloc esize = Some n \<and> 32 \<le> n \<and> n < 64"
  unfolding choose_nelem_alloc_def by (rule choose_loop_ok) (simp_all add: elementSize_def)

lemma chain_empty: "dir h = replicate n seg_alloc \<Longrightarrow> max_bucket h < 256 * n \<Longrightarrow> b \<le> max_bucket h \<Longrightarrow>
    chain h b = []"
  by (simp add: chain_def seg_alloc_def less_mult_imp_div_less mult.commute)

lemma hash_inv_empty:
  assumes d: "dir h = replicate n seg_alloc" "max_bucket h < 256 * n"
    and m: "masks h k" and al: "alloc_ok h" and e: "nentries h = 0"
    and fl: "distinct (freeList h)" "\<forall>a \<in> set (freeList h). a < brk h"
  shows "hash_inv h" "ptr_of h = Map.empty"
proof -
  have ch: "chain h b = []" if "b \<le> max_bucket h" for b using d that by (rule chain_empty)
  then have lv: "live h = []" by (simp add: live_def less_Suc_eq_le del: upt_Suc)
  show "ptr_of h = Map.empty" by (simp add: ptr_of_def lv fun_eq_iff)
  have "shape h" using d by (simp add: shape_def seg_alloc_def list_all_iff)
  moreover have "placed h" by (simp add: placed_def ch)
  moreover have "owned h" using e fl by (simp add: owned_def lv)
  ultimately show "hash_inv h" using m al by (auto simp: hash_inv_def)
qed

lemma hash_create_ok:
  assumes n: "0 < nelem" "nelem \<le> 2 ^ 20" and es: "int (64 * elementSize esize) \<le> MaxAllocSize"
  shows "\<exists>h. hash_create ident name nelem ks esize = Inr (h :: 'e HTAB) \<and> hash_inv h \<and> ptr_of h = Map.empty
     \<and> room h \<and> hid h = ident \<and> keysize h = ks \<and> \<not> frozen h \<and> nentries h = 0"
proof -
  define nb where "nb = next_pow2_int nelem"
  define ns where "ns = next_pow2_int ((nb - 1) div 256 + 1)"
  define ds where "ds = (if ns > 256 then ns else 256)"
  obtain c where c: "choose_nelem_alloc esize = Some c" "32 \<le> c" "c < 64"
    using choose_nelem_alloc_ok [of esize] by blast
  obtain k where k: "nb = 2 ^ k" using next_pow2_int_bounds(3) [of nelem] n by (auto simp: nb_def)
  have nb: "0 < nb" "nb < 2 ^ 21"
    using next_pow2_int_bounds(1,2) [of nelem] n by (auto simp: nb_def)
  have ns: "(nb - 1) div 256 + 1 \<le> ns" "ns < 2 * ((nb - 1) div 256 + 1)"
    unfolding ns_def by (rule next_pow2_int_bounds; use nb in simp)+
  have "(nb - 1) div 256 < 8192" using nb by (simp add: div_less_iff_less_mult)
  then have ds: "ds < 2 ^ 15" using ns by (simp add: ds_def)
  have ces: "c * elementSize esize \<le> 64 * elementSize esize" using c by simp
  let ?h = "\<lparr>hid = ident, tabname = name, keysize = ks, entrysize = esize, isfixed = False, frozen = False,
      dsize = ds, dir = replicate ns seg_alloc, max_bucket = nb - 1, high_mask = 2 * nb - 1, low_mask = nb - 1,
      nelem_alloc = c, nentries = 0, freeList = (if nelem < c then rev [0 ..< nelem] else []),
      brk = (if nelem < c then nelem else 0), elems = Map.empty\<rparr> :: 'e HTAB"
  have "nelem < c \<Longrightarrow> int (nelem * elementSize esize) \<le> MaxAllocSize"
    using ces es c mult_right_mono [of nelem c "elementSize esize"] by linarith
  moreover have "next_pow2_int (Suc ((nb - Suc 0) div 256)) = ns" by (simp add: ns_def)
  moreover have "int ns * 8 \<le> MaxAllocSize" using ds by (simp add: ds_def split: if_splits)
  ultimately have cr: "hash_create ident name nelem ks esize = Inr ?h"
    using c n ds by (simp add: hash_create_def init_htab_def element_alloc_def require_def Let_def
        nb_def [symmetric] ds_def)
  have mx: "nb - 1 < 256 * ns" using ns(1) by linarith
  have "hash_inv ?h" "ptr_of ?h = Map.empty"
  proof -
    have m: "masks ?h k" using k by (simp add: masks_def)
    have "int (c * elementSize esize) \<le> MaxAllocSize" using ces es by linarith
    then have a: "alloc_ok ?h" using c by (simp add: alloc_ok_def)
    show "hash_inv ?h" "ptr_of ?h = Map.empty"
      by (rule hash_inv_empty [OF _ _ m a]; use mx in simp)+
  qed
  moreover have "room ?h" using ds nb by (simp add: room_def)
  ultimately show ?thesis using cr by (intro exI [of _ ?h]) simp
qed


subsection \<open>Scans\<close>

text \<open>\<open>remaining\<close> is what a scan has still to deliver.\<close>

definition tail_from :: "'e HTAB \<Rightarrow> nat \<Rightarrow> nat list" where
  "tail_from h b = concat (map (chain h) [b ..< Suc (max_bucket h)])"

definition remaining :: "'e HTAB \<Rightarrow> HASH_SEQ_STATUS \<Rightarrow> nat list" where
  "remaining h st = (if curEntry st = [] then tail_from h (curBucket st)
     else curEntry st @ tail_from h (Suc (curBucket st)))"

lemma tail_from_step: "b \<le> max_bucket h \<Longrightarrow> tail_from h b = chain h b @ tail_from h (Suc b)"
  unfolding tail_from_def by (subst upt_conv_Cons) simp_all

lemma tail_from_end: "\<not> b \<le> max_bucket h \<Longrightarrow> tail_from h b = []"
  unfolding tail_from_def by simp

lemma remaining_init: "remaining h \<lparr>curBucket = 0, curEntry = []\<rparr> = live h"
  by (simp add: remaining_def tail_from_def live_def)

lemma next_nonempty_ok:
  assumes "shape h"
  shows "\<exists>b' c. next_nonempty h b = Inr (b', c) \<and> tail_from h b = (if c = [] then [] else c @ tail_from h (Suc b'))
     \<and> (c = [] \<longrightarrow> tail_from h b' = [])"
  using assms
proof (induction h b rule: next_nonempty.induct)
  case (1 h b)
  show ?case
  proof (cases "b \<le> max_bucket h")
    case False
    then show ?thesis by (simp add: next_nonempty.simps tail_from_end)
  next
    case True
    then have g: "get_chain h b = Inr (chain h b)" using 1(2) by (intro get_chain_inv)
    show ?thesis
    proof (cases "chain h b = []")
      case empty: True
      have "\<not> b > max_bucket h" using True by simp
      note IH = 1(1) [OF this g empty 1(2)]
      have "next_nonempty h b = next_nonempty h (b + 1)" "tail_from h b = tail_from h (b + 1)"
        using True g empty by (simp_all add: next_nonempty.simps [of h b] tail_from_step)
      with IH show ?thesis by metis
    next
      case False
      then show ?thesis using True g by (simp add: next_nonempty.simps [of h b] tail_from_step)
    qed
  qed
qed

lemma hash_seq_search_next:
  assumes sh: "shape h" and r: "remaining h st = a # rest"
  shows "\<exists>st'. hash_seq_search reg h st = Inr (reg, st', Some a) \<and> remaining h st' = rest"
proof (cases "curEntry st")
  case (Cons x xs)
  then show ?thesis using r by (auto simp: hash_seq_search_def remaining_def)
next
  case Nil
  obtain b' c where n: "next_nonempty h (curBucket st) = Inr (b', c)"
    "tail_from h (curBucket st) = (if c = [] then [] else c @ tail_from h (Suc b'))"
    using next_nonempty_ok [OF sh] by metis
  with r Nil obtain xs where "c = a # xs" "rest = xs @ tail_from h (Suc b')"
    by (cases c) (simp_all add: remaining_def)
  with n Nil show ?thesis by (auto simp: hash_seq_search_def remaining_def)
qed

lemma hash_seq_search_end:
  assumes sh: "shape h" and r: "remaining h st = []"
  shows "\<exists>st'. hash_seq_search reg h st = bindR (hash_seq_term reg h) (\<lambda>reg. Inr (reg, st', None))"
proof -
  have Nil: "curEntry st = []" using r by (auto simp: remaining_def split: if_splits)
  obtain b' c where n: "next_nonempty h (curBucket st) = Inr (b', c)"
    "tail_from h (curBucket st) = (if c = [] then [] else c @ tail_from h (Suc b'))"
    using next_nonempty_ok [OF sh] by metis
  with r Nil have "c = []" by (auto simp: remaining_def split: if_splits)
  with n Nil show ?thesis by (auto simp: hash_seq_search_def)
qed

lemma register_deregister:
  assumes "register_seq_scan reg h = Inr reg'"
  shows "deregister_seq_scan reg' h = Inr reg" "has_seq_scans reg' h"
  using assms
  by (auto simp: register_seq_scan_def require_def deregister_seq_scan_def has_seq_scans_def
      split: if_splits)

text \<open>While a scan is open, an insertion does not move any element to another chain.\<close>

lemma enter_during_scan: "has_seq_scans reg h \<Longrightarrow>
    hash_search reg h k HASH_ENTER = hash_action h k (string_hash True k (keysize h)) HASH_ENTER"
  by (simp add: hash_search_def hash_search_with_hash_value_def)


subsection \<open>The table as an instance of its contract\<close>

lemma set_entry_sel:
  "dir (set_entry h a d) = dir h" "max_bucket (set_entry h a d) = max_bucket h"
  "keysize (set_entry h a d) = keysize h" "frozen (set_entry h a d) = frozen h"
  "hid (set_entry h a d) = hid h" "dsize (set_entry h a d) = dsize h"
  "nentries (set_entry h a d) = nentries h" "brk (set_entry h a d) = brk h"
  "freeList (set_entry h a d) = freeList h"
  by (simp_all add: set_entry_def)

lemma key_at_set_entry: "key_at (set_entry h a d) = key_at h"
  by (rule ext) (simp add: key_at_def set_entry_def option.map_comp comp_def)

lemma live_set_entry: "live (set_entry h a d) = live h" and chain_set_entry: "chain (set_entry h a d) = chain h"
  by (rule live_cong, simp_all add: set_entry_sel, rule chain_cong, simp add: set_entry_sel)

lemma hash_inv_set_entry:
  assumes "hash_inv h"
  shows "hash_inv (set_entry h a d)"
proof -
  have cb: "calc_bucket (set_entry h a d) = calc_bucket h"
    by (rule calc_bucket_cong) (simp_all add: set_entry_def)
  have "elem_ok (set_entry h a d) b x" if "elem_ok h b x" for b x
    using that unfolding elem_ok_def cb set_entry_sel(3)
    by (cases "elems h x"; cases "x = a") (simp_all add: set_entry_def)
  then have "placed (set_entry h a d)"
    using assms by (simp add: placed_def hash_inv_def chain_set_entry set_entry_sel)
  then show ?thesis
    using assms by (simp add: hash_inv_def shape_def owned_def key_at_set_entry live_set_entry)
      (simp add: masks_def alloc_ok_def set_entry_def)
qed

lemma ptr_of_set_entry: "ptr_of (set_entry h a d) = ptr_of h"
  by (rule ext) (simp add: ptr_of_def key_at_set_entry live_set_entry)

definition table_ready :: "'e HTAB \<Rightarrow> bool" where
  "table_ready h \<longleftrightarrow> room h \<and> \<not> frozen h"

interpretation dyn: string_table hash_inv table_ready "\<lambda>h. keycopy (keysize h)" ptr_of entry_at
    "\<lambda>h k. hash_search reg h k HASH_FIND" "\<lambda>h k. hash_search reg h k HASH_ENTER" set_entry
  for reg
proof (unfold_locales, goal_cases)
  case (1 t k)
  then show ?case by (rule hash_search_find)
next
  case (2 t k)
  then obtain t' a where e: "hash_search reg t k HASH_ENTER = Inr (t', Some a, ptr_of t (keycopy (keysize t) k) \<noteq> None)"
    "enters t (keycopy (keysize t) k) t' a"
    using hash_search_enter [OF 2(1), of reg k] unfolding table_ready_def by blast
  moreover have "entry_at t' x = entry_at t x" if "ptr_of t j = Some x" for x j
    using e(2) that ptr_of_iff [of t j x] 2(1) by (simp add: enters_def entry_at_def hash_inv_def)
  ultimately show ?case by (intro exI [of _ t'] exI [of _ a]) (auto simp: enters_def)
next
  case (3 t j a k)
  then show ?case using ptr_of_iff [of t j a] ptr_of_iff [of t k a] by (simp add: hash_inv_def)
next
  case (4 t k a d)
  then have "elems t a \<noteq> None" using ptr_of_iff [of t k a] by (auto simp: hash_inv_def key_at_def)
  then have "entry_at (set_entry t a d) = (entry_at t)(a \<mapsto> d)"
    by (intro ext) (auto simp: entry_at_def set_entry_def)
  with 4 show ?case by (simp add: hash_inv_set_entry set_entry_sel ptr_of_set_entry)
qed


section \<open>Sequences of table operations\<close>

text \<open>The content of a table as its clients see it: the filled-in data of the element that has the key.\<close>

definition tab_map :: "'e HTAB \<Rightarrow> string \<Rightarrow> 'e option" where
  "tab_map h k = Option.bind (ptr_of h k) (entry_at h)"

lemma tab_map_lookup: "string_table.lookup ptr_of entry_at h = tab_map h"
  by (rule ext) (simp add: tab_map_def dyn.lookup_def)

lemmas tab_map_store = dyn.lookup_store [unfolded tab_map_lookup]

lemma tab_map_remove:
  assumes "hash_inv h" "ptr_of h' = (ptr_of h)(k := None)" "elems h' = elems h"
  shows "tab_map h' = (tab_map h)(k := None)"
proof
  have "entry_at h' = entry_at h" by (rule ext) (simp add: entry_at_def assms(3))
  then show "tab_map h' j = ((tab_map h)(k := None)) j" for j by (simp add: tab_map_def assms(2))
qed

datatype 'e tab_op = Insert string 'e | Lookup string | Delete string

fun tab_run :: "nat list \<Rightarrow> 'e tab_op list \<Rightarrow> 'e HTAB \<Rightarrow> ('e HTAB \<times> 'e option list) result" where
  "tab_run reg [] h = Inr (h, [])"
| "tab_run reg (Insert k d # ops) h = bindR (hash_search reg h k HASH_ENTER) (\<lambda>(h, p, found). case p of
     None \<Rightarrow> Inl (Undefined Null_deref)
   | Some a \<Rightarrow> tab_run reg ops (set_entry h a d))"
| "tab_run reg (Lookup k # ops) h = bindR (hash_search reg h k HASH_FIND) (\<lambda>(h, p, found).
     bindR (tab_run reg ops h) (\<lambda>(h', rs). Inr (h', Option.bind p (entry_at h) # rs)))"
| "tab_run reg (Delete k # ops) h = bindR (hash_search reg h k HASH_REMOVE) (\<lambda>(h, p, found). tab_run reg ops h)"

fun map_run :: "nat \<Rightarrow> 'e tab_op list \<Rightarrow> (string \<rightharpoonup> 'e) \<Rightarrow> (string \<rightharpoonup> 'e) \<times> 'e option list" where
  "map_run ks [] m = (m, [])"
| "map_run ks (Insert k d # ops) m = map_run ks ops (m(keycopy ks k \<mapsto> d))"
| "map_run ks (Lookup k # ops) m = (let (m', rs) = map_run ks ops m in (m', m (keycopy ks k) # rs))"
| "map_run ks (Delete k # ops) m = map_run ks ops (m(keycopy ks k := None))"

text \<open>
  What a client can rely on after \<open>HASH_ENTER\<close> and a write through the pointer it got: \<open>entered\<close> collects
  it for the table before, the table after the search, the element and the written data.
\<close>

definition entered :: "nat \<Rightarrow> 'e HTAB \<Rightarrow> string \<Rightarrow> 'e HTAB \<Rightarrow> nat \<Rightarrow> 'e \<Rightarrow> bool" where
  "entered n h k h' a d \<longleftrightarrow> hash_inv (set_entry h' a d) \<and> \<not> frozen (set_entry h' a d)
     \<and> within (set_entry h' a d) (Suc n) \<and> keysize (set_entry h' a d) = keysize h
     \<and> tab_map (set_entry h' a d) = (tab_map h)(k \<mapsto> d)
     \<and> ptr_of (set_entry h' a d) = (ptr_of h)(k \<mapsto> a)
     \<and> entry_at (set_entry h' a d) a = Some d
     \<and> (\<forall>j x. ptr_of h j = Some x \<longrightarrow> entry_at h' x = entry_at h x \<and> (x = a \<longleftrightarrow> j = k)
          \<and> (x \<noteq> a \<longrightarrow> entry_at (set_entry h' a d) x = entry_at h x))"

lemma insert_step:
  assumes inv: "hash_inv h" "\<not> frozen h" "within h n" "n < 2 ^ 25"
  shows "\<exists>h' a. hash_search reg h k HASH_ENTER = Inr (h', Some a, ptr_of h (keycopy (keysize h) k) \<noteq> None)
     \<and> (\<forall>d. entered n h (keycopy (keysize h) k) h' a d)"
proof -
  let ?k = "keycopy (keysize h) k"
  have room: "room h" using inv within_room by blast
  obtain h' a where e: "hash_search reg h k HASH_ENTER = Inr (h', Some a, ptr_of h ?k \<noteq> None)"
    "enters h ?k h' a"
    using hash_search_enter [OF inv(1,2) room] by blast
  have same: "entry_at h' x = entry_at h x" if "ptr_of h j = Some x" for j x
  proof -
    have "x \<in> set (live h)" using inv(1) that by (simp add: hash_inv_def ptr_of_iff)
    then show ?thesis using e(2) by (simp add: enters_def entry_at_def)
  qed
  have h': "hash_inv h'" "ptr_of h' = (ptr_of h)(?k \<mapsto> a)" "keysize h' = keysize h"
    "frozen h' = frozen h" "within h' (Suc n)" and hit: "\<And>x. ptr_of h ?k = Some x \<Longrightarrow> x = a"
    using e(2) inv(3) by (simp_all add: enters_def)
  have p: "ptr_of h' ?k = Some a" using h'(2) by simp
  have old: "tab_map h' j = tab_map h j" if "j \<noteq> ?k" for j
    using that same [of j] by (cases "ptr_of h j") (simp_all add: tab_map_def h'(2))
  have who: "x = a \<longleftrightarrow> j = ?k" if j: "ptr_of h j = Some x" for j x
  proof
    assume "x = a"
    show "j = ?k"
    proof (rule ccontr)
      assume "j \<noteq> ?k"
      then have "ptr_of h' j = Some a" using j \<open>x = a\<close> by (simp add: h'(2))
      from dyn.ptr_inj [OF h'(1) this p] \<open>j \<noteq> ?k\<close> show False by simp
    qed
  next
    assume "j = ?k"
    then show "x = a" using j hit by simp
  qed
  have "entered n h ?k h' a d" for d
  proof -
    have m: "tab_map (set_entry h' a d) = (tab_map h)(?k \<mapsto> d)"
    proof
      fix j
      show "tab_map (set_entry h' a d) j = ((tab_map h)(?k \<mapsto> d)) j"
        unfolding tab_map_store [OF h'(1) p] using old by simp
    qed
    have en: "entry_at (set_entry h' a d) = (entry_at h')(a \<mapsto> d)"
      using dyn.store_law [OF h'(1) p, of d] by simp
    show ?thesis
      unfolding entered_def using m en same who inv(2) h' hash_inv_set_entry [OF h'(1)]
      by (simp add: set_entry_sel ptr_of_set_entry within_def)
  qed
  with e(1) show ?thesis by blast
qed

lemma tab_run_refines:
  assumes "hash_inv h" "\<not> frozen h" "within h n" "n + length ops < 2 ^ 25"
  shows "\<exists>h'. tab_run reg ops h = Inr (h', snd (map_run (keysize h) ops (tab_map h))) \<and> hash_inv h'
     \<and> tab_map h' = fst (map_run (keysize h) ops (tab_map h))"
  using assms
proof (induction ops arbitrary: h n)
  case (Cons op ops)
  show ?case
  proof (cases op)
    case (Insert k d)
    have "n < 2 ^ 25" using Cons.prems by simp
    then obtain h' a f where s: "hash_search reg h k HASH_ENTER = Inr (h', Some a, f)" "hash_inv (set_entry h' a d)"
      "\<not> frozen (set_entry h' a d)" "within (set_entry h' a d) (Suc n)" "keysize (set_entry h' a d) = keysize h"
      "tab_map (set_entry h' a d) = (tab_map h)(keycopy (keysize h) k \<mapsto> d)"
      using insert_step [OF Cons.prems(1-3)] unfolding entered_def by blast
    have "Suc n + length ops < 2 ^ 25" using Cons.prems(4) by simp
    note IH = Cons.IH [OF s(2-4) this, unfolded s(5,6)]
    then show ?thesis by (simp only: Insert tab_run.simps map_run.simps s(1) bindR_simps prod.case option.case)
  next
    case (Lookup k)
    have "n + length ops < 2 ^ 25" using Cons.prems(4) by simp
    from Cons.IH [OF Cons.prems(1-3) this] obtain h' where
      IH: "tab_run reg ops h = Inr (h', snd (map_run (keysize h) ops (tab_map h)))" "hash_inv h'"
        "tab_map h' = fst (map_run (keysize h) ops (tab_map h))" by blast
    have "tab_run reg (Lookup k # ops) h
        = Inr (h', tab_map h (keycopy (keysize h) k) # snd (map_run (keysize h) ops (tab_map h)))"
      by (simp only: tab_run.simps hash_search_find [OF Cons.prems(1)] IH(1) bindR_simps prod.case tab_map_def)
    with IH(2,3) show ?thesis by (simp add: Lookup Let_def case_prod_beta)
  next
    case (Delete k)
    let ?k = "keycopy (keysize h) k"
    show ?thesis
    proof (cases "ptr_of h ?k")
      case None
      then have "(tab_map h)(?k := None) = tab_map h" by (auto simp: tab_map_def)
      moreover have "n + length ops < 2 ^ 25" using Cons.prems(4) by simp
      note Cons.IH [OF Cons.prems(1-3) this]
      ultimately show ?thesis
        by (simp only: Delete tab_run.simps map_run.simps hash_search_remove(1) [OF Cons.prems(1) None]
            bindR_simps prod.case)
    next
      case (Some a)
      obtain h' where r: "hash_search reg h k HASH_REMOVE = Inr (h', Some a, True)" "hash_inv h'"
        "ptr_of h' = (ptr_of h)(?k := None)" "elems h' = elems h"
        "frozen h' = frozen h" "keysize h' = keysize h" "max_bucket h' = max_bucket h" "dsize h' = dsize h"
        using hash_search_remove(2) [OF Cons.prems(1) Some] by blast
      have m: "tab_map h' = (tab_map h)(?k := None)" by (rule tab_map_remove [OF Cons.prems(1) r(3,4)])
      have "\<not> frozen h'" "within h' n" using r Cons.prems by (simp_all add: within_def)
      moreover have "n + length ops < 2 ^ 25" using Cons.prems(4) by simp
      ultimately have "\<exists>h''. tab_run reg ops h' = Inr (h'', snd (map_run (keysize h) ops ((tab_map h)(?k := None))))
          \<and> hash_inv h'' \<and> tab_map h'' = fst (map_run (keysize h) ops ((tab_map h)(?k := None)))"
        using Cons.IH [OF r(2), of n] unfolding r(6) m by blast
      then show ?thesis by (simp only: Delete tab_run.simps map_run.simps r(1) bindR_simps prod.case)
    qed
  qed
qed simp


section \<open>Whole scans\<close>

text \<open>The callers' loop \<open>while ((entry = hash_seq_search(&status)) != NULL)\<close>: the elements in the order of the calls.\<close>

partial_function (option) scan_all ::
  "nat list \<Rightarrow> 'e HTAB \<Rightarrow> HASH_SEQ_STATUS \<Rightarrow> (nat list \<times> nat list) result option" where
  "scan_all reg h st = (case hash_seq_search reg h st of
     Inl e \<Rightarrow> Some (Inl e)
   | Inr (reg', st', p) \<Rightarrow> (case p of
       None \<Rightarrow> Some (Inr (reg', []))
     | Some a \<Rightarrow> Option.bind (scan_all reg' h st') (\<lambda>r. Some (bindR r (\<lambda>(reg'', as). Inr (reg'', a # as))))))"

lemma scan_all_remaining:
  assumes "shape h" "hash_seq_term reg h = Inr reg'"
  shows "scan_all reg h st = Some (Inr (reg', remaining h st))"
proof (induction "remaining h st" arbitrary: st)
  case Nil
  then show ?case
    using hash_seq_search_end [OF assms(1), of st reg] assms(2) by (subst scan_all.simps) auto
next
  case (Cons a xs)
  obtain st' where n: "hash_seq_search reg h st = Inr (reg, st', Some a)" "remaining h st' = xs"
    using hash_seq_search_next [OF assms(1), of st a xs reg] Cons.hyps(2) by auto
  then have "scan_all reg h st' = Some (Inr (reg', xs))" using Cons.hyps(1) [of st'] by simp
  then show ?case using n(1) Cons.hyps(2) [symmetric] by (subst scan_all.simps) simp
qed

lemma scan_all_live:
  assumes "hash_inv h" "length reg < MAX_SEQ_SCANS"
  shows "\<exists>reg' st. hash_seq_init reg h = Inr (reg', st) \<and> scan_all reg' h st = Some (Inr (reg, live h))"
proof -
  have sh: "shape h" using assms(1) by (simp add: hash_inv_def)
  show ?thesis
  proof (cases "frozen h")
    case True
    then have "hash_seq_term reg h = Inr reg" by (simp add: hash_seq_term_def)
    from scan_all_remaining [OF sh this] True show ?thesis by (simp add: hash_seq_init_def remaining_init)
  next
    case False
    have r: "register_seq_scan reg h = Inr (reg @ [hid h])"
      using assms(2) by (simp add: register_seq_scan_def require_def)
    then have "hash_seq_term (reg @ [hid h]) h = Inr reg"
      using register_deregister(1) [OF r] False by (simp add: hash_seq_term_def)
    from scan_all_remaining [OF sh this] False r show ?thesis by (simp add: hash_seq_init_def remaining_init)
  qed
qed

lemma hash_create_within:
  assumes "0 < nelem" "nelem \<le> 2 ^ 20" "hash_create ident name nelem ks esize = Inr h"
  shows "within h (2 ^ 21)"
proof -
  define nb where "nb = next_pow2_int nelem"
  define ns where "ns = next_pow2_int ((nb - 1) div 256 + 1)"
  have nb: "0 < nb" "nb < 2 ^ 21"
    using next_pow2_int_bounds(1,2) [of nelem] assms by (auto simp: nb_def)
  have "ns < 2 * ((nb - 1) div 256 + 1)"
    unfolding ns_def by (rule next_pow2_int_bounds; use nb in simp)
  moreover have "(nb - 1) div 256 < 8192" using nb by (simp add: div_less_iff_less_mult)
  ultimately have ns: "ns < 2 ^ 15" by simp
  have ns': "next_pow2_int (Suc ((nb - Suc 0) div 256)) = ns" by (simp add: ns_def)
  show ?thesis
    using assms(3) nb ns
    by (auto simp: hash_create_def init_htab_def element_alloc_def require_def Let_def within_def ns'
        nb_def [symmetric] split: if_splits option.splits)
qed

section \<open>Properties\<close>

text \<open>
  C3: A fresh hash table driven by any sequence of at most 2^24 insertions, lookups and deletions behaves
  as a finite map on keys cut to keysize - 1 characters: no operation fails, every lookup returns what the
  map holds, and the table invariant holds at the end, through all the bucket splits the insertions cause.
\<close>

theorem hash_table_refines_map:
  assumes "0 < nelem" "nelem \<le> 2 ^ 20" "int (64 * elementSize esize) \<le> MaxAllocSize" "length ops \<le> 2 ^ 24"
  shows "\<exists>h h'. hash_create ident name nelem ks esize = Inr h
     \<and> tab_run reg ops h = Inr (h', snd (map_run ks ops Map.empty))
     \<and> hash_inv h' \<and> tab_map h' = fst (map_run ks ops Map.empty)"
proof -
  obtain h where h: "hash_create ident name nelem ks esize = Inr (h :: 'a HTAB)" "hash_inv h"
    "ptr_of h = Map.empty" "keysize h = ks" "\<not> frozen h"
    using hash_create_ok [OF assms(1-3)] by blast
  have m: "tab_map h = Map.empty" by (rule ext) (simp add: tab_map_def h(3))
  have "within h (2 ^ 21)" by (rule hash_create_within [OF assms(1,2) h(1)])
  from tab_run_refines [OF h(2,5) this, of ops reg] assms(4) h(1) show ?thesis unfolding m h(4) by auto
qed

theorem hash_table_refines_map_witness:
  "\<exists>h h' :: nat HTAB. hash_create 0 ''WeightPool'' 512 64 112 = Inr h
     \<and> tab_run [] [Insert ''a_val'' (7 :: nat), Insert ''b_val'' 2, Lookup ''a_val'', Delete ''a_val'', Lookup ''a_val'', Lookup ''b_val''] h
       = Inr (h', [Some 7, None, Some 2]) \<and> hash_inv h'"
  using hash_table_refines_map [of 512 112 "[Insert ''a_val'' (7 :: nat), Insert ''b_val'' 2, Lookup ''a_val'',
      Delete ''a_val'', Lookup ''a_val'', Lookup ''b_val'']" 0 "''WeightPool''" 64 "[]"]
  by (auto simp: elementSize_def keycopy_def simp del: tab_run.simps)

text \<open>
  C21: Element pointers stay valid: an insertion, even one that splits a bucket, leaves the address, the
  key, the hash value and the data of every element already in the table unchanged.
\<close>

theorem hash_enter_keeps_pointers:
  assumes "hash_inv h" "\<not> frozen h" "room h" "ptr_of h j = Some x" "j \<noteq> keycopy (keysize h) k"
  shows "\<exists>h' a f. hash_search reg h k HASH_ENTER = Inr (h', Some a, f) \<and> hash_inv h'
     \<and> ptr_of h' j = Some x \<and> elems h' x = elems h x \<and> a \<noteq> x"
proof -
  obtain h' a where e: "hash_search reg h k HASH_ENTER = Inr (h', Some a, ptr_of h (keycopy (keysize h) k) \<noteq> None)"
    "enters h (keycopy (keysize h) k) h' a"
    using hash_search_enter [OF assms(1-3)] by blast
  have x: "x \<in> set (live h)" using assms(1,4) by (simp add: hash_inv_def ptr_of_iff)
  have inv: "hash_inv h'" and p: "ptr_of h' (keycopy (keysize h) k) = Some a" "ptr_of h' j = Some x"
    using e(2) assms(4,5) by (simp_all add: enters_def)
  then have "a \<noteq> x" using assms(5) ptr_of_iff [of h' j x] ptr_of_iff [of h' "keycopy (keysize h) k" a]
    by (auto simp: hash_inv_def)
  then show ?thesis using e inv p x by (auto simp: enters_def)
qed

theorem hash_enter_keeps_pointers_witness:
  "\<exists>h :: nat HTAB. \<exists>x h' a f. hash_inv h \<and> ptr_of h ''a'' = Some x
     \<and> hash_search [] h ''b'' HASH_ENTER = Inr (h', Some a, f) \<and> elems h' x = elems h x \<and> a \<noteq> x"
proof -
  obtain g where g: "hash_create 0 ''t'' 512 64 112 = Inr (g :: nat HTAB)" "hash_inv g" "\<not> frozen g" "keysize g = 64"
    using hash_create_ok [of 512 112 0 "''t''" 64] by (auto simp: elementSize_def)
  have w: "within g (2 ^ 21)" by (rule hash_create_within [OF _ _ g(1)]) simp_all
  obtain h a where h: "hash_inv (set_entry h a 1)" "\<not> frozen (set_entry h a 1)" "within (set_entry h a 1) (Suc (2 ^ 21))"
    "keysize (set_entry h a 1) = keysize g" "tab_map (set_entry h a 1) = (tab_map g)(keycopy (keysize g) ''a'' \<mapsto> 1)"
    using insert_step [OF g(2,3) w, of "[]" "''a''"] unfolding entered_def by auto
  define t where "t = set_entry h a 1"
  have r: "room t" using within_room [OF h(3)] by (simp add: t_def)
  have "tab_map t ''a'' = Some 1" using h(5) g(4) by (simp add: t_def keycopy_def)
  then obtain x where x: "ptr_of t ''a'' = Some x" by (auto simp: tab_map_def Option.bind_eq_Some_conv)
  have "''a'' \<noteq> keycopy (keysize t) ''b''" using h(4) g(4) by (simp add: t_def keycopy_def)
  from hash_enter_keeps_pointers [OF h(1,2) [folded t_def] r x this, of "[]"] h(1) x show ?thesis
    unfolding t_def by blast
qed

text \<open>
  C22: A sequential scan that is run to its end returns, delivers every element of the table exactly once,
  and leaves the registry of open scans as it found it.
\<close>

theorem hash_scan_visits_all_once:
  assumes "hash_inv h" "length reg < MAX_SEQ_SCANS"
  shows "\<exists>reg' st xs. hash_seq_init reg h = Inr (reg', st) \<and> scan_all reg' h st = Some (Inr (reg, xs))
     \<and> distinct xs \<and> (\<forall>x. x \<in> set xs \<longleftrightarrow> (\<exists>k. ptr_of h k = Some x)) \<and> length xs = hash_get_num_entries h"
proof -
  have ow: "owned h" using assms(1) by (simp add: hash_inv_def)
  have "\<exists>k. key_at h x = Some k" if "x \<in> set (live h)" for x
    using live_elem [OF assms(1) that] by (auto simp: key_at_def)
  then have "x \<in> set (live h) \<longleftrightarrow> (\<exists>k. ptr_of h k = Some x)" for x
    using ptr_of_iff [OF ow] by blast
  then show ?thesis
    using scan_all_live [OF assms] ow by (auto simp: owned_def hash_get_num_entries_def)
qed

theorem hash_scan_visits_all_once_witness:
  "\<exists>h :: nat HTAB. \<exists>reg' st xs. hash_create 0 ''t'' 512 64 112 = Inr h
     \<and> hash_seq_init [] h = Inr (reg', st) \<and> scan_all reg' h st = Some (Inr ([], xs)) \<and> length xs = 0"
proof -
  obtain g where g: "hash_create 0 ''t'' 512 64 112 = Inr (g :: nat HTAB)" "hash_inv g" "nentries g = 0"
    using hash_create_ok [of 512 112 0 "''t''" 64] by (auto simp: elementSize_def)
  from hash_scan_visits_all_once [OF g(2), of "[]"] g show ?thesis by (auto simp: hash_get_num_entries_def)
qed

end
