(* ===== verification/Lru_Cache.thy ===== *)
theory Lru_Cache
  imports C_Prelude
begin

text \<open>
  The doubly linked LRU cache of \<open>aqua_extension/src/model_buffer.c\<close> over an explicit memory: cells have
  addresses, \<open>prev\<close> and \<open>next\<close> are address options (NULL is \<^term>\<open>None\<close>), \<open>pfree\<close> removes a cell and a
  later access to it is \<^term>\<open>Undefined Use_after_free\<close>. The walks along \<open>next\<close> may not end on a broken
  list, so they are partial functions: \<^term>\<open>None\<close> is a walk that never returns.
\<close>

section \<open>State\<close>

type_synonym MemoryContext = nat

abbreviation NAMEDATALEN :: nat where "NAMEDATALEN \<equiv> 64"

definition strlcpy :: "string \<Rightarrow> nat \<Rightarrow> string" where
  "strlcpy src siz = take (siz - 1) src"

record 'w LRUCacheEntry =
  le_name :: string
  le_entry :: 'w
  le_prev :: "nat option"
  le_next :: "nat option"

record 'w LRUCache =
  lru_head :: "nat option"
  lru_tail :: "nat option"
  lru_capacity :: int
  lru_size :: int
  lru_context :: MemoryContext
  cells :: "nat \<Rightarrow> 'w LRUCacheEntry option"
  lru_brk :: nat

definition cell :: "'w LRUCache \<Rightarrow> nat \<Rightarrow> 'w LRUCacheEntry result" where
  "cell c a = (case cells c a of None \<Rightarrow> Inl (Undefined Use_after_free) | Some n \<Rightarrow> Inr n)"

definition upd :: "'w LRUCache \<Rightarrow> nat \<Rightarrow> ('w LRUCacheEntry \<Rightarrow> 'w LRUCacheEntry) \<Rightarrow> 'w LRUCache result" where
  "upd c a f = bindR (cell c a) (\<lambda>n. Inr (c\<lparr>cells := (cells c)(a \<mapsto> f n)\<rparr>))"

text \<open>\<open>if (p) p->field = v\<close>.\<close>

definition upd_opt ::
  "'w LRUCache \<Rightarrow> nat option \<Rightarrow> ('w LRUCacheEntry \<Rightarrow> 'w LRUCacheEntry) \<Rightarrow> 'w LRUCache result" where
  "upd_opt c p f = (case p of None \<Rightarrow> Inr c | Some a \<Rightarrow> upd c a f)"

definition lru_free :: "'w LRUCache \<Rightarrow> nat \<Rightarrow> 'w LRUCache result" where
  "lru_free c a = bindR (cell c a) (\<lambda>_. Inr (c\<lparr>cells := (cells c)(a := None)\<rparr>))"

section \<open>Operations\<close>

definition create_lru_cache :: "int \<Rightarrow> MemoryContext \<Rightarrow> 'w LRUCache" where
  "create_lru_cache cap ctx =
     \<lparr>lru_head = None, lru_tail = None, lru_capacity = cap, lru_size = 0, lru_context = ctx,
      cells = Map.empty, lru_brk = 0\<rparr>"

definition lru_cache_move_to_head :: "'w LRUCache \<Rightarrow> nat \<Rightarrow> 'w LRUCache result" where
  "lru_cache_move_to_head c e =
     (if Some e = lru_head c then Inr c
      else
        bindR (cell c e) (\<lambda>n.
        bindR (upd_opt c (le_prev n) (\<lambda>m. m\<lparr>le_next := le_next n\<rparr>)) (\<lambda>c.
        bindR (cell c e) (\<lambda>n.
        bindR (upd_opt c (le_next n) (\<lambda>m. m\<lparr>le_prev := le_prev n\<rparr>)) (\<lambda>c.
        bindR (cell c e) (\<lambda>n.
        let c = (if Some e = lru_tail c then c\<lparr>lru_tail := le_prev n\<rparr> else c) in
        bindR (upd c e (\<lambda>m. m\<lparr>le_next := lru_head c, le_prev := None\<rparr>)) (\<lambda>c.
        bindR (upd_opt c (lru_head c) (\<lambda>m. m\<lparr>le_prev := Some e\<rparr>)) (\<lambda>c.
        let c = c\<lparr>lru_head := Some e\<rparr> in
        Inr (if lru_tail c = None then c\<lparr>lru_tail := Some e\<rparr> else c)))))))))"

text \<open>The walk \<open>while (current != NULL)\<close> that compares names; both callers share it.\<close>

partial_function (option) lru_find :: "'w LRUCache \<Rightarrow> string \<Rightarrow> nat option \<Rightarrow> nat option result option" where
  "lru_find c name current = (case current of
     None \<Rightarrow> Some (Inr None)
   | Some a \<Rightarrow> (case cells c a of
       None \<Rightarrow> Some (Inl (Undefined Use_after_free))
     | Some n \<Rightarrow> if le_name n = name then Some (Inr (Some a)) else lru_find c name (le_next n)))"

definition evict_tail :: "'w LRUCache \<Rightarrow> 'w LRUCache result" where
  "evict_tail c = (case lru_tail c of
     None \<Rightarrow> Inr c
   | Some t \<Rightarrow>
       bindR (cell c t) (\<lambda>n.
       bindR (upd_opt c (le_prev n) (\<lambda>m. m\<lparr>le_next := None\<rparr>)) (\<lambda>c.
       bindR (cell c t) (\<lambda>n.
       let c = c\<lparr>lru_tail := le_prev n\<rparr>;
           c = (if Some t = lru_head c then c\<lparr>lru_head := None\<rparr> else c)
       in bindR (lru_free c t) (\<lambda>c. Inr (c\<lparr>lru_size := lru_size c - 1\<rparr>))))))"

definition push_head :: "'w LRUCache \<Rightarrow> string \<Rightarrow> 'w \<Rightarrow> 'w LRUCache result" where
  "push_head c name entry =
     (let a = lru_brk c;
          c = c\<lparr>cells := (cells c)(a \<mapsto> \<lparr>le_name = strlcpy name NAMEDATALEN, le_entry = entry,
                                        le_prev = None, le_next = lru_head c\<rparr>), lru_brk := a + 1\<rparr>
      in bindR (upd_opt c (lru_head c) (\<lambda>m. m\<lparr>le_prev := Some a\<rparr>)) (\<lambda>c.
         let c = c\<lparr>lru_head := Some a\<rparr>;
             c = (if lru_tail c = None then c\<lparr>lru_tail := Some a\<rparr> else c)
         in Inr (c\<lparr>lru_size := lru_size c + 1\<rparr>)))"

text \<open>The second result component is \<open>CurrentMemoryContext\<close> after the call, \<open>cur\<close> the one before it.\<close>

definition put_lru_cache ::
  "'w LRUCache \<Rightarrow> string \<Rightarrow> 'w \<Rightarrow> MemoryContext \<Rightarrow> ('w LRUCache \<times> MemoryContext) result option" where
  "put_lru_cache c name entry cur =
     (case lru_find c name (lru_head c) of
        None \<Rightarrow> None
      | Some r \<Rightarrow> Some (bindR r (\<lambda>p. case p of
          Some a \<Rightarrow>
            bindR (upd c a (\<lambda>m. m\<lparr>le_entry := entry\<rparr>)) (\<lambda>c.
            bindR (lru_cache_move_to_head c a) (\<lambda>c. Inr (c, lru_context c)))
        | None \<Rightarrow>
            bindR (if lru_size c \<ge> lru_capacity c then evict_tail c else Inr c) (\<lambda>c.
            bindR (push_head c name entry) (\<lambda>c. Inr (c, cur))))))"

definition get_lru_cache :: "'w LRUCache \<Rightarrow> string \<Rightarrow> ('w LRUCache \<times> 'w option) result option" where
  "get_lru_cache c name =
     (case lru_find c name (lru_head c) of
        None \<Rightarrow> None
      | Some r \<Rightarrow> Some (bindR r (\<lambda>p. case p of
          Some a \<Rightarrow>
            bindR (lru_cache_move_to_head c a) (\<lambda>c.
            bindR (cell c a) (\<lambda>n. Inr (c, Some (le_entry n))))
        | None \<Rightarrow> Inr (c, None))))"

partial_function (option) destroy_walk :: "'w LRUCache \<Rightarrow> nat option \<Rightarrow> 'w LRUCache result option" where
  "destroy_walk c current = (case current of
     None \<Rightarrow> Some (Inr c)
   | Some a \<Rightarrow> (case cells c a of
       None \<Rightarrow> Some (Inl (Undefined Use_after_free))
     | Some n \<Rightarrow> destroy_walk (c\<lparr>cells := (cells c)(a := None)\<rparr>) (le_next n)))"

definition destroy_lru_cache :: "'w LRUCache \<Rightarrow> 'w LRUCache result option" where
  "destroy_lru_cache c = destroy_walk c (lru_head c)"

section \<open>Lists in memory\<close>

definition first_of :: "nat list \<Rightarrow> nat option \<Rightarrow> nat option" where
  "first_of xs q = (case xs of [] \<Rightarrow> q | x # _ \<Rightarrow> Some x)"

definition last_of :: "nat list \<Rightarrow> nat option \<Rightarrow> nat option" where
  "last_of xs p = (if xs = [] then p else Some (last xs))"

text \<open>\<open>dseg H p xs q\<close>: the cells \<open>xs\<close> are linked in both directions, from behind \<open>p\<close> to before \<open>q\<close>.\<close>

fun dseg :: "(nat \<Rightarrow> 'w LRUCacheEntry option) \<Rightarrow> nat option \<Rightarrow> nat list \<Rightarrow> nat option \<Rightarrow> bool" where
  "dseg H p [] q = True"
| "dseg H p (a # xs) q = (case H a of
     None \<Rightarrow> False
   | Some n \<Rightarrow> le_prev n = p \<and> le_next n = first_of xs q \<and> dseg H (Some a) xs q)"

definition item :: "(nat \<Rightarrow> 'w LRUCacheEntry option) \<Rightarrow> nat \<Rightarrow> string \<times> 'w" where
  "item H a = (le_name (the (H a)), le_entry (the (H a)))"

text \<open>The cached pairs, most recently used first.\<close>

definition content :: "'w LRUCache \<Rightarrow> nat list \<Rightarrow> (string \<times> 'w) list" where
  "content c xs = map (item (cells c)) xs"

definition lru_inv :: "'w LRUCache \<Rightarrow> nat list \<Rightarrow> bool" where
  "lru_inv c xs \<longleftrightarrow> dseg (cells c) None xs None \<and> distinct xs \<and> dom (cells c) = set xs
     \<and> (\<forall>a \<in> set xs. a < lru_brk c) \<and> lru_head c = first_of xs None \<and> lru_tail c = last_of xs None
     \<and> lru_size c = int (length xs) \<and> lru_size c \<le> lru_capacity c \<and> 0 < lru_capacity c"

lemma first_of_simps [simp]: "first_of [] q = q" "first_of (x # xs) q = Some x"
  by (simp_all add: first_of_def)

lemma last_of_simps [simp]: "last_of [] p = p" "last_of (xs @ [x]) p = Some x"
    "last_of (x # xs) p = last_of xs (Some x)"
  by (simp_all add: last_of_def)

lemma dseg_append: "dseg H p (us @ vs) q \<longleftrightarrow> dseg H p us (first_of vs q) \<and> dseg H (last_of us p) vs q"
proof (induction us arbitrary: p)
  case (Cons a us)
  have "first_of (us @ vs) q = first_of us (first_of vs q)" by (cases us) simp_all
  with Cons show ?case by (simp split: option.splits)
qed simp

lemma dseg_cong: "(\<And>a. a \<in> set xs \<Longrightarrow> H' a = H a) \<Longrightarrow> dseg H' p xs q = dseg H p xs q"
  by (induction xs arbitrary: p) (simp_all split: option.splits)

lemma dseg_dom: "dseg H p xs q \<Longrightarrow> a \<in> set xs \<Longrightarrow> \<exists>n. H a = Some n"
  by (induction xs arbitrary: p) (auto split: option.splits)

definition set_prev ::
  "(nat \<Rightarrow> 'w LRUCacheEntry option) \<Rightarrow> nat option \<Rightarrow> nat option \<Rightarrow> nat \<Rightarrow> 'w LRUCacheEntry option" where
  "set_prev H p v = (case p of None \<Rightarrow> H | Some y \<Rightarrow> H(y := map_option (\<lambda>n. n\<lparr>le_prev := v\<rparr>) (H y)))"

definition set_next ::
  "(nat \<Rightarrow> 'w LRUCacheEntry option) \<Rightarrow> nat option \<Rightarrow> nat option \<Rightarrow> nat \<Rightarrow> 'w LRUCacheEntry option" where
  "set_next H p v = (case p of None \<Rightarrow> H | Some y \<Rightarrow> H(y := map_option (\<lambda>n. n\<lparr>le_next := v\<rparr>) (H y)))"

lemma set_link_other [simp]:
  "p \<noteq> Some a \<Longrightarrow> set_prev H p v a = H a" "p \<noteq> Some a \<Longrightarrow> set_next H p v a = H a"
  by (auto simp: set_prev_def set_next_def split: option.splits)

lemma set_link_same [simp]:
  "set_prev H (Some a) v a = map_option (\<lambda>n. n\<lparr>le_prev := v\<rparr>) (H a)"
  "set_next H (Some a) v a = map_option (\<lambda>n. n\<lparr>le_next := v\<rparr>) (H a)"
  by (simp_all add: set_prev_def set_next_def)

lemma dom_set_link [simp]: "dom (set_prev H p v) = dom H" "dom (set_next H p v) = dom H"
  by (auto simp: set_prev_def set_next_def dom_def split: option.splits if_splits)

lemma item_set_link:
  "a \<in> dom H \<Longrightarrow> item (set_prev H p v) a = item H a" "a \<in> dom H \<Longrightarrow> item (set_next H p v) a = item H a"
  by (auto simp: item_def set_prev_def set_next_def split: option.splits)

lemma upd_opt_prev: "(\<And>a. p = Some a \<Longrightarrow> a \<in> dom (cells c)) \<Longrightarrow>
    upd_opt c p (\<lambda>m. m\<lparr>le_prev := v\<rparr>) = Inr (c\<lparr>cells := set_prev (cells c) p v\<rparr>)"
  by (cases p) (auto simp: upd_opt_def upd_def cell_def set_prev_def split: option.splits)

lemma upd_opt_next: "(\<And>a. p = Some a \<Longrightarrow> a \<in> dom (cells c)) \<Longrightarrow>
    upd_opt c p (\<lambda>m. m\<lparr>le_next := v\<rparr>) = Inr (c\<lparr>cells := set_next (cells c) p v\<rparr>)"
  by (cases p) (auto simp: upd_opt_def upd_def cell_def set_next_def split: option.splits)

lemma dseg_set_prev: "dseg H p xs q \<Longrightarrow> distinct xs \<Longrightarrow> dseg (set_prev H (first_of xs None) p') p' xs q"
proof (cases xs)
  case (Cons y ys)
  assume *: "dseg H p xs q" "distinct xs"
  have "dseg (set_prev H (Some y) p') (Some y) ys q = dseg H (Some y) ys q"
    by (rule dseg_cong) (use * Cons in \<open>auto intro!: set_link_other\<close>)
  with * Cons show ?thesis by (auto split: option.splits)
qed simp

lemma dseg_set_next: "dseg H p xs q \<Longrightarrow> distinct xs \<Longrightarrow> xs \<noteq> [] \<Longrightarrow>
    dseg (set_next H (last_of xs None) q') p xs q'"
proof (cases xs rule: rev_cases)
  case (snoc us z)
  assume *: "dseg H p xs q" "distinct xs"
  have "dseg (set_next H (Some z) q') p us (Some z) = dseg H p us (Some z)"
    by (rule dseg_cong) (use * snoc in \<open>auto intro!: set_link_other\<close>)
  with * snoc show ?thesis by (auto simp: dseg_append split: option.splits)
qed simp

lemma dseg_push:
  assumes d: "dseg H None ys None" "distinct (a # ys)" and n: "H a = Some n" "le_prev n = None" "le_next n = first_of ys None"
  shows "dseg (set_prev H (first_of ys None) (Some a)) None (a # ys) None"
proof -
  have "first_of ys None \<noteq> Some a" using d by (cases ys) auto
  then show ?thesis using dseg_set_prev [OF d(1), of "Some a"] d n by simp
qed

lemma last_of_mem: "last_of xs None = Some z \<Longrightarrow> z \<in> set xs"
  by (auto simp: last_of_def split: if_splits)

lemma first_of_mem: "first_of xs None = Some z \<Longrightarrow> z \<in> set xs"
  by (cases xs) auto

text \<open>Unlinking the middle of a list.\<close>

lemma dseg_unlink:
  assumes d: "dseg H None (us @ a # vs) None" "distinct (us @ a # vs)" "us \<noteq> []"
  shows "dseg (set_prev (set_next H (last_of us None) (first_of vs None)) (first_of vs None) (last_of us None))
           None (us @ vs) None"
proof -
  let ?H1 = "set_next H (last_of us None) (first_of vs None)"
  let ?H2 = "set_prev ?H1 (first_of vs None) (last_of us None)"
  have "dseg ?H1 None us (first_of vs None)"
    using d by (intro dseg_set_next) (auto simp: dseg_append)
  moreover have "dseg ?H2 None us (first_of vs None) = dseg ?H1 None us (first_of vs None)"
    by (rule dseg_cong) (use d in \<open>cases vs; auto intro!: set_link_other\<close>)
  moreover have "dseg ?H1 (Some a) vs None = dseg H (Some a) vs None"
    by (rule dseg_cong, rule set_link_other) (use d(2) in \<open>auto dest!: last_of_mem\<close>)
  moreover have "dseg H (Some a) vs None" using d by (auto simp: dseg_append split: option.splits)
  ultimately show ?thesis using d by (auto simp: dseg_append intro: dseg_set_prev)
qed


section \<open>The operations keep the list and act on it as on a list of pairs\<close>

definition same_items :: "'w LRUCache \<Rightarrow> 'w LRUCache \<Rightarrow> nat list \<Rightarrow> bool" where
  "same_items c c' xs \<longleftrightarrow> (\<forall>a \<in> set xs. item (cells c') a = item (cells c) a)
     \<and> lru_capacity c' = lru_capacity c \<and> lru_context c' = lru_context c"

lemma lru_find_ok:
  "dseg (cells c) p xs None \<Longrightarrow>
    lru_find c name (first_of xs None) = Some (Inr (List.find (\<lambda>a. fst (item (cells c) a) = name) xs))"
proof (induction xs arbitrary: p)
  case Nil
  then show ?case by (simp add: lru_find.simps)
next
  case (Cons a xs)
  then show ?case
    by (subst lru_find.simps) (auto simp: item_def split: option.splits)
qed

lemma middle_links:
  assumes "dseg H None (us @ a # vs) None"
  obtains n where "H a = Some n" "le_prev n = last_of us None" "le_next n = first_of vs None"
  using assms by (auto simp: dseg_append split: option.splits)

lemma move_to_head_ok:
  assumes inv: "lru_inv c xs" and a: "a \<in> set xs"
  shows "\<exists>c'. lru_cache_move_to_head c a = Inr c' \<and> lru_inv c' (a # remove1 a xs) \<and> same_items c c' xs"
proof (cases "Some a = lru_head c")
  case True
  then have "a # remove1 a xs = xs" using inv a by (cases xs) (auto simp: lru_inv_def)
  then show ?thesis using True inv by (simp add: lru_cache_move_to_head_def same_items_def)
next
  case False
  obtain us vs where xs: "xs = us @ a # vs" "a \<notin> set us" using a by (metis split_list_first)
  have us: "us \<noteq> []" using False inv by (auto simp: lru_inv_def xs)
  let ?H = "cells c" and ?p = "last_of us None" and ?q = "first_of vs None"
  have d: "dseg ?H None (us @ a # vs) None" "distinct (us @ a # vs)" and dom: "dom ?H = set xs"
    and hd: "lru_head c = first_of xs None" and tl: "lru_tail c = last_of xs None"
    using inv by (simp_all add: lru_inv_def xs)
  obtain n where n: "?H a = Some n" "le_prev n = ?p" "le_next n = ?q" using d(1) by (rule middle_links)
  let ?H1 = "set_next ?H ?p ?q"
  let ?H2 = "set_prev ?H1 ?q ?p"
  have pa: "?p \<noteq> Some a" "?q \<noteq> Some a" "?p \<noteq> None"
    using d(2) us last_of_mem [of us a] first_of_mem [of vs a] by (auto simp: last_of_def)
  have mem: "\<And>z. ?p = Some z \<Longrightarrow> z \<in> set xs" "\<And>z. ?q = Some z \<Longrightarrow> z \<in> set xs" 
    using last_of_mem [of us] first_of_mem [of vs] by (auto simp: xs)
  have hus: "lru_head c = first_of (us @ vs) None" "lru_head c \<noteq> None" using us hd by (cases us; simp add: xs)+
  let ?t = "if vs = [] then ?p else lru_tail c"
  let ?H3 = "?H2(a \<mapsto> n\<lparr>le_next := lru_head c, le_prev := None\<rparr>)"
  let ?H4 = "set_prev ?H3 (lru_head c) (Some a)"
  have vs: "Some a = lru_tail c \<longleftrightarrow> vs = []"
    using d(2) last_of_mem [of vs a] by (cases vs rule: rev_cases) (auto simp: tl xs last_of_def)
  have na: "?H1 a = Some n" "?H2 a = Some n" using pa n by simp_all
  have eq: "lru_cache_move_to_head c a = Inr (c\<lparr>cells := ?H4, lru_head := Some a, lru_tail := ?t\<rparr>)"
  proof -
    let ?c2 = "c\<lparr>cells := ?H2\<rparr>" and ?c3 = "c\<lparr>cells := ?H2, lru_tail := ?t\<rparr>"
    have t: "?t \<noteq> None" using pa tl by (simp add: xs last_of_def)
    have s1: "upd_opt c (le_prev n) (\<lambda>m. m\<lparr>le_next := le_next n\<rparr>) = Inr (c\<lparr>cells := ?H1\<rparr>)"
      unfolding n(2,3) by (rule upd_opt_next) (use mem dom in blast)
    have s2: "upd_opt (c\<lparr>cells := ?H1\<rparr>) (le_next n) (\<lambda>m. m\<lparr>le_prev := le_prev n\<rparr>) = Inr ?c2"
      unfolding n(2,3) by (subst upd_opt_prev) (use mem dom in auto)
    have s3: "(if Some a = lru_tail ?c2 then ?c2\<lparr>lru_tail := le_prev n\<rparr> else ?c2) = ?c3"
      using vs n(2) by simp
    have s4: "upd ?c3 a (\<lambda>m. m\<lparr>le_next := lru_head ?c3, le_prev := None\<rparr>) = Inr (?c3\<lparr>cells := ?H3\<rparr>)"
      using na by (simp add: upd_def cell_def)
    have s5: "upd_opt (?c3\<lparr>cells := ?H3\<rparr>) (lru_head (?c3\<lparr>cells := ?H3\<rparr>)) (\<lambda>m. m\<lparr>le_prev := Some a\<rparr>)
        = Inr (?c3\<lparr>cells := ?H4\<rparr>)"
      by (subst upd_opt_prev) (use hus first_of_mem [of "us @ vs"] dom xs in auto)
    have k: "cell c a = Inr n" "cell (c\<lparr>cells := ?H1\<rparr>) a = Inr n" "cell ?c2 a = Inr n"
      using n(1) na by (simp_all add: cell_def)
    show ?thesis
      by (simp only: lru_cache_move_to_head_def if_not_P [OF False] Let_def bindR_simps k s1 s2 s3 s4 s5)
         (use t in \<open>auto split: if_split_asm\<close>)
  qed
  have "dseg ?H2 None (us @ vs) None" by (rule dseg_unlink [OF d us])
  moreover have "dseg ?H3 None (us @ vs) None = dseg ?H2 None (us @ vs) None"
    by (rule dseg_cong) (use d(2) in auto)
  ultimately have "dseg ?H4 None (a # us @ vs) None"
    unfolding hus by (intro dseg_push [where n = "n\<lparr>le_next := lru_head c, le_prev := None\<rparr>"])
       (use d(2) hus in simp_all)
  moreover have "remove1 a xs = us @ vs" using xs by (simp add: remove1_append)
  moreover have "dom ?H4 = set xs" using dom by (auto simp: xs)
  moreover have "?t = last_of (a # us @ vs) None" using us tl by (auto simp: xs last_of_def)
  ultimately have "lru_inv (c\<lparr>cells := ?H4, lru_head := Some a, lru_tail := ?t\<rparr>) (a # remove1 a xs)"
    using inv d(2) by (auto simp: lru_inv_def xs simp del: dseg.simps)
  moreover have "item ?H4 x = item ?H x" if "x \<in> set xs" for x
  proof -
    have "item ?H4 x = item ?H3 x" using that dom by (intro item_set_link) (auto simp: xs)
    also have "\<dots> = item ?H2 x" using na by (simp add: item_def)
    also have "\<dots> = item ?H x" using that dom by (simp add: item_set_link)
    finally show ?thesis .
  qed
  ultimately show ?thesis using eq by (auto simp: same_items_def)
qed


lemma evict_tail_ok:
  assumes inv: "lru_inv c (xs @ [t])"
  shows "\<exists>c'. evict_tail c = Inr c' \<and> lru_inv c' xs \<and> same_items c c' xs"
proof -
  let ?H = "cells c" and ?p = "last_of xs None"
  have d: "dseg ?H None (xs @ t # []) None" "distinct (xs @ [t])" and dom: "dom ?H = set (xs @ [t])"
    and hd: "lru_head c = first_of (xs @ [t]) None" and tl: "lru_tail c = Some t"
    using inv by (simp_all add: lru_inv_def)
  obtain n where n: "?H t = Some n" "le_prev n = ?p" using d(1) by (rule middle_links)
  let ?H1 = "set_next ?H ?p None"
  have pt: "?p \<noteq> Some t" using d(2) last_of_mem [of xs t] by auto
  have na: "?H1 t = Some n" using pt n by simp
  let ?c' = "c\<lparr>cells := ?H1(t := None), lru_tail := ?p, lru_head := first_of xs None, lru_size := lru_size c - 1\<rparr>"
  have s1: "upd_opt c (le_prev n) (\<lambda>m. m\<lparr>le_next := None\<rparr>) = Inr (c\<lparr>cells := ?H1\<rparr>)"
    unfolding n(2) by (rule upd_opt_next) (use last_of_mem [of xs] dom in auto)
  have h: "Some t = lru_head c \<longleftrightarrow> xs = []" using d(2) by (cases xs) (auto simp: hd)
  have eq: "evict_tail c = Inr ?c'"
    using n na s1 h hd by (cases xs) (simp_all add: evict_tail_def tl cell_def lru_free_def Let_def)
  have "dseg (?H1(t := None)) None xs None = dseg ?H1 None xs None"
    by (rule dseg_cong) (use d(2) in auto)
  moreover have "dseg ?H1 None xs None"
    using d dseg_set_next [of ?H None xs "Some t" None] by (cases "xs = []") (simp_all add: dseg_append)
  ultimately have "lru_inv ?c' xs" using inv d(2) dom by (auto simp: lru_inv_def)
  moreover have "item (?H1(t := None)) x = item ?H x" if "x \<in> set xs" for x
  proof -
    have "x \<noteq> t" using d(2) that by auto
    then have "item (?H1(t := None)) x = item ?H1 x" by (simp add: item_def)
    then show ?thesis using that dom by (simp add: item_set_link)
  qed
  ultimately show ?thesis using eq by (auto simp: same_items_def)
qed

lemma push_head_ok:
  assumes inv: "lru_inv c xs" and sz: "lru_size c < lru_capacity c"
  shows "\<exists>c' a. push_head c name e = Inr c' \<and> lru_inv c' (a # xs) \<and> same_items c c' xs \<and> a \<notin> set xs
     \<and> item (cells c') a = (strlcpy name NAMEDATALEN, e)"
proof -
  let ?a = "lru_brk c" and ?H = "cells c"
  let ?n = "\<lparr>le_name = strlcpy name NAMEDATALEN, le_entry = e, le_prev = None, le_next = lru_head c\<rparr>"
  let ?H1 = "?H(?a \<mapsto> ?n)"
  let ?H2 = "set_prev ?H1 (lru_head c) (Some ?a)"
  let ?c' = "c\<lparr>cells := ?H2, lru_brk := ?a + 1, lru_head := Some ?a,
    lru_tail := last_of (?a # xs) None, lru_size := lru_size c + 1\<rparr>"
  have d: "dseg ?H None xs None" "distinct xs" "dom ?H = set xs" "lru_head c = first_of xs None"
    and tl: "lru_tail c = last_of xs None" and new: "?a \<notin> set xs"
    using inv by (auto simp: lru_inv_def)
  have "upd_opt (c\<lparr>cells := ?H1, lru_brk := ?a + 1\<rparr>) (lru_head c) (\<lambda>m. m\<lparr>le_prev := Some ?a\<rparr>)
      = Inr (c\<lparr>cells := ?H2, lru_brk := ?a + 1\<rparr>)"
    by (subst upd_opt_prev) (use d first_of_mem [of xs] in auto)
  then have eq: "push_head c name e = Inr ?c'"
    by (cases xs) (simp_all add: push_head_def Let_def tl last_of_def)
  have "dseg ?H1 None xs None = dseg ?H None xs None" by (rule dseg_cong) (use new in auto)
  then have "dseg ?H2 None (?a # xs) None"
    unfolding d(4) by (intro dseg_push [where n = ?n]) (use d new in simp_all)
  then have "lru_inv ?c' (?a # xs)" using inv new d(3) sz by (auto simp: lru_inv_def simp del: dseg.simps)
  moreover have "item ?H2 x = item ?H x" if "x \<in> set xs" for x
  proof -
    have "x \<noteq> ?a" using new that by auto
    then have "item ?H1 x = item ?H x" by (simp add: item_def)
    then show ?thesis using that d(3) by (simp add: item_set_link)
  qed
  moreover have "item ?H2 ?a = (strlcpy name NAMEDATALEN, e)"
    by (subst item_set_link) (simp_all add: item_def)
  ultimately show ?thesis using eq new by (intro exI [of _ ?c'] exI [of _ ?a]) (simp add: same_items_def)
qed


section \<open>Specification: a bounded list of pairs, most recently used first\<close>

fun del1 :: "string \<Rightarrow> (string \<times> 'w) list \<Rightarrow> (string \<times> 'w) list" where
  "del1 k [] = []"
| "del1 k ((j, v) # ps) = (if j = k then ps else (j, v) # del1 k ps)"

definition spec_get :: "string \<Rightarrow> (string \<times> 'w) list \<Rightarrow> (string \<times> 'w) list \<times> 'w option" where
  "spec_get k ps = (case map_of ps k of
     None \<Rightarrow> (ps, None) | Some v \<Rightarrow> ((k, v) # del1 k ps, Some v))"

definition spec_put :: "nat \<Rightarrow> string \<Rightarrow> 'w \<Rightarrow> (string \<times> 'w) list \<Rightarrow> (string \<times> 'w) list" where
  "spec_put cap k v ps = (case map_of ps k of
     Some _ \<Rightarrow> (k, v) # del1 k ps
   | None \<Rightarrow> (strlcpy k NAMEDATALEN, v) # (if length ps < cap then ps else butlast ps))"

definition lru_rep :: "'w LRUCache \<Rightarrow> (string \<times> 'w) list \<Rightarrow> bool" where
  "lru_rep c ps \<longleftrightarrow> (\<exists>xs. lru_inv c xs \<and> ps = content c xs)"

lemma find_content:
  "List.find (\<lambda>a. fst (item H a) = k) xs = Some a \<Longrightarrow>
     map_of (map (item H) xs) k = Some (snd (item H a)) \<and> map (item H) (remove1 a xs) = del1 k (map (item H) xs)
     \<and> a \<in> set xs \<and> fst (item H a) = k"
  by (induction xs) (auto simp: item_def split: if_splits)

lemma find_content_None:
  "List.find (\<lambda>a. fst (item H a) = k) xs = None \<Longrightarrow> map_of (map (item H) xs) k = None"
  by (induction xs) (auto simp: item_def split: if_splits)

lemma content_same: "same_items c c' xs \<Longrightarrow> set ys \<subseteq> set xs \<Longrightarrow> content c' ys = content c ys"
  by (auto simp: same_items_def content_def)

lemma lru_find_head: "lru_inv c xs \<Longrightarrow>
    lru_find c k (lru_head c) = Some (Inr (List.find (\<lambda>a. fst (item (cells c) a) = k) xs))"
  using lru_find_ok [of c None xs k] by (simp add: lru_inv_def)

lemma get_lru_cache_refines:
  assumes "lru_rep c ps"
  shows "\<exists>c'. get_lru_cache c k = Some (Inr (c', snd (spec_get k ps))) \<and> lru_rep c' (fst (spec_get k ps))
     \<and> lru_capacity c' = lru_capacity c \<and> lru_context c' = lru_context c"
proof -
  obtain xs where inv: "lru_inv c xs" and ps: "ps = content c xs" using assms by (auto simp: lru_rep_def)
  note find = lru_find_head [OF inv, of k]
  show ?thesis
  proof (cases "List.find (\<lambda>a. fst (item (cells c) a) = k) xs")
    case None
    then show ?thesis
      using find inv ps find_content_None [OF None] by (auto simp: get_lru_cache_def spec_get_def content_def lru_rep_def)
  next
    case (Some a)
    note f = find_content [OF Some]
    obtain c' where c': "lru_cache_move_to_head c a = Inr c'" "lru_inv c' (a # remove1 a xs)" "same_items c c' xs"
      using move_to_head_ok [OF inv] f by blast
    have it: "item (cells c') a = item (cells c) a" using c'(3) f by (simp add: same_items_def)
    obtain n where n: "cells c' a = Some n" using c'(2) by (auto simp: lru_inv_def split: option.splits)
    have "le_entry n = snd (item (cells c) a)" using n it by (simp add: item_def)
    moreover have "content c' (a # remove1 a xs) = (k, snd (item (cells c) a)) # del1 k ps"
      using f it content_same [OF c'(3), of "remove1 a xs"] ps set_remove1_subset [of a xs]
      by (simp add: content_def) (metis prod.collapse)
    moreover have "map_of ps k = Some (snd (item (cells c) a))" using f by (simp add: ps content_def)
    ultimately show ?thesis
      using find Some c' n by (auto simp: get_lru_cache_def cell_def spec_get_def lru_rep_def same_items_def
          simp del: dseg.simps intro!: exI [of _ "a # remove1 a xs"])
  qed
qed

lemma update_entry_ok:
  assumes inv: "lru_inv c xs" and a: "a \<in> set xs"
  shows "\<exists>c'. upd c a (\<lambda>m. m\<lparr>le_entry := e\<rparr>) = Inr c' \<and> lru_inv c' xs
     \<and> item (cells c') = (item (cells c))(a := (fst (item (cells c) a), e))
     \<and> lru_capacity c' = lru_capacity c \<and> lru_context c' = lru_context c"
proof -
  obtain n where n: "cells c a = Some n" using inv a by (auto simp: lru_inv_def)
  let ?c' = "c\<lparr>cells := (cells c)(a \<mapsto> n\<lparr>le_entry := e\<rparr>)\<rparr>"
  have "dseg (cells ?c') p ys q = dseg (cells c) p ys q" for p ys q
    by (induction ys arbitrary: p) (use n in \<open>auto split: option.splits\<close>)
  then have "lru_inv ?c' xs" using inv a unfolding lru_inv_def by auto
  moreover have "upd c a (\<lambda>m. m\<lparr>le_entry := e\<rparr>) = Inr ?c'" using n by (simp add: upd_def cell_def)
  moreover have "item (cells ?c') = (item (cells c))(a := (fst (item (cells c) a), e))"
    using n by (auto simp: item_def fun_eq_iff)
  ultimately show ?thesis by (intro exI [of _ ?c']) simp
qed


lemma make_room_ok:
  assumes inv: "lru_inv c xs"
  defines "ys \<equiv> (if length xs < nat (lru_capacity c) then xs else butlast xs)"
  shows "\<exists>c'. (if lru_size c \<ge> lru_capacity c then evict_tail c else Inr c) = Inr c' \<and> lru_inv c' ys
     \<and> same_items c c' ys \<and> lru_size c' < lru_capacity c'"
proof (cases "length xs < nat (lru_capacity c)")
  case True
  then show ?thesis using inv by (auto simp: ys_def lru_inv_def same_items_def)
next
  case False
  then have "int (length xs) = lru_capacity c" using inv by (auto simp: lru_inv_def)
  moreover have "xs \<noteq> []" using False inv by (auto simp: lru_inv_def)
  then obtain us t where xs: "xs = us @ [t]" by (metis rev_exhaust)
  obtain c' where "evict_tail c = Inr c'" "lru_inv c' us" "same_items c c' us"
    using evict_tail_ok inv xs by blast
  ultimately show ?thesis using False inv by (auto simp: ys_def xs lru_inv_def same_items_def)
qed

lemma put_lru_cache_refines:
  assumes "lru_rep c ps"
  shows "\<exists>c'. put_lru_cache c k e cur
        = Some (Inr (c', if map_of ps k = None then cur else lru_context c))
     \<and> lru_rep c' (spec_put (nat (lru_capacity c)) k e ps)
     \<and> lru_capacity c' = lru_capacity c \<and> lru_context c' = lru_context c"
proof -
  obtain xs where inv: "lru_inv c xs" and ps: "ps = content c xs" using assms by (auto simp: lru_rep_def)
  note find = lru_find_head [OF inv, of k]
  show ?thesis
  proof (cases "List.find (\<lambda>a. fst (item (cells c) a) = k) xs")
    case None
    let ?ys = "if length xs < nat (lru_capacity c) then xs else butlast xs"
    obtain c1 where c1: "(if lru_size c \<ge> lru_capacity c then evict_tail c else Inr c) = Inr c1" "lru_inv c1 ?ys"
      "same_items c c1 ?ys" "lru_size c1 < lru_capacity c1"
      using make_room_ok [OF inv] by blast
    obtain c2 a where c2: "push_head c1 k e = Inr c2" "lru_inv c2 (a # ?ys)" "same_items c1 c2 ?ys"
      "item (cells c2) a = (strlcpy k NAMEDATALEN, e)"
      using push_head_ok [OF c1(2,4)] by blast
    have "content c2 (a # ?ys) = (strlcpy k NAMEDATALEN, e) # (if length ps < nat (lru_capacity c) then ps else butlast ps)"
    proof -
      have "content c2 ?ys = content c ?ys"
        using content_same [OF c2(3) order_refl] content_same [OF c1(3) order_refl] by simp
      also have "\<dots> = (if length ps < nat (lru_capacity c) then ps else butlast ps)"
        by (simp add: ps content_def map_butlast)
      finally show ?thesis using c2(4) by (simp add: content_def)
    qed
    moreover have none: "map_of ps k = None" using find_content_None [OF None] by (simp add: ps content_def)
    ultimately have "lru_rep c2 (spec_put (nat (lru_capacity c)) k e ps)"
      using c2(2) by (auto simp: lru_rep_def spec_put_def simp del: if_split)
    moreover have "put_lru_cache c k e cur = Some (Inr (c2, cur))"
      using find None c1(1) c2(1) by (simp add: put_lru_cache_def)
    ultimately show ?thesis using none c1(3) c2(3) by (auto simp: same_items_def)
  next
    case (Some a)
    note f = find_content [OF Some]
    obtain c1 where c1: "upd c a (\<lambda>m. m\<lparr>le_entry := e\<rparr>) = Inr c1" "lru_inv c1 xs"
      "item (cells c1) = (item (cells c))(a := (fst (item (cells c) a), e))"
      "lru_capacity c1 = lru_capacity c" "lru_context c1 = lru_context c"
      using update_entry_ok [OF inv, of a e] f by auto
    obtain c2 where c2: "lru_cache_move_to_head c1 a = Inr c2" "lru_inv c2 (a # remove1 a xs)" "same_items c1 c2 xs"
      using move_to_head_ok [OF c1(2), of a] f by blast
    have it: "item (cells c2) a = (k, e)" using c2(3) f c1(3) by (simp add: same_items_def)
    have "a \<notin> set (remove1 a xs)" using inv by (simp add: lru_inv_def)
    then have "content c2 (remove1 a xs) = del1 k ps"
      using f content_same [OF c2(3), of "remove1 a xs"] set_remove1_subset [of a xs]
      by (simp add: ps content_def c1(3))
    then have "content c2 (a # remove1 a xs) = (k, e) # del1 k ps" using it by (simp add: content_def)
    moreover have "map_of ps k = Some (snd (item (cells c) a))" using f by (simp add: ps content_def)
    ultimately show ?thesis
      using find Some c1 c2 by (auto simp: put_lru_cache_def spec_put_def lru_rep_def same_items_def
          intro!: exI [of _ "a # remove1 a xs"])
  qed
qed

lemma destroy_walk_ok:
  "dseg (cells c) p xs None \<Longrightarrow> distinct xs \<Longrightarrow>
    destroy_walk c (first_of xs None) = Some (Inr (c\<lparr>cells := \<lambda>a. if a \<in> set xs then None else cells c a\<rparr>))"
proof (induction xs arbitrary: c p)
  case Nil
  then show ?case by (simp add: destroy_walk.simps)
next
  case (Cons a xs)
  then obtain n where n: "cells c a = Some n" "le_next n = first_of xs None" "dseg (cells c) (Some a) xs None"
    by (auto split: option.splits)
  let ?c1 = "c\<lparr>cells := (cells c)(a := None)\<rparr>"
  have "dseg (cells ?c1) (Some a) xs None = dseg (cells c) (Some a) xs None"
    by (rule dseg_cong) (use Cons.prems in auto)
  then have "destroy_walk ?c1 (first_of xs None)
      = Some (Inr (?c1\<lparr>cells := \<lambda>b. if b \<in> set xs then None else cells ?c1 b\<rparr>))"
    using n(3) Cons.prems(2) by (intro Cons.IH [of ?c1 "Some a"]) (simp_all add: fun_upd_def)
  moreover have eq: "(\<lambda>b. if b \<in> set xs then None else cells ?c1 b)
      = (\<lambda>b. if b \<in> set (a # xs) then None else cells c b)" by auto
  ultimately have "destroy_walk ?c1 (first_of xs None)
      = Some (Inr (c\<lparr>cells := \<lambda>b. if b \<in> set (a # xs) then None else cells c b\<rparr>))"
    unfolding eq by simp
  then show ?case using n by (subst destroy_walk.simps) simp
qed

lemma destroy_lru_cache_ok:
  assumes "lru_rep c ps"
  shows "destroy_lru_cache c = Some (Inr (c\<lparr>cells := Map.empty\<rparr>))"
proof -
  obtain xs where inv: "lru_inv c xs" using assms by (auto simp: lru_rep_def)
  then have "(\<lambda>a. if a \<in> set xs then None else cells c a) = Map.empty"
    by (auto simp: lru_inv_def fun_eq_iff dom_def)
  then show ?thesis using inv destroy_walk_ok [of c None xs] by (simp add: destroy_lru_cache_def lru_inv_def)
qed

lemma create_lru_cache_rep: "0 < cap \<Longrightarrow> lru_rep (create_lru_cache cap ctx) []"
  by (auto simp: lru_rep_def lru_inv_def create_lru_cache_def content_def intro!: exI [of _ "[]"])


section \<open>Sequences of cache operations\<close>

datatype 'w lru_op = Put string 'w | Get string

fun lru_run :: "'w lru_op list \<Rightarrow> MemoryContext \<Rightarrow> 'w LRUCache \<Rightarrow> ('w LRUCache \<times> 'w option list) result option" where
  "lru_run [] cur c = Some (Inr (c, []))"
| "lru_run (Put k e # ops) cur c = (case put_lru_cache c k e cur of
     None \<Rightarrow> None
   | Some (Inl err) \<Rightarrow> Some (Inl err)
   | Some (Inr (c', cur')) \<Rightarrow> lru_run ops cur' c')"
| "lru_run (Get k # ops) cur c = (case get_lru_cache c k of
     None \<Rightarrow> None
   | Some (Inl err) \<Rightarrow> Some (Inl err)
   | Some (Inr (c', r)) \<Rightarrow> map_option (\<lambda>res. bindR res (\<lambda>(d, rs). Inr (d, r # rs))) (lru_run ops cur c'))"

fun spec_run :: "nat \<Rightarrow> 'w lru_op list \<Rightarrow> (string \<times> 'w) list \<Rightarrow> (string \<times> 'w) list \<times> 'w option list" where
  "spec_run cap [] ps = (ps, [])"
| "spec_run cap (Put k e # ops) ps = spec_run cap ops (spec_put cap k e ps)"
| "spec_run cap (Get k # ops) ps =
     (let (ps', r) = spec_get k ps; (qs, rs) = spec_run cap ops ps' in (qs, r # rs))"

lemma lru_run_refines:
  "lru_rep c ps \<Longrightarrow> \<exists>d. lru_run ops cur c = Some (Inr (d, snd (spec_run (nat (lru_capacity c)) ops ps)))
     \<and> lru_rep d (fst (spec_run (nat (lru_capacity c)) ops ps)) \<and> lru_capacity d = lru_capacity c"
proof (induction ops arbitrary: cur c ps)
  case (Cons op ops)
  show ?case
  proof (cases op)
    case (Put k e)
    obtain c' cur' where c': "put_lru_cache c k e cur = Some (Inr (c', cur'))"
      "lru_rep c' (spec_put (nat (lru_capacity c)) k e ps)" "lru_capacity c' = lru_capacity c"
      using put_lru_cache_refines [OF Cons.prems] by blast
    from Cons.IH [OF c'(2), of cur'] c' Put show ?thesis by simp
  next
    case (Get k)
    obtain c' where c': "get_lru_cache c k = Some (Inr (c', snd (spec_get k ps)))"
      "lru_rep c' (fst (spec_get k ps))" "lru_capacity c' = lru_capacity c"
      using get_lru_cache_refines [OF Cons.prems] by blast
    from Cons.IH [OF c'(2), of cur] c' Get show ?thesis by (auto simp: Let_def split: prod.splits)
  qed
qed auto

lemma lru_rep_length: "lru_rep c ps \<Longrightarrow> int (length ps) \<le> lru_capacity c"
  by (auto simp: lru_rep_def lru_inv_def content_def)

lemma del1_names: "set (map fst (del1 k ps)) \<subseteq> set (map fst ps)"
  by (induction k ps rule: del1.induct) auto

lemma spec_put_names:
  assumes short: "\<forall>n \<in> set (map fst ps). length n < NAMEDATALEN"
    and n: "n \<in> set (map fst (spec_put cap k v ps))"
  shows "length n < NAMEDATALEN"
proof (cases "map_of ps k")
  case None
  with n have "n = strlcpy k NAMEDATALEN \<or> n \<in> set (map fst ps)"
    by (auto simp: spec_put_def dest: in_set_butlastD split: if_splits)
  then show ?thesis using short by (auto simp: strlcpy_def)
next
  case (Some w)
  then have "k \<in> set (map fst ps)" by (force dest: map_of_SomeD)
  moreover have "n = k \<or> n \<in> set (map fst ps)"
    using n Some del1_names [of k ps] by (auto simp: spec_put_def)
  ultimately show ?thesis using short by blast
qed

lemma map_of_short_names:
  "\<forall>n \<in> set (map fst ps). length n < m \<Longrightarrow> m \<le> length k \<Longrightarrow> map_of ps k = None"
  by (force simp: map_of_eq_None_iff)

section \<open>Properties\<close>

text \<open>
  C4: Every sequence of put_lru_cache and get_lru_cache calls on a fresh cache of positive capacity
  returns (the walks along the links end), meets no NULL, dangling or freed cell, hands out exactly the
  results of a bounded most-recently-used-first list of pairs, and never holds more than the capacity.
\<close>

theorem lru_cache_refines_list:
  assumes "0 < cap"
  shows "\<exists>d. lru_run ops cur (create_lru_cache cap ctx) = Some (Inr (d, snd (spec_run (nat cap) ops [])))
     \<and> lru_rep d (fst (spec_run (nat cap) ops [])) \<and> int (length (fst (spec_run (nat cap) ops []))) \<le> cap"
  using lru_run_refines [OF create_lru_cache_rep [OF assms], of ops cur ctx]
  by (force simp: create_lru_cache_def dest: lru_rep_length)

theorem lru_cache_refines_list_witness:
  "\<exists>d. lru_run [Put ''a'' (1 :: nat), Put ''b'' 2, Get ''a'', Put ''c'' 3, Get ''b''] 0 (create_lru_cache 2 1)
     = Some (Inr (d, [Some 1, None])) \<and> lru_rep d [(''c'', 3), (''a'', 1)]"
  using lru_cache_refines_list [of 2 "[Put ''a'' (1 :: nat), Put ''b'' 2, Get ''a'', Put ''c'' 3, Get ''b'']" 0 1]
  by (simp add: spec_put_def spec_get_def strlcpy_def)

text \<open>
  put_lru_cache followed by get_lru_cache of the same name returns the entry just put when the name
  fits the 63 characters a cache cell stores, and finds nothing when it does not, because the cell keeps
  the truncated name while the search compares the whole one.
\<close>

theorem lru_put_then_get:
  assumes "lru_rep c ps" "\<forall>n \<in> set (map fst ps). length n < NAMEDATALEN"
  shows "\<exists>c' cur' c''. put_lru_cache c k e cur = Some (Inr (c', cur'))
     \<and> get_lru_cache c' k = Some (Inr (c'', if length k < NAMEDATALEN then Some e else None))"
proof -
  let ?qs = "spec_put (nat (lru_capacity c)) k e ps"
  obtain c' cur' where c': "put_lru_cache c k e cur = Some (Inr (c', cur'))" "lru_rep c' ?qs"
    using put_lru_cache_refines [OF assms(1)] by blast
  moreover obtain c'' where "get_lru_cache c' k = Some (Inr (c'', snd (spec_get k ?qs)))"
    using get_lru_cache_refines [OF c'(2)] by blast
  moreover have "snd (spec_get k ?qs) = (if length k < NAMEDATALEN then Some e else None)"
  proof (cases "length k < NAMEDATALEN")
    case True
    then show ?thesis by (simp add: spec_get_def spec_put_def strlcpy_def split: option.splits)
  next
    case False
    have "\<forall>n \<in> set (map fst ?qs). length n < NAMEDATALEN" using spec_put_names [OF assms(2)] by blast
    then have "map_of ?qs k = None" by (rule map_of_short_names) (use False in simp)
    with False show ?thesis by (simp add: spec_get_def)
  qed
  ultimately show ?thesis by auto
qed

theorem lru_put_then_get_witness:
  "\<exists>c' cur' c''. put_lru_cache (create_lru_cache 32 1) ''fc1'' (7 :: nat) 0 = Some (Inr (c', cur'))
     \<and> get_lru_cache c' ''fc1'' = Some (Inr (c'', Some 7))"
  using lru_put_then_get [OF create_lru_cache_rep [of 32 1], of "''fc1''" 7 0] by simp

text \<open>
  destroy_lru_cache on a well-formed cache ends, and frees every cell exactly once.
\<close>

theorem destroy_lru_cache_frees_all:
  assumes "lru_rep c ps"
  shows "\<exists>d. destroy_lru_cache c = Some (Inr d) \<and> cells d = Map.empty"
  using destroy_lru_cache_ok [OF assms] by simp

theorem destroy_lru_cache_frees_all_witness:
  "\<exists>d. destroy_lru_cache (create_lru_cache 32 1 :: nat LRUCache) = Some (Inr d) \<and> cells d = Map.empty"
  using destroy_lru_cache_frees_all [OF create_lru_cache_rep [of 32 1]] by simp

end
