(* ===== verification/Weight_Pool.thy ===== *)
theory Weight_Pool
  imports Pg_Array Dynahash Lru_Cache
begin

text \<open>
  The weight pool of \<open>aqua_extension/src/model_buffer.c\<close> (\<open>create_weight_pool\<close>, \<open>insert_weight\<close>,
  \<open>get_weight\<close>, \<open>destroy_weight_pool\<close>, \<open>print_all_keys\<close>) on top of the hash table of \<open>Dynahash\<close>, and the
  SQL functions of \<open>aqua_extension/src/aqua.c\<close> that fill and inspect it (\<open>load_model\<close>,
  \<open>check_weight_pool\<close>) with the module callbacks.

  Weight data are lists of \<open>float4\<close> values; \<open>data_size\<close> counts bytes, as in the code. The functions that
  switch memory contexts take \<open>CurrentMemoryContext\<close> and return its new value. What the server
  programming interface answers to a query is a parameter of \<open>load_model\<close>.
\<close>

section \<open>State\<close>

abbreviation MAX_DIMS :: nat where "MAX_DIMS \<equiv> 4"
abbreviation LRU_CACHE_SIZE :: nat where "LRU_CACHE_SIZE \<equiv> 134217728"
abbreviation POOL_SIZE :: nat where "POOL_SIZE \<equiv> 1073741824"

record 'f WeightEntry =
  we_name :: string
  we_data :: "'f list option"
  we_data_size :: nat
  we_ndims :: int
  we_dims :: "int buf"
  we_element_type :: oid

text \<open>\<open>pool_chunk\<close> is the context the \<open>WeightPool\<close> struct itself is allocated in.\<close>

record 'f WeightPool =
  entries :: "'f WeightEntry HTAB"
  pool_context :: MemoryContext
  pool_chunk :: MemoryContext
  current_memory_usage :: nat
  weight_cache :: "nat LRUCache"

section \<open>Operations\<close>

text \<open>\<open>sizeof(WeightEntry)\<close> is 104; \<open>fresh\<close> names the new memory context and the new table.\<close>

definition create_weight_pool :: "nat \<Rightarrow> 'f WeightPool result" where
  "create_weight_pool fresh =
     bindR (hash_create fresh ''WeightPool'' 512 NAMEDATALEN 104) (\<lambda>h.
       Inr \<lparr>entries = h, pool_context = fresh, pool_chunk = fresh, current_memory_usage = LRU_CACHE_SIZE,
            weight_cache = create_lru_cache 32 fresh\<rparr>)"

text \<open>\<open>if (entry->data) { pool->current_memory_usage -= entry->data_size; pfree(entry->data); }\<close> on a \<open>size_t\<close>.\<close>

definition release_old :: "'f WeightEntry option \<Rightarrow> nat \<Rightarrow> nat result" where
  "release_old old usage = (case old of
     None \<Rightarrow> Inl (Undefined Uninitialised)
   | Some e \<Rightarrow> Inr (if we_data e \<noteq> None then (usage + 2 ^ 64 - we_data_size e) mod 2 ^ 64 else usage))"

definition insert_weight ::
  "nat list \<Rightarrow> 'f WeightPool \<Rightarrow> MemoryContext \<Rightarrow> string \<Rightarrow> 'f list \<Rightarrow> nat \<Rightarrow> int \<Rightarrow> int list \<Rightarrow> oid
   \<Rightarrow> ('f WeightPool \<times> MemoryContext) result" where
  "insert_weight reg pool cur name data data_size ndims dims element_type =
     require ((current_memory_usage pool + data_size) mod 2 ^ 64 \<le> POOL_SIZE)
       (Elog ''weight pool memory limit exceeded'') (
     let old_context = cur in
     bindR (hash_search reg (entries pool) name HASH_ENTER) (\<lambda>(h, p, found).
     case p of
       None \<Rightarrow> Inl (Undefined Null_deref)
     | Some a \<Rightarrow>
         bindR (if found then release_old (entry_at h a) (current_memory_usage pool)
                else Inr (current_memory_usage pool)) (\<lambda>usage.
         require (int data_size \<le> MaxAllocSize) (Elog ''invalid memory alloc request size'') (
         require (data_size \<le> 4 * length data) (Undefined Out_of_bounds) (
         require (0 \<le> ndims \<and> ndims \<le> int MAX_DIMS \<and> ndims \<le> int (length dims)) (Undefined Out_of_bounds) (
         let old_dims = (case entry_at h a of None \<Rightarrow> replicate MAX_DIMS None | Some e \<Rightarrow> we_dims e);
             e = \<lparr>we_name = strlcpy name NAMEDATALEN, we_data = Some (take (data_size div 4) data),
                  we_data_size = data_size, we_ndims = ndims,
                  we_dims = blit old_dims 0 (take (nat ndims) dims), we_element_type = element_type\<rparr>
         in Inr (pool\<lparr>entries := set_entry h a e, current_memory_usage := (usage + data_size) mod 2 ^ 64\<rparr>,
                 old_context)))))))"

text \<open>\<open>get_weight\<close>: the new \<open>CurrentMemoryContext\<close> and the entry pointer or NULL.\<close>

definition get_weight ::
  "nat list \<Rightarrow> 'f WeightPool option \<Rightarrow> MemoryContext \<Rightarrow> string \<Rightarrow> (MemoryContext \<times> nat option) result" where
  "get_weight reg pool cur weight_name = (case pool of
     None \<Rightarrow> Inl (Elog ''[get_weight] pool is NULL'')
   | Some pool \<Rightarrow>
       bindR (hash_search reg (entries pool) weight_name HASH_FIND) (\<lambda>(h, entry, found).
         if \<not> found then Inr (pool_context pool, None) else Inr (cur, entry)))"

text \<open>The entry behind the pointer that \<open>get_weight\<close> returned.\<close>

definition weight_at :: "'f WeightPool \<Rightarrow> nat \<Rightarrow> 'f WeightEntry result" where
  "weight_at pool a = (case entry_at (entries pool) a of
     None \<Rightarrow> Inl (Undefined Uninitialised) | Some e \<Rightarrow> Inr e)"

text \<open>
  How the kernels fetch a weight: \<open>get_weight\<close>, an error when it returns NULL, else the entry it points
  to. The error aborts the transaction, which resets \<open>CurrentMemoryContext\<close>.
\<close>

definition need_weight :: "nat list \<Rightarrow> 'f WeightPool option \<Rightarrow> string \<Rightarrow> string \<Rightarrow> 'f WeightEntry result" where
  "need_weight reg pool name err =
     bindR (get_weight reg pool 0 name) (\<lambda>(cur, p). case p of
       None \<Rightarrow> Inl (Elog err)
     | Some a \<Rightarrow> (case pool of None \<Rightarrow> Inl (Undefined Null_deref) | Some q \<Rightarrow> weight_at q a))"

text \<open>
  \<open>destroy_weight_pool\<close>: the scan frees the data of every entry, then the table, the cache, the pool's
  context with everything allocated in it, and last \<open>pfree(pool)\<close>. \<open>hash_destroy\<close> deletes the context of the table, which
  nothing reads afterwards; it has no step of its own. The result is the list of the elements whose data were freed.
\<close>

fun free_data :: "'f WeightEntry HTAB \<Rightarrow> nat list \<Rightarrow> nat list result" where
  "free_data h [] = Inr []"
| "free_data h (a # as) = (case entry_at h a of
     None \<Rightarrow> Inl (Undefined Uninitialised)
   | Some e \<Rightarrow> bindR (free_data h as) (\<lambda>fs. Inr (if we_data e \<noteq> None then a # fs else fs)))"

definition destroy_weight_pool :: "nat list \<Rightarrow> 'f WeightPool \<Rightarrow> (nat list \<times> nat list) result option" where
  "destroy_weight_pool reg pool =
     (case hash_seq_init reg (entries pool) of
        Inl e \<Rightarrow> Some (Inl e)
      | Inr (reg', st) \<Rightarrow> Option.bind (scan_all reg' (entries pool) st) (\<lambda>r.
          case bindR r (\<lambda>(reg'', as). bindR (free_data (entries pool) as) (\<lambda>fs. Inr (reg'', fs))) of
            Inl e \<Rightarrow> Some (Inl e)
          | Inr (reg'', fs) \<Rightarrow> Option.bind (destroy_lru_cache (weight_cache pool)) (\<lambda>r.
              Some (bindR r (\<lambda>_.
                require (pool_chunk pool \<noteq> pool_context pool) (Undefined Use_after_free)
                  (Inr (reg'', fs)))))))"

fun key_lines :: "'f WeightEntry HTAB \<Rightarrow> nat list \<Rightarrow> string list result" where
  "key_lines h [] = Inr []"
| "key_lines h (a # as) = (case entry_at h a of
     None \<Rightarrow> Inl (Undefined Uninitialised)
   | Some e \<Rightarrow> bindR (key_lines h as) (\<lambda>ls. Inr ((''[print_all_keys] key: '' @ we_name e) # ls)))"

definition print_all_keys :: "nat list \<Rightarrow> 'f WeightPool \<Rightarrow> (nat list \<times> string list) result option" where
  "print_all_keys reg pool =
     (case hash_seq_init reg (entries pool) of
        Inl e \<Rightarrow> Some (Inl e)
      | Inr (reg', st) \<Rightarrow> Option.bind (scan_all reg' (entries pool) st) (\<lambda>r.
          Some (bindR r (\<lambda>(reg'', as). bindR (key_lines (entries pool) as) (\<lambda>ls. Inr (reg'', ls))))))"

section \<open>Loading a model\<close>

text \<open>What the server answers to \<open>SELECT val, bias FROM <table> LIMIT 1;\<close>; a NULL column is \<^term>\<open>None\<close>.\<close>

record 'f SPI_result =
  spi_ok :: bool
  spi_processed :: nat
  spi_val :: "'f ArrayType option"
  spi_bias :: "'f ArrayType option"

text \<open>\<open>snprintf\<close> into \<open>char query[256]\<close>.\<close>

definition load_query :: "string \<Rightarrow> string" where
  "load_query table_name = take 255 (''SELECT val, bias FROM '' @ table_name @ '' LIMIT 1;'')"

text \<open>\<open>insert_weight\<close> dereferences the global pool without a test for NULL.\<close>

definition insert_array ::
  "nat list \<Rightarrow> 'f WeightPool option \<Rightarrow> MemoryContext \<Rightarrow> string \<Rightarrow> 'f ArrayType
   \<Rightarrow> ('f WeightPool option \<times> MemoryContext) result" where
  "insert_array reg pool cur name arr =
     bindR (ArrayGetNItems (arr_dims arr)) (\<lambda>n. case pool of
       None \<Rightarrow> Inl (Undefined Null_deref)
     | Some pool \<Rightarrow>
         bindR (insert_weight reg pool cur name (arr_data arr) (4 * nat n) (ARR_NDIM arr)
                  (arr_dims arr @ arr_lbound arr) FLOAT4OID) (\<lambda>(pool, cur). Inr (Some pool, cur)))"

definition load_table ::
  "(string \<Rightarrow> 'f SPI_result) \<Rightarrow> nat list \<Rightarrow> string \<Rightarrow> 'f WeightPool option \<times> MemoryContext
   \<Rightarrow> ('f WeightPool option \<times> MemoryContext) result" where
  "load_table spi reg table_name = (\<lambda>(pool, cur).
     let r = spi (load_query table_name) in
     require (spi_ok r) (Elog ''[LOAD_MODEL] failed for table'') (
     require (spi_processed r = 1) (Elog ''[LOAD_MODEL] Expected 1 row'') (
     case spi_val r of None \<Rightarrow> Inl (Elog ''[LOAD MODEL] val is null for table'') | Some val_array \<Rightarrow>
     case spi_bias r of None \<Rightarrow> Inl (Elog ''[LOAD MODEL] bias is null for table'') | Some bias_array \<Rightarrow>
     bindR (insert_array reg pool cur (table_name @ ''_val'') val_array) (\<lambda>(pool, cur).
       insert_array reg pool cur (table_name @ ''_bias'') bias_array))))"

fun load_tables ::
  "(string \<Rightarrow> 'f SPI_result) \<Rightarrow> nat list \<Rightarrow> string option list \<Rightarrow> 'f WeightPool option \<times> MemoryContext
   \<Rightarrow> ('f WeightPool option \<times> MemoryContext) result" where
  "load_tables spi reg [] st = Inr st"
| "load_tables spi reg (None # ts) st = load_tables spi reg ts st"
| "load_tables spi reg (Some t # ts) st = bindR (load_table spi reg t st) (load_tables spi reg ts)"

text \<open>The argument is NULL or a text array; \<open>deconstruct_array\<close> yields its elements with their null flags.\<close>

definition load_model ::
  "(string \<Rightarrow> 'f SPI_result) \<Rightarrow> nat list \<Rightarrow> 'f WeightPool option \<Rightarrow> MemoryContext
   \<Rightarrow> string option ArrayType option \<Rightarrow> ('f WeightPool option \<times> MemoryContext) result" where
  "load_model spi reg pool cur arg = (case arg of
     None \<Rightarrow> Inl (Elog ''table_names argument is null'')
   | Some names \<Rightarrow>
       require (ARR_NDIM names = 1) (Elog ''table_names must be a 1-dimensional array'')
         (load_tables spi reg (arr_data names) (pool, cur)))"

definition check_weight_pool :: "'f WeightPool option \<Rightarrow> nat option" where
  "check_weight_pool pool = map_option (\<lambda>p. hash_get_num_entries (entries p)) pool"

text \<open>The module callbacks.\<close>

definition PG_init :: "nat \<Rightarrow> 'f WeightPool option result" where
  "PG_init fresh = bindR (create_weight_pool fresh) (\<lambda>p. Inr (Some p))"

definition PG_fini :: "nat list \<Rightarrow> 'f WeightPool option \<Rightarrow> (nat list \<times> nat list) result option" where
  "PG_fini reg pool = (case pool of None \<Rightarrow> Some (Inr (reg, [])) | Some p \<Rightarrow> destroy_weight_pool reg p)"


section \<open>Invariant\<close>

text \<open>
  The pool seen as a map from (truncated) names to entries. The invariant: the table is well formed, every
  element is filled in and owns its data, and the usage counter is the reserved cache size plus the bytes
  of all entries and never exceeds the limit. \<open>n\<close> bounds the geometry of the table.
\<close>

definition pool_map :: "'f WeightPool \<Rightarrow> string \<rightharpoonup> 'f WeightEntry" where
  "pool_map pool = tab_map (entries pool)"

definition weight_bytes :: "(string \<rightharpoonup> 'f WeightEntry) \<Rightarrow> nat" where
  "weight_bytes w = (\<Sum>k \<in> dom w. we_data_size (the (w k)))"

definition entry_ok :: "'f WeightEntry \<Rightarrow> bool" where
  "entry_ok e \<longleftrightarrow> (\<exists>d. we_data e = Some d \<and> length d = we_data_size e div 4)"

definition pool_inv :: "nat \<Rightarrow> 'f WeightPool \<Rightarrow> bool" where
  "pool_inv n pool \<longleftrightarrow> hash_inv (entries pool) \<and> \<not> frozen (entries pool) \<and> within (entries pool) n
     \<and> keysize (entries pool) = NAMEDATALEN
     \<and> (\<forall>k a. ptr_of (entries pool) k = Some a \<longrightarrow> (\<exists>e. entry_at (entries pool) a = Some e \<and> entry_ok e))
     \<and> current_memory_usage pool = LRU_CACHE_SIZE + weight_bytes (pool_map pool)
     \<and> current_memory_usage pool \<le> POOL_SIZE"

lemma finite_dom_tab_map: "hash_inv h \<Longrightarrow> finite (dom (tab_map h))"
proof -
  assume inv: "hash_inv h"
  have "dom (tab_map h) \<subseteq> (\<lambda>a. the (key_at h a)) ` set (live h)"
  proof
    fix k assume "k \<in> dom (tab_map h)"
    then obtain a where "ptr_of h k = Some a" by (auto simp: tab_map_def Option.bind_eq_Some_conv)
    then have "a \<in> set (live h)" "key_at h a = Some k"
      using inv ptr_of_iff [of h k a] by (simp_all add: hash_inv_def)
    then show "k \<in> (\<lambda>a. the (key_at h a)) ` set (live h)" by force
  qed
  then show ?thesis by (rule finite_subset) simp
qed

lemma weight_bytes_upd:
  "finite (dom w) \<Longrightarrow> weight_bytes (w(k \<mapsto> e)) + (case w k of None \<Rightarrow> 0 | Some e' \<Rightarrow> we_data_size e')
     = weight_bytes w + we_data_size e"
proof -
  assume fin: "finite (dom w)"
  have new: "weight_bytes (w(k \<mapsto> e)) = we_data_size e + (\<Sum>j \<in> dom w - {k}. we_data_size (the (w j)))"
    unfolding weight_bytes_def using fin
    by (simp add: sum.insert_remove)
  have "weight_bytes w = (case w k of None \<Rightarrow> 0 | Some e' \<Rightarrow> we_data_size e')
      + (\<Sum>j \<in> dom w - {k}. we_data_size (the (w j)))"
    unfolding weight_bytes_def using fin
    by (cases "w k") (auto simp: sum.remove [of _ k] domIff)
  with new show ?thesis by simp
qed

lemma weight_bytes_ge: "finite (dom w) \<Longrightarrow> w k = Some e \<Longrightarrow> we_data_size e \<le> weight_bytes w"
  unfolding weight_bytes_def by (subst sum.remove [of _ k]) auto

lemma create_weight_pool_ok:
  "\<exists>pool. create_weight_pool fresh = Inr (pool :: 'f WeightPool) \<and> pool_inv (2 ^ 21) pool
     \<and> pool_map pool = Map.empty \<and> current_memory_usage pool = LRU_CACHE_SIZE
     \<and> pool_context pool = fresh \<and> pool_chunk pool = fresh \<and> lru_rep (weight_cache pool) []"
proof -
  obtain h where h: "hash_create fresh ''WeightPool'' 512 NAMEDATALEN 104 = Inr (h :: 'f WeightEntry HTAB)"
    "hash_inv h" "ptr_of h = Map.empty" "keysize h = NAMEDATALEN" "\<not> frozen h"
    using hash_create_ok [of 512 104 fresh "''WeightPool''" NAMEDATALEN] by (auto simp: elementSize_def)
  have m: "tab_map h = Map.empty" by (rule ext) (simp add: tab_map_def h(3))
  have "within h (2 ^ 21)" by (rule hash_create_within [OF _ _ h(1)]) simp_all
  then show ?thesis
    using h m create_lru_cache_rep [of 32 fresh]
    by (simp add: create_weight_pool_def pool_inv_def pool_map_def weight_bytes_def)
qed


text \<open>The entry that \<open>insert_weight\<close> leaves behind; \<open>old\<close> is what the \<open>dims\<close> field held before.\<close>

definition weight_entry :: "string \<Rightarrow> 'f list \<Rightarrow> nat \<Rightarrow> int \<Rightarrow> int list \<Rightarrow> oid \<Rightarrow> int buf \<Rightarrow> 'f WeightEntry" where
  "weight_entry name data data_size ndims dims ty old =
     \<lparr>we_name = strlcpy name NAMEDATALEN, we_data = Some (take (data_size div 4) data),
      we_data_size = data_size, we_ndims = ndims, we_dims = blit old 0 (take (nat ndims) dims),
      we_element_type = ty\<rparr>"

lemma insert_weight_ok:
  fixes pool :: "'f WeightPool"
  assumes inv: "pool_inv n pool" and n: "n < 2 ^ 25"
    and size: "current_memory_usage pool + data_size \<le> POOL_SIZE" "data_size \<le> 4 * length data"
    and nd: "0 \<le> ndims" "ndims \<le> int MAX_DIMS" "ndims \<le> int (length dims)"
  shows "\<exists>pool' old. insert_weight reg pool cur name data data_size ndims dims ty = Inr (pool', cur)
     \<and> pool_inv (Suc n) pool'
     \<and> pool_map pool' = (pool_map pool)(strlcpy name NAMEDATALEN \<mapsto> weight_entry name data data_size ndims dims ty old)
     \<and> pool_context pool' = pool_context pool \<and> pool_chunk pool' = pool_chunk pool
     \<and> weight_cache pool' = weight_cache pool"
proof -
  let ?h = "entries pool" and ?k = "strlcpy name NAMEDATALEN"
  have hi: "hash_inv ?h" "\<not> frozen ?h" "within ?h n" "keysize ?h = NAMEDATALEN"
    and filled: "\<And>k a. ptr_of ?h k = Some a \<Longrightarrow> \<exists>e. entry_at ?h a = Some e \<and> entry_ok e"
    and usage: "current_memory_usage pool = LRU_CACHE_SIZE + weight_bytes (tab_map ?h)"
    using inv by (auto simp: pool_inv_def pool_map_def)
  have kc: "keycopy NAMEDATALEN name = ?k" by (simp add: keycopy_def strlcpy_def)
  have fin: "finite (dom (tab_map ?h))" by (rule finite_dom_tab_map [OF hi(1)])
  obtain h' a where e: "hash_search reg ?h name HASH_ENTER = Inr (h', Some a, ptr_of ?h ?k \<noteq> None)"
    and s: "\<And>d. entered n ?h ?k h' a d"
    using insert_step [OF hi(1-3) n, of reg name] unfolding hi(4) kc by blast
  define old where "old = (case entry_at h' a of None \<Rightarrow> replicate MAX_DIMS None | Some e \<Rightarrow> we_dims e)"
  define w where "w = weight_entry name data data_size ndims dims ty old"
  define freed where "freed = (case tab_map ?h ?k of None \<Rightarrow> 0 | Some e' \<Rightarrow> we_data_size e')"
  have bytes: "weight_bytes ((tab_map ?h)(?k \<mapsto> w)) + freed = weight_bytes (tab_map ?h) + data_size"
    using weight_bytes_upd [OF fin, of ?k w] by (simp add: freed_def w_def weight_entry_def)
  have freed: "freed \<le> weight_bytes (tab_map ?h)"
    using weight_bytes_ge [OF fin] by (auto simp: freed_def split: option.splits)
  have rel: "(if ptr_of ?h ?k \<noteq> None then release_old (entry_at h' a) (current_memory_usage pool)
      else Inr (current_memory_usage pool)) = Inr (current_memory_usage pool - freed)"
  proof (cases "ptr_of ?h ?k")
    case None
    then show ?thesis by (simp add: freed_def tab_map_def)
  next
    case (Some x)
    then have x: "x = a" "entry_at h' a = entry_at ?h a" using s [of w] by (auto simp: entered_def)
    obtain e where e: "entry_at ?h a = Some e" "entry_ok e" using filled Some x by blast
    have f: "freed = we_data_size e" using Some x e by (simp add: freed_def tab_map_def)
    have "(current_memory_usage pool + 2 ^ 64 - freed) mod 2 ^ 64 = current_memory_usage pool - freed"
      using usage size(1) freed by (simp add: mod_if)
    then show ?thesis using Some x e by (auto simp: release_old_def entry_ok_def f)
  qed
  have le: "current_memory_usage pool - freed + data_size = LRU_CACHE_SIZE + weight_bytes ((tab_map ?h)(?k \<mapsto> w))"
    "current_memory_usage pool - freed + data_size \<le> POOL_SIZE"
    using bytes usage size(1) freed by linarith+
  let ?pool = "pool\<lparr>entries := set_entry h' a w, current_memory_usage := current_memory_usage pool - freed + data_size\<rparr>"
  have "insert_weight reg pool cur name data data_size ndims dims ty = Inr (?pool, cur)"
    using size nd e rel le(2) usage
    by (simp add: insert_weight_def require_def Let_def w_def weight_entry_def old_def)
  moreover have "pool_inv (Suc n) ?pool"
  proof -
    have t: "hash_inv (set_entry h' a w)" "\<not> frozen (set_entry h' a w)" "within (set_entry h' a w) (Suc n)"
      "keysize (set_entry h' a w) = NAMEDATALEN" "tab_map (set_entry h' a w) = (tab_map ?h)(?k \<mapsto> w)"
      "ptr_of (set_entry h' a w) = (ptr_of ?h)(?k \<mapsto> a)" "entry_at (set_entry h' a w) a = Some w"
      using s [of w] hi(4) by (simp_all add: entered_def)
    have "entry_ok w" using size(2) by (auto simp: w_def weight_entry_def entry_ok_def)
    then have "\<exists>e. entry_at (set_entry h' a w) x = Some e \<and> entry_ok e"
      if "ptr_of (set_entry h' a w) j = Some x" for j x
    proof (cases "x = a")
      case False
      then have j: "ptr_of ?h j = Some x" using that t(6) by (auto split: if_splits)
      then have "entry_at (set_entry h' a w) x = entry_at ?h x" using s [of w] False by (simp add: entered_def)
      then show ?thesis using filled [OF j] by simp
    qed (use t(7) in simp)
    then show ?thesis using t le by (simp add: pool_inv_def pool_map_def)
  qed
  moreover have "pool_map ?pool = (pool_map pool)(?k \<mapsto> w)"
    using s [of w] by (simp add: pool_map_def entered_def)
  ultimately show ?thesis by (intro exI [of _ ?pool] exI [of _ old]) (simp add: w_def)
qed


lemma pool_map_ptr:
  assumes "pool_inv n pool"
  shows "pool_map pool k = None \<longleftrightarrow> ptr_of (entries pool) k = None"
proof (cases "ptr_of (entries pool) k")
  case (Some a)
  then obtain e where "entry_at (entries pool) a = Some e" using assms unfolding pool_inv_def by blast
  then show ?thesis using Some by (simp add: pool_map_def tab_map_def)
qed (simp add: pool_map_def tab_map_def)

lemma get_weight_ok:
  assumes inv: "pool_inv n pool"
  shows "pool_map pool (strlcpy name NAMEDATALEN) = None \<Longrightarrow>
      get_weight reg (Some pool) cur name = Inr (pool_context pool, None)"
    and "pool_map pool (strlcpy name NAMEDATALEN) = Some e \<Longrightarrow>
      \<exists>a. get_weight reg (Some pool) cur name = Inr (cur, Some a) \<and> weight_at pool a = Inr e"
proof -
  have h: "hash_inv (entries pool)" and k: "keycopy (keysize (entries pool)) name = strlcpy name NAMEDATALEN"
    using inv by (simp_all add: pool_inv_def keycopy_def strlcpy_def)
  note find = hash_search_find [OF h, of reg name, unfolded k]
  show "pool_map pool (strlcpy name NAMEDATALEN) = None \<Longrightarrow>
      get_weight reg (Some pool) cur name = Inr (pool_context pool, None)"
    using find pool_map_ptr [OF inv] by (simp add: get_weight_def)
  show "pool_map pool (strlcpy name NAMEDATALEN) = Some e \<Longrightarrow>
      \<exists>a. get_weight reg (Some pool) cur name = Inr (cur, Some a) \<and> weight_at pool a = Inr e"
    using find by (auto simp: get_weight_def pool_map_def tab_map_def weight_at_def Option.bind_eq_Some_conv)
qed

lemma need_weight_ok:
  assumes inv: "pool_inv n pool"
  shows "need_weight reg (Some pool) name err = (case pool_map pool (strlcpy name NAMEDATALEN) of
           None \<Rightarrow> Inl (Elog err) | Some e \<Rightarrow> Inr e)"
  using get_weight_ok [OF inv, of name, where cur = 0 and reg = reg]
  by (cases "pool_map pool (strlcpy name NAMEDATALEN)") (auto simp: need_weight_def)

section \<open>Sequences of insertions\<close>

text \<open>
  A request to insert a weight, and a session in which a refused request leaves the pool as it was (the
  size test comes before any change) while the session goes on.
\<close>

datatype 'f request = Request string "'f list" "int list"

fun request_ok :: "'f request \<Rightarrow> bool" where
  "request_ok (Request name data dims) \<longleftrightarrow> length dims \<le> MAX_DIMS"

fun pool_session :: "nat list \<Rightarrow> 'f request list \<Rightarrow> 'f WeightPool \<Rightarrow> MemoryContext \<Rightarrow> ('f WeightPool \<times> bool list) result" where
  "pool_session reg [] pool cur = Inr (pool, [])"
| "pool_session reg (Request name data dims # rs) pool cur =
     (case insert_weight reg pool cur name data (4 * length data) (int (length dims)) dims FLOAT4OID of
        Inl (Undefined u) \<Rightarrow> Inl (Undefined u)
      | Inl (Elog m) \<Rightarrow> bindR (pool_session reg rs pool cur) (\<lambda>(p, bs). Inr (p, False # bs))
      | Inr (pool', cur') \<Rightarrow> bindR (pool_session reg rs pool' cur') (\<lambda>(p, bs). Inr (p, True # bs)))"

lemma insert_weight_refused:
  "POOL_SIZE < (current_memory_usage pool + data_size) mod 2 ^ 64 \<Longrightarrow>
    insert_weight reg pool cur name data data_size ndims dims ty = Inl (Elog ''weight pool memory limit exceeded'')"
  by (simp add: insert_weight_def require_def)

lemma pool_session_inv:
  assumes "pool_inv n pool" "n + length rs < 2 ^ 25" "list_all request_ok rs"
    and "\<forall>r \<in> set rs. case r of Request _ data _ \<Rightarrow> length data < 2 ^ 60"
  shows "\<exists>pool' bs. pool_session reg rs pool cur = Inr (pool', bs) \<and> pool_inv (n + length rs) pool'"
  using assms
proof (induction rs arbitrary: pool cur n)
  case (Cons r rs)
  obtain name data dims where r: "r = Request name data dims" by (cases r)
  have rest: "list_all request_ok rs" "\<forall>r \<in> set rs. case r of Request _ data _ \<Rightarrow> length data < 2 ^ 60"
    using Cons.prems by simp_all
  have u: "current_memory_usage pool \<le> POOL_SIZE" using Cons.prems(1) by (simp add: pool_inv_def)
  show ?case
  proof (cases "current_memory_usage pool + 4 * length data \<le> POOL_SIZE")
    case True
    have "n < 2 ^ 25" "int (length dims) \<le> int MAX_DIMS" using Cons.prems(2,3) r by simp_all
    then obtain pool' where p: "insert_weight reg pool cur name data (4 * length data) (int (length dims)) dims FLOAT4OID
        = Inr (pool', cur)" "pool_inv (Suc n) pool'"
      using insert_weight_ok [OF Cons.prems(1) _ True, of data "int (length dims)" dims reg cur name FLOAT4OID]
      by auto
    then obtain q bs where "pool_session reg rs pool' cur = Inr (q, bs)" "pool_inv (Suc n + length rs) q"
      using Cons.IH [OF p(2) _ rest, of cur] Cons.prems(2) by auto
    then show ?thesis using p(1) by (simp add: r)
  next
    case False
    have "current_memory_usage pool + 4 * length data < 2 ^ 64" using u Cons.prems(4) r by simp
    then have e: "insert_weight reg pool cur name data (4 * length data) (int (length dims)) dims FLOAT4OID
        = Inl (Elog ''weight pool memory limit exceeded'')"
      using False by (intro insert_weight_refused) simp
    have "n + length rs < 2 ^ 25" using Cons.prems(2) by simp
    from Cons.IH [OF Cons.prems(1) this rest, of cur] obtain q bs where
      q: "pool_session reg rs pool cur = Inr (q, bs)" "pool_inv (n + length rs) q" by blast
    from q(2) have "pool_inv (n + length (r # rs)) q" by (auto simp: pool_inv_def within_def)
    then show ?thesis using q(1) e by (simp add: r)
  qed
qed simp


lemma insert_weight_frame:
  "insert_weight reg pool cur name data data_size ndims dims ty = Inr (pool', cur') \<Longrightarrow>
     pool_context pool' = pool_context pool \<and> pool_chunk pool' = pool_chunk pool
     \<and> weight_cache pool' = weight_cache pool"
  unfolding insert_weight_def Let_def require_Inr_iff bindR_Inr_iff
  by (elim conjE exE) (auto simp: require_Inr_iff bindR_Inr_iff split: option.split_asm)

lemma pool_session_frame:
  "pool_session reg rs pool cur = Inr (pool', bs) \<Longrightarrow>
     pool_context pool' = pool_context pool \<and> pool_chunk pool' = pool_chunk pool
     \<and> weight_cache pool' = weight_cache pool"
proof (induction rs arbitrary: pool cur bs)
  case (Cons r rs)
  obtain name data dims where r: "r = Request name data dims" by (cases r)
  show ?case
  proof (cases "insert_weight reg pool cur name data (4 * length data) (int (length dims)) dims FLOAT4OID")
    case (Inl e)
    then show ?thesis using Cons by (cases e) (auto simp: r bindR_Inr_iff)
  next
    case (Inr q)
    obtain p c where q: "q = (p, c)" by (cases q)
    from Cons.prems Inr obtain ds where "pool_session reg rs p c = Inr (pool', ds)" by (auto simp: r q bindR_Inr_iff)
    from Cons.IH [OF this] insert_weight_frame [OF Inr [unfolded q]] show ?thesis by simp
  qed
qed simp


section \<open>What a loaded model looks like\<close>

definition wf_weight :: "'f ArrayType \<Rightarrow> bool" where
  "wf_weight arr \<longleftrightarrow> arr_dims arr \<noteq> [] \<and> length (arr_dims arr) \<le> MAX_DIMS \<and> list_all (\<lambda>d. 1 \<le> d) (arr_dims arr)
     \<and> prod_list (arr_dims arr) = int (length (arr_data arr)) \<and> prod_list (arr_dims arr) \<le> MaxArraySize"

definition holds_array :: "'f WeightEntry \<Rightarrow> 'f ArrayType \<Rightarrow> bool" where
  "holds_array e arr \<longleftrightarrow> we_data e = Some (arr_data arr) \<and> we_ndims e = ARR_NDIM arr
     \<and> (\<forall>i < length (arr_dims arr). rd (map the (we_dims e)) (int i) = Inr (arr_dims arr ! i) \<and> we_dims e ! i \<noteq> None)"

definition table_arrays :: "(string \<Rightarrow> 'f SPI_result) \<Rightarrow> string \<Rightarrow> ('f ArrayType \<times> 'f ArrayType) option" where
  "table_arrays spi t =
     (let r = spi (load_query t) in
      if spi_ok r \<and> spi_processed r = 1
      then Option.bind (spi_val r) (\<lambda>v. Option.bind (spi_bias r) (\<lambda>b. Some (v, b))) else None)"

definition table_wf :: "(string \<Rightarrow> 'f SPI_result) \<Rightarrow> string \<Rightarrow> bool" where
  "table_wf spi t = (case table_arrays spi t of None \<Rightarrow> False | Some (v, b) \<Rightarrow> wf_weight v \<and> wf_weight b)"

definition table_bytes :: "(string \<Rightarrow> 'f SPI_result) \<Rightarrow> string \<Rightarrow> nat" where
  "table_bytes spi t = (case table_arrays spi t of None \<Rightarrow> 0
     | Some (v, b) \<Rightarrow> 4 * length (arr_data v) + 4 * length (arr_data b))"

lemma insert_array_ok:
  fixes pool :: "'f WeightPool"
  assumes inv: "pool_inv n pool" "n < 2 ^ 25" and wf: "wf_weight arr"
    and size: "current_memory_usage pool + 4 * length (arr_data arr) \<le> POOL_SIZE"
  shows "\<exists>pool' e. insert_array reg (Some pool) cur name arr = Inr (Some pool', cur) \<and> pool_inv (Suc n) pool'
     \<and> pool_map pool' = (pool_map pool)(strlcpy name NAMEDATALEN \<mapsto> e) \<and> holds_array e arr
     \<and> current_memory_usage pool' \<le> current_memory_usage pool + 4 * length (arr_data arr)"
proof -
  let ?d = "arr_dims arr" and ?n = "length (arr_dims arr)"
  have nitems: "ArrayGetNItems ?d = Inr (int (length (arr_data arr)))"
    using wf ArrayGetNItems_pos [of ?d] by (simp add: wf_weight_def list_all_iff)
  obtain pool' old where p: "insert_weight reg pool cur name (arr_data arr) (4 * length (arr_data arr)) (ARR_NDIM arr)
      (?d @ arr_lbound arr) FLOAT4OID = Inr (pool', cur)" "pool_inv (Suc n) pool'"
    "pool_map pool' = (pool_map pool)(strlcpy name NAMEDATALEN \<mapsto> weight_entry name (arr_data arr)
       (4 * length (arr_data arr)) (ARR_NDIM arr) (?d @ arr_lbound arr) FLOAT4OID old)"
    using insert_weight_ok [OF inv size, of "arr_data arr" "ARR_NDIM arr" "?d @ arr_lbound arr" reg cur name FLOAT4OID] wf
    by (auto simp: ARR_NDIM_def wf_weight_def)
  let ?e = "weight_entry name (arr_data arr) (4 * length (arr_data arr)) (ARR_NDIM arr) (?d @ arr_lbound arr) FLOAT4OID old"
  have "holds_array ?e arr"
    by (auto simp: holds_array_def weight_entry_def ARR_NDIM_def blit_def rd_def nth_append)
  moreover have "insert_array reg (Some pool) cur name arr = Inr (Some pool', cur)"
    using p(1) by (simp add: insert_array_def nitems)
  moreover have "current_memory_usage pool' \<le> current_memory_usage pool + 4 * length (arr_data arr)"
  proof -
    have "finite (dom (pool_map pool))" using inv(1) finite_dom_tab_map by (auto simp: pool_map_def pool_inv_def)
    from weight_bytes_upd [OF this, of "strlcpy name NAMEDATALEN" ?e] p(2,3) inv(1) show ?thesis
      by (simp add: pool_inv_def weight_entry_def)
  qed
  ultimately show ?thesis using p(2,3) by blast
qed

lemma short_keys:
  "length t \<le> 58 \<Longrightarrow> strlcpy (t @ ''_val'') NAMEDATALEN = t @ ''_val''"
  "length t \<le> 58 \<Longrightarrow> strlcpy (t @ ''_bias'') NAMEDATALEN = t @ ''_bias''"
  "t @ ''_val'' \<noteq> u @ ''_bias''"
  by (simp_all add: strlcpy_def)

definition model_loaded :: "(string \<Rightarrow> 'f SPI_result) \<Rightarrow> (string \<rightharpoonup> 'f WeightEntry) \<Rightarrow> string \<Rightarrow> bool" where
  "model_loaded spi w t = (case table_arrays spi t of
     None \<Rightarrow> False
   | Some (v, b) \<Rightarrow> (\<exists>e f. w (t @ ''_val'') = Some e \<and> holds_array e v \<and> w (t @ ''_bias'') = Some f \<and> holds_array f b))"

lemma load_table_ok:
  assumes inv: "pool_inv n pool" "Suc n < 2 ^ 25" and wf: "table_wf spi t" and len: "length t \<le> 58"
    and size: "current_memory_usage pool + table_bytes spi t \<le> POOL_SIZE"
  shows "\<exists>pool'. load_table spi reg t (Some pool, cur) = Inr (Some pool', cur) \<and> pool_inv (n + 2) pool'
     \<and> model_loaded spi (pool_map pool') t
     \<and> (\<forall>k. k \<noteq> t @ ''_val'' \<longrightarrow> k \<noteq> t @ ''_bias'' \<longrightarrow> pool_map pool' k = pool_map pool k)
     \<and> current_memory_usage pool' \<le> current_memory_usage pool + table_bytes spi t"
proof -
  obtain v b where vb: "table_arrays spi t = Some (v, b)" "wf_weight v" "wf_weight b"
    using wf by (auto simp: table_wf_def split: option.splits)
  have r: "spi_ok (spi (load_query t))" "spi_processed (spi (load_query t)) = 1"
    "spi_val (spi (load_query t)) = Some v" "spi_bias (spi (load_query t)) = Some b"
    using vb(1) by (auto simp: table_arrays_def Let_def Option.bind_eq_Some_conv split: if_splits)
  have sz: "current_memory_usage pool + (4 * length (arr_data v) + 4 * length (arr_data b)) \<le> POOL_SIZE"
    using size vb(1) by (simp add: table_bytes_def)
  obtain p1 e where p1: "insert_array reg (Some pool) cur (t @ ''_val'') v = Inr (Some p1, cur)" "pool_inv (Suc n) p1"
    "pool_map p1 = (pool_map pool)(t @ ''_val'' \<mapsto> e)" "holds_array e v"
    "current_memory_usage p1 \<le> current_memory_usage pool + 4 * length (arr_data v)"
    using insert_array_ok [OF inv(1) _ vb(2), of reg cur "t @ ''_val''"] inv(2) sz short_keys(1) [OF len] by auto
  obtain p2 f where p2: "insert_array reg (Some p1) cur (t @ ''_bias'') b = Inr (Some p2, cur)" "pool_inv (Suc (Suc n)) p2"
    "pool_map p2 = (pool_map p1)(t @ ''_bias'' \<mapsto> f)" "holds_array f b"
    "current_memory_usage p2 \<le> current_memory_usage p1 + 4 * length (arr_data b)"
    using insert_array_ok [OF p1(2) inv(2) vb(3), of reg cur "t @ ''_bias''"] p1(5) sz short_keys(2) [OF len] by auto
  have "load_table spi reg t (Some pool, cur) = Inr (Some p2, cur)"
    using r p1(1) p2(1) by (simp add: load_table_def require_def)
  then show ?thesis
    using p1 p2 vb(1) short_keys(3) [of t t] by (auto simp: model_loaded_def table_bytes_def)
qed


lemma load_tables_ok:
  assumes "pool_inv n pool" "n + 2 * length ts < 2 ^ 25" "list_all (table_wf spi) ts"
    and "list_all (\<lambda>t. length t \<le> 58) ts" "distinct ts"
    and "current_memory_usage pool + sum_list (map (table_bytes spi) ts) \<le> POOL_SIZE"
  shows "\<exists>pool'. load_tables spi reg (map Some ts) (Some pool, cur) = Inr (Some pool', cur)
     \<and> pool_inv (n + 2 * length ts) pool' \<and> list_all (model_loaded spi (pool_map pool')) ts
     \<and> (\<forall>k. (\<forall>t \<in> set ts. k \<noteq> t @ ''_val'' \<and> k \<noteq> t @ ''_bias'') \<longrightarrow> pool_map pool' k = pool_map pool k)"
  using assms
proof (induction ts arbitrary: pool n)
  case (Cons t ts)
  have "Suc n < 2 ^ 25" "table_wf spi t" "length t \<le> 58"
    "current_memory_usage pool + table_bytes spi t \<le> POOL_SIZE" using Cons.prems by simp_all
  from load_table_ok [OF Cons.prems(1) this, of reg cur] obtain p1 where
    p1: "load_table spi reg t (Some pool, cur) = Inr (Some p1, cur)" "pool_inv (n + 2) p1"
      "model_loaded spi (pool_map p1) t"
      "\<forall>k. k \<noteq> t @ ''_val'' \<longrightarrow> k \<noteq> t @ ''_bias'' \<longrightarrow> pool_map p1 k = pool_map pool k"
      "current_memory_usage p1 \<le> current_memory_usage pool + table_bytes spi t" by blast
  have "n + 2 + 2 * length ts < 2 ^ 25" "list_all (table_wf spi) ts" "list_all (\<lambda>t. length t \<le> 58) ts"
    "distinct ts" "current_memory_usage p1 + sum_list (map (table_bytes spi) ts) \<le> POOL_SIZE"
    using Cons.prems p1(5) by simp_all
  from Cons.IH [OF p1(2) this] obtain p2 where
    p2: "load_tables spi reg (map Some ts) (Some p1, cur) = Inr (Some p2, cur)" "pool_inv (n + 2 + 2 * length ts) p2"
      "list_all (model_loaded spi (pool_map p2)) ts"
      "\<forall>k. (\<forall>t \<in> set ts. k \<noteq> t @ ''_val'' \<and> k \<noteq> t @ ''_bias'') \<longrightarrow> pool_map p2 k = pool_map p1 k" by blast
  have keep: "pool_map p2 (t @ ''_val'') = pool_map p1 (t @ ''_val'')"
    "pool_map p2 (t @ ''_bias'') = pool_map p1 (t @ ''_bias'')"
  proof -
    have "\<forall>u \<in> set ts. t @ ''_val'' \<noteq> u @ ''_val'' \<and> t @ ''_val'' \<noteq> u @ ''_bias''"
      "\<forall>u \<in> set ts. t @ ''_bias'' \<noteq> u @ ''_val'' \<and> t @ ''_bias'' \<noteq> u @ ''_bias''"
      using Cons.prems(5) by auto
    then show "pool_map p2 (t @ ''_val'') = pool_map p1 (t @ ''_val'')"
      "pool_map p2 (t @ ''_bias'') = pool_map p1 (t @ ''_bias'')"
      using p2(4) by blast+
  qed
  have "model_loaded spi (pool_map p2) t" using p1(3) unfolding model_loaded_def keep .
  with p1 p2 show ?case by (intro exI [of _ p2]) (simp add: add.commute add.left_commute)
qed simp

lemma free_data_all:
  "\<forall>a \<in> set as. \<exists>e. entry_at h a = Some e \<and> entry_ok e \<Longrightarrow> free_data h as = Inr as"
  by (induction as) (auto simp: entry_ok_def)

lemma pool_live_filled:
  assumes "pool_inv n pool"
  shows "\<forall>a \<in> set (live (entries pool)). \<exists>e. entry_at (entries pool) a = Some e \<and> entry_ok e"
proof
  fix a assume a: "a \<in> set (live (entries pool))"
  have inv: "hash_inv (entries pool)" using assms by (simp add: pool_inv_def)
  obtain e where "elems (entries pool) a = Some e" using live_elem [OF inv a] by blast
  then obtain k where "key_at (entries pool) a = Some k" by (simp add: key_at_def)
  then have "ptr_of (entries pool) k = Some a" using a inv by (simp add: hash_inv_def ptr_of_iff)
  then show "\<exists>e. entry_at (entries pool) a = Some e \<and> entry_ok e" using assms unfolding pool_inv_def by blast
qed

lemma destroy_weight_pool_runs:
  assumes inv: "pool_inv n pool" "length reg < MAX_SEQ_SCANS" "lru_rep (weight_cache pool) ps"
  shows "destroy_weight_pool reg pool = Some
    (if pool_chunk pool = pool_context pool then Inl (Undefined Use_after_free)
     else Inr (reg, live (entries pool)))"
proof -
  have "hash_inv (entries pool)" using inv by (simp add: pool_inv_def)
  then obtain reg' st where s: "hash_seq_init reg (entries pool) = Inr (reg', st)"
    "scan_all reg' (entries pool) st = Some (Inr (reg, live (entries pool)))"
    using scan_all_live inv(2) by blast
  then show ?thesis
    using free_data_all [OF pool_live_filled [OF inv(1)]] destroy_lru_cache_ok [OF inv(3)]
    by (simp add: destroy_weight_pool_def require_def)
qed


section \<open>Properties\<close>

text \<open>
  C28: A session of weight insertions on a fresh pool, refused ones included, keeps the pool well formed: the
  memory counter is always the reserved cache size plus the bytes of the stored weights, and it never
  exceeds POOL_SIZE.
\<close>

theorem pool_accounting_invariant:
  assumes "length rs < 2 ^ 24" "list_all request_ok rs"
    and "\<forall>r \<in> set rs. case r of Request _ data _ \<Rightarrow> length data < 2 ^ 60"
  shows "\<exists>pool pool' bs. create_weight_pool fresh = Inr pool \<and> pool_session reg rs pool cur = Inr (pool', bs)
     \<and> current_memory_usage pool' = LRU_CACHE_SIZE + weight_bytes (pool_map pool')
     \<and> current_memory_usage pool' \<le> POOL_SIZE"
proof -
  obtain pool where p: "create_weight_pool fresh = Inr (pool :: 'a WeightPool)" "pool_inv (2 ^ 21) pool"
    using create_weight_pool_ok by blast
  have "2 ^ 21 + length rs < 2 ^ 25" using assms(1) by simp
  from pool_session_inv [OF p(2) this assms(2,3)] p(1) show ?thesis by (fastforce simp: pool_inv_def)
qed

theorem pool_accounting_invariant_witness:
  "\<exists>(pool :: nat WeightPool) pool' bs. create_weight_pool 1 = Inr pool
     \<and> pool_session [] [Request ''fc1_val'' [3, 4] [1, 2], Request ''fc1_val'' [5] [1]] pool 0 = Inr (pool', bs)
     \<and> current_memory_usage pool' \<le> POOL_SIZE"
  using pool_accounting_invariant [of "[Request ''fc1_val'' [3 :: nat, 4] [1, 2], Request ''fc1_val'' [5] [1]]" 1 "[]" 0]
  by auto

text \<open>
  insert_weight followed by get_weight returns the stored data and dimensions under the truncated name;
  the entries of all other names are untouched, and CurrentMemoryContext is as before.
\<close>

theorem insert_weight_then_get:
  assumes "pool_inv n pool" "n < 2 ^ 25" "current_memory_usage pool + data_size \<le> POOL_SIZE"
    and "data_size \<le> 4 * length data" "0 \<le> ndims" "ndims \<le> int MAX_DIMS" "ndims \<le> int (length dims)"
  shows "\<exists>pool' a e. insert_weight reg pool cur name data data_size ndims dims ty = Inr (pool', cur)
     \<and> get_weight reg (Some pool') cur name = Inr (cur, Some a) \<and> weight_at pool' a = Inr e
     \<and> we_data e = Some (take (data_size div 4) data) \<and> take (nat ndims) (we_dims e) = map Some (take (nat ndims) dims)
     \<and> (\<forall>k. k \<noteq> strlcpy name NAMEDATALEN \<longrightarrow> pool_map pool' k = pool_map pool k)"
proof -
  obtain pool' old where p: "insert_weight reg pool cur name data data_size ndims dims ty = Inr (pool', cur)"
    "pool_inv (Suc n) pool'"
    "pool_map pool' = (pool_map pool)(strlcpy name NAMEDATALEN \<mapsto> weight_entry name data data_size ndims dims ty old)"
    using insert_weight_ok [OF assms, of reg cur name ty] by blast
  have "pool_map pool' (strlcpy name NAMEDATALEN) = Some (weight_entry name data data_size ndims dims ty old)"
    using p(3) by simp
  from get_weight_ok(2) [OF p(2) this, of reg cur] p assms(5,7) show ?thesis
    by (auto simp: weight_entry_def blit_def)
qed

theorem insert_weight_then_get_witness:
  "\<exists>(pool :: nat WeightPool) pool' a e. create_weight_pool 1 = Inr pool
     \<and> insert_weight [] pool 0 ''fc1_val'' [3, 4] 8 2 [1, 2] FLOAT4OID = Inr (pool', 0)
     \<and> get_weight [] (Some pool') 0 ''fc1_val'' = Inr (0, Some a) \<and> weight_at pool' a = Inr e
     \<and> we_data e = Some [3, 4]"
proof -
  obtain pool where p: "create_weight_pool 1 = Inr (pool :: nat WeightPool)" "pool_inv (2 ^ 21) pool"
    "current_memory_usage pool = LRU_CACHE_SIZE"
    using create_weight_pool_ok [of 1] by auto
  from insert_weight_then_get [OF p(2), of 8 "[3, 4]" 2 "[1, 2]" "[]" 0 "''fc1_val''" FLOAT4OID] p
  show ?thesis by auto
qed

text \<open>
  The pool refuses a weight that would push its counter over POOL_SIZE with the error "weight pool memory
  limit exceeded", also when the weight replaces an entry whose bytes would make room for it, because the
  test precedes the release of the old data.
\<close>

theorem insert_weight_limit:
  assumes "pool_inv n pool" "pool_map pool (strlcpy name NAMEDATALEN) = Some old"
    and "POOL_SIZE < current_memory_usage pool + data_size" "data_size < 2 ^ 63"
    and "current_memory_usage pool - we_data_size old + data_size \<le> POOL_SIZE"
  shows "insert_weight reg pool cur name data data_size ndims dims ty
       = Inl (Elog ''weight pool memory limit exceeded'')"
  using assms by (intro insert_weight_refused) (simp add: pool_inv_def)

theorem insert_weight_limit_witness:
  "\<exists>(pool :: unit WeightPool) pool'. create_weight_pool 1 = Inr pool
     \<and> insert_weight [] pool 0 ''w'' (replicate 200000000 ()) 800000000 1 [200000000] FLOAT4OID = Inr (pool', 0)
     \<and> insert_weight [] pool' 0 ''w'' (replicate 200000000 ()) 800000000 1 [200000000] FLOAT4OID
       = Inl (Elog ''weight pool memory limit exceeded'')"
proof -
  obtain pool where p: "create_weight_pool 1 = Inr (pool :: unit WeightPool)" "pool_inv (2 ^ 21) pool"
    "current_memory_usage pool = LRU_CACHE_SIZE" "pool_map pool = Map.empty"
    using create_weight_pool_ok [of 1] by auto
  obtain pool' old where q: "insert_weight [] pool 0 ''w'' (replicate 200000000 ()) 800000000 1 [200000000] FLOAT4OID
      = Inr (pool', 0)" "pool_inv (Suc (2 ^ 21)) pool'"
    "pool_map pool' = (pool_map pool)(strlcpy ''w'' NAMEDATALEN \<mapsto>
       weight_entry ''w'' (replicate 200000000 ()) 800000000 1 [200000000] FLOAT4OID old)"
    using insert_weight_ok [OF p(2), of 800000000 "replicate 200000000 ()" 1 "[200000000]" "[]" 0 "''w''" FLOAT4OID] p(3)
    by auto
  have "weight_bytes (pool_map pool') = 800000000"
    using q(3) p(4) by (simp add: weight_bytes_def weight_entry_def)
  then have u: "current_memory_usage pool' = LRU_CACHE_SIZE + 800000000" using q(2) by (simp add: pool_inv_def)
  have "pool_map pool' (strlcpy ''w'' NAMEDATALEN)
      = Some (weight_entry ''w'' (replicate 200000000 ()) 800000000 1 [200000000] FLOAT4OID old)" using q(3) by simp
  from insert_weight_limit [OF q(2) this, of 800000000 "[]" 0 "replicate 200000000 ()" 1 "[200000000]" FLOAT4OID] u p q
  show ?thesis by (auto simp: weight_entry_def)
qed


text \<open>
  C23: load_model on distinct table names of at most 58 characters, whose tables answer with well-formed
  arrays that fit the pool, succeeds and leaves, for every table, the val array under <table>_val and the
  bias array under <table>_bias.
\<close>

theorem load_model_loads_all:
  assumes "pool_inv n pool" "n + 2 * length ts < 2 ^ 25" "list_all (table_wf spi) ts"
    and "list_all (\<lambda>t. length t \<le> 58) ts" "distinct ts"
    and "current_memory_usage pool + sum_list (map (table_bytes spi) ts) \<le> POOL_SIZE"
    and "ARR_NDIM names = 1" "arr_data names = map Some ts"
  shows "\<exists>pool'. load_model spi reg (Some pool) cur (Some names) = Inr (Some pool', cur)
     \<and> pool_inv (n + 2 * length ts) pool'
     \<and> (\<forall>t \<in> set ts. \<forall>v b. table_arrays spi t = Some (v, b) \<longrightarrow>
          (\<exists>e f. need_weight reg (Some pool') (t @ ''_val'') m = Inr e \<and> holds_array e v
               \<and> need_weight reg (Some pool') (t @ ''_bias'') m = Inr f \<and> holds_array f b))"
proof -
  obtain pool' where p: "load_tables spi reg (map Some ts) (Some pool, cur) = Inr (Some pool', cur)"
    "pool_inv (n + 2 * length ts) pool'" "list_all (model_loaded spi (pool_map pool')) ts"
    using load_tables_ok [OF assms(1-6)] by blast
  have "\<exists>e f. need_weight reg (Some pool') (t @ ''_val'') m = Inr e \<and> holds_array e v
      \<and> need_weight reg (Some pool') (t @ ''_bias'') m = Inr f \<and> holds_array f b"
    if "t \<in> set ts" "table_arrays spi t = Some (v, b)" for t v b
  proof -
    have "length t \<le> 58" using assms(4) that by (simp add: list_all_iff)
    moreover have "model_loaded spi (pool_map pool') t" using p(3) that by (simp add: list_all_iff)
    ultimately show ?thesis
      using that(2) by (auto simp: need_weight_ok [OF p(2)] model_loaded_def short_keys)
  qed
  then show ?thesis using p assms(7,8) by (auto simp: load_model_def require_def)
qed

theorem load_model_loads_all_witness:
  "\<exists>(pool :: int WeightPool) pool' e. create_weight_pool 1 = Inr pool
     \<and> load_model (\<lambda>q. \<lparr>spi_ok = True, spi_processed = 1, spi_val = Some (matrix 1 2 [5, 6]), spi_bias = Some (matrix 1 1 [7])\<rparr>)
         [] (Some pool) 0 (Some \<lparr>arr_dims = [1], arr_lbound = [1], arr_elemtype = 25, arr_nullbitmap = None, arr_data = [Some ''fc1'']\<rparr>)
       = Inr (Some pool', 0)
     \<and> need_weight [] (Some pool') ''fc1_val'' [] = Inr e \<and> we_data e = Some [5, 6]"
proof -
  let ?spi = "\<lambda>q :: string. \<lparr>spi_ok = True, spi_processed = 1, spi_val = Some (matrix 1 2 [5, 6 :: int]), spi_bias = Some (matrix 1 1 [7])\<rparr>"
  obtain pool where p: "create_weight_pool 1 = Inr (pool :: int WeightPool)" "pool_inv (2 ^ 21) pool"
    "current_memory_usage pool = LRU_CACHE_SIZE"
    using create_weight_pool_ok [of 1] by auto
  have t: "table_arrays ?spi ''fc1'' = Some (matrix 1 2 [5, 6], matrix 1 1 [7])" by (simp add: table_arrays_def)
  have wf: "list_all (table_wf ?spi) [''fc1'']" using t by (simp add: table_wf_def wf_weight_def)
  have "sum_list (map (table_bytes ?spi) [''fc1'']) = 12" using t by (simp add: table_bytes_def)
  then show ?thesis
    using load_model_loads_all [OF p(2) _ wf, of "\<lparr>arr_dims = [1], arr_lbound = [1], arr_elemtype = 25,
        arr_nullbitmap = None, arr_data = [Some ''fc1'']\<rparr>" "[]" 0 "[]"] p t
    by (auto simp: ARR_NDIM_def holds_array_def)
qed

text \<open>
  For a table name of 62 characters or more the keys of the val and of the bias array are cut to the same
  63 characters: the bias overwrites the val array, and looking up <table>_val yields the bias data.
\<close>

theorem long_table_name_loses_weights:
  assumes "pool_inv n pool" "Suc n < 2 ^ 25" "table_arrays spi t = Some (v, b)" "wf_weight v" "wf_weight b"
    and "62 \<le> length t" "current_memory_usage pool + table_bytes spi t \<le> POOL_SIZE"
  shows "\<exists>pool' e. load_table spi reg t (Some pool, cur) = Inr (Some pool', cur)
     \<and> need_weight reg (Some pool') (t @ ''_val'') m = Inr e \<and> holds_array e b"
proof -
  have r: "spi_ok (spi (load_query t))" "spi_processed (spi (load_query t)) = 1"
    "spi_val (spi (load_query t)) = Some v" "spi_bias (spi (load_query t)) = Some b"
    using assms(3) by (auto simp: table_arrays_def Let_def Option.bind_eq_Some_conv split: if_splits)
  have sz: "current_memory_usage pool + (4 * length (arr_data v) + 4 * length (arr_data b)) \<le> POOL_SIZE"
    using assms(3,7) by (simp add: table_bytes_def)
  obtain p1 where p1: "insert_array reg (Some pool) cur (t @ ''_val'') v = Inr (Some p1, cur)" "pool_inv (Suc n) p1"
    "current_memory_usage p1 \<le> current_memory_usage pool + 4 * length (arr_data v)"
    using insert_array_ok [OF assms(1) _ assms(4), of reg cur "t @ ''_val''"] assms(2) sz by auto
  obtain p2 f where p2: "insert_array reg (Some p1) cur (t @ ''_bias'') b = Inr (Some p2, cur)" "pool_inv (Suc (Suc n)) p2"
    "pool_map p2 = (pool_map p1)(strlcpy (t @ ''_bias'') NAMEDATALEN \<mapsto> f)" "holds_array f b"
    using insert_array_ok [OF p1(2) assms(2,5), of reg cur "t @ ''_bias''"] p1(3) sz by auto
  have "strlcpy (t @ ''_val'') NAMEDATALEN = strlcpy (t @ ''_bias'') NAMEDATALEN"
  proof (cases "length t = 62")
    case False
    with assms(6) show ?thesis by (simp add: strlcpy_def)
  qed (simp add: strlcpy_def)
  moreover have "load_table spi reg t (Some pool, cur) = Inr (Some p2, cur)"
    using r p1(1) p2(1) by (simp add: load_table_def require_def)
  ultimately show ?thesis using p2 by (auto simp: need_weight_ok [OF p2(2)])
qed

theorem long_table_name_loses_weights_witness:
  "\<exists>(pool :: int WeightPool) pool' e. create_weight_pool 1 = Inr pool
     \<and> load_table (\<lambda>q. \<lparr>spi_ok = True, spi_processed = 1, spi_val = Some (matrix 1 2 [5, 6]), spi_bias = Some (matrix 1 1 [7])\<rparr>)
         [] (replicate 62 CHR ''t'') (Some pool, 0) = Inr (Some pool', 0)
     \<and> need_weight [] (Some pool') (replicate 62 CHR ''t'' @ ''_val'') [] = Inr e \<and> we_data e = Some [7]"
proof -
  let ?spi = "\<lambda>q :: string. \<lparr>spi_ok = True, spi_processed = 1, spi_val = Some (matrix 1 2 [5, 6 :: int]), spi_bias = Some (matrix 1 1 [7])\<rparr>"
  obtain pool where p: "create_weight_pool 1 = Inr (pool :: int WeightPool)" "pool_inv (2 ^ 21) pool"
    "current_memory_usage pool = LRU_CACHE_SIZE"
    using create_weight_pool_ok [of 1] by auto
  have t: "table_arrays ?spi (replicate 62 CHR ''t'') = Some (matrix 1 2 [5, 6], matrix 1 1 [7])"
    by (simp add: table_arrays_def)
  then have "table_bytes ?spi (replicate 62 CHR ''t'') = 12" by (simp add: table_bytes_def)
  then show ?thesis
    using long_table_name_loses_weights [OF p(2) _ t, of "[]" 0 "[]"] p
    by (auto simp: wf_weight_def holds_array_def)
qed

text \<open>
  C29: destroy_weight_pool on any pool that create_weight_pool made and insertions filled ends with an access
  to freed memory: the pool struct lives in the context that is deleted just before pfree(pool).
\<close>

theorem destroy_weight_pool_uses_freed_pool:
  fixes pool :: "'f WeightPool"
  assumes "create_weight_pool fresh = Inr pool" "pool_session reg rs pool cur = Inr (pool', bs)"
    and "length rs < 2 ^ 24" "list_all request_ok rs" "length reg < MAX_SEQ_SCANS"
    and "\<forall>r \<in> set rs. case r of Request _ data _ \<Rightarrow> length data < 2 ^ 60"
  shows "PG_fini reg (Some pool') = Some (Inl (Undefined Use_after_free))"
proof -
  have p: "pool_inv (2 ^ 21) pool" "pool_context pool = fresh" "pool_chunk pool = fresh" "lru_rep (weight_cache pool) []"
    using create_weight_pool_ok [where 'f = 'f and fresh = fresh] unfolding assms(1) by simp_all
  have "2 ^ 21 + length rs < 2 ^ 25" using assms(3) by simp
  from pool_session_inv [OF p(1) this assms(4,6), of reg cur] assms(2)
  have "pool_inv (2 ^ 21 + length rs) pool'" by auto
  moreover have "pool_context pool' = fresh" "pool_chunk pool' = fresh" "lru_rep (weight_cache pool') []"
    using pool_session_frame [OF assms(2)] p by simp_all
  ultimately show ?thesis using destroy_weight_pool_runs [of _ pool' reg] assms(5) by (simp add: PG_fini_def)
qed

theorem destroy_weight_pool_uses_freed_pool_witness:
  "\<exists>(pool :: nat WeightPool) pool' bs. create_weight_pool 1 = Inr pool
     \<and> pool_session [] [Request ''fc1_val'' [3, 4] [1, 2]] pool 0 = Inr (pool', bs)
     \<and> PG_fini [] (Some pool') = Some (Inl (Undefined Use_after_free))"
proof -
  obtain pool where p: "create_weight_pool 1 = Inr (pool :: nat WeightPool)" "pool_inv (2 ^ 21) pool"
    using create_weight_pool_ok [of 1] by auto
  obtain pool' bs where q: "pool_session [] [Request ''fc1_val'' [3, 4] [1, 2]] pool 0 = Inr (pool', bs)"
    using pool_session_inv [OF p(2), of "[Request ''fc1_val'' [3, 4] [1, 2]]" "[]" 0] by auto
  from destroy_weight_pool_uses_freed_pool [OF p(1) q] p(1) q show ?thesis by auto
qed

text \<open>
  get_weight of a name that is not in the pool returns NULL and leaves CurrentMemoryContext switched to
  the pool's context, whatever it was before; a name that is there restores it.
\<close>

theorem get_weight_miss_leaks_context:
  assumes "pool_inv n pool"
  shows "\<exists>p. get_weight reg (Some pool) cur name
     = Inr (if pool_map pool (strlcpy name NAMEDATALEN) = None then (pool_context pool, None) else (cur, Some p))"
  using get_weight_ok [OF assms, of name, where reg = reg and cur = cur]
  by (cases "pool_map pool (strlcpy name NAMEDATALEN)") auto

theorem get_weight_miss_leaks_context_witness:
  "\<exists>(pool :: nat WeightPool). create_weight_pool 1 = Inr pool \<and> get_weight [] (Some pool) 0 ''w'' = Inr (1, None)"
proof -
  obtain pool where p: "create_weight_pool 1 = Inr (pool :: nat WeightPool)" "pool_inv (2 ^ 21) pool"
    "pool_map pool = Map.empty" "pool_context pool = 1"
    using create_weight_pool_ok [of 1] by auto
  from get_weight_miss_leaks_context [OF p(2), of "[]" 0 "''w''"] p show ?thesis by auto
qed

text \<open>
  A weight array of five or six dimensions (an array may have up to six) that passes the size tests makes
  insert_weight write past the four cells of WeightEntry.dims.
\<close>

theorem insert_weight_dims_overflow:
  assumes "pool_inv n pool" "n < 2 ^ 25" "current_memory_usage pool + data_size \<le> POOL_SIZE"
    and "data_size \<le> 4 * length data" "int MAX_DIMS < ndims"
  shows "insert_weight reg pool cur name data data_size ndims dims ty = Inl (Undefined Out_of_bounds)"
proof -
  obtain pool' where "insert_weight reg pool cur name data data_size 0 [] ty = Inr (pool', cur)"
    using insert_weight_ok [OF assms(1-4), of 0 "[]" reg cur name ty] by auto
  then show ?thesis using assms(5)
    by (auto simp: insert_weight_def require_def Let_def bindR_def split: if_splits option.splits sum.splits)
qed

theorem insert_weight_dims_overflow_witness:
  "\<exists>(pool :: nat WeightPool). create_weight_pool 1 = Inr pool
     \<and> insert_weight [] pool 0 ''w'' [3, 4] 8 5 [1, 1, 1, 1, 2] FLOAT4OID = Inl (Undefined Out_of_bounds)"
proof -
  obtain pool where p: "create_weight_pool 1 = Inr (pool :: nat WeightPool)" "pool_inv (2 ^ 21) pool"
    "current_memory_usage pool = LRU_CACHE_SIZE"
    using create_weight_pool_ok [of 1] by auto
  from insert_weight_dims_overflow [OF p(2), of 8 "[3, 4]" 5 "[]" 0 "''w''" "[1, 1, 1, 1, 2]" FLOAT4OID] p
  show ?thesis by auto
qed

end
