(* ===== verification/Gemm_Ops.thy ===== *)
theory Gemm_Ops
  imports Weight_Pool
begin

text \<open>
  The matrix operators of \<open>aqua_extension/src/matrix_op.c\<close> (\<open>relu\<close>, \<open>kfm\<close>, \<open>kfm_nt\<close>, \<open>mvm\<close>, \<open>mat_mul\<close>,
  \<open>madd\<close>) and \<open>batchnorm\<close> of \<open>aqua_extension/src/extended_op.c\<close>.

  \<open>cblas_sgemm\<close> belongs to OpenBLAS: it is the argument \<open>sgemm\<close> of the operators that call it, and what
  its documentation promises for the calls of this code (row-major, \<open>alpha = 1\<close>, \<open>beta = 0\<close>) is the predicate
  \<open>sgemm_spec\<close>. A pointer into an array is the list of the elements from there on. The elements are of
  any type with the arithmetic the operator uses; rounding is not modelled, so that a statement about a sum
  is about exact arithmetic.

  \<open>relu\<close> and \<open>madd\<close> write into the array that was passed to them; they return that array with its new
  contents and the result.
\<close>

section \<open>The matrix product of the library\<close>

type_synonym 'f sgemm =
  "bool \<Rightarrow> int \<Rightarrow> int \<Rightarrow> int \<Rightarrow> 'f list \<Rightarrow> int \<Rightarrow> 'f list \<Rightarrow> int \<Rightarrow> 'f buf \<Rightarrow> int \<Rightarrow> 'f buf result"

text \<open>The rows of \<open>A * B\<close> (or \<open>A * B^T\<close>), one after the other.\<close>

definition gemm_cell :: "bool \<Rightarrow> nat \<Rightarrow> 'f::{monoid_add,times} list \<Rightarrow> nat \<Rightarrow> 'f list \<Rightarrow> nat \<Rightarrow> nat \<Rightarrow> nat \<Rightarrow> 'f" where
  "gemm_cell transB K A lda B ldb i j =
     sum_list (map (\<lambda>k. A ! (i * lda + k) * (if transB then B ! (j * ldb + k) else B ! (k * ldb + j))) [0..<K])"

definition gemm_vals :: "bool \<Rightarrow> nat \<Rightarrow> nat \<Rightarrow> nat \<Rightarrow> 'f::{monoid_add,times} list \<Rightarrow> nat \<Rightarrow> 'f list \<Rightarrow> nat \<Rightarrow> 'f list" where
  "gemm_vals transB M N K A lda B ldb =
     grid M N (gemm_cell transB K A lda B ldb)"

text \<open>
  The documented effect of a call with legal arguments whose rows of \<open>C\<close> follow each other without a
  gap: the first \<open>M * N\<close> cells of \<open>C\<close> are overwritten with the product, whatever they held before.
\<close>

definition sgemm_spec :: "'f::{monoid_add,times} sgemm \<Rightarrow> bool" where
  "sgemm_spec sgemm \<longleftrightarrow> (\<forall>transB M N K A lda B ldb C.
     0 < M \<longrightarrow> 0 < N \<longrightarrow> 0 < K \<longrightarrow> K \<le> lda \<longrightarrow> (if transB then K else N) \<le> ldb
     \<longrightarrow> (M - 1) * lda + K \<le> length A
     \<longrightarrow> (if transB then (N - 1) * ldb + K else (K - 1) * ldb + N) \<le> length B
     \<longrightarrow> M * N \<le> length C
     \<longrightarrow> sgemm transB (int M) (int N) (int K) A (int lda) B (int ldb) C (int N)
         = Inr (blit C 0 (gemm_vals transB M N K A lda B ldb)))"

text \<open>A plain triple loop, which shows that the specification can be met.\<close>

definition ref_sgemm :: "'f::{monoid_add,times} sgemm" where
  "ref_sgemm transB M N K A lda B ldb C ldc =
     Inr (blit C 0 (gemm_vals transB (nat M) (nat N) (nat K) A (nat lda) B (nat ldb)))"

section \<open>The operators\<close>

text \<open>\<open>fmax(0, x)\<close> and \<open>fmaxf(0, x)\<close>: zero unless \<open>x\<close> is greater, in particular for a NaN.\<close>

definition fmax0 :: "'f::{zero,ord} \<Rightarrow> 'f" where
  "fmax0 x = (if 0 < x then x else 0)"

text \<open>The loops that add \<open>bias[c]\<close> to row \<open>c\<close> of the result and apply the activation to each cell.\<close>

definition add_bias :: "('f::plus \<Rightarrow> 'f) \<Rightarrow> 'f list \<Rightarrow> int \<Rightarrow> int \<Rightarrow> 'f buf \<Rightarrow> 'f buf result" where
  "add_bias act bias out_channel flen res_data =
     bindR (for_loop 0 out_channel 1 (\<lambda>c (res_data, offset).
         bindR (for_loop offset (offset + flen) 1 (\<lambda>i res_data.
             bindR (rd bias c) (\<lambda>b. modify res_data i (\<lambda>x. act (x + b)))) res_data)
           (\<lambda>res_data. Inr (res_data, offset + flen))) (res_data, 0))
       (\<lambda>(res_data, offset). Inr res_data)"

definition relu :: "'f::{zero,ord} ArrayType \<Rightarrow> ('f ArrayType \<times> 'f ArrayType) result" where
  "relu input_f =
     bindR (ARR_DIMS input_f 0) (\<lambda>num_channel.
     bindR (ARR_DIMS input_f 1) (\<lambda>nelems_channel.
     bindR (cint (num_channel * nelems_channel)) (\<lambda>size.
     bindR (for_loop 0 size 1 (\<lambda>i data. modify data i fmax0) (map Some (arr_data input_f))) (\<lambda>data.
     bindR (sealed data) (\<lambda>data.
     bindR (float4construct_md_array data size [num_channel, nelems_channel] [1, 1]) (\<lambda>feature_map.
       Inr (input_f\<lparr>arr_data := data\<rparr>, feature_map)))))))"

definition kfm :: "'f::{monoid_add,times,ord} sgemm \<Rightarrow> 'f ArrayType \<Rightarrow> 'f ArrayType \<Rightarrow> 'f ArrayType \<Rightarrow> 'f ArrayType result" where
  "kfm sgemm kmatrix fmatrix bias_vec =
     bindR (ARR_DIMS kmatrix 0) (\<lambda>out_channel.
     bindR (ARR_DIMS kmatrix 1) (\<lambda>klen.
     bindR (ARR_DIMS fmatrix 0) (\<lambda>flen.
     bindR (ARR_DIMS fmatrix 1) (\<lambda>fklen.
     bindR (cint (out_channel * flen)) (\<lambda>size.
     require (klen = fklen) (Elog ''The number of matrix columns must equal the number of vector elements'') (
     bindR (palloc 4 size) (\<lambda>res_data.
     bindR (sgemm True out_channel flen klen (arr_data kmatrix) klen (arr_data fmatrix) klen res_data flen) (\<lambda>res_data.
     bindR (ARR_DIMS bias_vec 0) (\<lambda>nbias.
     bindR (if nbias = out_channel then add_bias fmax0 (arr_data bias_vec) out_channel flen res_data
            else Inr res_data) (\<lambda>res_data.
     bindR (sealed res_data) (\<lambda>res_data.
       float4construct_md_array res_data size [out_channel, flen] [1, 1])))))))))))"

text \<open>The fields of a weight as the operators read them.\<close>

definition entry_data :: "'f WeightEntry \<Rightarrow> 'f list result" where
  "entry_data e = (case we_data e of None \<Rightarrow> Inl (Undefined Null_deref) | Some d \<Rightarrow> Inr d)"

definition entry_dim :: "'f WeightEntry \<Rightarrow> int \<Rightarrow> int result" where
  "entry_dim e i = rdb (we_dims e) i"

definition kfm_nt ::
  "'f::{monoid_add,times,ord} sgemm \<Rightarrow> nat list \<Rightarrow> 'f WeightPool option \<Rightarrow> string \<Rightarrow> 'f ArrayType \<Rightarrow> bool
   \<Rightarrow> 'f ArrayType result" where
  "kfm_nt sgemm reg pool kmatrix_name fmatrix acti =
     bindR (need_weight reg pool (kmatrix_name @ ''_val'') ''[kfm_nt] val not found'') (\<lambda>kmatrix_entry.
     bindR (entry_dim kmatrix_entry 0) (\<lambda>out_channel.
     bindR (entry_dim kmatrix_entry 1) (\<lambda>klen.
     bindR (ARR_DIMS fmatrix 0) (\<lambda>fklen.
     bindR (ARR_DIMS fmatrix 1) (\<lambda>flen.
     bindR (cint (out_channel * flen)) (\<lambda>size.
     require (klen = fklen) (Elog ''The number of matrix columns must equal the number of vector elements'') (
     bindR (palloc0 4 (out_channel * flen)) (\<lambda>res_data.
     bindR (entry_data kmatrix_entry) (\<lambda>kmatrix_data.
     bindR (sgemm False out_channel flen klen kmatrix_data klen (arr_data fmatrix) flen res_data flen) (\<lambda>res_data.
     bindR (need_weight reg pool (kmatrix_name @ ''_bias'') ''[kfm_nt] bias not found'') (\<lambda>bias_entry.
     bindR (entry_dim bias_entry 0) (\<lambda>nbias.
     bindR (if nbias = out_channel
            then bindR (entry_data bias_entry) (\<lambda>bias.
              if acti then add_bias fmax0 bias out_channel flen res_data
              else add_bias (\<lambda>x. x) bias out_channel flen res_data)
            else Inr res_data) (\<lambda>res_data.
     bindR (sealed res_data) (\<lambda>res_data.
       float4construct_md_array res_data size [out_channel, flen] [1, 1]))))))))))))))"

definition mvm ::
  "nat list \<Rightarrow> 'f::{zero,plus,times} WeightPool option \<Rightarrow> string \<Rightarrow> 'f ArrayType \<Rightarrow> 'f ArrayType result" where
  "mvm reg pool matrix_name vect =
     require (pool \<noteq> None) (Elog ''[mvm] WEIGHT POOL is NULL'') (
     bindR (need_weight reg pool (matrix_name @ ''_val'') ''[mvm] val not found'') (\<lambda>matrix_entry.
     bindR (ARR_DIMS vect 0) (\<lambda>vector_nelems.
     bindR (entry_dim matrix_entry 0) (\<lambda>matrix_rows.
     bindR (entry_dim matrix_entry 1) (\<lambda>matrix_cols.
     bindR (palloc 8 matrix_rows) (\<lambda>res_data.
     require (matrix_cols = vector_nelems) (Elog ''The number of matrix columns must equal the number of vector elements'') (
     bindR (need_weight reg pool (matrix_name @ ''_bias'') ''[mvm] bias not found'') (\<lambda>bias_entry.
     bindR (entry_data matrix_entry) (\<lambda>matrix_data.
     bindR (entry_data bias_entry) (\<lambda>bias.
     bindR (entry_dim bias_entry 0) (\<lambda>nbias.
     bindR (for_loop 0 matrix_rows 1 (\<lambda>i res_data.
         bindR (for_loop 0 matrix_cols 1 (\<lambda>j sum.
             bindR (rd matrix_data (i * matrix_cols + j)) (\<lambda>x.
             bindR (rd (arr_data vect) j) (\<lambda>v. Inr (sum + x * v)))) 0) (\<lambda>sum.
         bindR (if nbias = matrix_rows then bindR (rd bias i) (\<lambda>b. Inr (sum + b)) else Inr sum) (\<lambda>sum.
           wr res_data i sum))) res_data) (\<lambda>res_data.
     bindR (sealed res_data) (\<lambda>res_data.
       construct_array res_data matrix_rows)))))))))))))"

definition mat_mul ::
  "'f::{monoid_add,times} sgemm \<Rightarrow> nat list \<Rightarrow> 'f WeightPool option \<Rightarrow> 'f ArrayType \<Rightarrow> string \<Rightarrow> 'f ArrayType result" where
  "mat_mul sgemm reg pool array_input_f kmatrix_name =
     bindR (ARR_DIMS array_input_f 0) (\<lambda>f_height.
     bindR (ARR_DIMS array_input_f 1) (\<lambda>f_width.
     bindR (need_weight reg pool (kmatrix_name @ ''_val'') ''[mat_mul] val not found'') (\<lambda>kmatrix_entry.
     bindR (entry_data kmatrix_entry) (\<lambda>k_matrix.
     bindR (entry_dim kmatrix_entry 0) (\<lambda>k_height.
     bindR (entry_dim kmatrix_entry 1) (\<lambda>k_width.
     require (f_width = k_height) (Elog ''[mat_mul] The number of f_width does not match k_height!'') (
     bindR (cint (f_height * k_width)) (\<lambda>res_size.
     bindR (palloc 4 res_size) (\<lambda>res_data.
     bindR (sgemm False f_height k_width f_width (arr_data array_input_f) f_width k_matrix k_width res_data k_width) (\<lambda>res_data.
     bindR (sealed res_data) (\<lambda>res_data.
       float4construct_md_array res_data res_size [f_height, k_width] [1, 1])))))))))))"

definition madd :: "'f::plus ArrayType \<Rightarrow> 'f ArrayType \<Rightarrow> ('f ArrayType \<times> 'f ArrayType) result" where
  "madd matrix1 matrix2 =
     bindR (ARR_DIMS matrix1 0) (\<lambda>res_rows.
     bindR (ARR_DIMS matrix1 1) (\<lambda>res_cols.
     bindR (cint (res_rows * res_cols)) (\<lambda>size.
     bindR (for_loop 0 size 1 (\<lambda>i matrix1_data.
         bindR (rd (arr_data matrix2) i) (\<lambda>y. modify matrix1_data i (\<lambda>x. x + y))) (map Some (arr_data matrix1))) (\<lambda>matrix1_data.
     bindR (sealed matrix1_data) (\<lambda>matrix1_data.
     bindR (float4construct_md_array matrix1_data size [res_rows, res_cols] [1, 1]) (\<lambda>res.
       Inr (matrix1\<lparr>arr_data := matrix1_data\<rparr>, res)))))))"

text \<open>\<open>sqrtf\<close> stands for the square root of the element type.\<close>

definition batchnorm :: "('f \<Rightarrow> 'f) \<Rightarrow> 'f::{plus,minus,divide} ArrayType \<Rightarrow> 'f ArrayType \<Rightarrow> 'f ArrayType result" where
  "batchnorm sqrtf input_arr args_arr =
     bindR (ARR_DIMS input_arr 0) (\<lambda>channel.
     bindR (ARR_DIMS input_arr 1) (\<lambda>nelems_channel.
     bindR (cint (channel * nelems_channel)) (\<lambda>size.
     bindR (palloc 4 size) (\<lambda>res_data.
     bindR (for_loop 0 channel 1 (\<lambda>c (res_data, offset).
         bindR (rd (arr_data args_arr) c) (\<lambda>scale.
         bindR (rd (arr_data args_arr) (channel + c)) (\<lambda>bias.
         bindR (rd (arr_data args_arr) (2 * channel + c)) (\<lambda>mean.
         bindR (rd (arr_data args_arr) (3 * channel + c)) (\<lambda>var.
         bindR (for_loop offset (offset + nelems_channel) 1 (\<lambda>i res_data.
             bindR (rd (arr_data input_arr) i) (\<lambda>x. wr res_data i ((x - mean) div sqrtf var + bias))) res_data)
           (\<lambda>res_data. Inr (res_data, offset + nelems_channel))))))) (res_data, 0)) (\<lambda>(res_data, offset).
     bindR (sealed res_data) (\<lambda>res_data.
       float4construct_md_array res_data size [channel, nelems_channel] [1, 1]))))))"

section \<open>What the operators compute\<close>

lemma sgemm_specD:
  assumes "sgemm_spec sgemm" "0 < M" "0 < N" "0 < K" "K \<le> lda" "(if transB then K else N) \<le> ldb"
    and "(M - 1) * lda + K \<le> length A"
    and "(if transB then (N - 1) * ldb + K else (K - 1) * ldb + N) \<le> length B" "M * N = length C"
  shows "sgemm transB (int M) (int N) (int K) A (int lda) B (int ldb) C (int N)
       = Inr (map Some (gemm_vals transB M N K A lda B ldb))"
proof -
  have "sgemm transB (int M) (int N) (int K) A (int lda) B (int ldb) C (int N)
      = Inr (blit C 0 (gemm_vals transB M N K A lda B ldb))"
    using assms unfolding sgemm_spec_def by simp
  then show ?thesis using assms(9) by (simp add: blit_full gemm_vals_def)
qed

lemma ref_sgemm_spec: "sgemm_spec ref_sgemm"
  by (simp add: sgemm_spec_def ref_sgemm_def)

definition biased :: "('f::plus \<Rightarrow> 'f) \<Rightarrow> 'f list \<Rightarrow> nat \<Rightarrow> nat \<Rightarrow> 'f list \<Rightarrow> 'f list" where
  "biased act bias M N xs = grid M N (\<lambda>c i. act (xs ! (c * N + i) + bias ! c))"

lemma length_biased [simp]: "length (biased act bias M N xs) = M * N"
  by (simp add: biased_def)

lemma add_bias_ok:
  assumes "length xs = M * N" "M \<le> length bias"
  shows "add_bias act bias (int M) (int N) (map Some xs) = Inr (map Some (biased act bias M N xs))"
proof -
  let ?body = "\<lambda>c (res_data, offset).
      bindR (for_loop offset (offset + int N) 1 (\<lambda>i res_data.
          bindR (rd bias c) (\<lambda>b. modify res_data i (\<lambda>x. act (x + b)))) res_data)
        (\<lambda>res_data. Inr (res_data, offset + int N))"
  have "for_loop 0 (int M) 1 ?body (map Some xs, 0)
      = Inr (blit (map Some xs) 0 (biased act bias M N xs), int (M * N))"
    unfolding biased_def
  proof (rule for_loop_rows)
    fix c and m' :: "'a buf"
    assume c: "c < M" and m': "length m' = length (map Some xs)"
      and eq: "\<forall>j < length (map Some xs). c * N \<le> j \<longrightarrow> m' ! j = map Some xs ! j"
    have le: "c * N + N \<le> length xs" using tile_fits [of c M 0 1 N] c assms(1) by simp
    have "for_loop (int (c * N)) (int (c * N) + int N) 1 (\<lambda>i res_data.
          bindR (rd bias (int c)) (\<lambda>b. modify res_data i (\<lambda>x. act (x + b)))) m'
        = Inr (blit m' (c * N) (map (\<lambda>k. act (xs ! (c * N + k) + bias ! c)) [0..<N]))"
      by (rule for_loop_modify) (use c m' eq le assms(2) in simp_all)
    then show "?body (int c) (m', int (c * N))
        = Inr (blit m' (c * N) (map (\<lambda>i. act (xs ! (c * N + i) + bias ! c)) [0..<N]), int (c * N) + int N)"
      by simp
  qed (use assms in simp)
  then show ?thesis using assms by (simp add: add_bias_def blit_full)
qed

lemma product_args:
  assumes "0 < (M :: nat)"
  shows "(M - Suc 0) * K + K = M * K"
  using assms by (cases M) simp_all

lemma kfm_unfold:
  assumes spec: "sgemm_spec sgemm" and dims: "0 < M" "0 < N" "0 < K"
    and len: "length ks = M * K" "length fs = N * K" and alloc: "4 * int (M * N) + 32 \<le> MaxAllocSize"
    and bias: "ARR_DIMS bv 0 = Inr nb" "nb = int M \<longrightarrow> M \<le> length (arr_data bv)"
  shows "kfm sgemm (matrix (int M) (int K) ks) (matrix (int N) (int K) fs) bv
    = Inr (matrix (int M) (int N)
        (let p = gemm_vals True M N K ks K fs K in if nb = int M then biased fmax0 (arr_data bv) M N p else p))"
proof -
  have g: "sgemm True (int M) (int N) (int K) ks (int K) fs (int K) (replicate (M * N) None) (int N)
      = Inr (map Some (gemm_vals True M N K ks K fs K))"
    by (rule sgemm_specD [OF spec]) (use dims len in \<open>simp_all add: product_args\<close>)
  have l: "length (gemm_vals True M N K ks K fs K) = M * N" by (simp add: gemm_vals_def)
  show ?thesis
    using bias add_bias_ok [OF l, of "arr_data bv" fmax0]
    by (simp add: kfm_def result_allocs [OF alloc] g l Let_def del: of_nat_mult)
qed

lemma gemm_vals_nth:
  "c < M \<Longrightarrow> i < N \<Longrightarrow> gemm_vals t M N K A lda B ldb ! (c * N + i) = gemm_cell t K A lda B ldb c i"
  by (simp add: gemm_vals_def)

lemma biased_nth:
  "c < M \<Longrightarrow> i < N \<Longrightarrow> biased act bias M N xs ! (c * N + i) = act (xs ! (c * N + i) + bias ! c)"
  by (simp add: biased_def)

text \<open>A loaded layer: both its weights can be fetched.\<close>

definition layer :: "nat list \<Rightarrow> 'f WeightPool option \<Rightarrow> string \<Rightarrow> 'f ArrayType \<Rightarrow> 'f ArrayType \<Rightarrow> bool" where
  "layer reg pool name v b \<longleftrightarrow> (\<exists>e f. holds_array e v \<and> holds_array f b
     \<and> (\<forall>m. need_weight reg pool (name @ ''_val'') m = Inr e)
     \<and> (\<forall>m. need_weight reg pool (name @ ''_bias'') m = Inr f))"

lemma layerE:
  assumes "layer reg pool name v b"
  obtains e f where "\<forall>m. need_weight reg pool (name @ ''_val'') m = Inr e"
    "\<forall>m. need_weight reg pool (name @ ''_bias'') m = Inr f"
    "entry_data e = Inr (arr_data v)" "entry_data f = Inr (arr_data b)"
    "\<forall>i < length (arr_dims v). entry_dim e (int i) = Inr (arr_dims v ! i)"
    "\<forall>i < length (arr_dims b). entry_dim f (int i) = Inr (arr_dims b ! i)"
proof -
  have dim: "entry_dim e (int i) = Inr (arr_dims a ! i)" if "holds_array e a" "i < length (arr_dims a)" for e i and a :: "'a ArrayType"
    using that by (auto simp: holds_array_def entry_dim_def rdb_def rd_def split: if_splits)
  from assms obtain e f where h: "holds_array e v" "holds_array f b"
    "\<forall>m. need_weight reg pool (name @ ''_val'') m = Inr e" "\<forall>m. need_weight reg pool (name @ ''_bias'') m = Inr f"
    unfolding layer_def by blast
  from h(1,2) have "entry_data e = Inr (arr_data v)" "entry_data f = Inr (arr_data b)"
    by (simp_all add: holds_array_def entry_data_def)
  with that [of e f] h dim show ?thesis by blast
qed

text \<open>Loading a model provides the layer; in particular for a model of one table.\<close>

lemma loaded_layer:
  assumes "pool_inv n pool" "model_loaded spi (pool_map pool) t" "table_arrays spi t = Some (v, b)" "length t \<le> 58"
  shows "layer reg (Some pool) t v b"
  using assms(2-4) by (auto simp: layer_def need_weight_ok [OF assms(1)] model_loaded_def short_keys)

definition one_table :: "'f ArrayType \<Rightarrow> 'f ArrayType \<Rightarrow> string \<Rightarrow> 'f SPI_result" where
  "one_table v b query = \<lparr>spi_ok = True, spi_processed = 1, spi_val = Some v, spi_bias = Some b\<rparr>"

lemma load_one_layer:
  assumes "wf_weight v" "wf_weight (b :: 'f ArrayType)" "length t \<le> 58"
    and "LRU_CACHE_SIZE + (4 * length (arr_data v) + 4 * length (arr_data b)) \<le> POOL_SIZE"
  shows "\<exists>p0 p. create_weight_pool 1 = Inr p0 \<and> load_model (one_table v b) [] (Some p0) 0 (Some (vector [Some t])) = Inr (Some p, 0)
     \<and> layer [] (Some p) t v b"
proof -
  obtain p0 where p0: "create_weight_pool 1 = Inr (p0 :: 'f WeightPool)" "pool_inv (2 ^ 21) p0"
    "current_memory_usage p0 = LRU_CACHE_SIZE"
    using create_weight_pool_ok [of 1] by auto
  have t: "table_arrays (one_table v b) t = Some (v, b)" by (simp add: table_arrays_def one_table_def)
  have "list_all (table_wf (one_table v b)) [t]" "current_memory_usage p0 + sum_list (map (table_bytes (one_table v b)) [t]) \<le> POOL_SIZE"
    using t assms p0(3) by (simp_all add: table_wf_def table_bytes_def)
  from load_tables_ok [OF p0(2) _ this(1) _ _ this(2), of "[]" 0] assms(3) obtain p where
    p: "load_tables (one_table v b) [] [Some t] (Some p0, 0) = Inr (Some p, 0)" "pool_inv (2 ^ 21 + 2) p"
      "model_loaded (one_table v b) (pool_map p) t"
    by auto
  with loaded_layer [OF p(2,3) t assms(3)] p0(1) show ?thesis
    by (auto simp: load_model_def ARR_NDIM_def)
qed

lemma layer_matrixE:
  assumes "layer reg pool name (matrix r c ks) (vector bs)"
  obtains e f where "\<forall>m. need_weight reg pool (name @ ''_val'') m = Inr e"
    "\<forall>m. need_weight reg pool (name @ ''_bias'') m = Inr f"
    "entry_data e = Inr ks" "entry_data f = Inr bs"
    "entry_dim e 0 = Inr r" "entry_dim e 1 = Inr c" "entry_dim f 0 = Inr (int (length bs))"
proof -
  from assms obtain e f where h: "\<forall>m. need_weight reg pool (name @ ''_val'') m = Inr e"
    "\<forall>m. need_weight reg pool (name @ ''_bias'') m = Inr f" "entry_data e = Inr ks" "entry_data f = Inr bs"
    "\<forall>i < 2. entry_dim e (int i) = Inr ([r, c] ! i)"
    "\<forall>i < 1. entry_dim f (int i) = Inr ([int (length bs)] ! i)"
    by (rule layerE) simp_all
  from h(5) [rule_format, of 0] h(5) [rule_format, of 1] h(6) [rule_format, of 0]
  have "entry_dim e 0 = Inr r" "entry_dim e 1 = Inr c" "entry_dim f 0 = Inr (int (length bs))" by simp_all
  from that [OF h(1-4) this] show ?thesis .
qed

lemma kfm_nt_unfold:
  assumes spec: "sgemm_spec sgemm" and dims: "0 < M" "0 < N" "0 < K"
    and len: "length ks = M * K" "length fs = K * N" and alloc: "4 * int (M * N) + 32 \<le> MaxAllocSize"
    and lay: "layer reg pool name (matrix (int M) (int K) ks) (vector bs)"
  shows "kfm_nt sgemm reg pool name (matrix (int K) (int N) fs) acti
    = Inr (matrix (int M) (int N)
        (let p = gemm_vals False M N K ks K fs N in
         if length bs = M then biased (if acti then fmax0 else (\<lambda>x. x)) bs M N p else p))"
proof -
  obtain e f where h: "\<forall>m. need_weight reg pool (name @ ''_val'') m = Inr e"
    "\<forall>m. need_weight reg pool (name @ ''_bias'') m = Inr f" "entry_data e = Inr ks" "entry_data f = Inr bs"
    "entry_dim e 0 = Inr (int M)" "entry_dim e 1 = Inr (int K)" "entry_dim f 0 = Inr (int (length bs))"
    using lay by (rule layer_matrixE)
  have g: "sgemm False (int M) (int N) (int K) ks (int K) fs (int N) (replicate (M * N) (Some 0)) (int N)
      = Inr (map Some (gemm_vals False M N K ks K fs N))"
    by (rule sgemm_specD [OF spec]) (use dims len in \<open>simp_all add: product_args\<close>)
  have l: "length (gemm_vals False M N K ks K fs N) = M * N" by (simp add: gemm_vals_def)
  show ?thesis
    using add_bias_ok [OF l, of bs] h
    by (simp add: kfm_nt_def result_allocs [OF alloc] g l Let_def del: of_nat_mult)
qed

lemma mat_mul_unfold:
  assumes spec: "sgemm_spec sgemm" and dims: "0 < M" "0 < N" "0 < K"
    and len: "length fs = M * K" "length ks = K * N" and alloc: "4 * int (M * N) + 32 \<le> MaxAllocSize"
    and lay: "layer reg pool name (matrix (int K) (int N) ks) b"
  shows "mat_mul sgemm reg pool (matrix (int M) (int K) fs) name
    = Inr (matrix (int M) (int N) (gemm_vals False M N K fs K ks N))"
proof -
  obtain e where h: "\<forall>m. need_weight reg pool (name @ ''_val'') m = Inr e" "entry_data e = Inr ks"
    "\<forall>i < 2. entry_dim e (int i) = Inr ([int K, int N] ! i)"
    using lay by (rule layerE) simp
  have g: "sgemm False (int M) (int N) (int K) fs (int K) ks (int N) (replicate (M * N) None) (int N)
      = Inr (map Some (gemm_vals False M N K fs K ks N))"
    by (rule sgemm_specD [OF spec]) (use dims len in \<open>simp_all add: product_args\<close>)
  have l: "length (gemm_vals False M N K fs K ks N) = M * N" by (simp add: gemm_vals_def)
  show ?thesis
    using h(3) [rule_format, of 0] h(3) [rule_format, of 1] h(1,2)
    by (simp add: mat_mul_def result_allocs [OF alloc] g l del: of_nat_mult)
qed

lemma mvm_row:
  assumes "length ks = M * K" "length vs = K" "i < M"
  shows "for_loop 0 (int K) 1 (\<lambda>j sum. bindR (rd ks (int i * int K + j)) (\<lambda>x.
      bindR (rd vs j) (\<lambda>v. Inr (sum + x * v)))) 0
    = Inr (sum_list (map (\<lambda>j. ks ! (i * K + j) * vs ! j) [0..<K]) :: 'f :: {monoid_add,times})"
proof -
  have "rd ks (int i * int K + int j) = Inr (ks ! (i * K + j))" if "j < K" for j
    using rd_nth [of "i * K + j" ks] tile_fits [OF assms(3) that, of 1] assms(1) by simp
  from for_loop_sum [of K _ "\<lambda>j. ks ! (i * K + j) * vs ! j" 0] this assms(2) show ?thesis by simp
qed

lemma mvm_unfold:
  assumes dims: "0 < M" and len: "length ks = M * K" "length vs = K" and alloc: "8 * int M \<le> MaxAllocSize"
    and lay: "layer reg (Some pool) name (matrix (int M) (int K) ks) (vector bs)"
  shows "mvm reg (Some pool) name (vector vs)
    = Inr (vector (map (\<lambda>i. let s = sum_list (map (\<lambda>j. ks ! (i * K + j) * vs ! j) [0..<K]) in
                         if length bs = M then s + bs ! i else s) [0..<M]) :: 'f :: {monoid_add,times} ArrayType)"
proof -
  let ?dot = "\<lambda>i. sum_list (map (\<lambda>j. ks ! (i * K + j) * vs ! j) [0..<K])"
  let ?v = "\<lambda>i. if length bs = M then ?dot i + bs ! i else ?dot i"
  obtain e f where h: "\<forall>m. need_weight reg (Some pool) (name @ ''_val'') m = Inr e"
    "\<forall>m. need_weight reg (Some pool) (name @ ''_bias'') m = Inr f" "entry_data e = Inr ks" "entry_data f = Inr bs"
    "entry_dim e 0 = Inr (int M)" "entry_dim e 1 = Inr (int K)" "entry_dim f 0 = Inr (int (length bs))"
    using lay by (rule layer_matrixE)
  let ?body = "\<lambda>i res_data.
         bindR (for_loop 0 (int K) 1 (\<lambda>j sum.
             bindR (rd ks (i * int K + j)) (\<lambda>x.
             bindR (rd vs j) (\<lambda>v. Inr (sum + x * v)))) 0) (\<lambda>sum.
         bindR (if length bs = M then bindR (rd bs i) (\<lambda>b. Inr (sum + b)) else Inr sum) (wr res_data i))"
  have "for_loop (int 0) (int M) 1 ?body (replicate M None) = Inr (blit (replicate M None) 0 (map ?v [0..<M]))"
    by (rule for_loop_fill) (use mvm_row [OF len] in auto)
  then have loop: "for_loop 0 (int M) 1 ?body (replicate M None) = Inr (map Some (map ?v [0..<M]))"
    by (simp add: blit_full)
  have p: "palloc 8 (int M) = Inr (replicate M None)" using alloc by (simp add: palloc_ok)
  have "construct_array (map ?v [0..<M]) (int M) = Inr (vector (map ?v [0..<M]))"
    using construct_array_vector [of "map ?v [0..<M]"] dims alloc by simp
  then show ?thesis
    using h by (simp add: mvm_def p loop len(2) Let_def del: map_map)
qed

lemma modify_all:
  assumes "n \<le> length xs"
    and "\<And>k m'. k < n \<Longrightarrow> body (int k) m' = modify m' (int k) (f k)"
  shows "for_loop 0 (int n) 1 body (map Some xs) = Inr (map Some (map (\<lambda>k. f k (xs ! k)) [0..<n] @ drop n xs))"
proof -
  have "for_loop (int 0) (int n) 1 body (map Some xs)
      = Inr (blit (map Some xs) 0 (map (\<lambda>k. f k (xs ! k)) [0..<n]))"
    by (rule for_loop_modify) (use assms in simp_all)
  then show ?thesis by (simp add: blit_def drop_map)
qed

lemma relu_unfold:
  assumes "length xs = M * N" and alloc: "4 * int (M * N) + 32 \<le> MaxAllocSize"
  shows "relu (matrix (int M) (int N) xs)
    = Inr (matrix (int M) (int N) (map fmax0 xs), matrix (int M) (int N) (map fmax0 xs))"
proof -
  have "for_loop 0 (int (M * N)) 1 (\<lambda>i data. modify data i fmax0) (map Some xs)
      = Inr (map Some (map (\<lambda>k. fmax0 (xs ! k)) [0..<M * N] @ drop (M * N) xs))"
    by (rule modify_all) (use assms in simp_all)
  also have "map (\<lambda>k. fmax0 (xs ! k)) [0..<M * N] @ drop (M * N) xs = map fmax0 xs"
    using assms(1) by (auto intro: nth_equalityI)
  finally have l: "for_loop 0 (int (M * N)) 1 (\<lambda>i data. modify data i fmax0) (map Some xs) = Inr (map Some (map fmax0 xs))" .
  show ?thesis
    using assms(1) by (simp add: relu_def result_allocs [OF alloc] l del: of_nat_mult map_map)
qed

lemma madd_unfold:
  assumes "length xs = M * N" "M * N \<le> length (arr_data m2)" and alloc: "4 * int (M * N) + 32 \<le> MaxAllocSize"
  shows "madd (matrix (int M) (int N) xs) m2
    = Inr (matrix (int M) (int N) (map2 (+) xs (arr_data m2)), matrix (int M) (int N) (map2 (+) xs (arr_data m2)))"
proof -
  let ?body = "\<lambda>i matrix1_data. bindR (rd (arr_data m2) i) (\<lambda>y. modify matrix1_data i (\<lambda>x. x + y))"
  have "for_loop 0 (int (M * N)) 1 ?body (map Some xs)
      = Inr (map Some (map (\<lambda>k. xs ! k + arr_data m2 ! k) [0..<M * N] @ drop (M * N) xs))"
    by (rule modify_all) (use assms in simp_all)
  also have "map (\<lambda>k. xs ! k + arr_data m2 ! k) [0..<M * N] @ drop (M * N) xs = map2 (+) xs (arr_data m2)"
    using assms(1,2) by (auto intro: nth_equalityI)
  finally have l: "for_loop 0 (int (M * N)) 1 ?body (map Some xs) = Inr (map Some (map2 (+) xs (arr_data m2)))" .
  show ?thesis
    using assms(1,2) by (simp add: madd_def result_allocs [OF alloc] l del: of_nat_mult map_map)
qed

lemma madd_short:
  assumes "length (arr_data m2) < M * N" "length xs = M * N" and alloc: "4 * int (M * N) + 32 \<le> MaxAllocSize"
  shows "madd (matrix (int M) (int N) xs) m2 = Inl (Undefined Out_of_bounds)"
proof -
  let ?body = "\<lambda>i matrix1_data. bindR (rd (arr_data m2) i) (\<lambda>y. modify matrix1_data i (\<lambda>x. x + y))"
  let ?n = "length (arr_data m2)"
  have "[0..<M * N] = [0..<?n] @ ?n # [Suc ?n..<M * N]"
    using assms(1) upt_add_eq_append [of 0 ?n "M * N - ?n"] by (simp add: upt_conv_Cons)
  then have "for_loop 0 (int (M * N)) 1 ?body (map Some xs)
      = bindR (foldR ?body (map int [0..<?n]) (map Some xs)) (foldR ?body (int ?n # map int [Suc ?n..<M * N]))"
    by (simp only: for_loop_steps zero_less_one steps_unit nat_int map_append list.map foldR_append)
  also have "foldR ?body (map int [0..<?n]) (map Some xs)
      = Inr (map Some (map (\<lambda>k. xs ! k + arr_data m2 ! k) [0..<?n] @ drop ?n xs))"
    using modify_all [of ?n xs ?body "\<lambda>k x. x + arr_data m2 ! k"] assms(1,2)
    by (simp add: for_loop_steps steps_unit)
  finally have "for_loop 0 (int (M * N)) 1 ?body (map Some xs) = Inl (Undefined Out_of_bounds)"
    by (simp add: rd_def)
  then show ?thesis by (simp add: madd_def result_allocs [OF alloc] del: of_nat_mult)
qed

lemma batchnorm_unfold:
  assumes len: "length xs = C * N" "4 * C \<le> length (arr_data args)" and alloc: "4 * int (C * N) + 32 \<le> MaxAllocSize"
  shows "batchnorm sqrtf (matrix (int C) (int N) xs) args = Inr (matrix (int C) (int N) (grid C N (\<lambda>c i.
      (xs ! (c * N + i) - arr_data args ! (2 * C + c)) div sqrtf (arr_data args ! (3 * C + c)) + arr_data args ! (C + c))))"
proof -
  let ?a = "arr_data args"
  let ?v = "\<lambda>c i. (xs ! (c * N + i) - ?a ! (2 * C + c)) div sqrtf (?a ! (3 * C + c)) + ?a ! (C + c)"
  let ?body = "\<lambda>c (res_data, offset).
         bindR (rd ?a c) (\<lambda>scale. bindR (rd ?a (int C + c)) (\<lambda>bias.
         bindR (rd ?a (2 * int C + c)) (\<lambda>mean. bindR (rd ?a (3 * int C + c)) (\<lambda>var.
         bindR (for_loop offset (offset + int N) 1 (\<lambda>i res_data.
             bindR (rd xs i) (\<lambda>x. wr res_data i ((x - mean) div sqrtf var + bias))) res_data)
           (\<lambda>res_data. Inr (res_data, offset + int N))))))"
  have "for_loop 0 (int C) 1 ?body (replicate (C * N) None, 0)
      = Inr (blit (replicate (C * N) None) 0 (grid C N ?v), int (C * N))"
  proof (rule for_loop_rows)
    fix c and m' :: "'a buf"
    assume c: "c < C" and m': "length m' = length (replicate (C * N) (None :: 'a option))"
    have le: "c * N + N \<le> C * N" using tile_fits [of c C 0 1 N] c by simp
    have "rd ?a (int c) = Inr (?a ! c)" "rd ?a (int C + int c) = Inr (?a ! (C + c))"
      "rd ?a (2 * int C + int c) = Inr (?a ! (2 * C + c))" "rd ?a (3 * int C + int c) = Inr (?a ! (3 * C + c))"
      using rd_nth [of c ?a] rd_nth [of "C + c" ?a] rd_nth [of "2 * C + c" ?a] rd_nth [of "3 * C + c" ?a] c len(2)
      by simp_all
    moreover have "for_loop (int (c * N)) (int (c * N) + int N) 1 (\<lambda>i res_data.
          bindR (rd xs i) (\<lambda>x. wr res_data i ((x - ?a ! (2 * C + c)) div sqrtf (?a ! (3 * C + c)) + ?a ! (C + c)))) m'
        = Inr (blit m' (c * N) (map (?v c) [0..<N]))"
    proof (rule for_loop_fill)
      fix k and m'' :: "'a buf" assume k: "k < N"
      have "rd xs (int (c * N) + int k) = Inr (xs ! (c * N + k))"
        using rd_nth [of "c * N + k" xs] le len(1) k by simp
      then show "bindR (rd xs (int (c * N) + int k)) (\<lambda>x. wr m'' (int (c * N) + int k)
          ((x - ?a ! (2 * C + c)) div sqrtf (?a ! (3 * C + c)) + ?a ! (C + c))) = wr m'' (int (c * N + k)) (?v c k)"
        by simp
    qed (use le m' in simp_all)
    ultimately show "?body (int c) (m', int (c * N)) = Inr (blit m' (c * N) (map (?v c) [0..<N]), int (c * N) + int N)"
      by simp
  qed simp
  then show ?thesis
    by (simp add: batchnorm_def result_allocs [OF alloc] blit_full del: of_nat_mult)
qed

section \<open>Properties\<close>

text \<open>
  C27: kfm on an M x K kernel matrix and an N x K matrix of unfolded windows returns the M x N matrix whose
  cell (c, i) is the inner product of kernel row c and window i, plus bias c, with negative values cut to
  zero.
\<close>

theorem kfm_computes_layer:
  assumes "sgemm_spec sgemm" "0 < M" "0 < N" "0 < K" "length ks = M * K" "length fs = N * K"
    and "4 * int (M * N) + 32 \<le> MaxAllocSize" "length bs = M"
  shows "\<exists>out. kfm sgemm (matrix (int M) (int K) ks) (matrix (int N) (int K) fs) (vector bs) = Inr (matrix (int M) (int N) out)
     \<and> (\<forall>c < M. \<forall>i < N. out ! (c * N + i)
          = fmax0 (sum_list (map (\<lambda>k. ks ! (c * K + k) * fs ! (i * K + k)) [0..<K]) + bs ! c))"
  using kfm_unfold [OF assms(1-7), of "vector bs"] assms(8)
  by (auto simp: Let_def biased_nth gemm_vals_nth gemm_cell_def)

theorem kfm_computes_layer_witness:
  "\<exists>out. kfm ref_sgemm (matrix 2 2 [1, 2, 3, - 4 :: int]) (matrix 1 2 [5, 6]) (vector [7, 8]) = Inr (matrix 2 1 out)
     \<and> out ! 0 = 24 \<and> out ! 1 = 0"
proof -
  obtain out where "kfm ref_sgemm (matrix 2 2 [1, 2, 3, - 4 :: int]) (matrix 1 2 [5, 6]) (vector [7, 8]) = Inr (matrix 2 1 out)"
    "\<forall>c < 2. \<forall>i < 1. out ! (c * 1 + i)
      = fmax0 (sum_list (map (\<lambda>k. [1, 2, 3, - 4] ! (c * 2 + k) * [5, 6] ! (i * 2 + k)) [0..<2]) + [7, 8] ! c)"
    using kfm_computes_layer [OF ref_sgemm_spec, of 2 1 2 "[1, 2, 3, - 4 :: int]" "[5, 6]" "[7, 8]"] by auto
  then show ?thesis by (auto simp: fmax0_def upt_rec)
qed

text \<open>
  When the length of the bias vector differs from the number of rows, kfm adds no bias and, because the
  activation sits in the same loop, applies no ReLU either: the bare product is returned.
\<close>

theorem kfm_bias_mismatch_skips_relu:
  assumes "sgemm_spec sgemm" "0 < M" "0 < N" "0 < K" "length ks = M * K" "length fs = N * K"
    and "4 * int (M * N) + 32 \<le> MaxAllocSize" "length bs \<noteq> M"
  shows "kfm sgemm (matrix (int M) (int K) ks) (matrix (int N) (int K) fs) (vector bs)
       = Inr (matrix (int M) (int N) (gemm_vals True M N K ks K fs K))"
  using kfm_unfold [OF assms(1-7), of "vector bs"] assms(8) by (simp add: Let_def)

theorem kfm_bias_mismatch_skips_relu_witness:
  "kfm ref_sgemm (matrix 1 1 [1 :: int]) (matrix 1 1 [- 5]) (vector [7, 8]) = Inr (matrix 1 1 [- 5])"
  using kfm_bias_mismatch_skips_relu [OF ref_sgemm_spec, of 1 1 1 "[1 :: int]" "[- 5]" "[7, 8]"]
  by (simp add: gemm_vals_def grid_def gemm_cell_def)

text \<open>
  kfm_nt on a loaded layer returns the product of the kernel matrix and the K x N input plus the bias, with
  the ReLU exactly when its flag is set.
\<close>

theorem kfm_nt_computes_layer:
  assumes "sgemm_spec sgemm" "0 < M" "0 < N" "0 < K" "length ks = M * K" "length fs = K * N"
    and "4 * int (M * N) + 32 \<le> MaxAllocSize" "layer reg pool name (matrix (int M) (int K) ks) (vector bs)" "length bs = M"
  shows "\<exists>out. kfm_nt sgemm reg pool name (matrix (int K) (int N) fs) acti = Inr (matrix (int M) (int N) out)
     \<and> (\<forall>c < M. \<forall>i < N. out ! (c * N + i) = (if acti then fmax0 else (\<lambda>x. x))
          (sum_list (map (\<lambda>k. ks ! (c * K + k) * fs ! (k * N + i)) [0..<K]) + bs ! c))"
  using kfm_nt_unfold [OF assms(1-8), of acti] assms(9)
  by (auto simp: Let_def biased_nth gemm_vals_nth gemm_cell_def)

theorem kfm_nt_computes_layer_witness:
  "\<exists>p0 p out. create_weight_pool 1 = Inr p0
     \<and> load_model (one_table (matrix 1 2 [1, 2 :: int]) (vector [7])) [] (Some p0) 0 (Some (vector [Some ''fc1''])) = Inr (Some p, 0)
     \<and> kfm_nt ref_sgemm [] (Some p) ''fc1'' (matrix 2 1 [5, - 9]) True = Inr (matrix 1 1 out) \<and> out ! 0 = 0"
proof -
  obtain p0 p where p: "create_weight_pool 1 = Inr p0"
    "load_model (one_table (matrix 1 2 [1, 2 :: int]) (vector [7])) [] (Some p0) 0 (Some (vector [Some ''fc1''])) = Inr (Some p, 0)"
    "layer [] (Some p) ''fc1'' (matrix (int 1) (int 2) [1, 2]) (vector [7])"
    using load_one_layer [of "matrix 1 2 [1, 2 :: int]" "vector [7]" "''fc1''"] by (auto simp: wf_weight_def)
  from kfm_nt_computes_layer [OF ref_sgemm_spec _ _ _ _ _ _ p(3), of 1 "[5, - 9]" True] p(1,2)
  show ?thesis by (auto simp: fmax0_def upt_rec)
qed

text \<open>
  mvm on a loaded layer returns the matrix-vector product, plus the bias when it has one entry per row.
\<close>

theorem mvm_computes_product:
  assumes "0 < M" "length ks = M * K" "length vs = K" "8 * int M \<le> MaxAllocSize"
    and "layer reg (Some pool) name (matrix (int M) (int K) ks) (vector bs)"
  shows "\<exists>out. mvm reg (Some pool) name (vector vs) = Inr (vector (out :: 'f :: {monoid_add,times} list)) \<and> length out = M
     \<and> (\<forall>i < M. out ! i = (let s = sum_list (map (\<lambda>j. ks ! (i * K + j) * vs ! j) [0..<K]) in
          if length bs = M then s + bs ! i else s))"
  by (intro exI conjI allI impI) (rule mvm_unfold [OF assms], simp_all add: Let_def)

theorem mvm_computes_product_witness:
  "\<exists>p0 p out. create_weight_pool 1 = Inr p0
     \<and> load_model (one_table (matrix 1 2 [1, 2 :: int]) (vector [7])) [] (Some p0) 0 (Some (vector [Some ''fc1''])) = Inr (Some p, 0)
     \<and> mvm [] (Some p) ''fc1'' (vector [5, 6]) = Inr (vector out) \<and> out ! 0 = 24"
proof -
  obtain p0 p where p: "create_weight_pool 1 = Inr p0"
    "load_model (one_table (matrix 1 2 [1, 2 :: int]) (vector [7])) [] (Some p0) 0 (Some (vector [Some ''fc1''])) = Inr (Some p, 0)"
    "layer [] (Some p) ''fc1'' (matrix (int 1) (int 2) [1, 2]) (vector [7])"
    using load_one_layer [of "matrix 1 2 [1, 2 :: int]" "vector [7]" "''fc1''"] by (auto simp: wf_weight_def)
  from mvm_computes_product [OF _ _ _ _ p(3), of "[5, 6]"] p(1,2)
  show ?thesis by (auto simp: upt_rec)
qed

text \<open>
  relu replaces every negative element by zero, and it does so in the array it was given: the argument
  is changed to the same contents. Applying it again changes nothing.
\<close>

theorem relu_in_place:
  assumes "length xs = M * N" "4 * int (M * N) + 32 \<le> MaxAllocSize"
  shows "\<exists>m'. relu (matrix (int M) (int N) xs) = Inr (m', m') \<and> relu m' = Inr (m', m')
     \<and> m' = matrix (int M) (int N) (map (\<lambda>x. max 0 x) (xs :: 'f :: {linorder,zero} list))"
proof -
  have f: "fmax0 = (\<lambda>x :: 'f. max 0 x)" by (rule ext) (auto simp: fmax0_def max_def)
  have "map fmax0 (map fmax0 xs) = map fmax0 xs" by (simp add: fmax0_def)
  with relu_unfold [OF assms] relu_unfold [of "map fmax0 xs" M N] assms show ?thesis
    by (auto simp: f simp del: map_map)
qed

theorem relu_in_place_witness:
  "relu (matrix 1 2 [3, - 4 :: int]) = Inr (matrix 1 2 [3, 0], matrix 1 2 [3, 0])"
  using relu_in_place [of "[3, - 4 :: int]" 1 2] by auto

text \<open>
  madd adds the second matrix to the first element by element, writing the sum into its first argument
  as well; when the second matrix has fewer elements than the first has cells, it reads past its end.
\<close>

theorem madd_adds_in_place:
  assumes "length xs = M * N" "4 * int (M * N) + 32 \<le> MaxAllocSize"
  shows "madd (matrix (int M) (int N) xs) m2 = (if M * N \<le> length (arr_data m2)
     then Inr (matrix (int M) (int N) (map2 (+) xs (arr_data m2)), matrix (int M) (int N) (map2 (+) xs (arr_data m2)))
     else Inl (Undefined Out_of_bounds))"
  using madd_unfold [OF assms(1) _ assms(2)] madd_short [OF _ assms] by simp

theorem madd_adds_in_place_witness:
  "madd (matrix 1 2 [3, 4 :: int]) (matrix 1 2 [5, 6]) = Inr (matrix 1 2 [8, 10], matrix 1 2 [8, 10])
   \<and> madd (matrix 1 2 [3, 4 :: int]) (matrix 1 1 [5]) = Inl (Undefined Out_of_bounds)"
  using madd_adds_in_place [of "[3, 4 :: int]" 1 2] by simp

text \<open>
  batchnorm normalises channel c to (x - mean c) / sqrt (var c) + bias c. Its scale argument has no
  effect: any two scale vectors give the same result.
\<close>

theorem batchnorm_ignores_scale:
  assumes "length xs = C * N" "length scale = C" "length bias = C" "length mean = C" "length var = C"
    and "4 * int (C * N) + 32 \<le> MaxAllocSize"
  shows "batchnorm sqrtf (matrix (int C) (int N) xs) (vector (scale @ bias @ mean @ var))
       = Inr (matrix (int C) (int N) (grid C N (\<lambda>c i. (xs ! (c * N + i) - mean ! c) div sqrtf (var ! c) + bias ! c)))"
proof -
  have a: "4 * C \<le> length (arr_data (vector (scale @ bias @ mean @ var)))" using assms by simp
  show ?thesis
    unfolding batchnorm_unfold [OF assms(1) a assms(6)]
    by (intro arg_cong [where f = Inr] arg_cong [where f = "matrix (int C) (int N)"] grid_cong)
      (use assms in \<open>simp add: nth_append\<close>)
qed

theorem batchnorm_ignores_scale_witness:
  "batchnorm (\<lambda>x. x) (matrix 1 2 [10, 16 :: int]) (vector [5, 1, 4, 3])
   = batchnorm (\<lambda>x. x) (matrix 1 2 [10, 16]) (vector [- 7, 1, 4, 3])"
  using batchnorm_ignores_scale [of "[10, 16 :: int]" 1 2 "[5]" "[1]" "[4]" "[3]" "\<lambda>x. x"]
    batchnorm_ignores_scale [of "[10, 16 :: int]" 1 2 "[- 7]" "[1]" "[4]" "[3]" "\<lambda>x. x"] by simp

end
