(* ===== verification/Conv.thy ===== *)
theory Conv
  imports Im2col Gemm_Ops
begin

text \<open>
  The convolution operators: \<open>kfm_im2col\<close>, \<open>kfm_im2col_ns\<close> and \<open>group_kfm_im2col\<close> of
  \<open>aqua_extension/src/conv.c\<close> and \<open>conv_text\<close> of \<open>aqua_extension/src/textcnn.c\<close>. Each unfolds its input into
  a matrix of windows with the kernels of \<open>Im2col\<close>, multiplies it by the weights of a loaded layer and adds
  the bias. The first three write the number of selected channels into the dimensions of the array they were
  given; they return that array and the result.
\<close>

section \<open>The operators\<close>

text \<open>
  The argument \<open>offset\<close> selects channels \<open>offset[0]\<close> to \<open>offset[1]\<close>. The result is the changed input array,
  the offset of the first selected element and the number of selected channels.
\<close>

definition select_channels ::
  "'f ArrayType \<Rightarrow> int ArrayType option \<Rightarrow> int \<Rightarrow> int \<Rightarrow> ('f ArrayType \<times> int \<times> int) result" where
  "select_channels array_input_f offset num_channel nelems_channel = (case offset of
     None \<Rightarrow> Inr (array_input_f, 0, num_channel)
   | Some offset_array \<Rightarrow>
       require (ARR_NDIM offset_array = 1) (Elog ''Offset must be an array of two integers'') (
       bindR (ARR_DIMS offset_array 0) (\<lambda>n.
       require (n = 2) (Elog ''Offset must be an array of two integers'') (
       bindR (bindR (rd (arr_data offset_array) 0) (\<lambda>o0. cint (o0 - 1))) (\<lambda>start_index.
       bindR (rd (arr_data offset_array) 1) (\<lambda>end_index.
       require (\<not> (start_index < 0 \<or> end_index > num_channel \<or> start_index \<ge> end_index))
         (Elog ''Invalid offset range'') (
       bindR (cint (start_index * nelems_channel)) (\<lambda>base.
         Inr (set_dim0 array_input_f (end_index - start_index), base, end_index - start_index))))))))) "

definition kfm_im2col ::
  "'f::{monoid_add,times,ord} sgemm \<Rightarrow> nat list \<Rightarrow> 'f WeightPool option \<Rightarrow> string \<Rightarrow> 'f ArrayType
   \<Rightarrow> int \<Rightarrow> int \<Rightarrow> int \<Rightarrow> int ArrayType option \<Rightarrow> ('f ArrayType \<times> 'f ArrayType) result" where
  "kfm_im2col sgemm reg pool kmatrix_name array_input_f kernel_size padding stride offset =
     bindR (ARR_DIMS array_input_f 0) (\<lambda>num_channel.
     bindR (ARR_DIMS array_input_f 1) (\<lambda>nelems_channel.
     bindR (select_channels array_input_f offset num_channel nelems_channel) (\<lambda>(array_input_f, base, num_channel).
     bindR (csqrt nelems_channel) (\<lambda>width. let height = width in
     bindR (conv_out_dim width padding kernel_size stride) (\<lambda>out_width.
     bindR (conv_out_dim height padding kernel_size stride) (\<lambda>out_height.
     bindR (cint (out_width * out_height * num_channel * kernel_size * kernel_size)) (\<lambda>out_nelems.
     bindR (palloc 4 out_nelems) (\<lambda>f_matrix.
     bindR (im2col_core (arr_data array_input_f) base num_channel nelems_channel f_matrix kernel_size padding stride) (\<lambda>f_matrix.
     let f_dims0 = out_width * out_height; f_dims1 = num_channel * kernel_size * kernel_size in
     require (pool \<noteq> None) (Elog ''[kfm_im2col] WEIGHT POOL is NULL'') (
     bindR (need_weight reg pool (kmatrix_name @ ''_val'') ''[kfm_im2col] val not found'') (\<lambda>kmatrix_entry.
     bindR (entry_data kmatrix_entry) (\<lambda>k_matrix.
     bindR (entry_dim kmatrix_entry 0) (\<lambda>k_channel.
     bindR (entry_dim kmatrix_entry 1) (\<lambda>klen.
     let res_rows = k_channel; res_cols = f_dims0 in
     bindR (cint (res_rows * res_cols)) (\<lambda>res_size.
     require (klen = f_dims1) (Elog ''The number of matrix columns must equal the number of vector elements'') (
     bindR (palloc 4 res_size) (\<lambda>res_data.
     bindR (sealed f_matrix) (\<lambda>f_matrix.
     bindR (sgemm True res_rows res_cols klen k_matrix klen f_matrix klen res_data res_cols) (\<lambda>res_data.
     bindR (need_weight reg pool (kmatrix_name @ ''_bias'') ''[kfm_im2col] bias not found'') (\<lambda>bias_entry.
     bindR (entry_dim bias_entry 0) (\<lambda>nbias.
     bindR (if nbias = k_channel
            then bindR (entry_data bias_entry) (\<lambda>bias. add_bias fmax0 bias k_channel res_cols res_data)
            else Inr res_data) (\<lambda>res_data.
     bindR (sealed res_data) (\<lambda>res_data.
     bindR (float4construct_md_array res_data res_size [res_rows, res_cols] [1, 1]) (\<lambda>res.
       Inr (array_input_f, res)))))))))))))))))))))))))"

definition kfm_im2col_ns ::
  "'f::{monoid_add,times,ord} sgemm \<Rightarrow> nat list \<Rightarrow> 'f WeightPool option \<Rightarrow> string \<Rightarrow> 'f ArrayType
   \<Rightarrow> int \<Rightarrow> int \<Rightarrow> int \<Rightarrow> int \<Rightarrow> int \<Rightarrow> int ArrayType option \<Rightarrow> ('f ArrayType \<times> 'f ArrayType) result" where
  "kfm_im2col_ns sgemm reg pool kmatrix_name array_input_f kernel_H kernel_W padding_H padding_W stride offset =
     bindR (ARR_DIMS array_input_f 0) (\<lambda>num_channel.
     bindR (ARR_DIMS array_input_f 1) (\<lambda>nelems_channel.
     bindR (select_channels array_input_f offset num_channel nelems_channel) (\<lambda>(array_input_f, base, num_channel).
     bindR (csqrt nelems_channel) (\<lambda>width. let height = width in
     bindR (conv_out_dim width padding_W kernel_W stride) (\<lambda>out_width.
     bindR (conv_out_dim height padding_H kernel_H stride) (\<lambda>out_height.
     bindR (cint (out_width * out_height * num_channel * kernel_W * kernel_H)) (\<lambda>out_nelems.
     bindR (palloc 4 out_nelems) (\<lambda>f_matrix.
     bindR (if kernel_H = 1
            then im2col_core_W (arr_data array_input_f) base num_channel nelems_channel f_matrix kernel_W padding_W stride
            else im2col_core_H (arr_data array_input_f) base num_channel nelems_channel f_matrix kernel_H padding_H stride) (\<lambda>f_matrix.
     let f_dims0 = out_width * out_height; f_dims1 = num_channel * kernel_H * kernel_W in
     bindR (need_weight reg pool (kmatrix_name @ ''_val'') ''[kfm_im2col_ns] val not found'') (\<lambda>kmatrix_entry.
     bindR (entry_data kmatrix_entry) (\<lambda>k_matrix.
     bindR (entry_dim kmatrix_entry 0) (\<lambda>k_channel.
     bindR (entry_dim kmatrix_entry 1) (\<lambda>klen.
     let res_rows = k_channel; res_cols = f_dims0 in
     bindR (cint (res_rows * res_cols)) (\<lambda>res_size.
     require (klen = f_dims1) (Elog ''The number of matrix columns must equal the number of vector elements'') (
     bindR (float4construct_md_array_ncpy res_size [res_rows, res_cols] [1, 1]) (\<lambda>res.
     bindR (sealed f_matrix) (\<lambda>f_matrix.
     bindR (sgemm True res_rows res_cols klen k_matrix klen f_matrix klen (map Some (arr_data res)) res_cols) (\<lambda>res_data.
     bindR (need_weight reg pool (kmatrix_name @ ''_bias'') ''[kfm_im2col] bias not found'') (\<lambda>bias_entry.
     bindR (entry_dim bias_entry 0) (\<lambda>nbias.
     bindR (if nbias = k_channel
            then bindR (entry_data bias_entry) (\<lambda>bias. add_bias fmax0 bias k_channel res_cols res_data)
            else Inr res_data) (\<lambda>res_data.
     bindR (sealed res_data) (\<lambda>res_data.
       Inr (array_input_f, res\<lparr>arr_data := res_data\<rparr>)))))))))))))))))))))))"

text \<open>
  \<open>group_kfm_im2col\<close>: the unfolded matrices of all groups lie in one allocation, as do the results. Releases
  are compiled without the assertion that the layer has one matrix per group.
\<close>

definition group_kfm_im2col ::
  "'f::{monoid_add,times,ord} sgemm \<Rightarrow> nat list \<Rightarrow> 'f WeightPool option \<Rightarrow> string \<Rightarrow> 'f ArrayType
   \<Rightarrow> int \<Rightarrow> int \<Rightarrow> int \<Rightarrow> int \<Rightarrow> ('f ArrayType \<times> 'f ArrayType) result" where
  "group_kfm_im2col sgemm reg pool kmatrix_name array_input_f kernel_size padding stride split_num =
     bindR (ARR_DIMS array_input_f 0) (\<lambda>total_num_channel.
     bindR (ARR_DIMS array_input_f 1) (\<lambda>nelems_channel.
     bindR (cmod total_num_channel split_num) (\<lambda>r.
     require (r = 0) (Elog ''The number of rows in the input array is not evenly divisible by split_num'') (
     bindR (cdiv total_num_channel split_num) (\<lambda>sub_num_channel.
     let array_input_f = set_dim0 array_input_f sub_num_channel in
     bindR (csqrt nelems_channel) (\<lambda>width. let height = width in
     bindR (bindR (cdiv (width + 2 * padding - kernel_size + 1) stride) cint) (\<lambda>out_width.
     bindR (bindR (cdiv (height + 2 * padding - kernel_size + 1) stride) cint) (\<lambda>out_height.
     bindR (cint (out_width * out_height * sub_num_channel * kernel_size * kernel_size)) (\<lambda>out_nelems.
     let f_dims0 = out_width * out_height; f_dims1 = sub_num_channel * kernel_size * kernel_size in
     bindR (need_weight reg pool (kmatrix_name @ ''_val'') ''[group_kfm_im2col] val not found'') (\<lambda>kmatrix_entry.
     bindR (entry_data kmatrix_entry) (\<lambda>k_matrix.
     bindR (entry_dim kmatrix_entry 1) (\<lambda>k_channel.
     bindR (entry_dim kmatrix_entry 2) (\<lambda>klen.
     let res_rows = k_channel; res_cols = f_dims0 in
     bindR (cint (res_rows * res_cols)) (\<lambda>res_size.
     require (klen = f_dims1) (Elog ''The number of matrix columns must equal the number of vector elements'') (
     bindR (palloc 4 (res_size * split_num)) (\<lambda>res_data.
     bindR (palloc 4 (out_nelems * split_num)) (\<lambda>f_matrix_all.
     require (0 < split_num) (Undefined Out_of_bounds) (
     bindR (for_loop 0 split_num 1 (\<lambda>gn f_matrix_all.
         at_offset f_matrix_all (gn * out_nelems) (\<lambda>f_matrix.
           im2col_core (arr_data array_input_f) (gn * nelems_channel * sub_num_channel) sub_num_channel nelems_channel
             f_matrix kernel_size padding stride)) f_matrix_all) (\<lambda>f_matrix_all.
     bindR (sealed f_matrix_all) (\<lambda>f_matrix_all.
     bindR (for_loop 0 split_num 1 (\<lambda>gn res_data.
         at_offset res_data (gn * res_size) (\<lambda>res_data.
           sgemm True res_rows res_cols klen (drop (nat (gn * k_channel * klen)) k_matrix) klen
             (drop (nat (gn * out_nelems)) f_matrix_all) klen res_data res_cols)) res_data) (\<lambda>res_data.
     bindR (need_weight reg pool (kmatrix_name @ ''_bias'') ''[group_kfm_im2col] bias not found'') (\<lambda>bias_entry.
     bindR (entry_dim bias_entry 0) (\<lambda>nbias.
     bindR (if nbias = split_num * k_channel
            then bindR (entry_data bias_entry) (\<lambda>bias. add_bias fmax0 bias (split_num * k_channel) res_cols res_data)
            else Inr res_data) (\<lambda>res_data.
     bindR (sealed res_data) (\<lambda>res_data.
     bindR (float4construct_md_array res_data (res_size * split_num) [res_rows * split_num, res_cols] [1, 1]) (\<lambda>res.
       Inr (array_input_f, res)))))))))))))))))))))))))))"

text \<open>
  \<open>fmax(a, b)\<close>: the greater value; a NaN loses against a number. \<open>-INFINITY\<close> is the least element \<^term>\<open>bot\<close>.
\<close>

definition fmaxf :: "'f::ord \<Rightarrow> 'f \<Rightarrow> 'f" where
  "fmaxf a b = (if b \<le> a then a else if a < b then b else if a \<le> a then a else b)"

definition conv_text ::
  "'f::{monoid_add,times,ord,bot} sgemm \<Rightarrow> nat list \<Rightarrow> 'f WeightPool option \<Rightarrow> string \<Rightarrow> 'f ArrayType
   \<Rightarrow> int \<Rightarrow> int \<Rightarrow> int \<Rightarrow> int \<Rightarrow> int \<Rightarrow> 'f ArrayType result" where
  "conv_text sgemm reg pool kmatrix_name array_input_f kernel_H kernel_W padding_H padding_W stride =
     bindR (ARR_DIMS array_input_f 0) (\<lambda>height.
     bindR (ARR_DIMS array_input_f 1) (\<lambda>width.
     let num_channel = 1 in
     bindR (cint (height * width)) (\<lambda>nelems_channel.
     bindR (conv_out_dim height padding_H kernel_H stride) (\<lambda>out_height.
     bindR (conv_out_dim width padding_W kernel_W stride) (\<lambda>out_width.
     bindR (cint (out_height * out_width * num_channel * kernel_W * kernel_H)) (\<lambda>out_nelems.
     bindR (palloc0 4 out_nelems) (\<lambda>f_matrix.
     bindR (for_loop 0 (height - kernel_H + 1) stride (\<lambda>rn.
         for_loop 0 (width - kernel_W + 1) stride (\<lambda>cn f_matrix.
           bindR (cdiv rn stride) (\<lambda>ro. bindR (cdiv cn stride) (\<lambda>co.
             let res_idx_local = (ro * out_width + co) * num_channel * kernel_H * kernel_W in
             bindR (window_plain (arr_data array_input_f) 0 width num_channel nelems_channel kernel_H kernel_W rn cn
                 (f_matrix, res_idx_local)) (\<lambda>(m, _). Inr m))))) f_matrix) (\<lambda>f_matrix.
     let f_dims0 = out_width * out_height; f_dims1 = num_channel * kernel_H * kernel_W in
     require (pool \<noteq> None) (Elog ''[conv_text] WEIGHT POOL is NULL'') (
     bindR (need_weight reg pool (kmatrix_name @ ''_val'') ''[kfm_im2col] val not found'') (\<lambda>kmatrix_entry.
     bindR (entry_data kmatrix_entry) (\<lambda>k_matrix.
     bindR (entry_dim kmatrix_entry 0) (\<lambda>k_channel.
     bindR (entry_dim kmatrix_entry 1) (\<lambda>klen.
     require (klen = f_dims1) (Elog ''The number of matrix columns must equal the number of vector elements'') (
     let res_rows = k_channel; res_cols = f_dims0 in
     bindR (palloc 4 (res_rows * res_cols)) (\<lambda>res_data.
     bindR (sealed f_matrix) (\<lambda>f_matrix.
     bindR (sgemm True res_rows res_cols klen k_matrix klen f_matrix klen res_data res_cols) (\<lambda>res_data.
     bindR (need_weight reg pool (kmatrix_name @ ''_bias'') ''[kfm_im2col] bias not found'') (\<lambda>bias_entry.
     bindR (entry_dim bias_entry 0) (\<lambda>nbias.
     bindR (if nbias = k_channel
            then bindR (entry_data bias_entry) (\<lambda>bias. add_bias fmax0 bias k_channel res_cols res_data)
            else Inr res_data) (\<lambda>res_data.
     bindR (palloc 8 res_rows) (\<lambda>max_res_data.
     bindR (for_loop 0 res_rows 1 (\<lambda>i max_res_data.
         bindR (for_loop 0 res_cols 1 (\<lambda>j pool_max.
             bindR (rdb res_data (i * res_cols + j)) (\<lambda>x. Inr (fmaxf pool_max x))) bot) (\<lambda>pool_max.
           wr max_res_data i pool_max)) max_res_data) (\<lambda>max_res_data.
     bindR (sealed max_res_data) (\<lambda>max_res_data.
       construct_array max_res_data res_rows)))))))))))))))))))))))"

section \<open>Convolution\<close>

text \<open>
  Output channel \<open>m\<close> at position \<open>(oy, ox)\<close> of the convolution of an image with a kernel of \<open>KH * KW\<close> cells
  per channel, stride \<open>S\<close> and paddings \<open>PH\<close>, \<open>PW\<close>; the weights of channel \<open>m\<close> start at \<open>m * (C * (KH * KW))\<close>.
\<close>

definition conv_at ::
  "'f::{monoid_add,times} list \<Rightarrow> 'f list \<Rightarrow> nat \<Rightarrow> nat \<Rightarrow> nat \<Rightarrow> nat \<Rightarrow> nat \<Rightarrow> nat \<Rightarrow> nat \<Rightarrow> nat \<Rightarrow> nat \<Rightarrow> nat
   \<Rightarrow> nat \<Rightarrow> nat \<Rightarrow> nat \<Rightarrow> 'f" where
  "conv_at ks src B NE H W C KH KW PH PW S m oy ox =
     sum_list (map (\<lambda>c. sum_list (map (\<lambda>ky. sum_list (map (\<lambda>kx.
       ks ! (m * (C * (KH * KW)) + (c * (KH * KW) + (ky * KW + kx)))
       * pixel src B NE H W c (int (oy * S + ky) - int PH) (int (ox * S + kx) - int PW))
       [0..<KW])) [0..<KH])) [0..<C])"

lemma gemm_cell_conv:
  assumes "oy < OH" "ox < OW"
  shows "gemm_cell True (C * (KH * KW)) ks (C * (KH * KW)) (im2col_vals src B NE H W C KH KW PH PW S OH OW) (C * (KH * KW))
           m (oy * OW + ox)
       = conv_at ks src B NE H W C KH KW PH PW S m oy ox"
proof -
  let ?v = "im2col_vals src B NE H W C KH KW PH PW S OH OW" and ?b = "C * (KH * KW)"
  have "gemm_cell True ?b ks ?b ?v ?b m (oy * OW + ox)
      = sum_list (map (\<lambda>c. sum_list (map (\<lambda>ky. sum_list (map (\<lambda>kx.
          ks ! (m * ?b + (c * (KH * KW) + (ky * KW + kx))) * ?v ! ((oy * OW + ox) * ?b + (c * (KH * KW) + (ky * KW + kx))))
          [0..<KW])) [0..<KH])) [0..<C])"
    by (simp add: gemm_cell_def sum_list_grid)
  also have "\<dots> = conv_at ks src B NE H W C KH KW PH PW S m oy ox"
    unfolding conv_at_def
    by (intro arg_cong [where f = sum_list] map_cong refl) (simp add: im2col_vals_nth assms)
  finally show ?thesis .
qed

text \<open>The matrix product, bias and activation that end every convolution operator.\<close>

definition conv_result :: "'f::{monoid_add,times,ord} list \<Rightarrow> 'f list \<Rightarrow> nat \<Rightarrow> nat \<Rightarrow> nat \<Rightarrow> 'f list \<Rightarrow> 'f list" where
  "conv_result ks bs M N K f =
     (let p = gemm_vals True M N K ks K f K in if length bs = M then biased fmax0 bs M N p else p)"

lemma length_conv_result [simp]: "length (conv_result ks bs M N K f) = M * N"
  by (simp add: conv_result_def gemm_vals_def Let_def)

lemma conv_result_nth:
  assumes "length bs = M" "m < M" "oy < OH" "ox < OW"
  shows "conv_result ks bs M (OH * OW) (C * (KH * KW)) (im2col_vals src B NE H W C KH KW PH PW S OH OW)
           ! (m * (OH * OW) + (oy * OW + ox))
       = fmax0 (conv_at ks src B NE H W C KH KW PH PW S m oy ox + bs ! m)"
proof -
  have "oy * OW + ox < OH * OW" using tile_fits [OF assms(3,4), of 1] by simp
  then show ?thesis
    using assms by (simp add: conv_result_def biased_nth gemm_vals_nth gemm_cell_conv)
qed

lemma gemm_bias_ok:
  assumes "sgemm_spec sgemm" "0 < M" "0 < N" "0 < K" "length ks = M * K" "length f = N * K" "length m = M * N"
  shows "sgemm True (int M) (int N) (int K) ks (int K) f (int K) m (int N) = Inr (map Some (gemm_vals True M N K ks K f K))"
  by (rule sgemm_specD [OF assms(1-4)]) (use assms in \<open>simp_all add: product_args\<close>)

lemma bias_ok:
  assumes "entry_data f = Inr bs" "cols = int N" "p = map Some (gemm_vals True M N K ks K fm K)"
  shows "(if int (length bs) = int M then bindR (entry_data f) (\<lambda>bias. add_bias fmax0 bias (int M) cols p) else Inr p)
       = Inr (map Some (conv_result ks bs M N K fm))"
  using add_bias_ok [of "gemm_vals True M N K ks K fm K" M N bs fmax0] assms
  by (simp add: conv_result_def gemm_vals_def Let_def)

section \<open>The operators on a loaded layer\<close>

lemma select_none [simp]: "select_channels a None n ne = Inr (a, 0, n)"
  by (simp add: select_channels_def)


lemma kfm_im2col_unfold:
  assumes spec: "sgemm_spec sgemm"
    and lay: "layer reg (Some pool) name (matrix (int M) (int (C * (K * K))) ks) (vector bs)"
    and sel: "select_channels (matrix T (int NE) xs) off T (int NE) = Inr (matrix (int C) (int NE) xs, int B, int C)"
    and ok: "conv_ok (xs, B, NE, W, C, K, P, S)" and OS: "OS = out_size W P K S"
    and pos: "0 < M" "0 < C" and len: "length ks = M * (C * (K * K))"
    and alloc: "4 * int ((OS * OS) * (C * (K * K))) + 32 \<le> MaxAllocSize" "4 * int (M * (OS * OS)) + 32 \<le> MaxAllocSize"
  shows "kfm_im2col sgemm reg (Some pool) name (matrix T (int NE) xs) (int K) (int P) (int S) off
    = Inr (matrix (int C) (int NE) xs, matrix (int M) (int (OS * OS))
        (conv_result ks bs M (OS * OS) (C * (K * K)) (im2col_vals xs B NE W W C K K P P S OS OS)))"
proof -
  obtain e f where h: "\<forall>m. need_weight reg (Some pool) (name @ ''_val'') m = Inr e"
    "\<forall>m. need_weight reg (Some pool) (name @ ''_bias'') m = Inr f" "entry_data e = Inr ks" "entry_data f = Inr bs"
    "entry_dim e 0 = Inr (int M)" "entry_dim e 1 = Inr (int (C * (K * K)))" "entry_dim f 0 = Inr (int (length bs))"
    using lay by (rule layer_matrixE)
  let ?v = "im2col_vals xs B NE W W C K K P P S OS OS"
  have K: "0 < K" "0 < OS" using ok OS by simp_all
  have sq: "csqrt (int NE) = Inr (int W)" using ok by (auto simp: csqrt_def)
  have out: "conv_out_dim (int W) (int P) (int K) (int S) = Inr (int OS)"
    unfolding OS by (rule conv_out_dim_ok) (use ok in simp_all)
  have n: "int (OS * OS) * int C * int K * int K = int (OS * OS) * int (C * (K * K))" by simp
  have fill: "im2col_core xs (int B) (int C) (int NE) (replicate ((OS * OS) * (C * (K * K))) None) (int K) (int P) (int S)
      = Inr (map Some ?v)"
    using square.fresh [OF ok] by (simp add: OS [symmetric] mult.assoc del: One_nat_def add_Suc_right add_0_right)
  have d: "int C * int K * int K = int (C * (K * K))" "int OS * int OS = int (OS * OS)" by simp_all
  have g: "sgemm True (int M) (int (OS * OS)) (int (C * (K * K))) ks (int (C * (K * K))) ?v (int (C * (K * K)))
        (replicate (M * (OS * OS)) None) (int (OS * OS))
      = Inr (map Some (gemm_vals True M (OS * OS) (C * (K * K)) ks (C * (K * K)) ?v (C * (K * K))))"
    by (rule gemm_bias_ok [OF spec]) (use pos K len in \<open>simp_all add: mult.assoc\<close>)
  show ?thesis
    using h unfolding kfm_im2col_def
    by (simp add: sel sq out n d result_allocs [OF alloc(1)] result_allocs [OF alloc(2)] fill g bias_ok [OF h(4) d(2) refl] Let_def
        del: of_nat_mult of_nat_eq_iff)
qed

lemma kfm_im2col_ns_unfold:
  assumes spec: "sgemm_spec sgemm"
    and lay: "layer reg (Some pool) name (matrix (int M) (int (C * (KH * KW))) ks) (vector bs)"
    and sel: "select_channels (matrix T (int NE) xs) off T (int NE) = Inr (matrix (int C) (int NE) xs, int B, int C)"
    and sq: "csqrt (int NE) = Inr (int W)"
    and outW: "conv_out_dim (int W) (int PW) (int KW) (int S) = Inr (int OW)"
    and outH: "conv_out_dim (int W) (int PH) (int KH) (int S) = Inr (int OH)"
    and fill: "(if int KH = 1
        then im2col_core_W (arr_data (matrix (int C) (int NE) xs)) (int B) (int C) (int NE) (replicate ((OW * OH) * (C * (KH * KW))) None) (int KW) (int PW) (int S)
        else im2col_core_H (arr_data (matrix (int C) (int NE) xs)) (int B) (int C) (int NE) (replicate ((OW * OH) * (C * (KH * KW))) None) (int KH) (int PH) (int S))
      = Inr (map Some v)" and v: "length v = (OW * OH) * (C * (KH * KW))"
    and pos: "0 < M" "0 < C" "0 < KH" "0 < KW" "0 < OW" "0 < OH" and len: "length ks = M * (C * (KH * KW))"
    and alloc: "4 * int ((OW * OH) * (C * (KH * KW))) + 32 \<le> MaxAllocSize" "4 * int (M * (OW * OH)) + 32 \<le> MaxAllocSize"
  shows "kfm_im2col_ns sgemm reg (Some pool) name (matrix T (int NE) xs) (int KH) (int KW) (int PH) (int PW) (int S) off
    = Inr (matrix (int C) (int NE) xs, matrix (int M) (int (OW * OH)) (conv_result ks bs M (OW * OH) (C * (KH * KW)) v))"
proof -
  obtain e f where h: "\<forall>m. need_weight reg (Some pool) (name @ ''_val'') m = Inr e"
    "\<forall>m. need_weight reg (Some pool) (name @ ''_bias'') m = Inr f" "entry_data e = Inr ks" "entry_data f = Inr bs"
    "entry_dim e 0 = Inr (int M)" "entry_dim e 1 = Inr (int (C * (KH * KW)))" "entry_dim f 0 = Inr (int (length bs))"
    using lay by (rule layer_matrixE)
  have n: "int (OW * OH) * int C * int KW * int KH = int (OW * OH) * int (C * (KH * KW))" by simp
  have d: "int C * int KH * int KW = int (C * (KH * KW))" "int OW * int OH = int (OW * OH)" by simp_all
  have r: "float4construct_md_array_ncpy (int (M * (OW * OH))) [int M, int (OW * OH)] [1, 1]
      = Inr (matrix (int M) (int (OW * OH)) (replicate (M * (OW * OH)) 0))"
    using float4construct_md_array_ncpy_matrix [of "int (M * (OW * OH))"] alloc(2) by (simp del: of_nat_mult)
  have g: "sgemm True (int M) (int (OW * OH)) (int (C * (KH * KW))) ks (int (C * (KH * KW))) v (int (C * (KH * KW)))
        (replicate (M * (OW * OH)) (Some 0)) (int (OW * OH))
      = Inr (map Some (gemm_vals True M (OW * OH) (C * (KH * KW)) ks (C * (KH * KW)) v (C * (KH * KW))))"
    by (rule gemm_bias_ok [OF spec]) (use pos v len in \<open>simp_all add: mult.assoc\<close>)
  show ?thesis
    using h unfolding kfm_im2col_ns_def
    by (simp add: sel sq outW outH n d result_allocs [OF alloc(1)] result_allocs [OF alloc(2)] fill r g
        bias_ok [OF h(4) d(2) refl] Let_def del: of_nat_mult of_nat_eq_iff of_nat_eq_1_iff of_nat_1_eq_iff split del: if_split)
qed

lemma kfm_im2col_row:
  assumes spec: "sgemm_spec sgemm"
    and lay: "layer reg (Some pool) name (matrix (int M) (int (C * (1 * K))) ks) (vector bs)"
    and sel: "select_channels (matrix T (int NE) xs) off T (int NE) = Inr (matrix (int C) (int NE) xs, int B, int C)"
    and ok: "conv_ok (xs, B, NE, W, C, K, P, S)" and OW: "OW = out_size W P K S" and OH: "OH = out_size W 0 1 S"
    and pos: "0 < M" "0 < C" and len: "length ks = M * (C * (1 * K))"
    and alloc: "4 * int ((OW * OH) * (C * (1 * K))) + 32 \<le> MaxAllocSize" "4 * int (M * (OW * OH)) + 32 \<le> MaxAllocSize"
  shows "kfm_im2col_ns sgemm reg (Some pool) name (matrix T (int NE) xs) 1 (int K) 0 (int P) (int S) off
    = Inr (matrix (int C) (int NE) xs, matrix (int M) (int (OW * OH))
        (conv_result ks bs M (OW * OH) (C * (1 * K)) (im2col_vals xs B NE W W C 1 K 0 P S OH OW)))"
proof -
  have fill: "im2col_core_W xs (int B) (int C) (int NE) (replicate ((OW * OH) * (C * (1 * K))) None) (int K) (int P) (int S)
      = Inr (map Some (im2col_vals xs B NE W W C 1 K 0 P S OH OW))"
  proof -
    have v: "core_W_vals (xs, B, NE, W, C, K, P, S) = im2col_vals xs B NE W W C 1 K 0 P S OH OW" by (simp add: OW OH)
    have "length (core_W_vals (xs, B, NE, W, C, K, P, S)) = (OW * OH) * (C * (1 * K))" unfolding v by simp
    from wide.fresh [OF ok this] v show ?thesis by simp
  qed
  have o: "conv_out_dim (int W) (int P) (int K) (int S) = Inr (int OW)" "conv_out_dim (int W) (int 0) (int 1) (int S) = Inr (int OH)"
    unfolding OW OH by (rule conv_out_dim_ok; use ok in simp)+
  have sq: "csqrt (int NE) = Inr (int W)" and p: "0 < K" "0 < OW" "0 < OH" using ok OW OH by (auto simp: csqrt_def)
  have "kfm_im2col_ns sgemm reg (Some pool) name (matrix T (int NE) xs) (int 1) (int K) (int 0) (int P) (int S) off
    = Inr (matrix (int C) (int NE) xs, matrix (int M) (int (OW * OH))
        (conv_result ks bs M (OW * OH) (C * (1 * K)) (im2col_vals xs B NE W W C 1 K 0 P S OH OW)))"
    by (rule kfm_im2col_ns_unfold [OF spec lay sel sq o _ _ pos _ p len alloc]) (use fill in simp_all)
  then show ?thesis by simp
qed

lemma kfm_im2col_column:
  assumes spec: "sgemm_spec sgemm"
    and lay: "layer reg (Some pool) name (matrix (int M) (int (C * (K * 1))) ks) (vector bs)"
    and sel: "select_channels (matrix T (int NE) xs) off T (int NE) = Inr (matrix (int C) (int NE) xs, int B, int C)"
    and ok: "conv_ok (xs, B, NE, W, C, K, P, S)" and OH: "OH = out_size W P K S" and pitch: "OH = out_size W 0 1 S"
    and pos: "0 < M" "0 < C" "K \<noteq> 1" and len: "length ks = M * (C * (K * 1))"
    and alloc: "4 * int ((OH * OH) * (C * (K * 1))) + 32 \<le> MaxAllocSize" "4 * int (M * (OH * OH)) + 32 \<le> MaxAllocSize"
  shows "kfm_im2col_ns sgemm reg (Some pool) name (matrix T (int NE) xs) (int K) 1 (int P) 0 (int S) off
    = Inr (matrix (int C) (int NE) xs, matrix (int M) (int (OH * OH))
        (conv_result ks bs M (OH * OH) (C * (K * 1)) (im2col_vals xs B NE W W C K 1 P 0 S OH OH)))"
proof -
  have hk: "core_H_ok (xs, B, NE, W, C, K, P, S)" using ok OH pitch by simp
  have v: "core_H_vals (xs, B, NE, W, C, K, P, S) = im2col_vals xs B NE W W C K 1 P 0 S OH OH" by (simp add: OH)
  have "length (core_H_vals (xs, B, NE, W, C, K, P, S)) = (OH * OH) * (C * (K * 1))" unfolding v by simp
  from tall.fresh [OF hk this] v
  have fill: "im2col_core_H xs (int B) (int C) (int NE) (replicate ((OH * OH) * (C * (K * 1))) None) (int K) (int P) (int S)
      = Inr (map Some (im2col_vals xs B NE W W C K 1 P 0 S OH OH))"
    by simp
  have o: "conv_out_dim (int W) (int 0) (int 1) (int S) = Inr (int OH)" "conv_out_dim (int W) (int P) (int K) (int S) = Inr (int OH)"
    using ok conv_out_dim_ok [of 1 W 0 S] conv_out_dim_ok [of K W P S] OH pitch by simp_all
  have sq: "csqrt (int NE) = Inr (int W)" and p: "0 < K" "0 < OH" using ok OH by (auto simp: csqrt_def)
  have "kfm_im2col_ns sgemm reg (Some pool) name (matrix T (int NE) xs) (int K) (int 1) (int P) (int 0) (int S) off
    = Inr (matrix (int C) (int NE) xs, matrix (int M) (int (OH * OH))
        (conv_result ks bs M (OH * OH) (C * (K * 1)) (im2col_vals xs B NE W W C K 1 P 0 S OH OH)))"
    by (rule kfm_im2col_ns_unfold [OF spec lay sel sq o _ _ pos(1,2) p(1) _ p(2,2) len alloc]) (use fill pos(3) in simp_all)
  then show ?thesis by simp
qed

text \<open>Grouped convolution: group \<open>g\<close> uses its own channels, kernels and bias entries.\<close>

definition group_windows :: "'f::zero list \<Rightarrow> nat \<Rightarrow> nat \<Rightarrow> nat \<Rightarrow> nat \<Rightarrow> nat \<Rightarrow> nat \<Rightarrow> nat \<Rightarrow> 'f list" where
  "group_windows xs NE W C K P S g = core_vals (xs, g * NE * C, NE, W, C, K, P, S)"

definition group_result ::
  "'f::{monoid_add,times,ord} list \<Rightarrow> 'f list \<Rightarrow> nat \<Rightarrow> nat \<Rightarrow> nat \<Rightarrow> nat \<Rightarrow> (nat \<Rightarrow> 'f list) \<Rightarrow> 'f list" where
  "group_result ks bs G M N K v =
     (let p = concat (map (\<lambda>g. gemm_vals True M N K (drop (g * (M * K)) ks) K (v g) K) [0..<G])
      in if length bs = G * M then biased fmax0 bs (G * M) N p else p)"

lemma length_group_result: "length (group_result ks bs G M N K v) = G * (M * N)"
proof -
  have "length (concat (map (\<lambda>g. gemm_vals True M N K (drop (g * (M * K)) ks) K (v g) K) [0..<G])) = G * (M * N)"
    using length_concat_const [of "[0..<G]" "\<lambda>g. gemm_vals True M N K (drop (g * (M * K)) ks) K (v g) K" "M * N"]
    by (simp add: gemm_vals_def)
  then show ?thesis by (simp add: group_result_def Let_def mult.assoc)
qed

lemma group_bias:
  assumes "entry_data f = Inr bs" "cols = int N"
    and "p = concat (map (\<lambda>g. gemm_vals True M N K (drop (g * (M * K)) ks) K (v g) K) [0..<G])"
  shows "(if int (length bs) = int G * int M
        then bindR (entry_data f) (\<lambda>bias. add_bias fmax0 bias (int G * int M) cols (map Some p)) else Inr (map Some p))
      = Inr (map Some (group_result ks bs G M N K v))"
proof -
  have lp: "length p = (G * M) * N"
    using length_concat_const [of "[0..<G]" "\<lambda>g. gemm_vals True M N K (drop (g * (M * K)) ks) K (v g) K" "M * N"]
    by (simp add: gemm_vals_def assms(3))
  show ?thesis
  proof (cases "length bs = G * M")
    case True
    then show ?thesis using add_bias_ok [OF lp, of bs fmax0] assms by (simp add: group_result_def)
  next
    case False
    then have "int (length bs) \<noteq> int G * int M" by (simp flip: of_nat_mult)
    then show ?thesis using False assms by (simp add: group_result_def)
  qed
qed

lemma gemm_vals_cong:
  assumes "\<And>j. j < N * K \<Longrightarrow> B ! j = B' ! j"
  shows "gemm_vals True M N K A lda B K = gemm_vals True M N K A lda B' K"
proof -
  have "j * K + k < N * K" if "j < N" "k < K" for j k using tile_fits [OF that, of 1] by simp
  then show ?thesis
    unfolding gemm_vals_def gemm_cell_def
    by (intro grid_cong arg_cong [where f = sum_list] map_cong) (auto simp: assms)
qed

lemma drop_concat_nth:
  assumes "\<And>g. g < G \<Longrightarrow> length (v g) = n" "g < G" "j < n"
  shows "drop (g * n) (concat (map v [0..<G])) ! j = v g ! j"
proof -
  have l: "length (concat (map v [0..<G])) = G * n" using length_concat_const [of "[0..<G]" v n] assms(1) by simp
  have "g * n + j < G * n" using tile_fits [of g G 0 1 n] assms(2,3) by simp
  then show ?thesis using concat_nth_const [of "[0..<G]" v n g j] assms l by simp
qed

lemma group_product:
  assumes spec: "sgemm_spec sgemm" and pos: "0 < M" "0 < N" "0 < K"
    and len: "length ks = G * (M * K)" "\<And>g. g < G \<Longrightarrow> length (v g) = N * K" and m: "length m = G * (M * N)"
  shows "for_loop 0 (int G) 1 (\<lambda>gn res_data. at_offset res_data (gn * int (M * N)) (\<lambda>res_data.
           sgemm True (int M) (int N) (int K) (drop (nat (gn * int M * int K)) ks) (int K)
             (drop (nat (gn * int (N * K))) (concat (map v [0..<G]))) (int K) res_data (int N))) m
       = Inr (map Some (concat (map (\<lambda>g. gemm_vals True M N K (drop (g * (M * K)) ks) K (v g) K) [0..<G])))"
proof -
  let ?vs = "\<lambda>g. gemm_vals True M N K (drop (g * (M * K)) ks) K (v g) K"
  let ?all = "concat (map v [0..<G])"
  have la: "length ?all = G * (N * K)" using length_concat_const [of "[0..<G]" v "N * K"] len(2) by simp
  have call: "sgemm True (int M) (int N) (int K) (drop (nat (int g * int M * int K)) ks) (int K)
      (drop (nat (int g * int (N * K))) ?all) (int K) m' (int N) = Inr (blit m' 0 (?vs g))"
    if g: "g < G" and m': "M * N \<le> length m'" for g m'
  proof -
    have off: "nat (int g * int M * int K) = g * (M * K)" "nat (int g * int (N * K)) = g * (N * K)"
      by (simp_all add: nat_mult_distrib mult.assoc)
    have "g * (M * K) + M * K \<le> length ks" "g * (N * K) + N * K \<le> length ?all"
      using tile_fits [of g G 0 1 "M * K"] tile_fits [of g G 0 1 "N * K"] g len(1) la by simp_all
    then have "sgemm True (int M) (int N) (int K) (drop (g * (M * K)) ks) (int K) (drop (g * (N * K)) ?all) (int K) m' (int N)
        = Inr (blit m' 0 (gemm_vals True M N K (drop (g * (M * K)) ks) K (drop (g * (N * K)) ?all) K))"
      using spec pos m' unfolding sgemm_spec_def by (simp add: product_args)
    moreover have "gemm_vals True M N K (drop (g * (M * K)) ks) K (drop (g * (N * K)) ?all) K = ?vs g"
      by (rule gemm_vals_cong) (rule drop_concat_nth [OF len(2) g])
    ultimately show ?thesis by (simp only: off)
  qed
  have "for_loop 0 (int G) 1 (\<lambda>gn res_data. at_offset res_data (gn * int (M * N)) (\<lambda>res_data.
           sgemm True (int M) (int N) (int K) (drop (nat (gn * int M * int K)) ks) (int K)
             (drop (nat (gn * int (N * K))) ?all) (int K) res_data (int N))) m = Inr (blit m 0 (concat (map ?vs [0..<G])))"
    by (rule for_loop_groups) (use call m in \<open>simp_all add: gemm_vals_def\<close>)
  moreover have "length (concat (map ?vs [0..<G])) = length m"
    using length_concat_const [of "[0..<G]" ?vs "M * N"] m by (simp add: gemm_vals_def)
  ultimately show ?thesis by (simp add: blit_full)
qed

lemma group_result_nth:
  assumes "length bs = G * M" "g < G" "m < M" "oy < OS" "ox < OS" and OS: "OS = out_size W P K S"
  shows "group_result ks bs G M (OS * OS) (C * (K * K)) (group_windows xs NE W C K P S) ! ((g * M + m) * (OS * OS) + (oy * OS + ox))
       = fmax0 (conv_at (drop (g * (M * (C * (K * K)))) ks) xs (g * NE * C) NE W W C K K P P S m oy ox + bs ! (g * M + m))"
proof -
  let ?N = "OS * OS" and ?K = "C * (K * K)"
  let ?v = "\<lambda>g. gemm_vals True M ?N ?K (drop (g * (M * ?K)) ks) ?K (group_windows xs NE W C K P S g) ?K"
  have i: "oy * OS + ox < ?N" using tile_fits [OF assms(4,5), of 1] by simp
  have r: "g * M + m < G * M" using tile_fits [OF assms(2,3), of 1] by simp
  have mi: "m * ?N + (oy * OS + ox) < M * ?N" using tile_fits [OF assms(3) i, of 1] by simp
  have v: "group_windows xs NE W C K P S g = im2col_vals xs (g * NE * C) NE W W C K K P P S OS OS"
    by (simp add: group_windows_def OS)
  have "concat (map ?v [0..<G]) ! (g * (M * ?N) + (m * ?N + (oy * OS + ox))) = ?v g ! (m * ?N + (oy * OS + ox))"
    using concat_nth_const [of "[0..<G]" ?v "M * ?N" g "m * ?N + (oy * OS + ox)"] mi assms(2) by (simp add: gemm_vals_def)
  also have "g * (M * ?N) + (m * ?N + (oy * OS + ox)) = (g * M + m) * ?N + (oy * OS + ox)" by (simp add: algebra_simps)
  finally show ?thesis
    using biased_nth [OF r i, of fmax0 bs "concat (map ?v [0..<G])"] assms(1)
    by (simp add: group_result_def gemm_vals_nth [OF assms(3) i] v gemm_cell_conv [OF assms(4,5)])
qed

lemma group_conv_ok:
  assumes "conv_ok (xs, 0, NE, W, G * C, K, P, S)" "g < G"
  shows "conv_ok (xs, g * NE * C, NE, W, C, K, P, S)"
proof -
  have "g * NE * C + C * NE \<le> G * C * NE" using tile_fits [of g G 0 1 "C * NE"] assms(2) by (simp add: algebra_simps)
  then show ?thesis using assms(1) by (auto simp: holds_image_def)
qed

lemma floor_dim_ok:
  assumes "0 < K" "K \<le> W + 2 * P" "0 < S" "int (W + 2 * P) < INT_MAX"
  shows "bindR (cdiv (int W + 2 * int P - int K + 1) (int S)) cint = Inr (int ((W + 2 * P - K + 1) div S))"
proof -
  have q: "int W + 2 * int P - int K + 1 = int (W + 2 * P - K + 1)" using assms(2) by simp
  have "(W + 2 * P - K + 1) div S \<le> W + 2 * P" using assms(1,2) by (intro order_trans [OF div_le_dividend]) auto
  then have "in_int (int ((W + 2 * P - K + 1) div S))" using assms(4) by (auto simp: in_int_def)
  moreover have "cdiv (int (W + 2 * P - K + 1)) (int S) = Inr (int ((W + 2 * P - K + 1) div S))"
    using assms(3) by (simp add: cdiv_nonneg zdiv_int del: of_nat_add of_nat_Suc)
  ultimately show ?thesis unfolding q by simp
qed

lemma group_fill:
  assumes ok: "\<And>g. g < G \<Longrightarrow> conv_ok (xs, g * NE * C, NE, W, C, K, P, S)" and OS: "OS = out_size W P K S"
    and m: "length m = G * ((OS * OS) * (C * (K * K)))"
  shows "for_loop 0 (int G) 1 (\<lambda>gn f_matrix_all. at_offset f_matrix_all (gn * int ((OS * OS) * (C * (K * K)))) (\<lambda>f_matrix.
           im2col_core xs (gn * int NE * int C) (int C) (int NE) f_matrix (int K) (int P) (int S))) m
       = Inr (map Some (concat (map (group_windows xs NE W C K P S) [0..<G])))"
proof -
  let ?n = "(OS * OS) * (C * (K * K))"
  have vals: "core_vals (xs, g * NE * C, NE, W, C, K, P, S) = im2col_vals xs (g * NE * C) NE W W C K K P P S OS OS" for g
    by (simp add: OS)
  have len: "length (core_vals (xs, g * NE * C, NE, W, C, K, P, S)) = ?n" for g unfolding vals by simp
  have "for_loop 0 (int G) 1 (\<lambda>gn f_matrix_all. at_offset f_matrix_all (gn * int ?n) (\<lambda>f_matrix.
           im2col_core xs (gn * int NE * int C) (int C) (int NE) f_matrix (int K) (int P) (int S))) m
      = for_loop 0 (int G) 1 (\<lambda>gn f_matrix_all. at_offset f_matrix_all (gn * int ?n)
          ((\<lambda>(src, B, NE, W, C, K, P, S) m. im2col_core src (int B) (int C) (int NE) m (int K) (int P) (int S))
             (xs, nat gn * NE * C, NE, W, C, K, P, S))) m"
    by (rule for_loop_cong) simp
  also have "\<dots> = Inr (map Some (concat (map (\<lambda>g. core_vals (xs, g * NE * C, NE, W, C, K, P, S)) [0..<G])))"
    by (rule square.groups) (use m ok len in simp_all)
  finally show ?thesis by (simp add: group_windows_def [abs_def] comp_def)
qed

lemma group_kfm_im2col_unfold:
  assumes spec: "sgemm_spec sgemm" and lay: "layer reg (Some pool) name kv (vector bs)"
    and kv: "arr_dims kv = [int G, int M, int (C * (K * K))]" "arr_data kv = ks"
    and ok: "conv_ok (xs, 0, NE, W, G * C, K, P, S)" and OS: "OS = out_size W P K S" and dvd: "S dvd (W + 2 * P - K + 1)"
    and pos: "0 < G" "0 < M" "0 < C" and len: "length ks = G * (M * (C * (K * K)))"
    and alloc: "4 * int (G * ((OS * OS) * (C * (K * K)))) + 32 \<le> MaxAllocSize" "4 * int (G * (M * (OS * OS))) + 32 \<le> MaxAllocSize"
  shows "group_kfm_im2col sgemm reg (Some pool) name (matrix (int (G * C)) (int NE) xs) (int K) (int P) (int S) (int G)
    = Inr (matrix (int C) (int NE) xs, matrix (int (G * M)) (int (OS * OS))
        (group_result ks bs G M (OS * OS) (C * (K * K)) (group_windows xs NE W C K P S)))"
proof -
  obtain e f where h: "\<forall>m. need_weight reg (Some pool) (name @ ''_val'') m = Inr e"
    "\<forall>m. need_weight reg (Some pool) (name @ ''_bias'') m = Inr f" "entry_data e = Inr ks" "entry_data f = Inr bs"
    "\<forall>i < 3. entry_dim e (int i) = Inr ([int G, int M, int (C * (K * K))] ! i)"
    "\<forall>i < 1. entry_dim f (int i) = Inr ([int (length bs)] ! i)"
    using lay by (rule layerE) (simp add: kv)
  let ?N = "OS * OS" and ?K = "C * (K * K)"
  let ?p = "concat (map (\<lambda>g. gemm_vals True M ?N ?K (drop (g * (M * ?K)) ks) ?K (group_windows xs NE W C K P S g) ?K) [0..<G])"
  have K: "0 < K" "0 < OS" "0 < ?N" "0 < ?K" using ok OS pos by simp_all
  note sub = group_conv_ok [OF ok]
  have len_w: "length (group_windows xs NE W C K P S g) = ?N * ?K" for g
    by (simp add: group_windows_def OS [symmetric] del: One_nat_def add_Suc_right add_0_right)
  have dims: "entry_dim e 1 = Inr (int M)" "entry_dim e 2 = Inr (int ?K)" "entry_dim f 0 = Inr (int (length bs))"
    using h(5) [rule_format, of 1] h(5) [rule_format, of 2] h(6) [rule_format, of 0] by simp_all
  have G: "cmod (int (G * C)) (int G) = Inr 0" "cdiv (int (G * C)) (int G) = Inr (int C)"
    using pos(1) by (simp_all add: cmod_nonneg cdiv_nonneg)
  have sq: "csqrt (int NE) = Inr (int W)" using ok by (auto simp: csqrt_def)
  have a: "int (?N * ?K) \<le> int (G * (?N * ?K))" "int (M * ?N) \<le> int (G * (M * ?N))"
    using pos(1) by (simp_all only: of_nat_le_iff) simp_all
  have c: "cint (int ?N * int C * int K * int K) = Inr (int (?N * ?K))" "cint (int M * int ?N) = Inr (int (M * ?N))"
    using cint_size [of ?N ?K] cint_size [of M ?N] a alloc by (simp_all add: mult.assoc)
  have pa: "palloc 4 (int (M * ?N) * int G) = Inr (replicate (G * (M * ?N)) None)"
    "palloc 4 (int (?N * ?K) * int G) = Inr (replicate (G * (?N * ?K)) None)"
    using palloc_nat [of "G * (M * ?N)"] palloc_nat [of "G * (?N * ?K)"] alloc by (simp_all add: ac_simps)
  have fill: "for_loop 0 (int G) 1 (\<lambda>gn f_matrix_all. at_offset f_matrix_all (gn * int (?N * ?K)) (\<lambda>f_matrix.
        im2col_core xs (gn * int NE * int C) (int C) (int NE) f_matrix (int K) (int P) (int S))) (replicate (G * (?N * ?K)) None)
      = Inr (map Some (concat (map (group_windows xs NE W C K P S) [0..<G])))"
    by (rule group_fill [OF sub OS]) simp_all
  have prod: "for_loop 0 (int G) 1 (\<lambda>gn res_data. at_offset res_data (gn * int (M * ?N)) (\<lambda>res_data.
        sgemm True (int M) (int ?N) (int ?K) (drop (nat (gn * int M * int ?K)) ks) (int ?K)
          (drop (nat (gn * int (?N * ?K))) (concat (map (group_windows xs NE W C K P S) [0..<G]))) (int ?K) res_data (int ?N)))
        (replicate (G * (M * ?N)) None) = Inr (map Some ?p)"
    by (rule group_product [OF spec pos(2) K(3,4) len]) (simp_all add: len_w)
  have res: "float4construct_md_array (group_result ks bs G M ?N ?K (group_windows xs NE W C K P S)) (int (M * ?N) * int G)
        [int M * int G, int ?N] [1, 1]
      = Inr (matrix (int (G * M)) (int ?N) (group_result ks bs G M ?N ?K (group_windows xs NE W C K P S)))"
    using float4construct_md_array_nat [OF length_group_result alloc(2), of ks bs ?K _ "int (G * M)" "int ?N"]
    by (simp add: ac_simps)
  have w: "bindR (cdiv (int W + 2 * int P - int K + 1) (int S)) cint = Inr (int OS)"
    using floor_dim_ok [of K W P S] im2col_size_dvd [OF _ dvd] ok unfolding OS by simp
  have d: "int OS * int OS = int ?N" "int C * int K * int K = int ?K" by simp_all
  show ?thesis
    using h(1-3) pos(1) unfolding group_kfm_im2col_def
    by (simp add: G sq w d dims c pa fill prod group_bias [OF h(4) d(1) refl] res Let_def del: of_nat_mult of_nat_eq_iff)
qed

lemma group_fill_overflow:
  assumes ok: "\<And>g. g < G \<Longrightarrow> conv_ok (xs, g * NE * C, NE, W, C, K, P, S)" and OS: "OS = out_size W P K S"
    and n: "n < OS * OS * (C * (K * K))" and G: "0 < G" and m: "length m = G * n"
  shows "for_loop 0 (int G) 1 (\<lambda>gn f_matrix_all. at_offset f_matrix_all (gn * int n) (\<lambda>f_matrix.
           im2col_core xs (gn * int NE * int C) (int C) (int NE) f_matrix (int K) (int P) (int S))) m = Inl (Undefined Out_of_bounds)"
proof -
  let ?f = "\<lambda>gn f_matrix. im2col_core xs (gn * int NE * int C) (int C) (int NE) f_matrix (int K) (int P) (int S)"
  let ?need = "OS * OS * (C * (K * K))"
  let ?v = "\<lambda>g. im2col_vals xs (g * NE * C) NE W W C K K P P S OS OS"
  have len: "length (?v g) = ?need" for g by (simp add: mult.assoc)
  have core: "?f (int g) m' = (if ?need \<le> length m' then Inr (blit m' 0 (?v g)) else Inl (Undefined Out_of_bounds))"
    if "g < G" for g m'
  proof -
    have o: "holds_image xs (g * NE * C) NE W W C" "isqrt NE = W" "0 < K" "K \<le> W + 2 * P" "0 < S" "int (W + 2 * P) < INT_MAX"
      using ok [OF that] by simp_all
    have i: "int g * int NE * int C = int (g * NE * C)" by simp
    show ?thesis
    proof (cases "?need \<le> length m'")
      case True
      then have "OS * (OS * (C * (K * K))) \<le> length m'" by (simp add: mult.assoc)
      from im2col_core_correct [OF o OS this] True show ?thesis unfolding i by (simp only: if_True)
    next
      case False
      then have "length m' < ?need" by simp
      from im2col_core_overflow [OF o OS this] False show ?thesis unfolding i by (simp only: if_False)
    qed
  qed
  have at: "at_offset m' (int g * int n) (?f (int g))
      = (if g * n + ?need \<le> G * n then Inr (blit m' (g * n) (?v g)) else Inl (Undefined Out_of_bounds))"
    if g: "g < G" and m': "length m' = G * n" for g m'
  proof -
    have o: "int g * int n = int (g * n)" and le: "g * n \<le> G * n" using g by simp_all
    show ?thesis
    proof (cases "g * n + ?need \<le> G * n")
      case True
      then have "?need \<le> length (drop (g * n) m')" using m' by simp
      with core [OF g, of "drop (g * n) m'"] have "?f (int g) (drop (g * n) m') = Inr (blit (drop (g * n) m') 0 (?v g))"
        by (simp only: if_True)
      then have "at_offset m' (int (g * n)) (?f (int g)) = Inr (blit m' (g * n) (?v g))"
        by (intro at_offset_blit) (use True m' len [of g] in simp_all)
      with True show ?thesis unfolding o by (simp only: if_True)
    next
      case False
      then have "\<not> ?need \<le> length (drop (g * n) m')" unfolding length_drop m' using le by linarith
      with core [OF g, of "drop (g * n) m'"] have "?f (int g) (drop (g * n) m') = Inl (Undefined Out_of_bounds)"
        by (simp only: if_False)
      then have "at_offset m' (int (g * n)) (?f (int g)) = Inl (Undefined Out_of_bounds)"
        by (simp only: at_offset_def nat_int) (simp add: require_def)
      with False show ?thesis unfolding o by (simp only: if_False)
    qed
  qed
  have "(G - 1) * n + n = G * n" using G by (metis add.commute mult_Suc Suc_pred')
  then have last: "\<not> (G - 1) * n + ?need \<le> G * n" using n by linarith
  have "foldR (\<lambda>gn m. at_offset m (gn * int n) (?f gn)) (map int [0..<G]) m = Inl (Undefined Out_of_bounds)"
  proof (rule foldR_fails [where L = "G * n" and x = "int (G - 1)"])
    fix x m' assume "x \<in> set (map int [0..<G])" and m': "length (m' :: 'a buf) = G * n"
    then obtain g where g: "x = int g" "g < G" by auto
    show "at_offset m' (x * int n) (?f x) = Inl (Undefined Out_of_bounds) \<or>
        (\<exists>m''. at_offset m' (x * int n) (?f x) = Inr m'' \<and> length m'' = G * n)"
      unfolding g(1) at [OF g(2) m'] using length_blit [of "g * n" "?v g" m'] len [of g] m' by simp
  next
    fix m' :: "'a buf" assume "length m' = G * n"
    from at [OF _ this, of "G - 1"] G last show "at_offset m' (int (G - 1) * int n) (?f (int (G - 1))) = Inl (Undefined Out_of_bounds)" by simp
  next
    show "int (G - 1) \<in> set (map int [0..<G])" using G by (simp del: of_nat_diff)
  qed (rule m)
  then show ?thesis by (simp add: for_loop_steps steps_unit)
qed

lemma group_kfm_im2col_overflow:
  assumes lay: "layer reg (Some pool) name kv (vector bs)"
    and kv: "arr_dims kv = [int G, int M, int (C * (K * K))]" "arr_data kv = ks"
    and ok: "conv_ok (xs, 0, NE, W, G * C, K, P, S)" and OS: "OS = out_size W P K S" and ndvd: "\<not> S dvd (W + 2 * P - K + 1)"
    and pos: "0 < G" "0 < C"
    and alloc: "4 * int (G * ((OS * OS) * (C * (K * K)))) + 32 \<le> MaxAllocSize" "4 * int (G * (M * (OS * OS))) + 32 \<le> MaxAllocSize"
  shows "group_kfm_im2col sgemm reg (Some pool) name (matrix (int (G * C)) (int NE) xs) (int K) (int P) (int S) (int G)
    = Inl (Undefined Out_of_bounds)"
proof -
  obtain e f where h: "\<forall>m. need_weight reg (Some pool) (name @ ''_val'') m = Inr e" "entry_data e = Inr ks"
    "\<forall>i < 3. entry_dim e (int i) = Inr ([int G, int M, int (C * (K * K))] ! i)"
    using lay by (rule layerE) (simp add: kv)
  define F where "F = (W + 2 * P - K + 1) div S"
  let ?N = "F * F" and ?K = "C * (K * K)"
  have OF: "OS = F + 1" unfolding F_def OS using im2col_size_not_dvd [OF _ ndvd] ok by simp
  note sub = group_conv_ok [OF ok]
  have dims: "entry_dim e 1 = Inr (int M)" "entry_dim e 2 = Inr (int ?K)"
    using h(3) [rule_format, of 1] h(3) [rule_format, of 2] by simp_all
  have G: "cmod (int (G * C)) (int G) = Inr 0" "cdiv (int (G * C)) (int G) = Inr (int C)"
    using pos(1) by (simp_all add: cmod_nonneg cdiv_nonneg)
  have sq: "csqrt (int NE) = Inr (int W)" using ok by (auto simp: csqrt_def)
  have NO: "?N \<le> OS * OS" unfolding OF by (intro mult_le_mono) simp_all
  have n: "G * (?N * ?K) \<le> G * ((OS * OS) * ?K)" "G * (M * ?N) \<le> G * (M * (OS * OS))"
    by (intro mult_le_mono2 mult_le_mono1 NO)+
  then have "int (G * (?N * ?K)) \<le> int (G * ((OS * OS) * ?K))" "int (G * (M * ?N)) \<le> int (G * (M * (OS * OS)))"
    by (simp_all only: of_nat_le_iff)
  then have al: "4 * int (G * (?N * ?K)) \<le> MaxAllocSize" "4 * int (G * (M * ?N)) \<le> MaxAllocSize"
    using alloc by linarith+
  have a: "int (?N * ?K) \<le> int (G * (?N * ?K))" "int (M * ?N) \<le> int (G * (M * ?N))"
    using pos(1) by (simp_all only: of_nat_le_iff) simp_all
  have c: "cint (int ?N * int C * int K * int K) = Inr (int (?N * ?K))" "cint (int M * int ?N) = Inr (int (M * ?N))"
    using cint_size [of ?N ?K] cint_size [of M ?N] a al by (simp_all add: mult.assoc)
  have pa: "palloc 4 (int (M * ?N) * int G) = Inr (replicate (G * (M * ?N)) None)"
    "palloc 4 (int (?N * ?K) * int G) = Inr (replicate (G * (?N * ?K)) None)"
    using palloc_nat [of "G * (M * ?N)"] palloc_nat [of "G * (?N * ?K)"] al by (simp_all add: ac_simps)
  have "0 < K" using ok by simp
  then have "0 < ?K" using pos(2) by simp
  moreover have "?N < OS * OS" unfolding OF by simp
  ultimately have "?N * ?K < OS * OS * ?K" by (simp only: mult_less_cancel2)
  from group_fill_overflow [OF sub OS this pos(1), of "replicate (G * (?N * ?K)) None"]
  have fill: "for_loop 0 (int G) 1 (\<lambda>gn f_matrix_all. at_offset f_matrix_all (gn * int (?N * ?K)) (\<lambda>f_matrix.
        im2col_core xs (gn * int NE * int C) (int C) (int NE) f_matrix (int K) (int P) (int S))) (replicate (G * (?N * ?K)) None)
      = Inl (Undefined Out_of_bounds)" by simp
  have w: "bindR (cdiv (int W + 2 * int P - int K + 1) (int S)) cint = Inr (int F)"
    unfolding F_def by (rule floor_dim_ok) (use ok in simp_all)
  have d: "int F * int F = int ?N" "int C * int K * int K = int ?K" by simp_all
  show ?thesis
    using h(1,2) pos(1) unfolding group_kfm_im2col_def
    by (simp add: G sq w d dims c pa fill Let_def del: of_nat_mult of_nat_eq_iff)
qed

subsection \<open>Text convolution\<close>

lemma text_windows:
  assumes len: "length xs = H * W" and K: "0 < KH" "KH \<le> H" "0 < KW" "KW \<le> W" and S: "0 < S"
    and OH: "OH = out_size H 0 KH S" and OW: "OW = out_size W 0 KW S" and m: "length m = OH * (OW * (KH * KW))"
  shows "for_loop 0 (int H - int KH + 1) (int S) (\<lambda>rn. for_loop 0 (int W - int KW + 1) (int S) (\<lambda>cn f_matrix.
           bindR (cdiv rn (int S)) (\<lambda>ro. bindR (cdiv cn (int S)) (\<lambda>co.
             let res_idx_local = (ro * int OW + co) * 1 * int KH * int KW in
             bindR (window_plain xs 0 (int W) 1 (int (H * W)) (int KH) (int KW) rn cn
                 (f_matrix, res_idx_local)) (\<lambda>(m, _). Inr m))))) m
       = Inr (map Some (im2col_vals xs 0 (H * W) H W 1 KH KW 0 0 S OH OW))"
proof -
  let ?b = "KH * KW" and ?vs = "\<lambda>rn cn. window_vals xs 0 (H * W) H W 1 KH KW rn cn"
  have img: "holds_image xs 0 (H * W) H W 1" using len by (simp add: holds_image_def)
  define body where "body = (\<lambda>rn cn f_matrix.
      bindR (cdiv rn (int S)) (\<lambda>ro. bindR (cdiv cn (int S)) (\<lambda>co.
        let res_idx_local = (ro * int OW + co) * 1 * int KH * int KW in
        bindR (window_padded xs 0 (int H) (int W) 1 (int (H * W)) (int KH) (int KW) rn cn
           (f_matrix, res_idx_local)) (\<lambda>(m, _). Inr m))))"
  have body: "body (0 + int i * int S) (0 + int k * int S) m'
      = Inr (blit m' ((i * OW + k) * ?b) (?vs (0 + int i * int S) (0 + int k * int S)))"
    if "i < OH" "k < OW" "length m' = length m" for i k m'
    unfolding body_def
    using S tile_fits [OF that(1,2), of ?b] that(3) m
      window_padded_emit [OF img refl, where m = m' and j = "(i * OW + k) * ?b" and KH = KH and KW = KW]
    by (simp add: cdiv_nonneg Let_def mult.assoc)
  have tH: "OH = trips 0 (int H - int KH + 1) (int S)" and tW: "OW = trips 0 (int W - int KW + 1) (int S)"
    using trips_window [of KH H 0 S] trips_window [of KW W 0 S] K S OH OW by simp_all
  have vals: "concat (map (\<lambda>rn. concat (map (?vs rn) (steps 0 (int W - int KW + 1) (int S)))) (steps 0 (int H - int KH + 1) (int S)))
      = im2col_vals xs 0 (H * W) H W 1 KH KW 0 0 S OH OW"
    using steps_window [of KH H 0 S] steps_window [of KW W 0 S] K S OH OW
    by (simp add: im2col_vals_def comp_def del: upt_Suc)
  have "for_loop 0 (int H - int KH + 1) (int S) (\<lambda>rn. for_loop 0 (int W - int KW + 1) (int S) (body rn)) m
      = Inr (blit m 0 (im2col_vals xs 0 (H * W) H W 1 KH KW 0 0 S OH OW))"
    unfolding vals [symmetric]
    by (rule for_loop_tile2 [OF _ tW tH, where b = ?b and L = "length m"]) (use S body m in simp_all)
  also have "\<dots> = Inr (map Some (im2col_vals xs 0 (H * W) H W 1 KH KW 0 0 S OH OW))" using m by (simp add: blit_full)
  finally show ?thesis
    by (rule trans [rotated]) (intro for_loop_cong, simp add: body_def window_plain_padded [where h = "int H"])
qed

lemma row_max:
  assumes "\<And>j. j < N \<Longrightarrow> rdb r (base + int j) = Inr (f j)"
  shows "for_loop 0 (int N) 1 (\<lambda>j pool_max. bindR (rdb r (base + j)) (\<lambda>x. Inr (fmaxf pool_max x))) z
       = Inr (foldl fmaxf z (map f [0..<N]))"
proof -
  have "for_loop 0 (int N) 1 (\<lambda>j pool_max. bindR (rdb r (base + j)) (\<lambda>x. Inr (fmaxf pool_max x))) (foldl fmaxf z (map f [0..<0]))
      = Inr (foldl fmaxf z (map f [0..<N]))"
    by (rule for_loop_states [where st = "\<lambda>k. foldl fmaxf z (map f [0..<k])"]) (use assms in simp_all)
  then show ?thesis by simp
qed

lemma text_max:
  assumes "length r = M * N"
  shows "for_loop 0 (int M) 1 (\<lambda>i max_res_data.
        bindR (for_loop 0 (int N) 1 (\<lambda>j pool_max. bindR (rdb (map Some r) (i * int N + j)) (\<lambda>x. Inr (fmaxf pool_max x))) z)
          (wr max_res_data i)) (replicate M None)
      = Inr (map Some (map (\<lambda>m. foldl fmaxf z (map (\<lambda>i. r ! (m * N + i)) [0..<N])) [0..<M]))"
proof -
  have rd: "rdb (map Some r) (int m * int N + int j) = Inr (r ! (m * N + j))" if "m < M" "j < N" for m j
  proof -
    have "m * N + j < length (map Some r)" using tile_fits [OF that, of 1] assms by simp
    from rd_nth [OF this] show ?thesis using that tile_fits [OF that, of 1] assms by (simp add: rdb_def)
  qed
  have "for_loop (int 0) (int M) 1 (\<lambda>i max_res_data.
        bindR (for_loop 0 (int N) 1 (\<lambda>j pool_max. bindR (rdb (map Some r) (i * int N + j)) (\<lambda>x. Inr (fmaxf pool_max x))) z)
          (wr max_res_data i)) (replicate M None)
      = Inr (blit (replicate M None) 0 (map (\<lambda>m. foldl fmaxf z (map (\<lambda>i. r ! (m * N + i)) [0..<N])) [0..<M]))"
    by (rule for_loop_fill) (simp_all add: row_max [OF rd])
  then show ?thesis by (simp add: blit_full)
qed

lemma foldl_fmaxf:
  fixes z :: "'f :: linorder"
  shows "foldl fmaxf z xs = Max (insert z (set xs))"
proof -
  have f: "fmaxf a b = max a b" for a b :: 'f by (auto simp: fmaxf_def max_def)
  show ?thesis
  proof (induction xs arbitrary: z)
    case (Cons x xs)
    then show ?case by (cases "xs = []") (simp_all add: f insert_commute ac_simps)
  qed simp
qed

lemma grid_image: "f ` {..<M * (N :: nat)} = (\<lambda>(i, j). f (i * N + j)) ` ({..<M} \<times> {..<N})"
proof -
  have "i * N + j < M * N" if "i < M" "j < N" for i j
    using tile_fits [OF that, of 1] by simp
  moreover have "x \<in> (\<lambda>(i, j). i * N + j) ` ({..<M} \<times> {..<N})" if "x < M * N" for x
  proof -
    have "0 < N" using that by (cases N) simp_all
    then have "x mod N < N" "x div N < M" using that by (simp_all add: less_mult_imp_div_less)
    then show ?thesis by (intro image_eqI [of _ _ "(x div N, x mod N)"]) simp_all
  qed
  ultimately have "{..<M * N} = (\<lambda>(i, j). i * N + j) ` ({..<M} \<times> {..<N})" by auto
  then have "f ` {..<M * N} = f ` (\<lambda>(i, j). i * N + j) ` ({..<M} \<times> {..<N})" by (rule arg_cong)
  then show ?thesis by (simp add: image_image case_prod_beta)
qed

lemma conv_text_unfold:
  assumes spec: "sgemm_spec sgemm"
    and lay: "layer reg (Some pool) name (matrix (int M) (int (KH * KW)) ks) (vector bs)"
    and len: "length xs = H * W" "length ks = M * (KH * KW)"
    and K: "0 < KH" "KH \<le> H" "0 < KW" "KW \<le> W" and S: "0 < S" and M: "0 < M" "8 * int M \<le> MaxAllocSize"
    and OH: "OH = out_size H 0 KH S" and OW: "OW = out_size W 0 KW S" and range: "int (H * W) < INT_MAX"
    and alloc: "4 * int ((OH * OW) * (KH * KW)) + 32 \<le> MaxAllocSize" "4 * int (M * (OH * OW)) + 32 \<le> MaxAllocSize"
  shows "conv_text sgemm reg (Some pool) name (matrix (int H) (int W) xs) (int KH) (int KW) 0 0 (int S)
    = Inr (vector (map (\<lambda>m. foldl fmaxf bot (map (\<lambda>i. conv_result ks bs M (OH * OW) (KH * KW)
          (im2col_vals xs 0 (H * W) H W 1 KH KW 0 0 S OH OW) ! (m * (OH * OW) + i)) [0..<OH * OW])) [0..<M]))"
proof -
  obtain e f where h: "\<forall>m. need_weight reg (Some pool) (name @ ''_val'') m = Inr e"
    "\<forall>m. need_weight reg (Some pool) (name @ ''_bias'') m = Inr f" "entry_data e = Inr ks" "entry_data f = Inr bs"
    "entry_dim e 0 = Inr (int M)" "entry_dim e 1 = Inr (int (KH * KW))" "entry_dim f 0 = Inr (int (length bs))"
    using lay by (rule layer_matrixE)
  let ?v = "im2col_vals xs 0 (H * W) H W 1 KH KW 0 0 S OH OW" and ?N = "OH * OW"
  let ?r = "conv_result ks bs M ?N (KH * KW) ?v"
  have HW: "H \<le> H * W" "W \<le> H * W" using K by (cases W; cases H; simp)+
  have o: "conv_out_dim (int H) 0 (int KH) (int S) = Inr (int OH)" "conv_out_dim (int W) 0 (int KW) (int S) = Inr (int OW)"
    using conv_out_dim_ok [of KH H 0 S] conv_out_dim_ok [of KW W 0 S] K S HW range OH OW by simp_all
  have pos: "0 < ?N" "0 < KH * KW" using K OH OW by simp_all
  have n: "int OH * int OW * int KW * int KH = int ?N * int (KH * KW)" "int OW * int OH = int ?N"
    "int KH * int KW = int (KH * KW)" by simp_all
  have hw: "cint (int H * int W) = Inr (int (H * W))"
    using range cint_in [of "int (H * W)"] by (simp add: in_int_def order_trans [of INT_MIN 0])
  have fill: "for_loop 0 (int H - int KH + 1) (int S) (\<lambda>rn. for_loop 0 (int W - int KW + 1) (int S) (\<lambda>cn f_matrix.
           bindR (cdiv rn (int S)) (\<lambda>ro. bindR (cdiv cn (int S)) (\<lambda>co.
             bindR (window_plain xs 0 (int W) 1 (int (H * W)) (int KH) (int KW) rn cn
                 (f_matrix, (ro * int OW + co) * int KH * int KW)) (\<lambda>(m, _). Inr m))))) (replicate (?N * (KH * KW)) (Some 0))
       = Inr (map Some ?v)"
    using text_windows [OF len(1) K S OH OW, of "replicate (?N * (KH * KW)) (Some 0)"] by (simp add: Let_def mult.assoc)
  have g: "sgemm True (int M) (int ?N) (int (KH * KW)) ks (int (KH * KW)) ?v (int (KH * KW)) (replicate (M * ?N) None) (int ?N)
      = Inr (map Some (gemm_vals True M ?N (KH * KW) ks (KH * KW) ?v (KH * KW)))"
    by (rule gemm_bias_ok [OF spec M(1) pos len(2)]) (simp_all add: mult.assoc)
  have mx: "for_loop 0 (int M) 1 (\<lambda>i max_res_data.
        bindR (for_loop 0 (int ?N) 1 (\<lambda>j pool_max. bindR (rdb (map Some ?r) (i * int ?N + j)) (\<lambda>x. Inr (fmaxf pool_max x))) bot)
          (wr max_res_data i)) (replicate M None)
      = Inr (map Some (map (\<lambda>m. foldl fmaxf bot (map (\<lambda>i. ?r ! (m * ?N + i)) [0..<?N])) [0..<M]))"
    by (rule text_max) simp
  have c: "construct_array (map v [0..<M]) (int M) = Inr (vector (map v [0..<M]))" for v :: "nat \<Rightarrow> 'a"
    using construct_array_vector [of "map v [0..<M]"] M by simp
  have p: "palloc 8 (int M) = Inr (replicate M None)" "palloc0 4 (int ?N * int (KH * KW)) = Inr (replicate (?N * (KH * KW)) (Some 0))"
    "cint (int ?N * int (KH * KW)) = Inr (int ?N * int (KH * KW))"
    "palloc 4 (int M * int ?N) = Inr (replicate (M * ?N) None)"
    using M result_allocs [OF alloc(1)] result_allocs [OF alloc(2)] by (simp_all add: palloc_ok)
  show ?thesis
    using h unfolding conv_text_def
    by (simp add: o n hw fill g mx c p bias_ok [OF h(4) n(2) refl] Let_def del: One_nat_def of_nat_mult of_nat_eq_iff map_map)
qed

section \<open>Properties\<close>

text \<open>
  C1: kfm_im2col on a loaded layer computes the convolution: for every output channel and position, the sum
  over all input channels and kernel cells of weight times pixel, with zeros outside the image, plus the bias
  of the channel, cut at zero.
\<close>

theorem kfm_im2col_is_convolution:
  assumes "sgemm_spec sgemm" "layer reg (Some pool) name (matrix (int M) (int (C * (K * K))) ks) (vector bs)"
    and "conv_ok (xs, 0, NE, W, C, K, P, S)" "OS = out_size W P K S"
    and "0 < M" "0 < C" "length ks = M * (C * (K * K))" "length bs = M"
    and "4 * int ((OS * OS) * (C * (K * K))) + 32 \<le> MaxAllocSize" "4 * int (M * (OS * OS)) + 32 \<le> MaxAllocSize"
  shows "\<exists>out. kfm_im2col sgemm reg (Some pool) name (matrix (int C) (int NE) xs) (int K) (int P) (int S) None
       = Inr (matrix (int C) (int NE) xs, matrix (int M) (int (OS * OS)) out) \<and> length out = M * (OS * OS)
     \<and> (\<forall>m < M. \<forall>oy < OS. \<forall>ox < OS. out ! (m * (OS * OS) + (oy * OS + ox))
          = fmax0 (conv_at ks xs 0 NE W W C K K P P S m oy ox + bs ! m))"
proof -
  have "select_channels (matrix (int C) (int NE) xs) None (int C) (int NE) = Inr (matrix (int C) (int NE) xs, int 0, int C)"
    by simp
  from kfm_im2col_unfold [OF assms(1,2) this assms(3-7,9,10)] assms(8) show ?thesis
    by (auto simp: conv_result_nth)
qed

theorem kfm_im2col_is_convolution_witness:
  "\<exists>p0 p out. create_weight_pool 1 = Inr p0
     \<and> load_model (one_table (matrix 1 4 [1, 2, 3, 4 :: int]) (vector [7])) [] (Some p0) 0 (Some (vector [Some ''conv1''])) = Inr (Some p, 0)
     \<and> kfm_im2col ref_sgemm [] (Some p) ''conv1'' (matrix 1 4 [5, 6, - 7, 8]) 2 0 1 None
       = Inr (matrix 1 4 [5, 6, - 7, 8], matrix 1 1 out) \<and> out ! 0 = 35"
proof -
  obtain p0 p where p: "create_weight_pool 1 = Inr p0"
    "load_model (one_table (matrix 1 4 [1, 2, 3, 4 :: int]) (vector [7])) [] (Some p0) 0 (Some (vector [Some ''conv1''])) = Inr (Some p, 0)"
    "layer [] (Some p) ''conv1'' (matrix (int 1) (int (1 * (2 * 2))) [1, 2, 3, 4]) (vector [7])"
    using load_one_layer [of "matrix 1 4 [1, 2, 3, 4 :: int]" "vector [7]" "''conv1''"] by (auto simp: wf_weight_def)
  have ok: "conv_ok ([5, 6, - 7, 8], 0, 4, 2, 1, 2, 0, 1)"
    using isqrt_square [of 2] by (simp add: holds_image_def)
  have "conv_at [1, 2, 3, 4 :: int] [5, 6, - 7, 8] 0 4 2 2 1 2 2 0 0 1 0 0 0 = 28" by code_simp
  then show ?thesis
    using kfm_im2col_is_convolution [OF ref_sgemm_spec p(3) ok, of 1] p(1,2) by (auto simp: fmax0_def)
qed



text \<open>
  kfm_im2col_ns with a kernel of one row and K columns (no vertical padding) computes the convolution with
  that kernel.
\<close>

theorem kfm_im2col_ns_row_convolution:
  assumes "sgemm_spec sgemm" "layer reg (Some pool) name (matrix (int M) (int (C * (1 * K))) ks) (vector bs)"
    and "conv_ok (xs, 0, NE, W, C, K, P, S)" "OW = out_size W P K S" "OH = out_size W 0 1 S"
    and "0 < M" "0 < C" "length ks = M * (C * (1 * K))" "length bs = M"
    and "4 * int ((OW * OH) * (C * (1 * K))) + 32 \<le> MaxAllocSize" "4 * int (M * (OW * OH)) + 32 \<le> MaxAllocSize"
  shows "\<exists>out. kfm_im2col_ns sgemm reg (Some pool) name (matrix (int C) (int NE) xs) 1 (int K) 0 (int P) (int S) None
       = Inr (matrix (int C) (int NE) xs, matrix (int M) (int (OH * OW)) out)
     \<and> (\<forall>m < M. \<forall>oy < OH. \<forall>ox < OW. out ! (m * (OH * OW) + (oy * OW + ox))
          = fmax0 (conv_at ks xs 0 NE W W C 1 K 0 P S m oy ox + bs ! m))"
proof -
  have "select_channels (matrix (int C) (int NE) xs) None (int C) (int NE) = Inr (matrix (int C) (int NE) xs, int 0, int C)"
    by simp
  from kfm_im2col_row [OF assms(1,2) this assms(3-8,10,11), unfolded mult.commute [of OW OH]] assms(9) show ?thesis
    by (auto simp: conv_result_nth simp del: One_nat_def mult_1_left nat_mult_1 of_nat_mult)
qed

theorem kfm_im2col_ns_row_convolution_witness:
  "\<exists>p0 p out. create_weight_pool 1 = Inr p0
     \<and> load_model (one_table (matrix 1 2 [1, 2 :: int]) (vector [7])) [] (Some p0) 0 (Some (vector [Some ''c''])) = Inr (Some p, 0)
     \<and> kfm_im2col_ns ref_sgemm [] (Some p) ''c'' (matrix 1 4 [5, 6, - 7, 8]) 1 2 0 0 1 None
       = Inr (matrix 1 4 [5, 6, - 7, 8], matrix 1 2 out) \<and> out ! 0 = 24 \<and> out ! 1 = 16"
proof -
  obtain p0 p where p: "create_weight_pool 1 = Inr p0"
    "load_model (one_table (matrix 1 2 [1, 2 :: int]) (vector [7])) [] (Some p0) 0 (Some (vector [Some ''c''])) = Inr (Some p, 0)"
    "layer [] (Some p) ''c'' (matrix (int 1) (int (1 * (1 * 2))) [1, 2]) (vector [7])"
    using load_one_layer [of "matrix 1 2 [1, 2 :: int]" "vector [7]" "''c''"] by (auto simp: wf_weight_def)
  have ok: "conv_ok ([5, 6, - 7, 8], 0, 4, 2, 1, 2, 0, 1)"
    using isqrt_square [of 2] by (simp add: holds_image_def)
  obtain out where o: "kfm_im2col_ns ref_sgemm [] (Some p) ''c'' (matrix (int 1) (int 4) [5, 6, - 7, 8]) 1 (int 2) 0 (int 0) (int 1) None
      = Inr (matrix (int 1) (int 4) [5, 6, - 7, 8], matrix (int 1) (int (2 * 1)) out)"
    "\<forall>m < 1. \<forall>oy < 2. \<forall>ox < 1. out ! (m * (2 * 1) + (oy * 1 + ox))
      = fmax0 (conv_at [1, 2] [5, 6, - 7, 8] 0 4 2 2 1 1 2 0 0 1 m oy ox + [7] ! m)"
    using kfm_im2col_ns_row_convolution [OF ref_sgemm_spec p(3) ok, of 1 2] by auto
  have "conv_at [1, 2 :: int] [5, 6, - 7, 8] 0 4 2 2 1 1 2 0 0 1 0 0 0 = 17"
    "conv_at [1, 2 :: int] [5, 6, - 7, 8] 0 4 2 2 1 1 2 0 0 1 0 1 0 = 9" by code_simp+
  then have "out ! 0 = 24" "out ! 1 = 16"
    using o(2) [rule_format, of 0 0 0] o(2) [rule_format, of 0 1 0] by (simp_all add: fmax0_def)
  with o(1) p(1,2) show ?thesis by auto
qed

text \<open>
  kfm_im2col_ns with a kernel of K > 1 rows and one column computes the convolution with that kernel, when
  the output has as many rows as the image has column positions (the unfolding kernel uses the number of
  output rows as the length of an output row).
\<close>

theorem kfm_im2col_ns_column_convolution:
  assumes "sgemm_spec sgemm" "layer reg (Some pool) name (matrix (int M) (int (C * (K * 1))) ks) (vector bs)"
    and "conv_ok (xs, 0, NE, W, C, K, P, S)" "OS = out_size W P K S" "OS = out_size W 0 1 S"
    and "0 < M" "0 < C" "K \<noteq> 1" "length ks = M * (C * (K * 1))" "length bs = M"
    and "4 * int ((OS * OS) * (C * (K * 1))) + 32 \<le> MaxAllocSize" "4 * int (M * (OS * OS)) + 32 \<le> MaxAllocSize"
  shows "\<exists>out. kfm_im2col_ns sgemm reg (Some pool) name (matrix (int C) (int NE) xs) (int K) 1 (int P) 0 (int S) None
       = Inr (matrix (int C) (int NE) xs, matrix (int M) (int (OS * OS)) out)
     \<and> (\<forall>m < M. \<forall>oy < OS. \<forall>ox < OS. out ! (m * (OS * OS) + (oy * OS + ox))
          = fmax0 (conv_at ks xs 0 NE W W C K 1 P 0 S m oy ox + bs ! m))"
proof -
  have "select_channels (matrix (int C) (int NE) xs) None (int C) (int NE) = Inr (matrix (int C) (int NE) xs, int 0, int C)"
    by simp
  from kfm_im2col_column [OF assms(1,2) this assms(3-9,11,12)] assms(10) show ?thesis
    by (auto simp: conv_result_nth simp del: One_nat_def mult_1_right)
qed

theorem kfm_im2col_ns_column_convolution_witness:
  "\<exists>p0 p out. create_weight_pool 1 = Inr p0
     \<and> load_model (one_table (matrix 1 3 [1, 2, 3 :: int]) (vector [7])) [] (Some p0) 0 (Some (vector [Some ''c''])) = Inr (Some p, 0)
     \<and> kfm_im2col_ns ref_sgemm [] (Some p) ''c'' (matrix 1 4 [5, 6, - 7, 8]) 3 1 1 0 1 None
       = Inr (matrix 1 4 [5, 6, - 7, 8], matrix 1 4 out) \<and> out ! 1 = 43"
proof -
  obtain p0 p where p: "create_weight_pool 1 = Inr p0"
    "load_model (one_table (matrix 1 3 [1, 2, 3 :: int]) (vector [7])) [] (Some p0) 0 (Some (vector [Some ''c''])) = Inr (Some p, 0)"
    "layer [] (Some p) ''c'' (matrix (int 1) (int (1 * (3 * 1))) [1, 2, 3]) (vector [7])"
    using load_one_layer [of "matrix 1 3 [1, 2, 3 :: int]" "vector [7]" "''c''"] by (auto simp: wf_weight_def)
  have ok: "conv_ok ([5, 6, - 7, 8], 0, 4, 2, 1, 3, 1, 1)"
    using isqrt_square [of 2] by (simp add: holds_image_def)
  obtain out where o: "kfm_im2col_ns ref_sgemm [] (Some p) ''c'' (matrix (int 1) (int 4) [5, 6, - 7, 8]) (int 3) 1 (int 1) 0 (int 1) None
      = Inr (matrix (int 1) (int 4) [5, 6, - 7, 8], matrix (int 1) (int (2 * 2)) out)"
    "\<forall>m < 1. \<forall>oy < 2. \<forall>ox < 2. out ! (m * (2 * 2) + (oy * 2 + ox))
      = fmax0 (conv_at [1, 2, 3] [5, 6, - 7, 8] 0 4 2 2 1 3 1 1 0 1 m oy ox + [7] ! m)"
    using kfm_im2col_ns_column_convolution [OF ref_sgemm_spec p(3) ok, of 2] by auto
  have "conv_at [1, 2, 3 :: int] [5, 6, - 7, 8] 0 4 2 2 1 3 1 1 0 1 0 0 1 = 36" by code_simp
  then have "out ! 1 = 43" using o(2) [rule_format, of 0 0 1] by (simp add: fmax0_def)
  with o(1) p(1,2) show ?thesis by auto
qed

text \<open>
  C24: group_kfm_im2col splits the input channels into G groups. When the stride divides size + 2 * padding - kernel + 1
  it convolves each group with its own kernels and leaves the number of channels of one group in the dimensions
  of its input array; for every other stride it writes past the buffer of the unfolded groups.
\<close>

theorem group_kfm_im2col_is_grouped_convolution:
  assumes "sgemm_spec sgemm" "layer reg (Some pool) name kv (vector bs)"
    and "arr_dims kv = [int G, int M, int (C * (K * K))]" "arr_data kv = ks"
    and "conv_ok (xs, 0, NE, W, G * C, K, P, S)" "OS = out_size W P K S"
    and "0 < G" "0 < M" "0 < C" "length ks = G * (M * (C * (K * K)))" "length bs = G * M"
    and "4 * int (G * ((OS * OS) * (C * (K * K)))) + 32 \<le> MaxAllocSize" "4 * int (G * (M * (OS * OS))) + 32 \<le> MaxAllocSize"
  shows "if S dvd (W + 2 * P - K + 1)
     then \<exists>out. group_kfm_im2col sgemm reg (Some pool) name (matrix (int (G * C)) (int NE) xs) (int K) (int P) (int S) (int G)
           = Inr (matrix (int C) (int NE) xs, matrix (int (G * M)) (int (OS * OS)) out)
         \<and> (\<forall>g < G. \<forall>m < M. \<forall>oy < OS. \<forall>ox < OS. out ! ((g * M + m) * (OS * OS) + (oy * OS + ox))
              = fmax0 (conv_at (drop (g * (M * (C * (K * K)))) ks) xs (g * NE * C) NE W W C K K P P S m oy ox + bs ! (g * M + m)))
     else group_kfm_im2col sgemm reg (Some pool) name (matrix (int (G * C)) (int NE) xs) (int K) (int P) (int S) (int G)
       = Inl (Undefined Out_of_bounds)"
proof (cases "S dvd (W + 2 * P - K + 1)")
  case True
  note u = group_kfm_im2col_unfold [OF assms(1-6) True assms(7-10,12,13)]
  have "\<exists>out. group_kfm_im2col sgemm reg (Some pool) name (matrix (int (G * C)) (int NE) xs) (int K) (int P) (int S) (int G)
           = Inr (matrix (int C) (int NE) xs, matrix (int (G * M)) (int (OS * OS)) out)
         \<and> (\<forall>g < G. \<forall>m < M. \<forall>oy < OS. \<forall>ox < OS. out ! ((g * M + m) * (OS * OS) + (oy * OS + ox))
              = fmax0 (conv_at (drop (g * (M * (C * (K * K)))) ks) xs (g * NE * C) NE W W C K K P P S m oy ox + bs ! (g * M + m)))"
    by (intro exI conjI allI impI) (rule u, rule group_result_nth [OF assms(11) _ _ _ _ assms(6)])
  with True show ?thesis by (simp only: if_True)
next
  case False
  from group_kfm_im2col_overflow [OF assms(2-6) False assms(7,9,12,13)] False show ?thesis by (simp only: if_False)
qed

theorem group_kfm_im2col_is_grouped_convolution_witness:
  "\<exists>p0 p out. create_weight_pool 1 = Inr p0
     \<and> load_model (one_table \<lparr>arr_dims = [2, 1, 1], arr_lbound = [1, 1, 1], arr_elemtype = FLOAT4OID,
         arr_nullbitmap = None, arr_data = [3, 4 :: int]\<rparr> (vector [7, 8])) [] (Some p0) 0 (Some (vector [Some ''g''])) = Inr (Some p, 0)
     \<and> group_kfm_im2col ref_sgemm [] (Some p) ''g'' (matrix 2 1 [5, 6]) 1 0 1 2 = Inr (matrix 1 1 [5, 6], matrix 2 1 out)
     \<and> out ! 0 = 22 \<and> out ! 1 = 32"
proof -
  let ?kv = "\<lparr>arr_dims = [2, 1, 1], arr_lbound = [1, 1, 1], arr_elemtype = FLOAT4OID, arr_nullbitmap = None, arr_data = [3, 4 :: int]\<rparr>"
  obtain p0 p where p: "create_weight_pool 1 = Inr p0"
    "load_model (one_table ?kv (vector [7, 8])) [] (Some p0) 0 (Some (vector [Some ''g''])) = Inr (Some p, 0)"
    "layer [] (Some p) ''g'' ?kv (vector [7, 8])"
    using load_one_layer [of ?kv "vector [7, 8]" "''g''"] by (auto simp: wf_weight_def)
  have ok: "conv_ok ([5, 6 :: int], 0, 1, 1, 2 * 1, 1, 0, 1)"
    using isqrt_square [of 1] by (simp add: holds_image_def)
  obtain out where o: "group_kfm_im2col ref_sgemm [] (Some p) ''g'' (matrix (int (2 * 1)) (int 1) [5, 6]) (int 1) (int 0) (int 1) (int 2)
      = Inr (matrix (int 1) (int 1) [5, 6], matrix (int (2 * 1)) (int (1 * 1)) out)"
    "\<forall>g < 2. \<forall>m < 1. \<forall>oy < 1. \<forall>ox < 1. out ! ((g * 1 + m) * (1 * 1) + (oy * 1 + ox))
      = fmax0 (conv_at (drop (g * (1 * (1 * (1 * 1)))) [3, 4]) [5, 6] (g * 1 * 1) 1 1 1 1 1 1 0 0 1 m oy ox + [7, 8] ! (g * 1 + m))"
    using group_kfm_im2col_is_grouped_convolution [OF ref_sgemm_spec p(3) _ _ ok, of 1 "[3, 4]"] by auto
  have "conv_at [3, 4 :: int] [5, 6] 0 1 1 1 1 1 1 0 0 1 0 0 0 = 15"
    "conv_at [4 :: int] [5, 6] 1 1 1 1 1 1 1 0 0 1 0 0 0 = 24" by code_simp+
  then have "out ! 0 = 22" "out ! 1 = 32"
    using o(2) [rule_format, of 0 0 0 0] o(2) [rule_format, of 1 0 0 0] by (simp_all add: fmax0_def)
  with o(1) p(1,2) show ?thesis by auto
qed

text \<open>
  conv_text sizes its buffers for the padding, but its loops over the windows neither start in it nor end in it: when
  the kernel only fits the image with its padding, no window is read and the result does not depend on the image.
\<close>

lemma for_loop_skip: "0 < s \<Longrightarrow> for_loop a n s (\<lambda>_ x. Inr x) st = Inr st"
proof -
  have "foldR (\<lambda>_ x. Inr x) is st = Inr st" for "is" :: "int list" by (induction "is") simp_all
  then show "0 < s \<Longrightarrow> ?thesis" by (simp add: for_loop_steps)
qed

theorem conv_text_padding_ignores_image:
  assumes "H < kernel_H \<or> W < kernel_W" "0 < stride"
  shows "conv_text sgemm reg pool name (matrix H W xs) kernel_H kernel_W padding_H padding_W stride
       = conv_text sgemm reg pool name (matrix H W ys) kernel_H kernel_W padding_H padding_W stride"
proof -
  have "for_loop 0 (H - kernel_H + 1) stride (\<lambda>rn. for_loop 0 (W - kernel_W + 1) stride (body rn)) st = Inr st" for body and st :: "'a buf"
  proof (cases "W < kernel_W")
    case True
    then have "for_loop 0 (W - kernel_W + 1) stride f = Inr" for f :: "int \<Rightarrow> 'a buf \<Rightarrow> 'a buf result"
      using assms(2) by (simp add: for_loop_steps steps_done fun_eq_iff)
    then show ?thesis using for_loop_skip [OF assms(2)] by simp
  next
    case False
    with assms show ?thesis by (simp add: for_loop_steps steps_done)
  qed
  then show ?thesis unfolding conv_text_def by simp
qed

text \<open>
  C25: conv_text without padding returns, for every output channel, the largest value over all positions of
  the ReLU of the convolution plus bias.
\<close>

theorem conv_text_is_max_of_convolution:
  fixes xs :: "'f :: {monoid_add,times,linorder,order_bot} list"
  assumes "sgemm_spec sgemm" "layer reg (Some pool) name (matrix (int M) (int (KH * KW)) ks) (vector bs)"
    and "length xs = H * W" "length ks = M * (KH * KW)" "length bs = M"
    and "0 < KH" "KH \<le> H" "0 < KW" "KW \<le> W" "0 < S" "0 < M" "8 * int M \<le> MaxAllocSize"
    and "OH = out_size H 0 KH S" "OW = out_size W 0 KW S" "int (H * W) < INT_MAX"
    and "4 * int ((OH * OW) * (KH * KW)) + 32 \<le> MaxAllocSize" "4 * int (M * (OH * OW)) + 32 \<le> MaxAllocSize"
  shows "\<exists>out. conv_text sgemm reg (Some pool) name (matrix (int H) (int W) xs) (int KH) (int KW) 0 0 (int S) = Inr (vector out)
     \<and> length out = M
     \<and> (\<forall>m < M. out ! m = Max ((\<lambda>(oy, ox). fmax0 (conv_at ks xs 0 (H * W) H W 1 KH KW 0 0 S m oy ox + bs ! m))
                               ` ({..<OH} \<times> {..<OW})))"
proof -
  let ?v = "im2col_vals xs 0 (H * W) H W 1 KH KW 0 0 S OH OW"
  let ?r = "conv_result ks bs M (OH * OW) (KH * KW) ?v"
  let ?c = "\<lambda>m oy ox. fmax0 (conv_at ks xs 0 (H * W) H W 1 KH KW 0 0 S m oy ox + bs ! m)"
  have run: "conv_text sgemm reg (Some pool) name (matrix (int H) (int W) xs) (int KH) (int KW) 0 0 (int S)
      = Inr (vector (map (\<lambda>m. foldl fmaxf bot (map (\<lambda>i. ?r ! (m * (OH * OW) + i)) [0..<OH * OW])) [0..<M]))"
    by (rule conv_text_unfold) (use assms in simp_all)
  have "foldl fmaxf bot (map (\<lambda>i. ?r ! (m * (OH * OW) + i)) [0..<OH * OW]) = Max ((\<lambda>(oy, ox). ?c m oy ox) ` ({..<OH} \<times> {..<OW}))"
    if m: "m < M" for m
  proof -
    have cell: "?r ! (m * (OH * OW) + (oy * OW + ox)) = ?c m oy ox" if "oy < OH" "ox < OW" for oy ox
      using conv_result_nth [OF assms(5) m that, of ks 1 KH KW xs 0 "H * W" H W 0 0 S] by simp
    have "(\<lambda>i. ?r ! (m * (OH * OW) + i)) ` {..<OH * OW} = (\<lambda>(oy, ox). ?c m oy ox) ` ({..<OH} \<times> {..<OW})"
      unfolding grid_image by (rule image_cong) (auto simp: cell simp del: One_nat_def)
    moreover have "(\<lambda>i. ?r ! (m * (OH * OW) + i)) ` {..<OH * OW} \<noteq> {}" using assms(13,14) by (auto simp: lessThan_empty_iff)
    ultimately show ?thesis by (simp add: foldl_fmaxf atLeast0LessThan del: One_nat_def)
  qed
  with run show ?thesis by (intro exI [of _ "map (\<lambda>m. foldl fmaxf bot (map (\<lambda>i. ?r ! (m * (OH * OW) + i)) [0..<OH * OW])) [0..<M]"]) (simp del: One_nat_def)
qed

theorem conv_text_is_max_of_convolution_witness:
  "\<exists>p0 p out. create_weight_pool 1 = Inr p0
     \<and> load_model (one_table (matrix 1 1 [3 :: nat]) (vector [7])) [] (Some p0) 0 (Some (vector [Some ''t''])) = Inr (Some p, 0)
     \<and> conv_text ref_sgemm [] (Some p) ''t'' (matrix 1 2 [5, 6]) 1 1 0 0 1 = Inr (vector out) \<and> out ! 0 = 25"
proof -
  obtain p0 p where p: "create_weight_pool 1 = Inr p0"
    "load_model (one_table (matrix 1 1 [3 :: nat]) (vector [7])) [] (Some p0) 0 (Some (vector [Some ''t''])) = Inr (Some p, 0)"
    "layer [] (Some p) ''t'' (matrix (int 1) (int (1 * 1)) [3]) (vector [7])"
    using load_one_layer [of "matrix 1 1 [3 :: nat]" "vector [7]" "''t''"] by (auto simp: wf_weight_def)
  have ix: "{..<1 :: nat} \<times> {..<2 :: nat} = {(0, 0), (0, 1)}" by auto
  have "conv_at [3 :: nat] [5, 6] 0 2 1 2 1 1 1 0 0 1 0 0 0 = 15" "conv_at [3 :: nat] [5, 6] 0 2 1 2 1 1 1 0 0 1 0 0 1 = 18"
    by code_simp+
  with conv_text_is_max_of_convolution [OF ref_sgemm_spec p(3), of "[5, 6]" 1 2 1 1 2] p(1,2) show ?thesis
    by (auto simp: fmax0_def ix simp del: One_nat_def)
qed

end
