(* ===== verification/Pool.thy ===== *)
theory Pool
  imports Complex_Main Conv
begin

text \<open>
  The pooling operators of \<open>aqua_extension/src/pool.c\<close>: \<open>maxpool\<close>, \<open>avgpool\<close>, \<open>avgpool_conv\<close>, their kernel
  \<open>avgpool_core\<close> and its vector version \<open>avgpool_core_optimized_3x3_sse\<close>. The loops over channels run in
  parallel in the code; every iteration writes a block of its own.

  The factor \<open>1.0 / (kernel_size * kernel_size)\<close> is the quotient \<open>1 div of_int (kernel_size * kernel_size)\<close> of the
  type of the elements (\<open>1 / of_int (kernel_size * kernel_size)\<close> in a field); for a kernel of size 0 it is an infinity in
  the code, which the statement about the mean excludes.
\<close>

section \<open>The operators\<close>

text \<open>
  The loops over one window: the accumulator is combined with every pixel of the window, or, with the test
  for the padding, with those inside the image.
\<close>

definition pool_window ::
  "bool \<Rightarrow> ('f \<Rightarrow> 'f \<Rightarrow> 'f) \<Rightarrow> 'f \<Rightarrow> 'f list \<Rightarrow> int \<Rightarrow> int \<Rightarrow> int \<Rightarrow> int \<Rightarrow> int \<Rightarrow> int \<Rightarrow> 'f result" where
  "pool_window guarded f init data matrix_head_c height width kernel_size rn cn =
     (let matrix_head = matrix_head_c + rn * width + cn in
      for_loop 0 kernel_size 1 (\<lambda>ky. for_loop 0 kernel_size 1 (\<lambda>kx acc.
        if guarded \<and> \<not> (ky + rn \<ge> 0 \<and> ky + rn < height \<and> kx + cn \<ge> 0 \<and> kx + cn < width) then Inr acc
        else bindR (rd data (matrix_head + ky * width + kx)) (\<lambda>x. Inr (f acc x)))) init)"

text \<open>The loops over channels, rows and columns; each channel starts at its own block of the result.\<close>

definition pool_channels ::
  "(int \<Rightarrow> int \<Rightarrow> int \<Rightarrow> 'f result) \<Rightarrow> int \<Rightarrow> int \<Rightarrow> int \<Rightarrow> int \<Rightarrow> int \<Rightarrow> int \<Rightarrow> 'f buf \<Rightarrow> 'f buf result" where
  "pool_channels out num_channel out_nelems_channel start row_end col_end stride res_data =
     for_loop 0 num_channel 1 (\<lambda>c res_data.
       bindR (for_loop start row_end stride (\<lambda>rn. for_loop start col_end stride (\<lambda>cn st.
           bindR (out c rn cn) (put st))) (res_data, c * out_nelems_channel)) (\<lambda>(m, _). Inr m)) res_data"

definition maxpool :: "'f::{zero,ord,bot} ArrayType \<Rightarrow> int \<Rightarrow> int \<Rightarrow> int \<Rightarrow> 'f ArrayType result" where
  "maxpool input_f kernel_size padding stride =
     bindR (ARR_DIMS input_f 0) (\<lambda>num_channel.
     bindR (ARR_DIMS input_f 1) (\<lambda>nelems_channel.
     bindR (csqrt nelems_channel) (\<lambda>width. let height = width in
     bindR (conv_out_dim width padding kernel_size stride) (\<lambda>out_width.
     bindR (conv_out_dim height padding kernel_size stride) (\<lambda>out_height.
     bindR (cint (out_width * out_height * num_channel)) (\<lambda>out_nelems.
     let out_nelems_channel = out_width * out_height in
     bindR (float4construct_md_array_ncpy out_nelems [num_channel, out_nelems_channel] [1, 1]) (\<lambda>feature_map.
     let res_data = map Some (arr_data feature_map) in
     bindR (if padding = 0
            then pool_channels (\<lambda>c rn cn. pool_window False fmaxf bot (arr_data input_f) (nelems_channel * c) height width kernel_size rn cn)
                   num_channel out_nelems_channel 0 (height - kernel_size + 1) (width - kernel_size + 1) stride res_data
            else pool_channels (\<lambda>c rn cn. pool_window True fmaxf bot (arr_data input_f) (nelems_channel * c) height width kernel_size rn cn)
                   num_channel out_nelems_channel (- padding) (height + padding - kernel_size + 1) (width + padding - kernel_size + 1)
                   stride res_data) (\<lambda>res_data.
     bindR (sealed res_data) (\<lambda>res_data.
       Inr (feature_map\<lparr>arr_data := res_data\<rparr>))))))))))"

definition avgpool_core ::
  "'f::{ring_1,divide} list \<Rightarrow> 'f buf \<Rightarrow> int \<Rightarrow> int \<Rightarrow> int \<Rightarrow> int \<Rightarrow> int \<Rightarrow> int \<Rightarrow> int \<Rightarrow> 'f buf result" where
  "avgpool_core input_data avg_data out_nelems_channel width height num_channel kernel_size padding stride =
     bindR (cint (width * height)) (\<lambda>nelems_channel.
     bindR (cint (kernel_size * kernel_size)) (\<lambda>kernel_size_2.
       pool_channels (\<lambda>c rn cn.
           bindR (pool_window True (+) 0 input_data (nelems_channel * c) height width kernel_size rn cn) (\<lambda>avg_sum.
             Inr (avg_sum * (1 div of_int kernel_size_2))))
         num_channel out_nelems_channel (- padding) (height + padding - kernel_size + 1) (width + padding - kernel_size + 1)
         stride avg_data))"

definition avgpool :: "'f::{ring_1,divide} ArrayType \<Rightarrow> int \<Rightarrow> int \<Rightarrow> int \<Rightarrow> 'f ArrayType result" where
  "avgpool input_f kernel_size padding stride =
     bindR (ARR_DIMS input_f 0) (\<lambda>num_channel.
     bindR (ARR_DIMS input_f 1) (\<lambda>nelems_channel.
     bindR (csqrt nelems_channel) (\<lambda>width. let height = width in
     bindR (conv_out_dim width padding kernel_size stride) (\<lambda>out_width.
     bindR (conv_out_dim height padding kernel_size stride) (\<lambda>out_height.
     bindR (cint (out_width * out_height)) (\<lambda>out_nelems_channel.
     bindR (palloc 4 (out_nelems_channel * num_channel)) (\<lambda>res_data.
     bindR (avgpool_core (arr_data input_f) res_data out_nelems_channel width height num_channel kernel_size padding stride) (\<lambda>res_data.
     bindR (sealed res_data) (\<lambda>res_data.
     bindR (cint (out_nelems_channel * num_channel)) (\<lambda>size.
       float4construct_md_array res_data size [num_channel, out_nelems_channel] [1, 1]))))))))))"

definition avgpool_conv ::
  "'f::{ring_1,divide,ord} sgemm \<Rightarrow> 'f ArrayType \<Rightarrow> 'f ArrayType \<Rightarrow> 'f ArrayType \<Rightarrow> int \<Rightarrow> int \<Rightarrow> int
   \<Rightarrow> 'f ArrayType result" where
  "avgpool_conv sgemm kmatrix fmatrix bias_vec kernel_size padding stride =
     bindR (ARR_DIMS fmatrix 0) (\<lambda>f_num_channel.
     bindR (ARR_DIMS fmatrix 1) (\<lambda>f_nelems_channel.
     bindR (ARR_DIMS kmatrix 0) (\<lambda>out_channel.
     bindR (ARR_DIMS kmatrix 1) (\<lambda>klen.
     bindR (csqrt f_nelems_channel) (\<lambda>width. let height = width in
     bindR (conv_out_dim width padding kernel_size stride) (\<lambda>out_width.
     bindR (conv_out_dim height padding kernel_size stride) (\<lambda>out_height.
     bindR (cint (out_width * out_height)) (\<lambda>f_out_nelems_channel.
     bindR (palloc 4 (f_out_nelems_channel * f_num_channel)) (\<lambda>f_avg_data.
     bindR (avgpool_core (arr_data fmatrix) f_avg_data f_out_nelems_channel width height f_num_channel kernel_size padding stride) (\<lambda>f_avg_data.
     require (klen = f_num_channel) (Elog ''[avgpool_conv] The number of matrix columns must equal the number of vector elements'') (
     bindR (palloc0 4 (out_channel * f_out_nelems_channel)) (\<lambda>res_data.
     bindR (sealed f_avg_data) (\<lambda>f_avg_data.
     bindR (sgemm False out_channel f_out_nelems_channel klen (arr_data kmatrix) klen f_avg_data f_out_nelems_channel
              res_data f_out_nelems_channel) (\<lambda>res_data.
     bindR (ARR_DIMS bias_vec 0) (\<lambda>nbias.
     bindR (if nbias = out_channel then add_bias fmax0 (arr_data bias_vec) out_channel f_out_nelems_channel res_data
            else Inr res_data) (\<lambda>res_data.
     bindR (sealed res_data) (\<lambda>res_data.
     bindR (cint (f_out_nelems_channel * out_channel)) (\<lambda>size.
       float4construct_md_array res_data size [out_channel, f_out_nelems_channel] [1, 1]))))))))))))))))))"

text \<open>
  The vector kernel: the input is copied into a zeroed image with its padding, then every window adds three
  vectors of four lanes and sums the first three lanes.
\<close>

definition loadu_ps :: "'f list \<Rightarrow> int \<Rightarrow> ('f \<times> 'f \<times> 'f \<times> 'f) result" where
  "loadu_ps data i = bindR (rd data i) (\<lambda>a. bindR (rd data (i + 1)) (\<lambda>b.
     bindR (rd data (i + 2)) (\<lambda>c. bindR (rd data (i + 3)) (\<lambda>d. Inr (a, b, c, d)))))"

definition add_ps :: "'f::plus \<times> 'f \<times> 'f \<times> 'f \<Rightarrow> 'f \<times> 'f \<times> 'f \<times> 'f \<Rightarrow> 'f \<times> 'f \<times> 'f \<times> 'f" where
  "add_ps u v = (case u of (a, b, c, d) \<Rightarrow> case v of (a', b', c', d') \<Rightarrow> (a + a', b + b', c + c', d + d'))"

definition sse_window :: "'f::{ring_1,divide} list \<Rightarrow> int \<Rightarrow> int \<Rightarrow> int \<Rightarrow> int \<Rightarrow> int \<Rightarrow> 'f result" where
  "sse_window padded_data nelems_channel padded_width c rn cn =
     (let matrix_head = nelems_channel * c + rn * padded_width + cn in
      bindR (loadu_ps padded_data matrix_head) (\<lambda>sum0.
      bindR (loadu_ps padded_data (matrix_head + padded_width)) (\<lambda>sum1.
      bindR (loadu_ps padded_data (matrix_head + 2 * padded_width)) (\<lambda>sum2.
        case add_ps (add_ps sum0 sum1) sum2 of (s0, s1, s2, s3) \<Rightarrow> Inr ((s0 + s1 + s2) * (1 div of_int 9))))))"

definition avgpool_core_optimized_3x3_sse ::
  "'f::{ring_1,divide} list \<Rightarrow> 'f buf \<Rightarrow> int \<Rightarrow> int \<Rightarrow> int \<Rightarrow> int \<Rightarrow> int \<Rightarrow> int \<Rightarrow> 'f buf result" where
  "avgpool_core_optimized_3x3_sse input_data avg_data out_nelems_channel width height num_channel padding stride =
     (let padded_width = width + 2 * padding; padded_height = height + 2 * padding in
      bindR (palloc0 4 (padded_width * padded_height * num_channel)) (\<lambda>padded_data.
      bindR (for_loop 0 num_channel 1 (\<lambda>c. for_loop 0 height 1 (\<lambda>h padded_data.
          memcpy padded_data (c * padded_width * padded_height + (h + padding) * padded_width + padding)
            input_data (c * width * height + h * width) width)) padded_data) (\<lambda>padded_data.
      bindR (cint (padded_width * padded_height)) (\<lambda>nelems_channel.
      bindR (sealed padded_data) (\<lambda>padded_data.
        pool_channels (sse_window padded_data nelems_channel padded_width)
        num_channel out_nelems_channel 0 (padded_height - 2) (padded_width - 2) stride avg_data)))))"

section \<open>What the loops compute\<close>

definition inside :: "nat \<Rightarrow> nat \<Rightarrow> int \<Rightarrow> int \<Rightarrow> bool" where
  "inside H W y x \<longleftrightarrow> 0 \<le> y \<and> y < int H \<and> 0 \<le> x \<and> x < int W"

text \<open>The pixels of a window that lie in the image, in the order of the loops.\<close>

definition window_pixels :: "'f::zero list \<Rightarrow> nat \<Rightarrow> nat \<Rightarrow> nat \<Rightarrow> nat \<Rightarrow> nat \<Rightarrow> int \<Rightarrow> int \<Rightarrow> 'f list" where
  "window_pixels src NE H W K c rn cn =
     concat (map (\<lambda>ky. concat (map (\<lambda>kx. if inside H W (rn + int ky) (cn + int kx)
       then [pixel src 0 NE H W c (rn + int ky) (cn + int kx)] else []) [0..<K])) [0..<K])"

lemma for_loop_foldl:
  assumes "\<And>k acc. k < n \<Longrightarrow> body (int k) acc = Inr (foldl f acc (g k))"
  shows "for_loop 0 (int n) 1 body z = Inr (foldl f z (concat (map g [0..<n])))"
proof -
  have "for_loop 0 (int n) 1 body (foldl f z (concat (map g [0..<0]))) = Inr (foldl f z (concat (map g [0..<n])))"
    by (rule for_loop_states [where st = "\<lambda>k. foldl f z (concat (map g [0..<k]))"]) (simp_all add: assms)
  then show ?thesis by simp
qed

lemma pool_window_ok:
  assumes img: "holds_image src 0 NE H W C" and c: "c < C"
  shows "pool_window True f z src (int NE * int c) (int H) (int W) (int K) rn cn
       = Inr (foldl f z (window_pixels src NE H W K c rn cn))"
proof -
  let ?g = "\<lambda>ky kx. if inside H W (rn + int ky) (cn + int kx) then [pixel src 0 NE H W c (rn + int ky) (cn + int kx)] else []"
  have cell: "(if True \<and> \<not> (int ky + rn \<ge> 0 \<and> int ky + rn < int H \<and> int kx + cn \<ge> 0 \<and> int kx + cn < int W) then Inr acc
      else bindR (rd src (int NE * int c + rn * int W + cn + int ky * int W + int kx)) (\<lambda>x. Inr (f acc x)))
      = Inr (foldl f acc (?g ky kx))" for ky kx acc
  proof (cases "inside H W (rn + int ky) (cn + int kx)")
    case True
    then have "rd src (int NE * int c + rn * int W + cn + int ky * int W + int kx)
        = Inr (pixel src 0 NE H W c (rn + int ky) (cn + int kx))"
      using pixel_address [OF img c, of "rn + int ky" "cn + int kx" rn cn] by (simp add: inside_def ac_simps)
    with True show ?thesis by (simp add: inside_def add.commute)
  next
    case False
    then show ?thesis by (auto simp: inside_def add.commute)
  qed
  show ?thesis
    unfolding pool_window_def Let_def window_pixels_def
    by (rule for_loop_foldl, rule for_loop_foldl) (rule cell)
qed

lemma pool_window_unguarded:
  assumes "0 \<le> rn" "rn + k \<le> h" "0 \<le> cn" "cn + k \<le> w"
  shows "pool_window False f z src base h w k rn cn = pool_window True f z src base h w k rn cn"
  unfolding pool_window_def Let_def by (intro for_loop_cong) (use assms in auto)

text \<open>The pooled images of all channels, one after the other.\<close>

definition pooled :: "nat \<Rightarrow> nat \<Rightarrow> nat \<Rightarrow> (nat \<Rightarrow> nat \<Rightarrow> nat \<Rightarrow> 'f) \<Rightarrow> 'f list" where
  "pooled C OH OW v = concat (map (\<lambda>c. grid OH OW (v c)) [0..<C])"

lemma length_pooled [simp]: "length (pooled C OH OW v) = C * (OH * OW)"
  by (simp add: pooled_def length_concat comp_def sum_list_triv)

lemma pooled_nth:
  assumes "c < C" "oy < OH" "ox < OW"
  shows "pooled C OH OW v ! (c * (OH * OW) + (oy * OW + ox)) = v c oy ox"
proof -
  have "oy * OW + ox < OH * OW" using tile_fits [OF assms(2,3), of 1] by simp
  then show ?thesis
    using concat_nth_const [of "[0..<C]" "\<lambda>c. grid OH OW (v c)" "OH * OW" c "oy * OW + ox"] assms
    by (simp add: pooled_def)
qed

lemma pooled_cong:
  "(\<And>c oy ox. c < C \<Longrightarrow> oy < OH \<Longrightarrow> ox < OW \<Longrightarrow> v c oy ox = w c oy ox) \<Longrightarrow> pooled C OH OW v = pooled C OH OW w"
  unfolding pooled_def by (intro arg_cong [where f = concat] map_cong refl grid_cong) auto

lemma emits_channel:
  assumes "0 < S"
    and rows: "steps a re S = map r [0..<OH]" and cols: "steps a ce S = map q [0..<OW]"
    and out: "\<And>oy ox. oy < OH \<Longrightarrow> ox < OW \<Longrightarrow> out (r oy) (q ox) = Inr (v oy ox)"
  shows "emits L (for_loop a re S (\<lambda>rn. for_loop a ce S (\<lambda>cn st. bindR (out rn cn) (put st)))) (grid OH OW v)"
proof -
  let ?v = "\<lambda>rn cn. case out rn cn of Inr x \<Rightarrow> x"
  have "emits L (for_loop a re S (\<lambda>rn. for_loop a ce S (\<lambda>cn st. bindR (out rn cn) (put st))))
      (concat (map (\<lambda>rn. concat (map (\<lambda>cn. [?v rn cn]) (steps a ce S))) (steps a re S)))"
  proof (intro emits_for_loop assms(1))
    fix rn cn assume "rn \<in> set (steps a re S)" "cn \<in> set (steps a ce S)"
    then obtain x where "out rn cn = Inr x" using out unfolding rows cols by fastforce
    then show "emits L (\<lambda>st. bindR (out rn cn) (put st)) [?v rn cn]" using emits_put [of L x] by simp
  qed
  also have "concat (map (\<lambda>rn. concat (map (\<lambda>cn. [?v rn cn]) (steps a ce S))) (steps a re S)) = grid OH OW v"
    unfolding rows cols grid_def map_map comp_def
    by (intro arg_cong [where f = concat] map_cong refl) (simp add: out)
  finally show ?thesis .
qed

lemma pool_channels_ok:
  assumes S: "0 < S" and rows: "steps a re S = map r [0..<OH]" and cols: "steps a ce S = map q [0..<OW]"
    and out: "\<And>c oy ox. c < C \<Longrightarrow> oy < OH \<Longrightarrow> ox < OW \<Longrightarrow> out (int c) (r oy) (q ox) = Inr (v c oy ox)"
    and m: "C * (OH * OW) \<le> length m"
  shows "pool_channels out (int C) (int (OH * OW)) a re ce S m = Inr (blit m 0 (pooled C OH OW v))"
proof -
  have "pool_channels out (int C) (int (OH * OW)) a re ce S m
      = foldR (\<lambda>c res_data. bindR (for_loop a re S (\<lambda>rn. for_loop a ce S (\<lambda>cn st. bindR (out c rn cn) (put st)))
            (res_data, c * int (OH * OW))) (\<lambda>(m, _). Inr m)) (map int [0..<C]) m"
    by (simp add: pool_channels_def for_loop_steps [of 1] steps_unit)
  also have "\<dots> = Inr (blit m 0 (concat (map (\<lambda>c. grid OH OW (v (nat c))) (map int [0..<C]))))"
  proof (rule foldR_tile [where b = "OH * OW" and L = "length m"])
    fix k and m' :: "'a buf"
    assume k: "k < length (map int [0..<C])" and m': "length m' = length m"
    have e: "emits (length m) (for_loop a re S (\<lambda>rn. for_loop a ce S (\<lambda>cn st. bindR (out (int k) rn cn) (put st)))) (grid OH OW (v k))"
      by (rule emits_channel [OF S rows cols]) (use out k in simp)
    have "k * (OH * OW) + length (grid OH OW (v k)) \<le> length m"
      using tile_fits [of k C 0 1 "OH * OW"] k m by simp
    from emitsD [OF e m' this] show "bindR (for_loop a re S (\<lambda>rn. for_loop a ce S (\<lambda>cn st. bindR (out (map int [0..<C] ! k) rn cn) (put st)))
          (m', map int [0..<C] ! k * int (OH * OW))) (\<lambda>(m, _). Inr m)
        = Inr (blit m' (0 + k * (OH * OW)) (grid OH OW (v (nat (map int [0..<C] ! k)))))"
      using k by simp
  qed (use m in simp_all)
  finally show ?thesis by (simp add: pooled_def comp_def)
qed

lemmas pool_windows = pool_channels_ok [where r = "\<lambda>i. int (i * S) - int P" and q = "\<lambda>i. int (i * S) - int P" for S P]

lemma maxpool_unfold:
  assumes ok: "conv_ok (xs, 0, NE, W, C, K, P, S)" and OS: "OS = out_size W P K S"
    and alloc: "4 * int ((OS * OS) * C) + 32 \<le> MaxAllocSize"
  shows "maxpool (matrix (int C) (int NE) xs) (int K) (int P) (int S)
    = Inr (matrix (int C) (int (OS * OS)) (pooled C OS OS (\<lambda>c oy ox.
        foldl fmaxf bot (window_pixels xs NE W W K c (int (oy * S) - int P) (int (ox * S) - int P)))))"
proof -
  let ?v = "\<lambda>c oy ox. foldl fmaxf bot (window_pixels xs NE W W K c (int (oy * S) - int P) (int (ox * S) - int P))"
  let ?z = "replicate ((OS * OS) * C) (Some 0)"
  let ?win = "\<lambda>g c rn cn. pool_window g fmaxf bot xs (int NE * c) (int W) (int W) (int K) rn cn"
  have g: "holds_image xs 0 NE W W C" "K \<le> W + 2 * P" "0 < S" using ok by simp_all
  have sq: "csqrt (int NE) = Inr (int W)" using ok by (auto simp: csqrt_def)
  have out: "conv_out_dim (int W) (int P) (int K) (int S) = Inr (int OS)"
    unfolding OS by (rule conv_out_dim_ok) (use ok in simp_all)
  have fm: "float4construct_md_array_ncpy (int ((OS * OS) * C)) [int C, int (OS * OS)] [1, 1]
      = Inr (matrix (int C) (int (OS * OS)) (replicate ((OS * OS) * C) 0))"
    using float4construct_md_array_ncpy_matrix [of "int ((OS * OS) * C)"] alloc by (simp del: of_nat_mult)
  have st: "steps (- int P) (int W + int P - int K + 1) (int S) = map (\<lambda>i. int (i * S) - int P) [0..<OS]"
    unfolding OS by (rule steps_window [OF g(2,3)])
  have padded: "pool_channels (?win True) (int C) (int (OS * OS)) (- int P) (int W + int P - int K + 1) (int W + int P - int K + 1) (int S) ?z
      = Inr (map Some (pooled C OS OS ?v))"
    using pool_windows [OF _ st st, of C "?win True" ?v ?z] pool_window_ok [OF g(1)] g(3)
    by (simp add: blit_full mult.commute)
  have plain: "pool_channels (?win False) (int C) (int (OS * OS)) 0 (int W - int K + 1) (int W - int K + 1) (int S) ?z
      = Inr (map Some (pooled C OS OS ?v))" if "P = 0"
  proof -
    have "pool_channels (?win False) (int C) (int (OS * OS)) 0 (int W - int K + 1) (int W - int K + 1) (int S) ?z
        = pool_channels (?win True) (int C) (int (OS * OS)) 0 (int W - int K + 1) (int W - int K + 1) (int S) ?z"
      unfolding pool_channels_def
      by (intro for_loop_cong arg_cong2 [where f = bindR] refl) (simp add: pool_window_unguarded)
    then show ?thesis using padded that by simp
  qed
  have d: "int OS * int OS = int (OS * OS)" by simp
  show ?thesis
    unfolding maxpool_def using plain padded
    by (simp add: sq out d result_allocs [OF alloc] fm Let_def del: of_nat_mult)
qed

subsection \<open>Average pooling\<close>

type_synonym 'f pool_call = "'f list \<times> nat \<times> nat \<times> nat \<times> nat \<times> nat"

fun avg_ok :: "'f pool_call \<Rightarrow> bool" where
  "avg_ok (src, W, C, K, P, S) \<longleftrightarrow> holds_image src 0 (W * W) W W C \<and> K \<le> W + 2 * P \<and> 0 < S
     \<and> int (W + 2 * P) < INT_MAX \<and> int (W * W) \<le> INT_MAX \<and> int (K * K) \<le> INT_MAX"

fun avg_vals :: "'f::{ring_1,divide} pool_call \<Rightarrow> 'f list" where
  "avg_vals (src, W, C, K, P, S) = pooled C (out_size W P K S) (out_size W P K S) (\<lambda>c oy ox.
     sum_list (window_pixels src (W * W) W W K c (int (oy * S) - int P) (int (ox * S) - int P)) * (1 div of_int (int (K * K))))"

lemma foldl_plus: "foldl (+) s xs = s + sum_list (xs :: 'f :: monoid_add list)"
  by (induction xs arbitrary: s) (simp_all add: add.assoc)

lemma avgpool_core_ok:
  fixes src :: "'f::{ring_1,divide} list"
  assumes ok: "avg_ok (src, W, C, K, P, S)" and OS: "OS = out_size W P K S" and m: "C * (OS * OS) \<le> length m"
  shows "avgpool_core src m (int (OS * OS)) (int W) (int W) (int C) (int K) (int P) (int S)
       = Inr (blit m 0 (avg_vals (src, W, C, K, P, S)))"
proof -
  have g: "holds_image src 0 (W * W) W W C" "K \<le> W + 2 * P" "0 < S" using ok by simp_all
  let ?v = "\<lambda>c oy ox. sum_list (window_pixels src (W * W) W W K c (int (oy * S) - int P) (int (ox * S) - int P)) * (1 div of_int (int (K * K)))"
  have ci: "cint (int W * int W) = Inr (int (W * W))" "cint (int K * int K) = Inr (int (K * K))"
    using ok cint_in [of "int (W * W)"] cint_in [of "int (K * K)"] by (simp_all add: in_int_def order_trans [of INT_MIN 0])
  have st: "steps (- int P) (int W + int P - int K + 1) (int S) = map (\<lambda>i. int (i * S) - int P) [0..<OS]"
    unfolding OS by (rule steps_window [OF g(2,3)])
  have win: "bindR (pool_window True (+) 0 src (int (W * W) * int c) (int W) (int W) (int K) rn cn) (\<lambda>avg_sum.
      Inr (avg_sum * (1 div of_int (int (K * K))))) = Inr (sum_list (window_pixels src (W * W) W W K c rn cn) * (1 div of_int (int (K * K))))"
    if "c < C" for c rn cn
    using pool_window_ok [OF g(1) that] by (simp add: foldl_plus)
  have "pool_channels (\<lambda>c rn cn. bindR (pool_window True (+) 0 src (int (W * W) * c) (int W) (int W) (int K) rn cn) (\<lambda>avg_sum.
      Inr (avg_sum * (1 div of_int (int (K * K)))))) (int C) (int (OS * OS)) (- int P) (int W + int P - int K + 1) (int W + int P - int K + 1) (int S) m
      = Inr (blit m 0 (pooled C OS OS ?v))"
    by (rule pool_windows [OF _ st st]) (use g(3) win m in simp_all)
  then show ?thesis by (simp add: avgpool_core_def ci OS del: of_nat_mult)
qed

interpretation avg: buffer_kernel
  "\<lambda>(src, W, C, K, P, S) m. avgpool_core src m (int (out_size W P K S * out_size W P K S)) (int W) (int W) (int C) (int K) (int P) (int S)"
  avg_ok avg_vals
proof
  fix p :: "'f::{ring_1,divide} pool_call" and m :: "'f buf"
  assume a: "avg_ok p" "length (avg_vals p) \<le> length m"
  obtain src W C K P S where p: "p = (src, W, C, K, P, S)" by (metis surj_pair)
  show "(case p of (src, W, C, K, P, S) \<Rightarrow> \<lambda>m. avgpool_core src m (int (out_size W P K S * out_size W P K S))
      (int W) (int W) (int C) (int K) (int P) (int S)) m = Inr (blit m 0 (avg_vals p))"
    using avgpool_core_ok [OF a(1) [unfolded p] refl, of m] a(2) by (simp add: p)
qed

lemma avg_fresh:
  assumes ok: "avg_ok (src, W, C, K, P, S)" and OS: "OS = out_size W P K S"
  shows "avgpool_core src (replicate ((OS * OS) * C) None) (int (OS * OS)) (int W) (int W) (int C) (int K) (int P) (int S)
       = Inr (map Some (avg_vals (src, W, C, K, P, S)))"
proof -
  have "length (avg_vals (src, W, C, K, P, S)) = (OS * OS) * C" unfolding avg_vals.simps OS by simp
  from avg.fresh [OF ok this] show ?thesis by (simp add: OS)
qed

lemma avgpool_unfold:
  assumes ok: "avg_ok (xs, W, C, K, P, S)" and OS: "OS = out_size W P K S"
    and alloc: "4 * int ((OS * OS) * C) + 32 \<le> MaxAllocSize" and C: "0 < C"
  shows "avgpool (matrix (int C) (int (W * W)) xs) (int K) (int P) (int S)
    = Inr (matrix (int C) (int (OS * OS)) (avg_vals (xs, W, C, K, P, S)))"
proof -
  have sq: "csqrt (int (W * W)) = Inr (int W)" by (simp add: csqrt_def del: of_nat_mult)
  have out: "conv_out_dim (int W) (int P) (int K) (int S) = Inr (int OS)"
    unfolding OS by (rule conv_out_dim_ok) (use ok in simp_all)
  have "int (OS * OS) \<le> int ((OS * OS) * C)" using C by (simp only: of_nat_le_iff) simp
  then have a: "4 * int (OS * OS) \<le> MaxAllocSize" using alloc by linarith
  have l: "length (avg_vals (xs, W, C, K, P, S)) = (OS * OS) * C" unfolding avg_vals.simps OS by simp
  show ?thesis
    unfolding avgpool_def
    by (simp add: sq out cint_size [OF a] result_allocs [OF alloc] avg_fresh [OF ok OS] l Let_def
        del: of_nat_mult avg_vals.simps)
qed

lemma avgpool_conv_unfold:
  assumes spec: "sgemm_spec sgemm" and ok: "avg_ok (xs, W, C, K, P, S)" and OS: "OS = out_size W P K S"
    and alloc: "4 * int ((OS * OS) * C) + 32 \<le> MaxAllocSize" "4 * int (M * (OS * OS)) + 32 \<le> MaxAllocSize"
    and pos: "0 < C" "0 < M" and len: "length ks = M * C"
  shows "avgpool_conv sgemm (matrix (int M) (int C) ks) (matrix (int C) (int (W * W)) xs) (vector bs) (int K) (int P) (int S)
    = Inr (matrix (int M) (int (OS * OS))
        (let p = gemm_vals False M (OS * OS) C ks C (avg_vals (xs, W, C, K, P, S)) (OS * OS)
         in if length bs = M then biased fmax0 bs M (OS * OS) p else p))"
proof -
  let ?a = "avg_vals (xs, W, C, K, P, S)"
  let ?p = "gemm_vals False M (OS * OS) C ks C ?a (OS * OS)"
  have sq: "csqrt (int (W * W)) = Inr (int W)" by (simp add: csqrt_def del: of_nat_mult)
  have out: "conv_out_dim (int W) (int P) (int K) (int S) = Inr (int OS)"
    unfolding OS by (rule conv_out_dim_ok) (use ok in simp_all)
  have "int (OS * OS) \<le> int ((OS * OS) * C)" using pos by (simp only: of_nat_le_iff) simp
  then have a: "4 * int (OS * OS) \<le> MaxAllocSize" using alloc by linarith
  have la: "length ?a = C * (OS * OS)" unfolding avg_vals.simps OS by simp
  have OS0: "0 < OS" using OS by simp
  have g: "sgemm False (int M) (int (OS * OS)) (int C) ks (int C) ?a (int (OS * OS)) (replicate (M * (OS * OS)) (Some 0)) (int (OS * OS))
      = Inr (map Some ?p)"
    by (rule sgemm_specD [OF spec]) (use pos OS0 len la in \<open>simp_all add: product_args del: avg_vals.simps\<close>)
  have lp: "length ?p = M * (OS * OS)" by (simp add: gemm_vals_def)
  have f: "float4construct_md_array r (int (OS * OS) * int M) [int M, int (OS * OS)] [1, 1] = Inr (matrix (int M) (int (OS * OS)) r)"
    if "length r = M * (OS * OS)" for r :: "'a list"
    using result_allocs(5) [OF alloc(2) that] by (simp add: mult.commute)
  have c: "cint (int (OS * OS) * int M) = Inr (int (OS * OS) * int M)"
    using result_allocs(1) [OF alloc(2)] by (simp add: mult.commute)
  show ?thesis
    unfolding avgpool_conv_def using add_bias_ok [OF lp, of bs fmax0]
    by (simp add: sq out cint_size [OF a] result_allocs [OF alloc(1)] result_allocs [OF alloc(2)] avg_fresh [OF ok OS]
        g lp f c Let_def del: of_nat_mult avg_vals.simps)
qed

subsection \<open>The vector kernel\<close>

text \<open>The image of channel \<open>c\<close> with its border of zeros.\<close>

definition padded :: "'f::zero list \<Rightarrow> nat \<Rightarrow> nat \<Rightarrow> nat \<Rightarrow> nat \<Rightarrow> nat \<Rightarrow> nat \<Rightarrow> 'f" where
  "padded src H W P c y x = pixel src 0 (H * W) H W c (int y - int P) (int x - int P)"

lemma blit_border:
  assumes "\<And>j. pos \<le> j \<Longrightarrow> j < pos + (a + length vs + b) \<Longrightarrow> m ! j = Some z" and "pos + (a + length vs + b) \<le> length m"
  shows "blit m (pos + a) vs = blit m pos (replicate a z @ vs @ replicate b z)"
  using assms by (intro nth_equalityI) (auto simp: nth_blit nth_append)

lemma row_with_border:
  assumes img: "holds_image src 0 (H * W) H W C" and c: "c < C" and h: "h < H"
  shows "replicate P 0 @ take W (drop (c * W * H + h * W) src) @ replicate P 0
       = map (padded src H W P c (h + P)) [0..<W + 2 * P]"
proof (rule nth_equalityI)
  have fit: "c * W * H + h * W + W \<le> length src"
    using tile_fits [of h H 0 1 W] tile_fits [of c C 0 1 "H * W"] h c img by (simp add: holds_image_def algebra_simps)
  then show l: "length (replicate P 0 @ take W (drop (c * W * H + h * W) src) @ replicate P 0)
      = length (map (padded src H W P c (h + P)) [0..<W + 2 * P])" by simp
  fix x assume "x < length (replicate P 0 @ take W (drop (c * W * H + h * W) src) @ replicate P 0)"
  with fit show "(replicate P 0 @ take W (drop (c * W * H + h * W) src) @ replicate P 0) ! x
      = map (padded src H W P c (h + P)) [0..<W + 2 * P] ! x"
    using h by (auto simp: nth_append padded_def pixel_def of_nat_diff nat_diff_distrib algebra_simps)
qed

lemma padded_zero: "y < P \<or> H + P \<le> y \<Longrightarrow> padded src H W P c y x = 0"
  by (auto simp: padded_def pixel_def)

lemma copy_channel:
  assumes img: "holds_image src 0 (H * W) H W C" and c: "c < C"
    and n: "n = (H + 2 * P) * (W + 2 * P)" and m: "length m = C * n"
    and zero: "\<And>j. c * n \<le> j \<Longrightarrow> j < c * n + n \<Longrightarrow> m ! j = Some 0"
  shows "for_loop 0 (int H) 1 (\<lambda>h m. memcpy m (int (c * n) + (h + int P) * int (W + 2 * P) + int P)
            src (int c * int W * int H + h * int W) (int W)) m
       = Inr (blit m (c * n) (grid (H + 2 * P) (W + 2 * P) (padded src H W P c)))"
proof -
  let ?PW = "W + 2 * P" and ?f = "padded src H W P c"
  let ?st = "\<lambda>h. blit m (c * n) (grid (P + h) ?PW ?f)"
  have cn: "c * n + n \<le> length m" using tile_fits [of c C 0 1 n] c m by simp
  have rows: "(P + h) * ?PW + (P + W + P) \<le> n" if "h < H" for h
    using tile_fits [of "P + h" "H + 2 * P" 0 1 ?PW] that n by simp
  have top: "grid P ?PW ?f = replicate (P * ?PW) 0" by (rule grid_const) (simp add: padded_zero)
  have "P * ?PW \<le> n" unfolding n by (intro mult_le_mono1) simp
  then have start: "?st 0 = m"
    using blit_border [of "c * n" 0 "[]" "P * ?PW" m 0] zero cn by (simp add: top)
  have "for_loop 0 (int H) 1 (\<lambda>h m. memcpy m (int (c * n) + (h + int P) * int ?PW + int P)
            src (int c * int W * int H + h * int W) (int W)) (?st 0) = Inr (?st H)"
  proof (rule for_loop_states [where st = ?st])
    fix h assume h: "h < H"
    let ?vs = "take W (drop (c * W * H + h * W) src)" and ?pos = "c * n + (P + h) * ?PW"
    have src: "c * W * H + h * W + W \<le> length src"
      using tile_fits [of h H 0 1 W] tile_fits [of c C 0 1 "H * W"] h c img by (simp add: holds_image_def algebra_simps)
    have l: "length (?st h) = length m" using rows [OF h] cn by simp
    have "memcpy (?st h) (int (?pos + P)) src (int (c * W * H + h * W)) (int W) = Inr (blit (?st h) (?pos + P) ?vs)"
      using rows [OF h] cn src l by (simp add: memcpy_def del: of_nat_add of_nat_mult)
    moreover have "blit (?st h) (?pos + P) ?vs = blit (?st h) ?pos (replicate P 0 @ ?vs @ replicate P 0)"
    proof (rule blit_border)
      fix j assume j: "?pos \<le> j" "j < ?pos + (P + length ?vs + P)"
      with src rows [OF h] cn show "?st h ! j = Some 0" by (subst nth_blit) (auto intro!: zero)
    qed (use src rows [OF h] cn l in simp)
    moreover have "\<dots> = blit m (c * n) (grid (P + h) ?PW ?f @ map (?f (h + P)) [0..<W + 2 * P])"
      unfolding row_with_border [OF img c h]
      using blit_blit [of "c * n" "grid (P + h) ?PW ?f" "map (?f (h + P)) [0..<W + 2 * P]" m] rows [OF h] cn by simp
    ultimately show "memcpy (?st h) (int (c * n) + (0 + int h + int P) * int ?PW + int P) src
        (int c * int W * int H + (0 + int h) * int W) (int W) = Inr (?st (Suc h))"
      by (simp add: grid_Suc algebra_simps)
  qed simp
  also have "?st H = blit m (c * n) (grid (P + H) ?PW ?f @ replicate (P * ?PW) 0)"
    using blit_border [of "c * n" 0 "grid (P + H) ?PW ?f" "P * ?PW" m 0] zero cn n by (simp add: algebra_simps)
  also have "replicate (P * ?PW) 0 = grid P ?PW (\<lambda>i. ?f (P + H + i))"
    by (rule grid_const [symmetric]) (simp add: padded_zero)
  also have "grid (P + H) ?PW ?f @ grid P ?PW (\<lambda>i. ?f (P + H + i)) = grid (H + 2 * P) ?PW ?f"
    using grid_add [of "P + H" P ?PW ?f, symmetric] by (simp add: mult_2 add.commute add.left_commute)
  finally show ?thesis unfolding start .
qed

lemma copy_image:
  assumes img: "holds_image src 0 (H * W) H W C" and n: "n = (H + 2 * P) * (W + 2 * P)"
  shows "for_loop 0 (int C) 1 (\<lambda>c. for_loop 0 (int H) 1 (\<lambda>h m.
            memcpy m (c * int (W + 2 * P) * int (H + 2 * P) + (h + int P) * int (W + 2 * P) + int P)
              src (c * int W * int H + h * int W) (int W))) (replicate (C * n) (Some 0))
       = Inr (map Some (pooled C (H + 2 * P) (W + 2 * P) (padded src H W P)))"
proof -
  let ?vs = "\<lambda>c. grid (H + 2 * P) (W + 2 * P) (padded src H W P c)"
  define cs where "cs = (\<lambda>c. concat (map ?vs [0..<c]))"
  let ?m = "replicate (C * n) (Some 0)"
  have len: "length (cs c) = c * n" for c using length_concat_const [of "[0..<c]" ?vs n] by (simp add: n cs_def)
  have cs: "cs 0 = []" "cs (Suc c) = cs c @ ?vs c" for c by (simp_all add: cs_def)
  have "for_loop 0 (int C) 1 (\<lambda>c. for_loop 0 (int H) 1 (\<lambda>h m.
            memcpy m (c * int (W + 2 * P) * int (H + 2 * P) + (h + int P) * int (W + 2 * P) + int P)
              src (c * int W * int H + h * int W) (int W))) (blit ?m 0 (cs 0)) = Inr (blit ?m 0 (cs C))"
  proof (rule for_loop_states [where st = "\<lambda>c. blit ?m 0 (cs c)"])
    fix c assume c: "c < C"
    have fit: "c * n + n \<le> C * n" using tile_fits [of c C 0 1 n] c by simp
    have i: "int c * int (W + 2 * P) * int (H + 2 * P) = int (c * n)" by (simp add: n algebra_simps)
    have "for_loop 0 (int H) 1 (\<lambda>h m. memcpy m (int (c * n) + (h + int P) * int (W + 2 * P) + int P)
            src (int c * int W * int H + h * int W) (int W)) (blit ?m 0 (cs c)) = Inr (blit (blit ?m 0 (cs c)) (c * n) (?vs c))"
    proof (rule copy_channel [OF img c n])
      have l: "0 + length (cs c) \<le> length ?m" unfolding len using c by simp
      then show "length (blit ?m 0 (cs c)) = C * n" by (subst length_blit) simp_all
      fix j assume j: "c * n \<le> j" "j < c * n + n"
      then have "j < length ?m" using fit by simp
      from nth_blit [OF this l] show "blit ?m 0 (cs c) ! j = Some 0" using j len [of c] fit by simp
    qed
    also have "blit (blit ?m 0 (cs c)) (c * n) (?vs c) = blit ?m 0 (cs (Suc c))"
      using blit_blit [of 0 "cs c" "?vs c" ?m] fit len [of c] by (simp add: n cs)
    finally show "for_loop 0 (int H) 1 (\<lambda>h m.
            memcpy m ((0 + int c) * int (W + 2 * P) * int (H + 2 * P) + (h + int P) * int (W + 2 * P) + int P)
              src ((0 + int c) * int W * int H + h * int W) (int W)) (blit ?m 0 (cs c)) = Inr (blit ?m 0 (cs (Suc c)))"
      by (simp only: add_0 i)
  qed simp
  then show ?thesis using len [of C] by (simp add: blit_full cs) (simp add: cs_def pooled_def)
qed

text \<open>A window of nine pixels: the sum in the order of the lanes is the sum in the order of the loops.\<close>

lemma window_sum:
  "sum_list (window_pixels src NE H W K c rn cn)
   = sum_list (map (\<lambda>ky. sum_list (map (\<lambda>kx. pixel src 0 NE H W c (rn + int ky) (cn + int kx) :: 'f :: monoid_add) [0..<K])) [0..<K])"
proof -
  have row: "sum_list (concat (map (\<lambda>kx. if inside H W y (cn + int kx) then [pixel src 0 NE H W c y (cn + int kx)] else []) ks))
      = sum_list (map (\<lambda>kx. pixel src 0 NE H W c y (cn + int kx) :: 'f) ks)" for y ks
    by (induction ks) (auto simp: inside_def pixel_def)
  have "sum_list (concat (map (\<lambda>ky. concat (map (\<lambda>kx. if inside H W (rn + int ky) (cn + int kx)
         then [pixel src 0 NE H W c (rn + int ky) (cn + int kx)] else []) [0..<K])) ls))
      = sum_list (map (\<lambda>ky. sum_list (map (\<lambda>kx. pixel src 0 NE H W c (rn + int ky) (cn + int kx) :: 'f) [0..<K])) ls)" for ls
    by (induction ls) (simp_all add: row)
  then show ?thesis by (simp add: window_pixels_def)
qed

lemma window_sum_lanes:
  fixes src :: "'f::comm_monoid_add list"
  shows "(let p = padded src W W P c in
      (p y x + p (y + 1) x + p (y + 2) x) + (p y (x + 1) + p (y + 1) (x + 1) + p (y + 2) (x + 1))
        + (p y (x + 2) + p (y + 1) (x + 2) + p (y + 2) (x + 2)))
    = sum_list (window_pixels src (W * W) W W 3 c (int y - int P) (int x - int P))"
  by (simp add: window_sum padded_def numeral_3_eq_3 algebra_simps)

lemma loadu_ok:
  "i + 3 < length xs \<Longrightarrow> loadu_ps xs (int i) = Inr (xs ! i, xs ! (i + 1), xs ! (i + 2), xs ! (i + 3))"
  by (simp add: loadu_ps_def rd_def nat_add_distrib)

lemma window_inside:
  assumes "K \<le> N" "0 < S" "oy < (N - K) div S + 1"
  shows "oy * S + K \<le> (N :: nat)"
proof -
  have "oy * S \<le> (N - K) div S * S" using assms(3) by (intro mult_le_mono1) simp
  also have "\<dots> \<le> N - K" by (simp add: div_times_less_eq_dividend)
  finally show ?thesis using assms(1) by simp
qed

lemma sse_cell:
  fixes src :: "'f::{ring_1,divide} list"
  assumes PW: "PW = W + 2 * P" "3 \<le> PW" and c: "c < C" and y: "y + 3 \<le> PW" and x: "x + 4 \<le> PW"
  shows "sse_window (pooled C PW PW (padded src W W P)) (int (PW * PW)) (int PW) (int c) (int y) (int x)
       = Inr (sum_list (window_pixels src (W * W) W W 3 c (int y - int P) (int x - int P)) * (1 div of_int 9))"
proof -
  let ?d = "pooled C PW PW (padded src W W P)"
  let ?i = "\<lambda>k. c * (PW * PW) + ((y + k) * PW + x)"
  have cell: "?d ! (?i k + j) = padded src W W P c (y + k) (x + j)" if "k < 3" "j < 4" for k j
    using pooled_nth [OF c, of "y + k" PW "x + j" PW "padded src W W P"] that x y by (simp add: add.assoc)
  have load: "loadu_ps ?d (int (?i k)) = Inr (padded src W W P c (y + k) x, padded src W W P c (y + k) (x + 1),
      padded src W W P c (y + k) (x + 2), padded src W W P c (y + k) (x + 3))" if k: "k < 3" for k
  proof -
    have "(y + k) * PW + (x + 3) < PW * PW" using tile_fits [of "y + k" PW "x + 3" PW 1] k x y by simp
    then have "?i k + 3 < length ?d" using tile_fits [of c C 0 1 "PW * PW"] c by simp
    from loadu_ok [OF this] show ?thesis
      using cell [OF k, of 0] cell [OF k, of 1] cell [OF k, of 2] cell [OF k, of 3] by simp
  qed
  have i: "int (PW * PW) * int c + int y * int PW + int x = int (?i 0)"
    "int (?i 0) + int PW = int (?i 1)" "int (?i 0) + 2 * int PW = int (?i 2)" by (simp_all add: algebra_simps)
  show ?thesis
    unfolding sse_window_def Let_def i using load [of 0] load [of 1] load [of 2] window_sum_lanes [of src W P c y x]
    by (simp add: add_ps_def Let_def del: of_nat_add of_nat_mult)
qed

lemma sse_unfold:
  fixes src :: "'f::{ring_1,divide} list"
  assumes ok: "avg_ok (src, W, C, 3, P, S)" and OS: "OS = out_size W P 3 S" and m: "C * (OS * OS) \<le> length m"
    and pad: "4 * int ((W + 2 * P) * (W + 2 * P) * C) \<le> MaxAllocSize" "int ((W + 2 * P) * (W + 2 * P)) \<le> INT_MAX"
    and ndvd: "\<not> S dvd (W + 2 * P - 3)"
  shows "avgpool_core_optimized_3x3_sse src m (int (OS * OS)) (int W) (int W) (int C) (int P) (int S)
       = Inr (blit m 0 (avg_vals (src, W, C, 3, P, S)))"
proof -
  define PW where "PW = W + 2 * P"
  have g: "holds_image src 0 (W * W) W W C" "3 \<le> PW" "0 < S" using ok by (simp_all add: PW_def)
  have i: "int W + 2 * int P = int PW" by (simp add: PW_def)
  have al: "palloc0 4 (int PW * int PW * int C) = Inr (replicate (C * (PW * PW)) (Some (0 :: 'f)))"
    using palloc0_nat [of "C * (PW * PW)"] pad(1) [folded PW_def] by (simp add: ac_simps)
  have ci: "cint (int PW * int PW) = Inr (int (PW * PW))"
    using pad(2) [folded PW_def] cint_in [of "int (PW * PW)"] by (simp add: in_int_def order_trans [of INT_MIN 0])
  have copy: "for_loop 0 (int C) 1 (\<lambda>c. for_loop 0 (int W) 1 (\<lambda>h m.
            memcpy m (c * int PW * int PW + (h + int P) * int PW + int P)
              src (c * int W * int W + h * int W) (int W))) (replicate (C * (PW * PW)) (Some 0))
       = Inr (map Some (pooled C PW PW (padded src W W P)))"
    using copy_image [OF g(1) refl, of P] by (simp add: PW_def [symmetric])
  have st: "steps 0 (int PW - 2) (int S) = map (\<lambda>k. int (k * S) - int 0) [0..<OS]"
    using steps_window [of 3 PW 0 S] g(2,3) by (simp add: OS PW_def)
  have bounds: "k * S + 3 \<le> PW" "k * S + 4 \<le> PW" if "k < OS" for k
  proof -
    show le: "k * S + 3 \<le> PW" by (rule window_inside [OF g(2,3)]) (use that OS PW_def in simp)
    have "k * S + 3 \<noteq> PW" using ndvd unfolding PW_def by (metis add_diff_cancel_right' dvd_triv_right)
    with le show "k * S + 4 \<le> PW" by simp
  qed
  let ?v = "\<lambda>c oy ox. sum_list (window_pixels src (W * W) W W 3 c (int (oy * S) - int P) (int (ox * S) - int P)) * (1 div of_int 9)"
  have "pool_channels (sse_window (pooled C PW PW (padded src W W P)) (int (PW * PW)) (int PW))
        (int C) (int (OS * OS)) 0 (int PW - 2) (int PW - 2) (int S) m = Inr (blit m 0 (pooled C OS OS ?v))"
  proof (rule pool_windows [OF _ st st])
    fix c oy ox assume "c < C" "oy < OS" "ox < OS"
    from sse_cell [OF PW_def g(2) this(1) bounds(1) [OF this(2)] bounds(2) [OF this(3)], of src]
    show "sse_window (pooled C PW PW (padded src W W P)) (int (PW * PW)) (int PW) (int c) (int (oy * S) - int 0) (int (ox * S) - int 0)
        = Inr (?v c oy ox)" by simp
  qed (use g(3) m in simp_all)
  then show ?thesis
    by (simp add: avgpool_core_optimized_3x3_sse_def i al copy ci OS Let_def del: of_nat_mult of_nat_add)
qed

lemma set_window_pixels:
  "set (window_pixels src NE H W K c rn cn)
   = (\<lambda>(ky, kx). pixel src 0 NE H W c (rn + int ky) (cn + int kx))
     ` {(ky, kx). ky < K \<and> kx < K \<and> inside H W (rn + int ky) (cn + int kx)}"
  by (force simp: window_pixels_def split: if_splits)

section \<open>Properties\<close>

text \<open>
  C30: maxpool returns, for every channel and position of the window, the largest pixel of the window inside the
  image (minus infinity when the window lies entirely in the padding).
\<close>

theorem maxpool_is_window_max:
  fixes xs :: "'f :: {zero,linorder,order_bot} list"
  assumes "conv_ok (xs, 0, NE, W, C, K, P, S)" "OS = out_size W P K S" "4 * int ((OS * OS) * C) + 32 \<le> MaxAllocSize"
  shows "\<exists>out. maxpool (matrix (int C) (int NE) xs) (int K) (int P) (int S) = Inr (matrix (int C) (int (OS * OS)) out)
     \<and> length out = C * (OS * OS)
     \<and> (\<forall>c < C. \<forall>oy < OS. \<forall>ox < OS. out ! (c * (OS * OS) + (oy * OS + ox))
          = Max (insert bot ((\<lambda>(ky, kx). pixel xs 0 NE W W c (int (oy * S) - int P + int ky) (int (ox * S) - int P + int kx))
              ` {(ky, kx). ky < K \<and> kx < K \<and> inside W W (int (oy * S) - int P + int ky) (int (ox * S) - int P + int kx)})))"
  by (intro exI conjI allI impI)
    (rule maxpool_unfold [OF assms], simp, simp only: pooled_nth foldl_fmaxf set_window_pixels)

theorem maxpool_is_window_max_witness:
  "\<exists>out. maxpool (matrix 1 4 [5, 8, 7, 6 :: nat]) 2 0 2 = Inr (matrix 1 1 out) \<and> out ! 0 = 8"
proof -
  have ok: "conv_ok ([5, 8, 7, 6 :: nat], 0, 4, 2, 1, 2, 0, 2)" using isqrt_square [of 2] by (simp add: holds_image_def)
  obtain out where o: "maxpool (matrix 1 4 [5, 8, 7, 6 :: nat]) 2 0 2 = Inr (matrix 1 1 out)"
    "out ! 0 = Max (insert bot ((\<lambda>(ky, kx). pixel [5, 8, 7, 6] 0 4 2 2 0 (0 + int ky) (0 + int kx))
       ` {(ky, kx). ky < 2 \<and> kx < 2 \<and> inside 2 2 (0 + int ky) (0 + int kx)}))"
    using maxpool_is_window_max [OF ok, of 1] by auto
  have "{(ky :: nat, kx :: nat). ky < 2 \<and> kx < 2 \<and> inside 2 2 (0 + int ky) (0 + int kx)} = {(0, 0), (0, 1), (1, 0), (1, 1)}"
    by (auto simp: inside_def)
  then have "out ! 0 = 8" using o(2) by (simp add: pixel_def)
  with o(1) show ?thesis by blast
qed

text \<open>
  C31: avgpool on square images returns, for every channel and position of a kernel of at least one cell, the mean of
  the kernel_size^2 cells of the window: the sum of its pixels divided by kernel_size^2, where cells in the padding
  are zeros and count in the divisor.
\<close>

theorem avgpool_is_window_mean:
  fixes xs :: "'f::field list"
  assumes "avg_ok (xs, W, C, K, P, S)" "OS = out_size W P K S" "4 * int ((OS * OS) * C) + 32 \<le> MaxAllocSize" "0 < C" "0 < K"
  shows "\<exists>out. avgpool (matrix (int C) (int (W * W)) xs) (int K) (int P) (int S) = Inr (matrix (int C) (int (OS * OS)) out)
     \<and> length out = C * (OS * OS)
     \<and> (\<forall>c < C. \<forall>oy < OS. \<forall>ox < OS. out ! (c * (OS * OS) + (oy * OS + ox))
          = (\<Sum>(ky, kx) \<in> {..<K} \<times> {..<K}.
               pixel xs 0 (W * W) W W c (int (oy * S) - int P + int ky) (int (ox * S) - int P + int kx)) / of_nat (K * K))"
proof (intro exI conjI allI impI)
  show "avgpool (matrix (int C) (int (W * W)) xs) (int K) (int P) (int S)
      = Inr (matrix (int C) (int (OS * OS)) (avg_vals (xs, W, C, K, P, S)))"
    by (rule avgpool_unfold [OF assms(1-4)])
  show "length (avg_vals (xs, W, C, K, P, S)) = C * (OS * OS)" by (simp add: assms(2))
  fix c oy ox assume i: "c < C" "oy < OS" "ox < OS"
  show "avg_vals (xs, W, C, K, P, S) ! (c * (OS * OS) + (oy * OS + ox))
      = (\<Sum>(ky, kx) \<in> {..<K} \<times> {..<K}.
           pixel xs 0 (W * W) W W c (int (oy * S) - int P + int ky) (int (ox * S) - int P + int kx)) / of_nat (K * K)"
    unfolding avg_vals.simps assms(2) [symmetric] pooled_nth [OF i] window_sum
    by (simp add: interv_sum_list_conv_sum_set_nat sum.cartesian_product atLeast0LessThan del: of_nat_mult of_nat_add)
qed

theorem avgpool_is_window_mean_witness:
  "\<exists>out. avgpool (matrix 1 4 [5, 8, 7, 6 :: rat]) 2 0 2 = Inr (matrix 1 1 out) \<and> out ! 0 = 13 / 2"
proof -
  have "avg_ok ([5, 8, 7, 6 :: rat], 2, 1, 2, 0, 2)" by (simp add: holds_image_def)
  from avgpool_is_window_mean [OF this, of 1] obtain out where
    o: "avgpool (matrix 1 4 [5, 8, 7, 6 :: rat]) 2 0 2 = Inr (matrix 1 1 out)"
      "out ! 0 = (\<Sum>(ky, kx) \<in> {..<2} \<times> {..<2}. pixel [5, 8, 7, 6] 0 4 2 2 0 (int ky) (int kx)) / 4" by auto
  have "{..<2 :: nat} = {0, 1}" by auto
  then have "out ! 0 = 13 / 2" unfolding o(2) by (simp add: pixel_def)
  with o(1) show ?thesis by blast
qed

text \<open>
  The vector kernel for 3x3 windows computes the same averages as avgpool_core, when the stride does not
  divide size + 2 * padding - 3.
\<close>

theorem sse_kernel_equals_avgpool_core:
  fixes src :: "'f::{ring_1,divide} list"
  assumes "avg_ok (src, W, C, 3, P, S)" "OS = out_size W P 3 S" "C * (OS * OS) \<le> length m"
    and "4 * int ((W + 2 * P) * (W + 2 * P) * C) \<le> MaxAllocSize" "int ((W + 2 * P) * (W + 2 * P)) \<le> INT_MAX"
    and "\<not> S dvd (W + 2 * P - 3)"
  shows "avgpool_core_optimized_3x3_sse src m (int (OS * OS)) (int W) (int W) (int C) (int P) (int S)
       = avgpool_core src m (int (OS * OS)) (int W) (int W) (int C) 3 (int P) (int S)"
  using sse_unfold [OF assms] avgpool_core_ok [OF assms(1-3)] by simp

theorem sse_kernel_equals_avgpool_core_witness:
  "avgpool_core_optimized_3x3_sse [1 .. 16 :: int] (replicate 1 None) 1 4 4 1 0 2
   = avgpool_core [1 .. 16 :: int] (replicate 1 None) 1 4 4 1 3 0 2"
proof -
  have "avg_ok ([1 .. 16 :: int], 4, 1, 3, 0, 2)" by (simp add: holds_image_def)
  from sse_kernel_equals_avgpool_core [OF this, of 1 "replicate 1 None"] show ?thesis by simp
qed

end
