(* ===== verification/Shapes.thy ===== *)
theory Shapes
  imports Pool
begin

text \<open>
  Shapes of the arrays that a query computes. A layer of a network is a call of one of the operators of
  \<open>matrix_op.c\<close>, \<open>conv.c\<close>, \<open>pool.c\<close> and \<open>extended_op.c\<close>; a query nests such calls. The shape of a result is
  computed from the shape of the input and the sizes of the loaded weights alone, and every query that
  returns yields an array of that shape whose header agrees with its data.
\<close>

section \<open>Layers\<close>

datatype 'f op =
    Relu
  | Kfm "'f ArrayType" "'f ArrayType"
  | Kfm_nt string bool
  | Mat_mul string
  | Batchnorm "'f ArrayType"
  | Im2col int int int
  | Kfm_im2col string int int int "int ArrayType option"
  | Avgpool int int int

record 'f env =
  env_sgemm :: "'f sgemm"
  env_reg :: "nat list"
  env_pool :: "'f WeightPool option"
  env_sqrt :: "'f \<Rightarrow> 'f"

fun run_op :: "'f env \<Rightarrow> 'f op \<Rightarrow> 'f ArrayType \<Rightarrow> 'f::{ring_1,divide,ord} ArrayType result" where
  "run_op E Relu x = bindR (relu x) (\<lambda>(_, y). Inr y)"
| "run_op E (Kfm k b) x = kfm (env_sgemm E) k x b"
| "run_op E (Kfm_nt name acti) x = kfm_nt (env_sgemm E) (env_reg E) (env_pool E) name x acti"
| "run_op E (Mat_mul name) x = mat_mul (env_sgemm E) (env_reg E) (env_pool E) x name"
| "run_op E (Batchnorm args) x = batchnorm (env_sqrt E) x args"
| "run_op E (Im2col k p s) x = im2col x k p s"
| "run_op E (Kfm_im2col name k p s off) x =
     bindR (kfm_im2col (env_sgemm E) (env_reg E) (env_pool E) name x k p s off) (\<lambda>(_, y). Inr y)"
| "run_op E (Avgpool k p s) x = avgpool x k p s"

text \<open>The shape of a result, for weights whose sizes are given by \<open>\<Gamma>\<close>.\<close>

fun op_shape :: "(string \<Rightarrow> int \<times> int) \<Rightarrow> 'f op \<Rightarrow> int \<times> int \<Rightarrow> (int \<times> int) result" where
  "op_shape \<Gamma> Relu (r, c) = Inr (r, c)"
| "op_shape \<Gamma> (Kfm k b) (r, c) = bindR (ARR_DIMS k 0) (\<lambda>m. Inr (m, r))"
| "op_shape \<Gamma> (Kfm_nt name acti) (r, c) = Inr (fst (\<Gamma> name), c)"
| "op_shape \<Gamma> (Mat_mul name) (r, c) = Inr (r, snd (\<Gamma> name))"
| "op_shape \<Gamma> (Batchnorm args) (r, c) = Inr (r, c)"
| "op_shape \<Gamma> (Im2col k p s) (r, c) =
     bindR (csqrt c) (\<lambda>w. bindR (cdiv (w + 2 * p - k + 1) s) (\<lambda>n. Inr (n * n, r * k * k)))"
| "op_shape \<Gamma> (Kfm_im2col name k p s off) (r, c) =
     bindR (csqrt c) (\<lambda>w. bindR (conv_out_dim w p k s) (\<lambda>n. Inr (fst (\<Gamma> name), n * n)))"
| "op_shape \<Gamma> (Avgpool k p s) (r, c) = bindR (csqrt c) (\<lambda>w. bindR (conv_out_dim w p k s) (\<lambda>n. Inr (r, n * n)))"

text \<open>An array whose header and data agree and which fits a datum.\<close>

definition shaped :: "int \<times> int \<Rightarrow> 'f ArrayType \<Rightarrow> bool" where
  "shaped rc a \<longleftrightarrow> (\<exists>xs. a = matrix (fst rc) (snd rc) xs \<and> 0 \<le> fst rc \<and> 0 \<le> snd rc
     \<and> int (length xs) = fst rc * snd rc \<and> 4 * int (length xs) + 32 \<le> MaxAllocSize)"

definition named :: "(string \<Rightarrow> int \<times> int) \<Rightarrow> 'f env \<Rightarrow> string \<Rightarrow> bool" where
  "named \<Gamma> E name \<longleftrightarrow> 0 \<le> fst (\<Gamma> name) \<and> 0 \<le> snd (\<Gamma> name) \<and>
     (\<exists>ks bs. layer (env_reg E) (env_pool E) name (matrix (fst (\<Gamma> name)) (snd (\<Gamma> name)) ks) (vector bs))"

fun op_ok :: "(string \<Rightarrow> int \<times> int) \<Rightarrow> 'f env \<Rightarrow> 'f op \<Rightarrow> bool" where
  "op_ok \<Gamma> E (Kfm k b) \<longleftrightarrow> (\<exists>rc. shaped rc k)"
| "op_ok \<Gamma> E (Kfm_nt name acti) \<longleftrightarrow> named \<Gamma> E name"
| "op_ok \<Gamma> E (Mat_mul name) \<longleftrightarrow> named \<Gamma> E name"
| "op_ok \<Gamma> E (Kfm_im2col name k p s off) \<longleftrightarrow> named \<Gamma> E name"
| "op_ok \<Gamma> E _ \<longleftrightarrow> True"

section \<open>Lemmas\<close>

lemma shaped_matrix:
  "shaped (r, c) (matrix r c xs) \<longleftrightarrow> 0 \<le> r \<and> 0 \<le> c \<and> int (length xs) = r * c \<and> 4 * int (length xs) + 32 \<le> MaxAllocSize"
  by (auto simp: shaped_def matrix_def)

lemma construct_shaped:
  assumes "float4construct_md_array xs (r * c) [r, c] [1, 1] = Inr a" "0 \<le> r" "0 \<le> c" "4 * (r * c) \<le> MaxAllocSize"
  shows "shaped (r, c) a"
proof -
  have rc: "0 \<le> r * c" using assms(2,3) by simp
  then have "in_int (4 * (r * c))" using assms(4) unfolding in_int_def by linarith
  then have w: "wrap32 (4 * (r * c)) = 4 * (r * c)" by simp
  have m: "(4 * (r * c) + 32) mod 18446744073709551616 = 4 * (r * c) + 32"
    using rc assms(4) by (intro mod_pos_pos_trivial) linarith+
  from assms(1) have "4 * (r * c) + 32 \<le> MaxAllocSize" "r * c \<le> int (length xs)" "a = matrix r c (take (nat (r * c)) xs)"
    using rc assms(4)
    by (auto simp: float4construct_md_array_def bindR_Inr_iff md_array_alloc_def Let_def w m ARR_OVERHEAD_NONULLS_def MAXALIGN_def
        matrix_def split: if_splits)
  then show ?thesis
    using assms(2,3) rc by (simp add: shaped_matrix)
qed

lemma cint_InrD: "cint x = Inr y \<Longrightarrow> y = x"
  by (simp add: cint_Inr_iff)

lemma palloc_InrD: "palloc 4 n = Inr m \<Longrightarrow> 4 * n \<le> MaxAllocSize" "palloc0 4 n = Inr z \<Longrightarrow> 4 * n \<le> MaxAllocSize"
  by (auto simp: palloc_def palloc0_def split: if_splits)

lemma relu_shaped:
  assumes "shaped rc x" "relu x = Inr (x', y)"
  shows "shaped rc y"
proof -
  obtain r c xs where x: "rc = (r, c)" "x = matrix r c xs" "0 \<le> r" "0 \<le> c" "4 * (r * c) \<le> MaxAllocSize"
    using assms(1) by (cases rc) (auto simp: shaped_def)
  from assms(2) x(2) obtain data where "float4construct_md_array data (r * c) [r, c] [1, 1] = Inr y"
    by (auto simp: relu_def bindR_Inr_iff dest!: cint_InrD)
  then show ?thesis using construct_shaped x by blast
qed

lemma kfm_shaped:
  assumes "shaped rc x" "shaped kc k" "kfm sgemm k x b = Inr y"
  shows "shaped (fst kc, fst rc) y"
proof -
  obtain r c xs m l ks where x: "rc = (r, c)" "x = matrix r c xs" "0 \<le> r" "kc = (m, l)" "k = matrix m l ks" "0 \<le> m"
    using assms(1,2) by (cases rc; cases kc) (auto simp: shaped_def)
  from assms(3) obtain data where "float4construct_md_array data (m * r) [m, r] [1, 1] = Inr y" "4 * (m * r) \<le> MaxAllocSize"
    unfolding kfm_def x(2,5) by (auto simp: bindR_Inr_iff require_Inr_iff dest!: cint_InrD palloc_InrD)
  then show ?thesis using construct_shaped x by auto
qed

lemma kfm_nt_shaped:
  assumes "shaped rc x" "layer reg pool name (matrix m l ks) (vector bs)" "0 \<le> m" "kfm_nt sgemm reg pool name x acti = Inr y"
  shows "shaped (m, snd rc) y"
proof -
  obtain r c xs where x: "rc = (r, c)" "x = matrix r c xs" "0 \<le> c"
    using assms(1) by (cases rc) (auto simp: shaped_def)
  obtain e where e: "\<forall>m. need_weight reg pool (name @ ''_val'') m = Inr e" "entry_dim e 0 = Inr m" "entry_dim e 1 = Inr l"
    using assms(2) by (rule layer_matrixE)
  from assms(4) obtain data where "float4construct_md_array data (m * c) [m, c] [1, 1] = Inr y" "4 * (m * c) \<le> MaxAllocSize"
    unfolding kfm_nt_def x(2) by (auto simp: bindR_Inr_iff require_Inr_iff e dest!: cint_InrD palloc_InrD)
  then show ?thesis using construct_shaped x assms(3) by auto
qed

lemma mat_mul_shaped:
  assumes "shaped rc x" "layer reg pool name (matrix m l ks) (vector bs)" "0 \<le> l" "mat_mul sgemm reg pool x name = Inr y"
  shows "shaped (fst rc, l) y"
proof -
  obtain r c xs where x: "rc = (r, c)" "x = matrix r c xs" "0 \<le> r"
    using assms(1) by (cases rc) (auto simp: shaped_def)
  obtain e where e: "\<forall>m. need_weight reg pool (name @ ''_val'') m = Inr e" "entry_dim e 0 = Inr m" "entry_dim e 1 = Inr l"
    using assms(2) by (rule layer_matrixE)
  from assms(4) obtain data where "float4construct_md_array data (r * l) [r, l] [1, 1] = Inr y" "4 * (r * l) \<le> MaxAllocSize"
    unfolding mat_mul_def x(2) by (auto simp: bindR_Inr_iff require_Inr_iff e dest!: cint_InrD palloc_InrD)
  then show ?thesis using construct_shaped x assms(3) by auto
qed

lemma batchnorm_shaped:
  assumes "shaped rc x" "batchnorm sqrtf x args = Inr y"
  shows "shaped rc y"
proof -
  obtain r c xs where x: "rc = (r, c)" "x = matrix r c xs" "0 \<le> r" "0 \<le> c"
    using assms(1) by (cases rc) (auto simp: shaped_def)
  from assms(2) obtain data where "float4construct_md_array data (r * c) [r, c] [1, 1] = Inr y" "4 * (r * c) \<le> MaxAllocSize"
    unfolding batchnorm_def x(2) by (auto simp: bindR_Inr_iff dest!: cint_InrD palloc_InrD)
  then show ?thesis using construct_shaped x by blast
qed

lemma im2col_shaped:
  assumes "shaped (r, c) x" "im2col x k p s = Inr y"
  shows "\<exists>w n. csqrt c = Inr w \<and> cdiv (w + 2 * p - k + 1) s = Inr n \<and> shaped (n * n, r * k * k) y"
proof -
  obtain xs where x: "x = matrix r c xs" "0 \<le> r" using assms(1) by (auto simp: shaped_def)
  from assms(2) obtain w n data where w: "csqrt c = Inr w" "cdiv (w + 2 * p - k + 1) s = Inr n"
      "float4construct_md_array data (n * n * (r * k * k)) [n * n, r * k * k] [1, 1] = Inr y"
      "4 * (n * n * (r * k * k)) \<le> MaxAllocSize"
    unfolding im2col_def x(1) by (auto simp: bindR_Inr_iff Let_def mult.assoc dest!: cint_InrD palloc_InrD)
  have "0 \<le> r * (k * k)" using mult_nonneg_nonneg [OF x(2), of "k * k"] by simp
  with construct_shaped [OF w(3) _ _ w(4)] w(1,2) show ?thesis by (simp add: mult.assoc)
qed

lemma kfm_im2col_shaped:
  assumes "shaped (r, c) x" "layer reg pool name (matrix m l ks) (vector bs)" "0 \<le> m"
    and "kfm_im2col sgemm reg pool name x k p s off = Inr (x', y)"
  shows "\<exists>w n. csqrt c = Inr w \<and> conv_out_dim w p k s = Inr n \<and> shaped (m, n * n) y"
proof -
  obtain xs where x: "x = matrix r c xs" using assms(1) by (auto simp: shaped_def)
  obtain e where e: "\<forall>m. need_weight reg pool (name @ ''_val'') m = Inr e" "entry_dim e 0 = Inr m" "entry_dim e 1 = Inr l"
    using assms(2) by (rule layer_matrixE)
  from assms(4) obtain w n data where w: "csqrt c = Inr w" "conv_out_dim w p k s = Inr n"
      "float4construct_md_array data (m * (n * n)) [m, n * n] [1, 1] = Inr y" "4 * (m * (n * n)) \<le> MaxAllocSize"
    unfolding kfm_im2col_def x
    by (auto simp: bindR_Inr_iff require_Inr_iff Let_def e simp del: mult_cancel_left dest!: cint_InrD palloc_InrD)
  with construct_shaped [OF w(3) assms(3) _ w(4)] show ?thesis by simp
qed

lemma avgpool_shaped:
  assumes "shaped (r, c) x" "avgpool x k p s = Inr y"
  shows "\<exists>w n. csqrt c = Inr w \<and> conv_out_dim w p k s = Inr n \<and> shaped (r, n * n) y"
proof -
  obtain xs where x: "x = matrix r c xs" "0 \<le> r" using assms(1) by (auto simp: shaped_def)
  from assms(2) obtain w n data where w: "csqrt c = Inr w" "conv_out_dim w p k s = Inr n"
      "float4construct_md_array data (r * (n * n)) [r, n * n] [1, 1] = Inr y" "4 * (r * (n * n)) \<le> MaxAllocSize"
    unfolding avgpool_def x(1) by (auto simp: bindR_Inr_iff Let_def mult.commute [of "_ * _" r] dest!: cint_InrD palloc_InrD)
  with construct_shaped [OF w(3) x(2) _ w(4)] show ?thesis by simp
qed

lemma run_op_shaped:
  assumes "op_ok \<Gamma> E opn" "shaped rc x" "run_op E opn x = Inr y"
  shows "\<exists>rc'. op_shape \<Gamma> opn rc = Inr rc' \<and> shaped rc' y"
proof (cases rc)
  case (Pair r c)
  show ?thesis
  proof (cases opn)
    case Relu
    then show ?thesis using assms relu_shaped [of rc x] Pair by (auto simp: bindR_Inr_iff)
  next
    case (Kfm k b)
    then obtain m l where k: "shaped (m, l) k" using assms(1) by auto
    then have "ARR_DIMS k 0 = Inr m" by (auto simp: shaped_def)
    then show ?thesis using assms(2,3) kfm_shaped [OF _ k] Kfm Pair by auto
  next
    case (Kfm_nt name acti)
    then show ?thesis using assms kfm_nt_shaped [of rc x] Pair by (auto simp: named_def)
  next
    case (Mat_mul name)
    then show ?thesis using assms mat_mul_shaped [of rc x] Pair by (auto simp: named_def)
  next
    case (Batchnorm args)
    then show ?thesis using assms batchnorm_shaped [of rc x] Pair by auto
  next
    case (Im2col k p s)
    then show ?thesis using assms(2,3) im2col_shaped [of r c x k p s y] Pair by auto
  next
    case (Kfm_im2col name k p s off)
    obtain x' where "kfm_im2col (env_sgemm E) (env_reg E) (env_pool E) name x k p s off = Inr (x', y)"
      using assms(3) Kfm_im2col by (auto simp: bindR_Inr_iff)
    then show ?thesis using assms(1,2) kfm_im2col_shaped [of r c x] Kfm_im2col Pair by (fastforce simp: named_def)
  next
    case (Avgpool k p s)
    then show ?thesis using assms(2,3) avgpool_shaped [of r c x k p s y] Pair by auto
  qed
qed

section \<open>Properties\<close>

text \<open>
  C8: Shape soundness: whenever a sequence of layers returns on a well-shaped input, the shape function
  succeeds on the shape of the input, and the result has the shape it computes, with as many elements
  as its header says and within the size of a datum.
\<close>

theorem layers_keep_shapes:
  assumes "list_all (op_ok \<Gamma> E) ops" "shaped rc x" "foldR (run_op E) ops x = Inr y"
  shows "\<exists>rc'. foldR (op_shape \<Gamma>) ops rc = Inr rc' \<and> shaped rc' y"
  using assms
proof (induction ops arbitrary: x rc)
  case (Cons opn ops)
  then obtain x1 where x1: "run_op E opn x = Inr x1" "foldR (run_op E) ops x1 = Inr y" by (auto simp: bindR_Inr_iff)
  obtain rc1 where "op_shape \<Gamma> opn rc = Inr rc1" "shaped rc1 x1" using run_op_shaped [of \<Gamma>, OF _ Cons.prems(2) x1(1)] Cons.prems(1) by auto
  then show ?case using Cons.IH [OF _ _ x1(2)] Cons.prems(1) by auto
qed auto

theorem layers_keep_shapes_witness:
  "\<exists>y. foldR (run_op \<lparr>env_sgemm = ref_sgemm, env_reg = [], env_pool = None, env_sqrt = id\<rparr>)
       [Relu, Kfm (matrix 1 2 [3, 4]) (vector [7])] (matrix 1 2 [5, - 6 :: int]) = Inr y \<and> shaped (1, 1) y"
proof -
  let ?E = "\<lparr>env_sgemm = ref_sgemm, env_reg = [], env_pool = None, env_sqrt = (id :: int \<Rightarrow> int)\<rparr>"
  have k: "shaped (1, 2) (matrix 1 2 [3, 4 :: int])" "shaped (1, 2) (matrix 1 2 [5, - 6 :: int])" by (simp_all add: shaped_matrix)
  obtain y where y: "foldR (run_op ?E) [Relu, Kfm (matrix 1 2 [3, 4]) (vector [7])] (matrix 1 2 [5, - 6]) = Inr y"
    by (cases "foldR (run_op ?E) [Relu, Kfm (matrix 1 2 [3, 4]) (vector [7])] (matrix 1 2 [5, - 6])") code_simp
  have "list_all (op_ok (\<lambda>_. (0, 0)) ?E) [Relu, Kfm (matrix 1 2 [3, 4]) (vector [7])]" using k(1) by auto
  from layers_keep_shapes [OF this k(2) y] y show ?thesis by auto
qed

text \<open>
  C20: The layers above exclude \<open>maxpool\<close>, whose constructor does not check the size against the data: for a
  kernel of 33000 on an image of two by two pixels the negative output size is squared, four times the
  square wraps around in \<open>int nbytes\<close>, no window is visited, and the result claims 1088802009 elements
  but has 15060185.
\<close>

theorem maxpool_huge_kernel_malformed:
  "\<exists>a. maxpool (matrix 1 4 xs) 33000 0 1 = Inr a \<and> arr_dims a = [1, 1088802009] \<and> length (arr_data a) = 15060185"
proof -
  have sq: "csqrt 4 = Inr 2" using csqrt_square [of 2] by simp
  have od: "conv_out_dim 2 0 33000 1 = Inr (- 32997)"
    by (simp add: conv_out_dim_def cdiv_def cint_def in_int_def signed_divide_int_def)
  have c: "cint 1088802009 = Inr 1088802009" by (simp add: cint_def in_int_def)
  have m: "float4construct_md_array_ncpy 1088802009 [1, 1088802009] [1, 1] = Inr (matrix 1 1088802009 (replicate 15060185 0))"
    by (simp add: float4construct_md_array_ncpy_def md_array_alloc_def Let_def wrap32_def ARR_OVERHEAD_NONULLS_def MAXALIGN_def matrix_def)
  have l: "pool_channels f 1 n 0 (- 32997) (- 32997) 1 z = Inr z" for f n and z :: "'a buf"
    by (simp add: pool_channels_def for_loop_steps steps_done)
  show ?thesis
    by (simp add: maxpool_def sq od c m l Let_def flip: map_replicate)
qed

end
