(* ===== verification/Array_Ops.thy ===== *)
theory Array_Ops
  imports Pg_Array
begin

text \<open>
  \<open>concat_array\<close>, \<open>split_array\<close> and \<open>split_vertical_array\<close> of \<open>aqua_extension/src/extended_op.c\<close>.
  \<open>split_array\<close> is a set-returning function: its first call computes all parts, and every call returns the
  next one until none is left.
\<close>

section \<open>Concatenation\<close>

text \<open>
  The loop over the inputs: the first one may be narrowed to the rows \<open>offset[0]\<close> to \<open>offset[1]\<close>, by
  changing its dimensions in place and moving its data pointer. An input is its data with the position of the
  pointer, its number of channels and the number of elements per channel.
\<close>

definition concat_input ::
  "'f ArrayType \<Rightarrow> int ArrayType option \<Rightarrow> int \<Rightarrow> ('f ArrayType \<times> ('f list \<times> int) \<times> int \<times> int) result" where
  "concat_input matr offset i =
     bindR (case offset of
         Some offset_array \<Rightarrow>
           if i = 0 then
             bindR (bindR (rd (arr_data offset_array) 0) (\<lambda>o0. cint (o0 - 1))) (\<lambda>start_index.
             bindR (rd (arr_data offset_array) 1) (\<lambda>end_index.
             bindR (cint (end_index - start_index)) (\<lambda>d0.
             bindR (ARR_DIMS matr 1) (\<lambda>d1.
             bindR (cint (start_index * d1)) (\<lambda>base.
               Inr (set_dim0 matr d0, base))))))
           else Inr (matr, 0)
       | None \<Rightarrow> Inr (matr, 0)) (\<lambda>(matr, base).
     bindR (ARR_DIMS matr 0) (\<lambda>channels.
     bindR (ARR_DIMS matr 1) (\<lambda>nelems_channel.
       Inr (matr, (arr_data matr, base), channels, nelems_channel))))"

fun concat_inputs ::
  "'f ArrayType option list \<Rightarrow> int ArrayType option \<Rightarrow> int \<Rightarrow> int \<Rightarrow> ('f ArrayType list \<times> (('f list \<times> int) \<times> int \<times> int) list \<times> int) result" where
  "concat_inputs [] offset i total_channel = Inr ([], [], total_channel)"
| "concat_inputs (None # ms) offset i total_channel = Inl (Undefined Null_deref)"
| "concat_inputs (Some matr # ms) offset i total_channel =
     bindR (concat_input matr offset i) (\<lambda>(matr, input, channels, nelems_channel).
     bindR (cint (total_channel + channels)) (\<lambda>total_channel.
     bindR (concat_inputs ms offset (i + 1) total_channel) (\<lambda>(ms, inputs, total_channel).
       Inr (matr # ms, (input, channels, nelems_channel) # inputs, total_channel))))"

text \<open>The second loop copies the inputs one after the other.\<close>

fun concat_copy :: "(('f list \<times> int) \<times> int \<times> int) list \<Rightarrow> int \<Rightarrow> 'f buf \<Rightarrow> 'f buf result" where
  "concat_copy [] offset res_data = Inr res_data"
| "concat_copy (((data, base), channels, nelems_channel) # inputs) offset res_data =
     bindR (cint (channels * nelems_channel)) (\<lambda>n.
     bindR (memcpy res_data offset data base n) (\<lambda>res_data.
       concat_copy inputs (offset + n) res_data))"

text \<open>
  The function has six array arguments, the arguments 1 to 6 of the call; those that a query leaves out are NULL, and
  \<open>args\<close> lists the others from the first on. Argument 7 is \<open>offset\<close>: a count above six reads it, a pointer to
  integers or NULL, as a matrix, and then what follows the arguments. A count of zero leaves \<open>nelems_channel[0]\<close>
  without a value. The result has the inputs, with the changed dimensions of the first, and the new array.
\<close>

definition getarg :: "'a option list \<Rightarrow> nat \<Rightarrow> 'a option" where
  "getarg args i = (if i < length args then args ! i else None)"

definition concat_array ::
  "int \<Rightarrow> 'f::zero ArrayType option list \<Rightarrow> int ArrayType option \<Rightarrow> ('f ArrayType list \<times> 'f ArrayType) result" where
  "concat_array num_inputs args offset =
     require (0 < num_inputs) (Undefined Uninitialised) (
     bindR (concat_inputs (map (getarg args) [0..<min (nat num_inputs) 6]) offset 0 0) (\<lambda>(ms, inputs, total_channel).
     require (num_inputs \<le> 6) (Undefined (if offset = None then Null_deref else Out_of_bounds)) (
     let nelems_channel0 = snd (snd (hd inputs)) in
     bindR (cint (total_channel * nelems_channel0)) (\<lambda>res_size.
     bindR (float4construct_md_array_ncpy res_size [total_channel, nelems_channel0] [1, 1]) (\<lambda>res.
     bindR (concat_copy inputs 0 (map Some (arr_data res))) (\<lambda>res_data.
     bindR (sealed res_data) (\<lambda>res_data.
       Inr (ms, res\<lparr>arr_data := res_data\<rparr>))))))))"

section \<open>Splitting\<close>

record 'f FuncCallContext =
  call_cntr :: nat
  max_calls :: nat
  user_fctx :: "(int \<times> 'f ArrayType) list"

definition split_part :: "'f list \<Rightarrow> int \<Rightarrow> int \<Rightarrow> int \<Rightarrow> int \<Rightarrow> (int \<times> 'f ArrayType) result" where
  "split_part data sub_size rows_per_subarray ncols i =
     bindR (palloc 8 sub_size) (\<lambda>subarray_data.
     bindR (for_loop 0 sub_size 1 (\<lambda>j subarray_data.
         bindR (rd data (i * sub_size + j)) (\<lambda>x. wr subarray_data j x)) subarray_data) (\<lambda>subarray_data.
     bindR (sealed subarray_data) (\<lambda>subarray_data.
     bindR (construct_md_array subarray_data [rows_per_subarray, ncols] [1, 1]) (\<lambda>resultArray.
       Inr (i + 1, resultArray)))))"

definition split_init :: "'f ArrayType \<Rightarrow> int \<Rightarrow> 'f FuncCallContext result" where
  "split_init input split_num =
     bindR (palloc 8 split_num) (\<lambda>resultElements :: unit buf.
     bindR (ARR_DIMS input 0) (\<lambda>nrows.
     bindR (ARR_DIMS input 1) (\<lambda>ncols.
     bindR (cdiv nrows split_num) (\<lambda>rows_per_subarray.
     bindR (cmod nrows split_num) (\<lambda>r.
     require (r = 0) (Elog ''The number of rows in the input array is not evenly divisible by split_num'') (
     bindR (cint (rows_per_subarray * ncols)) (\<lambda>sub_size.
     bindR (for_loop 0 split_num 1 (\<lambda>i parts.
         bindR (split_part (arr_data input) sub_size rows_per_subarray ncols i) (\<lambda>part. Inr (parts @ [part]))) []) (\<lambda>parts.
       Inr \<lparr>call_cntr = 0, max_calls = nat split_num, user_fctx = parts\<rparr>))))))))"

text \<open>One call: the context (set up by the first call), and the next row or the end of the set.\<close>

definition split_array ::
  "'f FuncCallContext option \<Rightarrow> 'f ArrayType \<Rightarrow> int \<Rightarrow> ('f FuncCallContext \<times> (int \<times> 'f ArrayType) option) result" where
  "split_array ctx input split_num =
     bindR (case ctx of None \<Rightarrow> split_init input split_num | Some funcctx \<Rightarrow> Inr funcctx) (\<lambda>funcctx.
       if call_cntr funcctx < max_calls funcctx
       then bindR (rd (user_fctx funcctx) (int (call_cntr funcctx))) (\<lambda>res.
         Inr (funcctx\<lparr>call_cntr := call_cntr funcctx + 1\<rparr>, Some res))
       else Inr (funcctx, None))"

text \<open>The executor calls the function until it signals the end of the set.\<close>

partial_function (option) split_rows ::
  "'f FuncCallContext option \<Rightarrow> 'f ArrayType \<Rightarrow> int \<Rightarrow> (int \<times> 'f ArrayType) list result option" where
  "split_rows ctx input split_num = (case split_array ctx input split_num of
     Inl e \<Rightarrow> Some (Inl e)
   | Inr (funcctx, None) \<Rightarrow> Some (Inr [])
   | Inr (funcctx, Some row) \<Rightarrow> Option.bind (split_rows (Some funcctx) input split_num)
       (\<lambda>r. Some (bindR r (\<lambda>rows. Inr (row # rows)))))"

text \<open>\<open>split_vertical_array\<close>: a row of four columns, the first \<open>split_num\<close> of them set to the input.\<close>

definition split_vertical_array :: "'f ArrayType \<Rightarrow> int \<Rightarrow> 'f ArrayType option list result" where
  "split_vertical_array input split_num =
     bindR (for_loop 0 split_num 1 (\<lambda>i res_elements. wr res_elements i (Some input)) (replicate 4 (Some None))) (\<lambda>res_elements.
       sealed res_elements)"

section \<open>What the operators compute\<close>

text \<open>The inputs of a concatenation: matrices of \<open>N\<close> columns, given by their rows and data.\<close>

abbreviation blocks :: "nat \<Rightarrow> (nat \<times> 'f list) list \<Rightarrow> 'f ArrayType list" where
  "blocks N ps \<equiv> map (\<lambda>(C, xs). matrix (int C) (int N) xs) ps"

lemma concat_inputs_ok:
  "int (t + sum_list (map fst ps)) \<le> INT_MAX \<Longrightarrow>
   concat_inputs (map Some (blocks N ps)) None i (int t)
     = Inr (blocks N ps, map (\<lambda>(C, xs). ((xs, 0), int C, int N)) ps, int (t + sum_list (map fst ps)))"
proof (induction ps arbitrary: i t)
  case (Cons p ps)
  obtain C xs where p: "p = (C, xs)" by (cases p)
  have "in_int (int t + int C)" using Cons.prems p by (simp add: in_int_def)
  then show ?case using Cons.IH [of "t + C"] Cons.prems p by (simp add: concat_input_def add.assoc)
qed simp

lemma concat_copy_ok:
  assumes "list_all (\<lambda>(C, xs). length xs = C * N) ps"
    and "off + sum_list (map fst ps) * N \<le> length m" "int (length m) \<le> INT_MAX"
  shows "concat_copy (map (\<lambda>(C, xs). ((xs, 0), int C, int N)) ps) (int off) m = Inr (blit m off (concat (map snd ps)))"
  using assms
proof (induction ps arbitrary: off m)
  case (Cons p ps)
  obtain C xs where p: "p = (C, xs)" "length xs = C * N" using Cons.prems by (cases p) auto
  have fit: "off + C * N + sum_list (map fst ps) * N \<le> length m" using Cons.prems p by (simp add: algebra_simps)
  have "int (C * N) \<le> INT_MAX" using fit Cons.prems(3) by linarith
  then have c: "cint (int C * int N) = Inr (int (C * N))" using cint_in [of "int (C * N)"] by (simp add: in_int_def order_trans [of INT_MIN 0])
  have m: "memcpy m (int off) xs 0 (int (C * N)) = Inr (blit m off xs)"
    using memcpy_ok [of off "C * N" m 0 xs] fit p by simp
  have "concat_copy (map (\<lambda>(C, xs). ((xs, 0), int C, int N)) ps) (int (off + C * N)) (blit m off xs)
      = Inr (blit (blit m off xs) (off + C * N) (concat (map snd ps)))"
    by (rule Cons.IH) (use Cons.prems fit p in simp_all)
  also have "blit (blit m off xs) (off + C * N) (concat (map snd ps)) = blit m off (concat (map snd (p # ps)))"
  proof -
    have "length (concat (map snd ps)) = sum_list (map fst ps) * N"
      using Cons.prems(1) by (induction ps) (auto simp: algebra_simps)
    then show ?thesis using blit_blit [of off xs "concat (map snd ps)" m] fit p by simp
  qed
  finally show ?case using p(1) c m by (simp del: of_nat_mult of_nat_add) (simp add: of_nat_add [symmetric] del: of_nat_add of_nat_mult)
qed simp

lemma concat_array_unfold:
  assumes "ps \<noteq> []" "length ps \<le> 6" "list_all (\<lambda>(C, xs). length xs = C * N) ps" and R: "R = sum_list (map fst ps)"
    and alloc: "4 * int (R * N) + 32 \<le> MaxAllocSize" "int R \<le> INT_MAX"
  shows "concat_array (int (length ps)) (map Some (blocks N ps)) None
    = Inr (blocks N ps, matrix (int R) (int N) (concat (map snd ps)))"
proof -
  have a: "map (getarg (map Some (blocks N ps))) [0..<min (nat (int (length ps))) 6] = map Some (blocks N ps)"
    using assms(2) by (intro nth_equalityI) (simp_all add: getarg_def)
  have i: "concat_inputs (map Some (blocks N ps)) None 0 0 = Inr (blocks N ps, map (\<lambda>(C, xs). ((xs, 0), int C, int N)) ps, int R)"
    using concat_inputs_ok [of 0 ps N 0] alloc(2) R by simp
  have hd: "snd (snd (hd (map (\<lambda>(C, xs). ((xs, 0 :: int), int C, int N)) ps))) = int N"
    using assms(1) by (cases ps) auto
  have r: "float4construct_md_array_ncpy (int (R * N)) [int R, int N] [1, 1]
      = Inr (matrix (int R) (int N) (replicate (R * N) 0))"
    using float4construct_md_array_ncpy_matrix [of "int (R * N)"] alloc(1) by (simp del: of_nat_mult)
  have l: "length (concat (map snd ps)) = R * N"
    using assms(3) unfolding R by (induction ps) (auto simp: algebra_simps)
  have "concat_copy (map (\<lambda>(C, xs). ((xs, 0), int C, int N)) ps) (int 0) (replicate (R * N) (Some 0))
      = Inr (blit (replicate (R * N) (Some 0)) 0 (concat (map snd ps)))"
    by (rule concat_copy_ok) (use assms(3) R alloc(1) in \<open>simp_all del: of_nat_mult\<close>)
  then have c: "concat_copy (map (\<lambda>(C, xs). ((xs, 0), int C, int N)) ps) 0 (replicate (R * N) (Some 0)) = Inr (map Some (concat (map snd ps)))"
    using l by (simp add: blit_full)
  show ?thesis
    unfolding concat_array_def a i using assms(1,2) by (simp add: hd r c result_allocs [OF alloc(1)] Let_def del: of_nat_mult)
qed

text \<open>Part \<open>i\<close> of a matrix whose parts have \<open>R\<close> rows of \<open>N\<close> elements.\<close>

definition part :: "nat \<Rightarrow> nat \<Rightarrow> 'f list \<Rightarrow> nat \<Rightarrow> 'f list" where
  "part R N xs i = take (R * N) (drop (i * (R * N)) xs)"

lemma length_part: "length xs = G * (R * N) \<Longrightarrow> i < G \<Longrightarrow> length (part R N xs i) = R * N"
  using tile_fits [of i G 0 1 "R * N"] by (simp add: part_def)

lemma concat_parts: "length xs = G * (R * N) \<Longrightarrow> concat (map (part R N xs) [0..<G]) = xs"
proof (induction G arbitrary: xs)
  case (Suc G)
  let ?ys = "take (G * (R * N)) xs"
  have e1: "map (part R N xs) [0..<G] = map (part R N ?ys) [0..<G]"
  proof (rule map_cong [OF refl])
    fix i assume "i \<in> set [0..<G]"
    then have "i * (R * N) + R * N \<le> G * (R * N)" using tile_fits [of i G 0 1 "R * N"] by simp
    then show "part R N xs i = part R N ?ys i" by (simp add: part_def drop_take min_def)
  qed
  have e2: "concat (map (part R N ?ys) [0..<G]) = ?ys" by (rule Suc.IH) (use Suc.prems in simp)
  have e3: "part R N xs G = drop (G * (R * N)) xs" using Suc.prems by (simp add: part_def)
  have "concat (map (part R N xs) [0..<Suc G]) = concat (map (part R N xs) [0..<G]) @ part R N xs G" by simp
  also have "\<dots> = xs" unfolding e1 e2 e3 by simp
  finally show ?case .
qed simp

lemma split_part_ok:
  assumes len: "length xs = G * (R * N)" and i: "i < G" and pos: "0 < R" "0 < N" and size: "8 * int (R * N) \<le> MaxAllocSize"
  shows "split_part xs (int (R * N)) (int R) (int N) (int i) = Inr (int i + 1, matrix (int R) (int N) (part R N xs i))"
proof -
  have l: "length (part R N xs i) = R * N" by (rule length_part [OF len i])
  have fit: "i * (R * N) + R * N \<le> length xs" using tile_fits [of i G 0 1 "R * N"] i len by simp
  have p: "palloc 8 (int (R * N)) = Inr (replicate (R * N) None)" using size by (simp add: palloc_ok del: of_nat_mult)
  have "for_loop (int 0) (int (R * N)) 1 (\<lambda>j m. bindR (rd xs (int i * int (R * N) + j)) (\<lambda>x. wr m j x)) (replicate (R * N) None)
      = Inr (blit (replicate (R * N) None) 0 (map (\<lambda>j. part R N xs i ! j) [0..<R * N]))"
  proof (rule for_loop_fill)
    fix k and m' :: "'a buf" assume k: "k < R * N"
    have "rd xs (int (i * (R * N) + k)) = Inr (part R N xs i ! k)" using k fit by (subst rd_nth) (simp_all add: part_def)
    then show "bindR (rd xs (int i * int (R * N) + (int 0 + int k))) (\<lambda>x. wr m' (int 0 + int k) x) = wr m' (int (0 + k)) (part R N xs i ! k)"
      by simp
  qed simp_all
  moreover have "map (\<lambda>j. part R N xs i ! j) [0..<R * N] = part R N xs i" using l by (metis map_nth)
  ultimately have loop: "for_loop 0 (int (R * N)) 1 (\<lambda>j m. bindR (rd xs (int i * int (R * N) + j)) (\<lambda>x. wr m j x)) (replicate (R * N) None)
      = Inr (map Some (part R N xs i))" using l by (simp add: blit_full del: of_nat_mult)
  have "construct_md_array (part R N xs i) [int R, int N] [1, 1] = Inr (matrix (int R) (int N) (part R N xs i))"
    by (rule construct_md_array_matrix) (use pos l size in simp_all)
  then show ?thesis by (simp add: split_part_def p loop del: of_nat_mult)
qed

lemma split_init_ok:
  assumes len: "length xs = G * (R * N)" and pos: "0 < G" "0 < R" "0 < N"
    and size: "8 * int (R * N) \<le> MaxAllocSize" "8 * int G \<le> MaxAllocSize"
  shows "split_init (matrix (int (G * R)) (int N) xs) (int G)
    = Inr \<lparr>call_cntr = 0, max_calls = G, user_fctx = map (\<lambda>i. (int i + 1, matrix (int R) (int N) (part R N xs i))) [0..<G]\<rparr>"
proof -
  have p: "palloc 8 (int G) = Inr (replicate G (None :: unit option))" using size(2) by (simp add: palloc_ok)
  have d: "cdiv (int (G * R)) (int G) = Inr (int R)" "cmod (int (G * R)) (int G) = Inr 0"
    using pos(1) by (simp_all add: cdiv_nonneg cmod_nonneg)
  have c: "cint (int R * int N) = Inr (int (R * N))" by (rule cint_size) (use size(1) in simp)
  let ?v = "\<lambda>i. (int i + 1, matrix (int R) (int N) (part R N xs i))"
  have "for_loop 0 (int G) 1 (\<lambda>i parts. bindR (split_part xs (int (R * N)) (int R) (int N) i) (\<lambda>part. Inr (parts @ [part]))) (map ?v [0..<0])
      = Inr (map ?v [0..<G])"
    by (rule for_loop_states [where st = "\<lambda>k. map ?v [0..<k]"]) (simp_all add: split_part_ok [OF len _ pos(2,3) size(1)] del: of_nat_mult)
  then show ?thesis by (simp add: split_init_def p d c del: of_nat_mult)
qed

lemma split_rows_rest:
  assumes "max_calls ctx = length (user_fctx ctx)" "call_cntr ctx \<le> max_calls ctx"
  shows "split_rows (Some ctx) input n = Some (Inr (drop (call_cntr ctx) (user_fctx ctx)))"
  using assms
proof (induction "max_calls ctx - call_cntr ctx" arbitrary: ctx)
  case 0
  then show ?case by (subst split_rows.simps) (simp add: split_array_def)
next
  case (Suc k)
  let ?ctx = "ctx\<lparr>call_cntr := call_cntr ctx + 1\<rparr>"
  have lt: "call_cntr ctx < length (user_fctx ctx)" using Suc by simp
  have "split_rows (Some ?ctx) input n = Some (Inr (drop (call_cntr ?ctx) (user_fctx ?ctx)))"
    by (rule Suc.hyps(1)) (use Suc in simp_all)
  then show ?case
    using lt Suc.prems by (subst split_rows.simps) (simp add: split_array_def Cons_nth_drop_Suc)
qed

lemma split_rows_ok:
  assumes len: "length xs = G * (R * N)" and pos: "0 < G" "0 < R" "0 < N"
    and size: "8 * int (R * N) \<le> MaxAllocSize" "8 * int G \<le> MaxAllocSize"
  shows "split_rows None (matrix (int (G * R)) (int N) xs) (int G)
    = Some (Inr (map (\<lambda>i. (int i + 1, matrix (int R) (int N) (part R N xs i))) [0..<G]))"
proof -
  let ?ctx = "\<lparr>call_cntr = 0, max_calls = G, user_fctx = map (\<lambda>i. (int i + 1, matrix (int R) (int N) (part R N xs i))) [0..<G]\<rparr>"
  have "split_rows None (matrix (int (G * R)) (int N) xs) (int G) = split_rows (Some ?ctx) (matrix (int (G * R)) (int N) xs) (int G)"
    unfolding split_rows.simps [of None] split_rows.simps [of "Some ?ctx"]
    by (simp add: split_array_def split_init_ok [OF assms] del: of_nat_mult)
  also have "\<dots> = Some (Inr (drop 0 (user_fctx ?ctx)))" using split_rows_rest [of ?ctx] by simp
  finally show ?thesis by simp
qed

section \<open>Properties\<close>

text \<open>
  concat_array returns the rows of its inputs one after the other, when there are at most six and all have the same
  number of columns, and leaves the inputs as they were when no range is given.
\<close>

theorem concat_array_appends_rows:
  assumes "ps \<noteq> []" "length ps \<le> 6" "list_all (\<lambda>(C, xs). length xs = C * N) ps" "R = sum_list (map fst ps)"
    and "4 * int (R * N) + 32 \<le> MaxAllocSize" "int R \<le> INT_MAX"
  shows "concat_array (int (length ps)) (map Some (blocks N ps)) None
    = Inr (blocks N ps, matrix (int R) (int N) (concat (map snd ps)))"
  by (rule concat_array_unfold [OF assms])

theorem concat_array_appends_rows_witness:
  "concat_array 2 [Some (matrix 1 2 [5, 6 :: int]), Some (matrix 2 2 [7, 8, 9, 10])] None
   = Inr ([matrix 1 2 [5, 6], matrix 2 2 [7, 8, 9, 10]], matrix 3 2 [5, 6, 7, 8, 9, 10])"
  using concat_array_appends_rows [of "[(1, [5, 6 :: int]), (2, [7, 8, 9, 10])]" 2 3] by simp

text \<open>
  concat_array never returns when the count exceeds its six inputs or the inputs given.
\<close>

lemma concat_inputs_null: "None \<in> set ms \<Longrightarrow> concat_inputs ms offset i t \<noteq> Inr r"
  by (induction ms offset i t arbitrary: r rule: concat_inputs.induct) (auto simp: bindR_Inr_iff)

theorem concat_array_too_many_inputs:
  assumes "6 < num_inputs \<or> int (length args) < num_inputs"
  shows "concat_array num_inputs args offset \<noteq> Inr r"
proof
  let ?ms = "map (getarg args) [0..<min (nat num_inputs) 6]"
  assume ok: "concat_array num_inputs args offset = Inr r"
  then obtain x where x: "0 < num_inputs" "num_inputs \<le> 6" "concat_inputs ?ms offset 0 0 = Inr x"
    by (auto simp: concat_array_def bindR_Inr_iff require_Inr_iff)
  with assms have "length args < min (nat num_inputs) 6" by auto
  then have "None \<in> set ?ms" by (auto simp: getarg_def image_iff intro!: bexI [of _ "length args"])
  with concat_inputs_null x(3) show False by blast
qed

text \<open>
  C32: split_array on a matrix whose rows divide evenly ends after split_num rows and numbers the parts from 1; when
  there are at most six parts, as many as concat_array has inputs, concatenating them gives back the matrix.
\<close>

theorem split_then_concat:
  fixes xs :: "'f::zero list"
  assumes "length xs = G * (R * N)" "0 < G" "0 < R" "0 < N"
    and "8 * int (R * N) \<le> MaxAllocSize" "8 * int G \<le> MaxAllocSize"
    and "4 * int ((G * R) * N) + 32 \<le> MaxAllocSize"
  shows "\<exists>rows. split_rows None (matrix (int (G * R)) (int N) xs) (int G) = Some (Inr rows)
     \<and> map fst rows = map (\<lambda>i. int i + 1) [0..<G]
     \<and> (G \<le> 6 \<longrightarrow> concat_array (int G) (map (Some \<circ> snd) rows) None = Inr (map snd rows, matrix (int (G * R)) (int N) xs))"
proof -
  let ?ps = "map (\<lambda>i. (R, part R N xs i)) [0..<G]"
  have "G * R \<le> G * R * N" using assms(4) by simp
  then have "int (G * R) \<le> int (G * R * N)" by (simp only: of_nat_le_iff)
  then have "int (G * R) \<le> INT_MAX" using assms(7) by linarith
  then have "concat_array (int (length ?ps)) (map Some (blocks N ?ps)) None
      = Inr (blocks N ?ps, matrix (int (G * R)) (int N) (concat (map snd ?ps)))" if "G \<le> 6"
    by (intro concat_array_unfold)
      (use that assms length_part [OF assms(1)] in \<open>simp_all add: list_all_iff comp_def sum_list_triv del: of_nat_mult\<close>)
  then show ?thesis
    using split_rows_ok [OF assms(1-6)] concat_parts [OF assms(1)] by (simp add: comp_def)
qed

theorem split_then_concat_witness:
  "\<exists>rows. split_rows None (matrix 2 2 [5, 6, 7, 8 :: int]) 2 = Some (Inr rows) \<and> map fst rows = [1, 2]
     \<and> concat_array 2 (map (Some \<circ> snd) rows) None = Inr (map snd rows, matrix 2 2 [5, 6, 7, 8])"
  using split_then_concat [of "[5, 6, 7, 8 :: int]" 2 1 2] by (auto simp: numeral_2_eq_2)

text \<open>
  split_vertical_array does not split: up to four columns each hold the whole input, and a count above
  four writes past its array of results.
\<close>

theorem split_vertical_array_copies_input:
  "split_vertical_array input (int n)
   = (if n \<le> 4 then Inr (replicate n (Some input) @ replicate (4 - n) None) else Inl (Undefined Out_of_bounds))"
proof -
  let ?b = "\<lambda>i res_elements. wr res_elements i (Some input)"
  have run: "foldR ?b (map int [0..<k]) (replicate 4 (Some None)) = Inr (blit (replicate 4 (Some None)) 0 (replicate k (Some input)))"
    if "k \<le> 4" for k
  proof -
    have "for_loop (int 0) (int k) 1 ?b (replicate 4 (Some None)) = Inr (blit (replicate 4 (Some None)) 0 (map (\<lambda>_. Some input) [0..<k]))"
      by (rule for_loop_fill) (use that in simp_all)
    then show ?thesis by (simp add: for_loop_steps steps_unit map_replicate_const)
  qed
  show ?thesis
  proof (cases "n \<le> 4")
    case True
    then show ?thesis
      using run [OF True]
      by (simp add: split_vertical_array_def for_loop_steps steps_unit blit_def sealed_def list_all_iff)
  next
    case False
    then have "[0..<n] = [0..<4] @ 4 # [5..<n]"
      using upt_add_eq_append [of 0 4 "n - 4"] by (simp add: upt_conv_Cons del: upt_Suc)
    then have "foldR ?b (map int [0..<n]) (replicate 4 (Some None))
        = bindR (foldR ?b (map int [0..<4]) (replicate 4 (Some None))) (foldR ?b (map int (4 # [5..<n])))"
      by (simp only: map_append foldR_append)
    also have "\<dots> = Inl (Undefined Out_of_bounds)" using run [of 4] by (simp add: wr_def)
    finally show ?thesis using False by (simp add: split_vertical_array_def for_loop_steps steps_unit)
  qed
qed

end
