(* ===== verification/Null_Bitmap.thy ===== *)
theory Null_Bitmap
  imports Pg_Array
begin

unbundle bit_operations_syntax

text \<open>
  The null bitmap of an array and \<open>array_bitmap_copy\<close> (\<open>pg-src/src/backend/utils/adt/arrayfuncs.c\<close>),
  which moves a range of its bits. Bit \<open>i mod 8\<close> of byte \<open>i div 8\<close> is set when element \<open>i\<close> is not null.

  The routine walks a destination and a source cursor: the address of the current byte, a mask that
  is shifted up to \<open>0x100\<close>, and a cached copy of the byte. The cached destination byte is written
  back when its mask runs over, and at the end unless the mask is back at 1; a fresh byte is fetched
  only while there are bits left to copy.
\<close>

definition store_byte :: "8 word list \<Rightarrow> nat \<Rightarrow> int \<Rightarrow> 8 word list result" where
  "store_byte bm p v =
     (if p < length bm then Inr (bm[p := word_of_int v]) else Inl (Undefined Out_of_bounds))"

definition fetch_byte :: "8 word list \<Rightarrow> nat \<Rightarrow> int result" where
  "fetch_byte bm p = (if p < length bm then Inr (uint (bm ! p)) else Inl (Undefined Out_of_bounds))"

text \<open>A cursor: byte address, mask, cached byte.\<close>

type_synonym cursor = "nat \<times> int \<times> int"

definition next_dest :: "8 word list \<Rightarrow> cursor \<Rightarrow> nat \<Rightarrow> (8 word list \<times> cursor) result" where
  "next_dest bm c nitems = (case c of (p, msk, val) \<Rightarrow>
     let msk = push_bit 1 msk in
     if msk = 0x100 then
       bindR (store_byte bm p val) (\<lambda>bm.
         if nitems > 0 then bindR (fetch_byte bm (p + 1)) (\<lambda>val. Inr (bm, p + 1, 1, val))
         else Inr (bm, p + 1, 1, val))
     else Inr (bm, p, msk, val))"

definition next_src :: "8 word list \<Rightarrow> cursor \<Rightarrow> nat \<Rightarrow> cursor result" where
  "next_src bm c nitems = (case c of (p, msk, val) \<Rightarrow>
     let msk = push_bit 1 msk in
     if msk = 0x100 then
       (if nitems > 0 then bindR (fetch_byte bm (p + 1)) (\<lambda>val. Inr (p + 1, 1, val))
        else Inr (p + 1, 1, val))
     else Inr (p, msk, val))"

definition flush_dest :: "8 word list \<Rightarrow> cursor \<Rightarrow> 8 word list result" where
  "flush_dest bm c = (case c of (p, msk, val) \<Rightarrow> if msk \<noteq> 1 then store_byte bm p val else Inr bm)"

fun copy_bits :: "nat \<Rightarrow> 8 word list \<Rightarrow> cursor \<Rightarrow> 8 word list \<Rightarrow> cursor \<Rightarrow> 8 word list result" where
  "copy_bits 0 dest d src s = flush_dest dest d"
| "copy_bits (Suc nitems) dest (dp, dmask, dval) src (sp, smask, sval) =
     (let dval = (if sval AND smask \<noteq> 0 then dval OR dmask else dval AND NOT dmask) in
      bindR (next_dest dest (dp, dmask, dval) nitems) (\<lambda>(dest, d).
      bindR (next_src src (sp, smask, sval) nitems) (\<lambda>s.
        copy_bits nitems dest d src s)))"

fun fill_bits :: "nat \<Rightarrow> 8 word list \<Rightarrow> cursor \<Rightarrow> 8 word list result" where
  "fill_bits 0 dest d = flush_dest dest d"
| "fill_bits (Suc nitems) dest (dp, dmask, dval) =
     bindR (next_dest dest (dp, dmask, dval OR dmask) nitems) (\<lambda>(dest, d). fill_bits nitems dest d)"

text \<open>\<open>*bitmap\<close> at element number \<open>offset\<close>; the offsets are not negative.\<close>

definition start_cursor :: "8 word list \<Rightarrow> int \<Rightarrow> cursor result" where
  "start_cursor bm offset =
     bindR (fetch_byte bm (nat (offset div 8))) (\<lambda>v. Inr (nat (offset div 8), push_bit (nat (offset mod 8)) 1, v))"

definition array_bitmap_copy ::
  "8 word list \<Rightarrow> int \<Rightarrow> 8 word list option \<Rightarrow> int \<Rightarrow> int \<Rightarrow> 8 word list result" where
  "array_bitmap_copy destbitmap destoffset srcbitmap srcoffset nitems =
     (if nitems \<le> 0 then Inr destbitmap
      else bindR (start_cursor destbitmap destoffset) (\<lambda>d.
        case srcbitmap of
          Some src \<Rightarrow> bindR (start_cursor src srcoffset) (\<lambda>s. copy_bits (nat nitems) destbitmap d src s)
        | None \<Rightarrow> fill_bits (nat nitems) destbitmap d))"

section \<open>Lemmas\<close>

definition nonnull :: "8 word list \<Rightarrow> nat \<Rightarrow> bool" where
  "nonnull bm i = bit (bm ! (i div 8)) (i mod 8)"

definition nonnull_bits :: "8 word list \<Rightarrow> nat \<Rightarrow> bool list" where
  "nonnull_bits bm n = map (nonnull bm) [0 ..< n]"

text \<open>The bitmap with one bit replaced.\<close>

definition put_bit :: "8 word list \<Rightarrow> nat \<Rightarrow> bool \<Rightarrow> 8 word list" where
  "put_bit bm i b =
     bm[i div 8 := (if b then bm ! (i div 8) OR push_bit (i mod 8) 1
                    else bm ! (i div 8) AND NOT (push_bit (i mod 8) 1))]"

lemma length_put_bit [simp]: "length (put_bit bm i b) = length bm"
  by (simp add: put_bit_def)

lemma div_less_bytes: "i < 8 * n \<Longrightarrow> i div 8 < (n::nat)"
  by (simp add: div_less_iff_less_mult mult.commute)

lemma nonnull_put_bit:
  assumes "i < 8 * length bm" "j < 8 * length bm"
  shows "nonnull (put_bit bm i b) j = (if j = i then b else nonnull bm j)"
proof (cases "j div 8 = i div 8")
  case True
  then have "j = i \<longleftrightarrow> j mod 8 = i mod 8" by (metis div_mult_mod_eq)
  then show ?thesis
    using True assms by (auto simp: nonnull_def put_bit_def div_less_bytes bit_simps)
qed (auto simp: nonnull_def put_bit_def)

text \<open>
  The bitmap a destination cursor at bit \<open>i\<close> stands for: the cached byte has not been written back,
  unless the walk has ended on a byte boundary.
\<close>

definition dest_at :: "8 word list \<Rightarrow> cursor \<Rightarrow> nat \<Rightarrow> nat \<Rightarrow> 8 word list \<Rightarrow> bool" where
  "dest_at bm c i nitems bm' \<longleftrightarrow> (case c of (p, msk, val) \<Rightarrow>
     p = i div 8 \<and> msk = 2 ^ (i mod 8) \<and> i + nitems \<le> 8 * length bm \<and> length bm' = length bm \<and>
     (if nitems = 0 \<and> i mod 8 = 0 then bm' = bm
      else bm' = bm[p := word_of_int val] \<and> 0 \<le> val \<and> val < 256))"

definition src_at :: "8 word list \<Rightarrow> cursor \<Rightarrow> nat \<Rightarrow> nat \<Rightarrow> bool" where
  "src_at bm c i nitems \<longleftrightarrow> (case c of (p, msk, val) \<Rightarrow>
     p = i div 8 \<and> msk = 2 ^ (i mod 8) \<and> i + nitems \<le> 8 * length bm \<and>
     (nitems > 0 \<longrightarrow> val = uint (bm ! p)))"

lemma bit_pos_cases:
  fixes i :: nat
  obtains "Suc i div 8 = i div 8" "Suc i mod 8 = Suc (i mod 8)" "(2::int) ^ (i mod 8) < 128"
  | "Suc i div 8 = Suc (i div 8)" "Suc i mod 8 = 0" "(2::int) ^ (i mod 8) = 128"
proof (cases "i mod 8 = 7")
  case False
  then have "i mod 8 < 7" using mod_less_divisor [of 8 i] by linarith
  then have "(2::int) ^ (i mod 8) < 2 ^ 7" by (intro power_strict_increasing) simp_all
  with False that(1) show ?thesis by (simp add: mod_Suc div_Suc)
next
  case True
  with that(2) show ?thesis by (simp add: mod_Suc div_Suc)
qed

lemma byte_or_mask:
  assumes "0 \<le> v" "v < 256" "k < 8"
  shows "0 \<le> v OR 2 ^ k" "v OR 2 ^ k < (256::int)" "0 \<le> v AND NOT (2 ^ k)" "v AND NOT (2 ^ k) < (256::int)"
proof -
  have "(2::int) ^ k < 2 ^ 8" using assms(3) by (intro power_strict_increasing) simp_all
  then show "v OR 2 ^ k < 256" using OR_upper [of v 8 "2 ^ k"] assms by simp
  show "v AND NOT (2 ^ k) < 256" using AND_upper1 [of v "NOT (2 ^ k)"] assms by linarith
qed (use assms in simp_all)

lemma next_dest_step:
  assumes d: "dest_at bm (p, m, v) i (Suc n) bm'"
  shows "\<exists>bm2 c. next_dest bm (p, m, if b then v OR m else v AND NOT m) n = Inr (bm2, c) \<and>
           dest_at bm2 c (Suc i) n (put_bit bm' i b)"
proof -
  define v' where "v' = (if b then v OR m else v AND NOT m)"
  have p: "p = i div 8" "m = 2 ^ (i mod 8)" "p < length bm" and fit: "i + Suc n \<le> 8 * length bm"
    and v: "0 \<le> v" "v < 256" and bm': "bm' = bm[p := word_of_int v]"
    using d by (auto simp: dest_at_def div_less_bytes)
  have v'b: "0 \<le> v'" "v' < 256" using byte_or_mask [OF v, of "i mod 8"] p by (simp_all add: v'_def)
  have pb: "put_bit bm' i b = bm[p := word_of_int v']"
    using p by (simp add: put_bit_def bm' v'_def of_int_or_eq of_int_and_eq of_int_not_eq push_bit_eq_mult
        flip: p(1))
  show ?thesis
  proof (cases i rule: bit_pos_cases)
    case 1
    then show ?thesis
      using p fit v'b pb unfolding v'_def [symmetric]
      by (simp add: next_dest_def dest_at_def Let_def push_bit_eq_mult mult.commute)
  next
    case 2
    have more: "0 < n \<Longrightarrow> Suc p < length bm" using fit 2 p by (metis (no_types, lifting) div_less_bytes
          add_Suc_shift less_add_same_cancel1 order_less_le_trans)
    show ?thesis
    proof (cases "n = 0")
      case True
      then show ?thesis using 2 p fit pb unfolding v'_def [symmetric]
        by (simp add: next_dest_def dest_at_def push_bit_eq_mult store_byte_def)
    next
      case False
      then show ?thesis using 2 p fit pb more uint_bounded [of "bm ! Suc p"] unfolding v'_def [symmetric]
        by (simp add: next_dest_def dest_at_def push_bit_eq_mult store_byte_def fetch_byte_def
            list_update_swap [of "i div 8" "Suc (i div 8)"])
    qed
  qed
qed

lemma next_src_step:
  assumes s: "src_at bm (p, m, v) i (Suc n)"
  shows "v AND m \<noteq> 0 \<longleftrightarrow> nonnull bm i"
    and "\<exists>c. next_src bm (p, m, v) n = Inr c \<and> src_at bm c (Suc i) n"
proof -
  have p: "p = i div 8" "m = 2 ^ (i mod 8)" "v = uint (bm ! p)" and fit: "i + Suc n \<le> 8 * length bm"
    using s by (auto simp: src_at_def)
  show "v AND m \<noteq> 0 \<longleftrightarrow> nonnull bm i"
    using p by (simp add: nonnull_def and_exp_eq_0_iff_not_bit bit_simps)
  show "\<exists>c. next_src bm (p, m, v) n = Inr c \<and> src_at bm c (Suc i) n"
  proof (cases i rule: bit_pos_cases)
    case 1
    then show ?thesis
      using p fit by (simp add: next_src_def src_at_def Let_def push_bit_eq_mult mult.commute)
  next
    case 2
    have "0 < n \<Longrightarrow> Suc p < length bm" using fit 2 p by (metis (no_types, lifting) div_less_bytes
          add_Suc_shift less_add_same_cancel1 order_less_le_trans)
    then show ?thesis using 2 p fit
      by (simp add: next_src_def src_at_def push_bit_eq_mult fetch_byte_def)
  qed
qed

lemma flush_dest_at:
  assumes "dest_at bm c i 0 bm'"
  shows "flush_dest bm c = Inr bm'"
proof (cases "i mod 8 = 0")
  case False
  then have "i \<noteq> 8 * length bm" by auto
  then have "i div 8 < length bm" using assms by (intro div_less_bytes) (auto simp: dest_at_def)
  moreover have "(2::int) ^ (i mod 8) \<noteq> 1" by (rule less_imp_neq [symmetric], rule one_less_power) (use False in simp_all)
  ultimately show ?thesis
    using assms False by (auto simp: dest_at_def flush_dest_def store_byte_def)
qed (use assms in \<open>auto simp: dest_at_def flush_dest_def\<close>)

text \<open>The result of copying the bits \<open>b 0, \<dots>, b (n - 1)\<close> to position \<open>i\<close>.\<close>

fun put_bits :: "nat \<Rightarrow> 8 word list \<Rightarrow> nat \<Rightarrow> (nat \<Rightarrow> bool) \<Rightarrow> 8 word list" where
  "put_bits 0 bm i b = bm"
| "put_bits (Suc n) bm i b = put_bits n (put_bit bm i (b 0)) (Suc i) (\<lambda>k. b (Suc k))"

lemma length_put_bits [simp]: "length (put_bits n bm i b) = length bm"
  by (induction n bm i b rule: put_bits.induct) simp_all

lemma nonnull_put_bits:
  "i + n \<le> 8 * length bm \<Longrightarrow> j < 8 * length bm \<Longrightarrow>
   nonnull (put_bits n bm i b) j = (if i \<le> j \<and> j < i + n then b (j - i) else nonnull bm j)"
proof (induction n bm i b rule: put_bits.induct)
  case (2 n bm i b)
  then show ?case by (cases "j = i") (auto simp: nonnull_put_bit Suc_diff_Suc)
qed auto

lemma copy_bits_ok:
  "dest_at dest d i n dest' \<Longrightarrow> src_at src s j n \<Longrightarrow>
   copy_bits n dest d src s = Inr (put_bits n dest' i (\<lambda>k. nonnull src (j + k)))"
proof (induction n arbitrary: dest d i dest' s j)
  case (Suc n)
  obtain dp dm dv sp sm sv where c: "d = (dp, dm, dv)" "s = (sp, sm, sv)" by (metis surj_pair)
  let ?b = "nonnull src j"
  obtain dest2 d2 where d2: "next_dest dest (dp, dm, if ?b then dv OR dm else dv AND NOT dm) n = Inr (dest2, d2)"
    "dest_at dest2 d2 (Suc i) n (put_bit dest' i ?b)"
    using next_dest_step [OF Suc.prems(1) [unfolded c], of ?b] by blast
  obtain s2 where s2: "next_src src (sp, sm, sv) n = Inr s2" "src_at src s2 (Suc j) n"
    using next_src_step(2) [OF Suc.prems(2) [unfolded c]] by blast
  show ?case
    using d2 s2 Suc.IH [OF d2(2) s2(2)] next_src_step(1) [OF Suc.prems(2) [unfolded c]]
    by (cases ?b) (simp_all add: c)
qed (simp add: flush_dest_at)

lemma fill_bits_ok: "dest_at dest d i n dest' \<Longrightarrow> fill_bits n dest d = Inr (put_bits n dest' i (\<lambda>_. True))"
proof (induction n arbitrary: dest d i dest')
  case (Suc n)
  obtain dp dm dv where c: "d = (dp, dm, dv)" by (metis surj_pair)
  show ?case
    using next_dest_step [OF Suc.prems [unfolded c], of True] Suc.IH by (force simp: c)
qed (simp add: flush_dest_at)

lemma start_cursor_ok:
  assumes "i + n \<le> 8 * length bm" "0 < n"
  shows "\<exists>c. start_cursor bm (int i) = Inr c \<and> dest_at bm c i n bm \<and> src_at bm c i n"
proof -
  have "i div 8 < length bm" using assms by (intro div_less_bytes) simp
  then show ?thesis
    using assms uint_bounded [of "bm ! (i div 8)"]
    by (simp add: start_cursor_def fetch_byte_def dest_at_def src_at_def push_bit_eq_mult nat_div_distrib nat_mod_distrib)
qed

text \<open>The bits a source stands for: a missing bitmap means that no element is null.\<close>

definition source_bit :: "8 word list option \<Rightarrow> nat \<Rightarrow> bool" where
  "source_bit src i = (case src of Some bm \<Rightarrow> nonnull bm i | None \<Rightarrow> True)"

lemma array_bitmap_copy_ok:
  assumes "di + n \<le> 8 * length dest" and "\<And>bm. src = Some bm \<Longrightarrow> si + n \<le> 8 * length bm"
  shows "array_bitmap_copy dest (int di) src (int si) (int n) =
    Inr (put_bits n dest di (\<lambda>k. source_bit src (si + k)))"
proof (cases "n = 0")
  case False
  then obtain d where d: "start_cursor dest (int di) = Inr d" "dest_at dest d di n dest"
    using start_cursor_ok [OF assms(1)] by auto
  show ?thesis
  proof (cases src)
    case None
    then show ?thesis using d False fill_bits_ok [OF d(2)] by (simp add: array_bitmap_copy_def source_bit_def)
  next
    case (Some bm)
    obtain c where c: "start_cursor bm (int si) = Inr c" "src_at bm c si n"
      using start_cursor_ok [OF assms(2) [OF Some]] False by auto
    show ?thesis using Some d False c copy_bits_ok [OF d(2) c(2)]
      by (simp add: array_bitmap_copy_def source_bit_def)
  qed
qed (simp add: array_bitmap_copy_def)

text \<open>A source that is too short is read past its end.\<close>

lemma next_src_overrun:
  assumes "p = j div 8" "m = 2 ^ (j mod 8)" "j < 8 * length src" "8 * length src < j + Suc n"
  shows "next_src src (p, m, v) n = Inl (Undefined Out_of_bounds) \<or>
    (\<exists>v'. next_src src (p, m, v) n = Inr (Suc j div 8, 2 ^ (Suc j mod 8), v') \<and> Suc j < 8 * length src)"
proof (cases j rule: bit_pos_cases)
  case 1
  have "j div 8 < length src" using assms(3) by (rule div_less_bytes)
  then have "Suc j < 8 * length src" using 1(1,2) by (metis div_less_iff_less_mult mult.commute zero_less_numeral)
  then show ?thesis using 1 assms by (simp add: next_src_def Let_def push_bit_eq_mult mult.commute)
next
  case 2
  show ?thesis
  proof (cases "Suc p < length src")
    case True
    then have "Suc j < 8 * length src" using 2(1) assms(1) by (metis div_less_iff_less_mult mult.commute zero_less_numeral)
    then show ?thesis using 2 assms True by (cases "n = 0") (simp_all add: next_src_def push_bit_eq_mult fetch_byte_def)
  next
    case False
    then have "n > 0" using 2 assms(1,3,4) by linarith
    then show ?thesis using 2 assms False by (simp add: next_src_def push_bit_eq_mult fetch_byte_def)
  qed
qed

lemma copy_bits_overrun:
  "dest_at dest d i n dest' \<Longrightarrow> j < 8 * length src \<Longrightarrow> 8 * length src < j + n \<Longrightarrow>
   copy_bits n dest d src (j div 8, 2 ^ (j mod 8), v) = Inl (Undefined Out_of_bounds)"
proof (induction n arbitrary: dest d i dest' j v)
  case (Suc n)
  obtain dp dm dv where c: "d = (dp, dm, dv)" by (metis surj_pair)
  define b where "b \<longleftrightarrow> v AND 2 ^ (j mod 8) \<noteq> 0"
  obtain dest2 d2 where d2: "next_dest dest (dp, dm, if b then dv OR dm else dv AND NOT dm) n = Inr (dest2, d2)"
    "dest_at dest2 d2 (Suc i) n (put_bit dest' i b)"
    using next_dest_step [OF Suc.prems(1) [unfolded c], of b] by blast
  have step: "copy_bits (Suc n) dest d src (j div 8, 2 ^ (j mod 8), v) =
      bindR (next_src src (j div 8, 2 ^ (j mod 8), v) n) (\<lambda>s. copy_bits n dest2 d2 src s)"
    using d2(1) by (simp add: c Let_def b_def)
  from next_src_overrun [OF refl refl Suc.prems(2,3), of v] Suc.IH [OF d2(2), of "Suc j"] Suc.prems(3)
  show ?case unfolding step by auto
qed simp

lemma array_bitmap_copy_overrun:
  assumes "n \<le> 8 * length dest" "8 * length src < n"
  shows "array_bitmap_copy dest 0 (Some src) 0 (int n) = Inl (Undefined Out_of_bounds)"
proof -
  have n: "0 < n" using assms(2) by simp
  obtain d where d: "start_cursor dest (int 0) = Inr d" "dest_at dest d 0 n dest"
    using start_cursor_ok [of 0 n dest] assms(1) n by auto
  show ?thesis
  proof (cases "src = []")
    case True
    then show ?thesis using d n by (simp add: array_bitmap_copy_def start_cursor_def fetch_byte_def)
  next
    case False
    then show ?thesis using d n copy_bits_overrun [OF d(2), of 0 src "uint (src ! 0)"] assms(2)
      by (simp add: array_bitmap_copy_def start_cursor_def [of src] fetch_byte_def)
  qed
qed

text \<open>
  C36: \<open>array_bitmap_copy\<close> stays inside both bitmaps whenever the two ranges of bits fit. Afterwards
  the bits of the destination range are those of the source range (or all set, if there is no
  source bitmap), and every other bit of the destination is unchanged, as its comment promises.
\<close>

theorem array_bitmap_copy_copies_range:
  assumes "di + n \<le> 8 * length dest" and "\<And>bm. src = Some bm \<Longrightarrow> si + n \<le> 8 * length bm"
  shows "\<exists>dest'. array_bitmap_copy dest (int di) src (int si) (int n) = Inr dest' \<and>
    length dest' = length dest \<and>
    (\<forall>j < 8 * length dest. nonnull dest' j =
       (if di \<le> j \<and> j < di + n then (case src of Some bm \<Rightarrow> nonnull bm (si + (j - di)) | None \<Rightarrow> True)
        else nonnull dest j))"
  using array_bitmap_copy_ok [OF assms] nonnull_put_bits [OF assms(1)]
  by (simp add: source_bit_def)

theorem array_bitmap_copy_copies_range_witness:
  "\<exists>dest'. array_bitmap_copy [0x0f, 0x00] 3 (Some [0xaa, 0x01]) 1 9 = Inr dest' \<and> length dest' = 2 \<and>
    nonnull dest' 2 \<and> nonnull dest' 3 \<and> \<not> nonnull dest' 4 \<and> nonnull dest' 10 \<and> \<not> nonnull dest' 12"
proof -
  obtain dest' where d: "array_bitmap_copy [0x0f, 0x00] (int 3) (Some [0xaa, 0x01]) (int 1) (int 9) = Inr dest'"
    "length dest' = 2"
    and b: "\<forall>j < 16. nonnull dest' j = (if 3 \<le> j \<and> j < 12 then nonnull [0xaa, 0x01] (1 + (j - 3)) else nonnull [0x0f, 0x00] j)"
    using array_bitmap_copy_copies_range [of 3 9 "[0x0f, 0x00]" "Some [0xaa, 0x01]" 1] by auto
  show ?thesis
    using d b [rule_format, of 2] b [rule_format, of 3] b [rule_format, of 4] b [rule_format, of 10] b [rule_format, of 12] by (auto simp: nonnull_def)
qed

end
