(* ===== verification/String_Info.thy ===== *)
theory String_Info
  imports C_Prelude "HOL-Library.Word"
begin

unbundle bit_operations_syntax

text \<open>
  The growing byte buffer of PostgreSQL (\<open>pg-src/src/common/stringinfo.c\<close>,
  \<open>pg-src/src/include/lib/stringinfo.h\<close>) and the message routines on top of it
  (\<open>pg-src/src/backend/libpq/pqformat.c\<close>, \<open>pg-src/src/include/libpq/pqformat.h\<close>) that the aggregate
  of the extension sends and receives its state with.

  A \<open>StringInfo\<close> is a record of its buffer, its length, its capacity and a cursor. The capacity of
  a read-only message is 0 and its buffer is the received value. \<open>si_holds s bs\<close> is the invariant
  of a buffer under construction; every operation that appends keeps it.
\<close>

type_synonym byte = "8 word"

record StringInfoData =
  si_data :: "byte buf"
  si_len :: int
  si_maxlen :: int
  si_cursor :: int

section \<open>\<open>stringinfo.c\<close>\<close>

definition resetStringInfo :: "StringInfoData \<Rightarrow> StringInfoData result" where
  "resetStringInfo str =
     bindR (wr (si_data str) 0 0) (\<lambda>d. Inr (str\<lparr>si_data := d, si_len := 0, si_cursor := 0\<rparr>))"

definition initStringInfo :: "StringInfoData result" where
  "initStringInfo =
     bindR (palloc 1 1024) (\<lambda>d.
       resetStringInfo \<lparr>si_data = d, si_len = 0, si_maxlen = 1024, si_cursor = 0\<rparr>)"

definition enlargeStringInfo :: "StringInfoData \<Rightarrow> int \<Rightarrow> StringInfoData result" where
  "enlargeStringInfo str needed =
     require (0 \<le> needed) (Elog ''invalid string enlargement request size'') (
     require (needed < (MaxAllocSize - si_len str) mod 2 ^ 64) (Elog ''out of memory'') (
     bindR (cint (needed + (si_len str + 1))) (\<lambda>needed.
       if needed \<le> si_maxlen str then Inr str
       else
         bindR (cint (2 * si_maxlen str)) (\<lambda>newlen.
         bindR (double_until needed newlen) (\<lambda>newlen.
           let newlen = (if newlen > MaxAllocSize then MaxAllocSize else newlen) in
           bindR (repalloc (si_data str) 1 newlen) (\<lambda>d.
             Inr (str\<lparr>si_data := d, si_maxlen := newlen\<rparr>)))))))"

definition appendBinaryStringInfo :: "StringInfoData \<Rightarrow> byte list \<Rightarrow> int \<Rightarrow> StringInfoData result" where
  "appendBinaryStringInfo str data datalen =
     bindR (enlargeStringInfo str datalen) (\<lambda>str.
     bindR (memcpy (si_data str) (si_len str) data 0 datalen) (\<lambda>d.
     bindR (cint (si_len str + datalen)) (\<lambda>len.
     bindR (wr d len 0) (\<lambda>d.
       Inr (str\<lparr>si_data := d, si_len := len\<rparr>)))))"

definition appendStringInfoChar :: "StringInfoData \<Rightarrow> byte \<Rightarrow> StringInfoData result" where
  "appendStringInfoChar str ch =
     bindR (if si_len str + 1 \<ge> si_maxlen str then enlargeStringInfo str 1 else Inr str) (\<lambda>str.
     bindR (wr (si_data str) (si_len str) ch) (\<lambda>d.
     bindR (cint (si_len str + 1)) (\<lambda>len.
     bindR (wr d len 0) (\<lambda>d.
       Inr (str\<lparr>si_data := d, si_len := len\<rparr>)))))"

definition appendStringInfoCharMacro :: "StringInfoData \<Rightarrow> byte \<Rightarrow> StringInfoData result" where
  "appendStringInfoCharMacro str ch =
     (if si_len str + 1 \<ge> si_maxlen str then appendStringInfoChar str ch
      else
        bindR (wr (si_data str) (si_len str) ch) (\<lambda>d.
        bindR (wr d (si_len str + 1) 0) (\<lambda>d.
          Inr (str\<lparr>si_data := d, si_len := si_len str + 1\<rparr>))))"

text \<open>
  Formatted output. \<open>msg\<close> is the text the format produces; \<open>vsnprintf\<close> stores as much of it as fits
  in front of a null byte. The result of \<open>pvsnprintf\<close> is the number of bytes stored, or the size that
  would have been needed.
\<close>

definition pvsnprintf :: "byte buf \<Rightarrow> int \<Rightarrow> int \<Rightarrow> byte list \<Rightarrow> (int \<times> byte buf) result" where
  "pvsnprintf buf pos len msg =
     (let nprinted = int (length msg) in
      require (nprinted \<le> INT_MAX) (Elog ''vsnprintf failed'') (
      if nprinted < len then
        bindR (memcpy buf pos msg 0 nprinted) (\<lambda>d.
        bindR (wr d (pos + nprinted) 0) (\<lambda>d. Inr (nprinted, d)))
      else
        bindR (memcpy buf pos msg 0 (len - 1)) (\<lambda>d.
        bindR (wr d (pos + (len - 1)) 0) (\<lambda>d.
        require (nprinted \<le> MaxAllocSize - 1) (Elog ''out of memory'') (Inr (nprinted + 1, d))))))"

definition appendStringInfoVA :: "StringInfoData \<Rightarrow> byte list \<Rightarrow> (int \<times> StringInfoData) result" where
  "appendStringInfoVA str msg =
     (let avail = si_maxlen str - si_len str in
      if avail < 16 then Inr (32, str)
      else bindR (pvsnprintf (si_data str) (si_len str) avail msg) (\<lambda>(nprinted, d).
        if nprinted < avail then Inr (0, str\<lparr>si_data := d, si_len := si_len str + nprinted\<rparr>)
        else bindR (wr d (si_len str) 0) (\<lambda>d. Inr (nprinted, str\<lparr>si_data := d\<rparr>))))"

text \<open>The retry loop; \<open>None\<close> if it never ends.\<close>

partial_function (option) appendStringInfo :: "StringInfoData \<Rightarrow> byte list \<Rightarrow> StringInfoData result option" where
  "appendStringInfo str msg =
     (case appendStringInfoVA str msg of
        Inl e \<Rightarrow> Some (Inl e)
      | Inr (needed, str) \<Rightarrow>
          if needed = 0 then Some (Inr str)
          else (case enlargeStringInfo str needed of
              Inl e \<Rightarrow> Some (Inl e)
            | Inr str \<Rightarrow> appendStringInfo str msg))"

definition appendStringInfoString :: "StringInfoData \<Rightarrow> byte list \<Rightarrow> StringInfoData result" where
  "appendStringInfoString str s = appendBinaryStringInfo str s (int (length s))"

section \<open>\<open>pqformat.c\<close>: sending\<close>

definition pg_bswap32 :: "32 word \<Rightarrow> 32 word" where
  "pg_bswap32 x =
     (push_bit 24 x AND 0xff000000) OR (push_bit 8 x AND 0x00ff0000) OR
     (drop_bit 8 x AND 0x0000ff00) OR (drop_bit 24 x AND 0x000000ff)"

text \<open>The four bytes of a word in memory, lowest first, and the word at four bytes of memory.\<close>

definition word_bytes :: "32 word \<Rightarrow> byte list" where
  "word_bytes w = map (\<lambda>i. ucast (drop_bit (8 * i) w)) [0, 1, 2, 3]"

definition bytes_word :: "byte list \<Rightarrow> 32 word" where
  "bytes_word bs =
     ucast (bs ! 0) OR push_bit 8 (ucast (bs ! 1)) OR push_bit 16 (ucast (bs ! 2)) OR push_bit 24 (ucast (bs ! 3))"

definition pq_writeint32 :: "StringInfoData \<Rightarrow> 32 word \<Rightarrow> StringInfoData result" where
  "pq_writeint32 buf i =
     bindR (memcpy (si_data buf) (si_len buf) (word_bytes (pg_bswap32 i)) 0 4) (\<lambda>d.
     bindR (cint (si_len buf + 4)) (\<lambda>len.
       Inr (buf\<lparr>si_data := d, si_len := len\<rparr>)))"

text \<open>The argument is a \<open>uint32\<close>: an \<open>int\<close> is converted modulo \<open>2 ^ 32\<close>.\<close>

definition pq_sendint32 :: "StringInfoData \<Rightarrow> int \<Rightarrow> StringInfoData result" where
  "pq_sendint32 buf i = bindR (enlargeStringInfo buf 4) (\<lambda>buf. pq_writeint32 buf (word_of_int i))"

definition pq_sendbytes :: "StringInfoData \<Rightarrow> byte list \<Rightarrow> int \<Rightarrow> StringInfoData result" where
  "pq_sendbytes buf data datalen = appendBinaryStringInfo buf data datalen"

definition pq_begintypsend :: "StringInfoData result" where
  "pq_begintypsend =
     bindR initStringInfo (\<lambda>buf.
     bindR (appendStringInfoCharMacro buf 0) (\<lambda>buf.
     bindR (appendStringInfoCharMacro buf 0) (\<lambda>buf.
     bindR (appendStringInfoCharMacro buf 0) (\<lambda>buf.
       appendStringInfoCharMacro buf 0))))"

text \<open>
  The buffer becomes a \<open>bytea\<close>: its first four bytes hold the total length, the contents follow.
  A \<open>bytea\<close> is represented by its contents, \<open>VARDATA_ANY\<close>, of \<open>VARSIZE_ANY_EXHDR\<close> bytes.
\<close>

definition pq_endtypsend :: "StringInfoData \<Rightarrow> byte list result" where
  "pq_endtypsend buf = sealed (drop 4 (take (nat (si_len buf)) (si_data buf)))"

section \<open>\<open>pqformat.c\<close>: receiving\<close>

definition initReadOnlyStringInfo :: "byte list \<Rightarrow> StringInfoData" where
  "initReadOnlyStringInfo bytea =
     \<lparr>si_data = map Some bytea, si_len = int (length bytea), si_maxlen = 0, si_cursor = 0\<rparr>"

definition pq_getmsgbytes :: "StringInfoData \<Rightarrow> int \<Rightarrow> (byte list \<times> StringInfoData) result" where
  "pq_getmsgbytes msg datalen =
     require (\<not> (datalen < 0 \<or> datalen > si_len msg - si_cursor msg)) (Elog ''insufficient data left in message'') (
     bindR (sealed (take (nat datalen) (drop (nat (si_cursor msg)) (si_data msg)))) (\<lambda>bs.
       Inr (bs, msg\<lparr>si_cursor := si_cursor msg + datalen\<rparr>)))"

definition pq_copymsgbytes :: "StringInfoData \<Rightarrow> int \<Rightarrow> (byte list \<times> StringInfoData) result" where
  "pq_copymsgbytes msg datalen =
     require (\<not> (datalen < 0 \<or> datalen > si_len msg - si_cursor msg)) (Elog ''insufficient data left in message'') (
     bindR (sealed (take (nat datalen) (drop (nat (si_cursor msg)) (si_data msg)))) (\<lambda>bs.
       Inr (bs, msg\<lparr>si_cursor := si_cursor msg + datalen\<rparr>)))"

definition pq_getmsgint :: "StringInfoData \<Rightarrow> int \<Rightarrow> (32 word \<times> StringInfoData) result" where
  "pq_getmsgint msg b =
     (if b = 1 then bindR (pq_copymsgbytes msg 1) (\<lambda>(bs, msg). Inr (ucast (bs ! 0), msg))
      else if b = 2 then bindR (pq_copymsgbytes msg 2) (\<lambda>(bs, msg).
        Inr (push_bit 8 (ucast (bs ! 0)) OR ucast (bs ! 1), msg))
      else if b = 4 then bindR (pq_copymsgbytes msg 4) (\<lambda>(bs, msg). Inr (pg_bswap32 (bytes_word bs), msg))
      else Inl (Elog ''unsupported integer size''))"

definition pq_getmsgend :: "StringInfoData \<Rightarrow> unit result" where
  "pq_getmsgend msg = require (si_cursor msg = si_len msg) (Elog ''invalid message format'') (Inr ())"

section \<open>Lemmas\<close>

subsection \<open>Words and bytes\<close>

lemma length_word_bytes [simp]: "length (word_bytes w) = 4"
  by (simp add: word_bytes_def)

lemma bytes_word_bytes [simp]: "bytes_word (word_bytes w) = w"
proof (rule bit_word_eqI)
  fix n assume n: "n < LENGTH(32)"
  consider "n < 8" | "8 \<le> n" "n < 16" | "16 \<le> n" "n < 24" | "24 \<le> n" "n < 32"
    using n by fastforce
  then show "bit (bytes_word (word_bytes w)) n = bit w n"
    by cases (simp_all add: bytes_word_def word_bytes_def bit_simps less_diff_conv2)
qed

lemma pg_bswap32_involution [simp]: "pg_bswap32 (pg_bswap32 w) = w"
proof (rule bit_word_eqI)
  fix n assume n: "n < LENGTH(32)"
  have m: "(0xff000000 :: 32 word) = push_bit 24 (mask 8)" "(0x00ff0000 :: 32 word) = push_bit 16 (mask 8)"
    "(0x0000ff00 :: 32 word) = push_bit 8 (mask 8)" "(0x000000ff :: 32 word) = mask 8"
    by (simp_all add: mask_eq_exp_minus_1 push_bit_eq_mult)
  consider "n < 8" | "8 \<le> n" "n < 16" | "16 \<le> n" "n < 24" | "24 \<le> n" "n < 32"
    using n by fastforce
  then show "bit (pg_bswap32 (pg_bswap32 w)) n = bit w n"
    by cases (simp_all add: pg_bswap32_def m bit_simps less_diff_conv2)
qed

lemma sint_word_of_int32 [simp]: "in_int x \<Longrightarrow> sint (word_of_int x :: 32 word) = x"
  by (simp add: in_int_def int_word_sint)

lemma unat_word_of_nat32 [simp]: "n < 4294967296 \<Longrightarrow> unat (word_of_int (int n) :: 32 word) = n"
  by (simp add: unat_of_nat take_bit_nat_eq_self)

subsection \<open>Building a message\<close>

definition si_holds :: "StringInfoData \<Rightarrow> byte list \<Rightarrow> bool" where
  "si_holds s bs \<longleftrightarrow>
     si_len s = int (length bs) \<and> length bs < length (si_data s) \<and>
     si_maxlen s = int (length (si_data s)) \<and> si_maxlen s \<le> MaxAllocSize \<and>
     take (length bs) (si_data s) = map Some bs"

lemma si_holdsD:
  assumes "si_holds s bs"
  shows "si_len s = int (length bs)" "length bs < length (si_data s)" "si_maxlen s = int (length (si_data s))"
    "take (length bs) (si_data s) = map Some bs"
  using assms by (simp_all add: si_holds_def)

lemma initStringInfo_holds: "\<exists>s. initStringInfo = Inr s \<and> si_holds s [] \<and> si_maxlen s = 1024"
  by (simp add: initStringInfo_def palloc_def resetStringInfo_def wr_def si_holds_def)

text \<open>\<open>enlargeStringInfo\<close> makes room for \<open>n\<close> more bytes and a null byte, and keeps the contents.\<close>

lemma enlarge_holds:
  assumes h: "si_holds s bs" and n: "int (length bs + n) < MaxAllocSize"
  shows "\<exists>s'. enlargeStringInfo s (int n) = Inr s' \<and> si_holds s' bs \<and> length bs + n < length (si_data s')"
proof (cases "length bs + n < length (si_data s)")
  case True
  then show ?thesis
    using assms by (auto simp: enlargeStringInfo_def si_holds_def require_def cint_def in_int_def)
next
  case False
  let ?m = "si_maxlen s" and ?need = "int n + (int (length bs) + 1)"
  have m: "0 < ?m" "?m \<le> MaxAllocSize" "?m < ?need" using h False by (auto simp: si_holds_def)
  obtain r where r: "double_until ?need (2 * ?m) = Inr r" "?need \<le> r" "2 * ?m \<le> r"
    using double_until_ok [of "2 * ?m" ?need] m n by auto
  define nl where "nl = (if r > MaxAllocSize then MaxAllocSize else r)"
  have nl: "?need \<le> nl" "?m \<le> nl" "nl \<le> MaxAllocSize" using r m n by (auto simp: nl_def)
  have re: "repalloc (si_data s) 1 nl = Inr (si_data s @ replicate (nat nl - length (si_data s)) None)"
    using repalloc_ok [of "si_data s" "nat nl" 1] nl m h by (simp add: si_holds_def)
  have "enlargeStringInfo s (int n) =
      Inr (s\<lparr>si_data := si_data s @ replicate (nat nl - length (si_data s)) None, si_maxlen := nl\<rparr>)"
    using h n m r re
    by (simp add: enlargeStringInfo_def si_holds_def require_def cint_def in_int_def Let_def nl_def [symmetric])
  then show ?thesis using h nl m by (auto simp: si_holds_def)
qed

lemma holds_blit:
  assumes "si_holds s bs" and "length bs + length xs < length (si_data s)"
  shows "si_holds (s\<lparr>si_data := blit (si_data s) (length bs) xs, si_len := int (length bs + length xs)\<rparr>) (bs @ xs)"
  using assms by (auto simp: si_holds_def blit_def)

lemma holds_terminated:
  assumes "si_holds (s\<lparr>si_data := d, si_len := int (length bs)\<rparr>) bs"
  shows "si_holds (s\<lparr>si_data := d[length bs := Some 0], si_len := int (length bs)\<rparr>) bs"
  using assms by (simp add: si_holds_def)

text \<open>
  The contract of everything that appends: \<open>send s x\<close> adds the bytes \<open>enc x\<close> as long as the message
  stays below \<open>MaxAllocSize\<close>. \<open>send_then\<close> is the rule by which a sequence of sends is followed.
\<close>

locale byte_sink =
  fixes send :: "StringInfoData \<Rightarrow> 'x \<Rightarrow> StringInfoData result"
    and enc :: "'x \<Rightarrow> byte list"
    and ok :: "'x \<Rightarrow> bool"
  assumes send_holds: "si_holds s bs \<Longrightarrow> ok x \<Longrightarrow> int (length bs + length (enc x)) < MaxAllocSize \<Longrightarrow>
    \<exists>s'. send s x = Inr s' \<and> si_holds s' (bs @ enc x)"
begin

lemma send_then:
  assumes "si_holds s bs" "ok x" "int (length bs + length (enc x)) < MaxAllocSize"
    and "\<And>s'. si_holds s' (bs @ enc x) \<Longrightarrow> k s' = r"
  shows "bindR (send s x) k = r"
  using send_holds [OF assms(1-3)] assms(4) by auto

lemma send_all:
  assumes "si_holds s bs" "list_all ok xs" "int (length bs + length (concat (map enc xs))) < MaxAllocSize"
  shows "\<exists>s'. foldR (\<lambda>x s. send s x) xs s = Inr s' \<and> si_holds s' (bs @ concat (map enc xs))"
  using assms
proof (induction xs arbitrary: s bs)
  case (Cons x xs)
  obtain s' where s': "send s x = Inr s'" "si_holds s' (bs @ enc x)"
    using send_holds [OF Cons.prems(1), of x] Cons.prems(2,3) by auto
  from Cons.IH [OF s'(2)] Cons.prems(2,3) s'(1) show ?case by auto
qed simp

end

subsection \<open>Text\<close>

text \<open>A buffer that holds a C string: the contents are followed by a null byte.\<close>

definition si_text :: "StringInfoData \<Rightarrow> byte list \<Rightarrow> bool" where
  "si_text s bs \<longleftrightarrow> si_holds s bs \<and> si_data s ! length bs = Some 0"

definition si_cstring :: "StringInfoData \<Rightarrow> byte list" where
  "si_cstring s = map the (takeWhile (\<lambda>c. c \<noteq> Some 0) (si_data s))"

lemma si_cstring_text:
  assumes "si_text s bs" "0 \<notin> set bs"
  shows "si_cstring s = bs"
proof -
  have l: "length bs < length (si_data s)" "take (length bs) (si_data s) = map Some bs"
    using assms(1) by (simp_all add: si_text_def si_holds_def)
  have "si_data s = map Some bs @ Some 0 # drop (Suc (length bs)) (si_data s)"
    using id_take_nth_drop [OF l(1)] l(2) assms(1) by (simp add: si_text_def)
  moreover have "takeWhile (\<lambda>c. c \<noteq> Some 0) (map Some bs @ Some 0 # xs) = map Some bs" for xs
    using assms(2) by (induction bs) auto
  ultimately show ?thesis by (metis (no_types, lifting) si_cstring_def list.map_comp comp_def map_idI option.sel)
qed

lemma initStringInfo_text: "\<exists>s. initStringInfo = Inr s \<and> si_text s []"
  by (simp add: initStringInfo_def palloc_def resetStringInfo_def wr_def si_holds_def si_text_def)

lemma text_blit:
  assumes h: "si_holds s bs" and l: "length bs + length xs < length (si_data s)"
  shows "si_text (s\<lparr>si_data := (blit (si_data s) (length bs) xs)[length bs + length xs := Some 0],
                    si_len := int (length bs + length xs)\<rparr>) (bs @ xs)"
proof -
  have "si_holds (s\<lparr>si_data := (blit (si_data s) (length bs) xs)[length (bs @ xs) := Some 0], si_len := int (length (bs @ xs))\<rparr>) (bs @ xs)"
    using holds_blit [OF h l] by (intro holds_terminated) simp
  then show ?thesis using l by (simp add: si_text_def)
qed

lemma appendBinary_text:
  assumes h: "si_holds s bs" and n: "0 \<le> n" "n \<le> int (length xs)" and sz: "int (length bs) + n < MaxAllocSize"
  shows "\<exists>s'. appendBinaryStringInfo s xs n = Inr s' \<and> si_text s' (bs @ take (nat n) xs)"
proof -
  obtain s1 where s1: "enlargeStringInfo s n = Inr s1" "si_holds s1 bs" "length bs + nat n < length (si_data s1)"
    using enlarge_holds [OF h, of "nat n"] n sz by auto
  have cp: "memcpy (si_data s1) (int (length bs)) xs 0 n = Inr (blit (si_data s1) (length bs) (take (nat n) xs))"
    using memcpy_ok [of "length bs" "nat n" "si_data s1" 0 xs] s1(3) n by simp
  have l: "length (take (nat n) xs) = nat n" using n by simp
  have pos: "nat (int (length bs) + n) = length bs + nat n" using n by (simp add: nat_add_distrib)
  have "si_text (s1\<lparr>si_data := (blit (si_data s1) (length bs) (take (nat n) xs))[length bs + nat n := Some 0],
      si_len := int (length bs) + n\<rparr>) (bs @ take (nat n) xs)"
    using text_blit [OF s1(2), of "take (nat n) xs"] s1(3) n by (simp add: l del: length_take)
  then show ?thesis
    using s1 cp n sz l
    by (simp add: appendBinaryStringInfo_def si_holdsD(1) cint_def in_int_def wr_def pos del: length_take)
qed

lemma appendString_text:
  assumes "si_holds s bs" "int (length bs + length xs) < MaxAllocSize"
  shows "\<exists>s'. appendStringInfoString s xs = Inr s' \<and> si_text s' (bs @ xs)"
  using appendBinary_text [OF assms(1), of "int (length xs)" xs] assms(2) by (simp add: appendStringInfoString_def)

lemma appendChar_text:
  assumes h: "si_holds s bs" and sz: "int (length bs) + 1 < MaxAllocSize"
  shows "\<exists>s'. appendStringInfoChar s c = Inr s' \<and> si_text s' (bs @ [c])"
proof -
  obtain s1 where s1: "(if si_len s + 1 \<ge> si_maxlen s then enlargeStringInfo s 1 else Inr s) = Inr s1" "si_holds s1 bs"
    "length bs + 1 < length (si_data s1)"
  proof (cases "si_len s + 1 \<ge> si_maxlen s")
    case True
    then show ?thesis using enlarge_holds [OF h, of 1] sz that by auto
  next
    case False
    then show ?thesis using that [of s] h si_holdsD(1,3) [OF h] by simp
  qed
  then show ?thesis
    using text_blit [OF s1(2), of "[c]"] sz si_holdsD(1) [OF s1(2)]
    by (simp add: appendStringInfoChar_def cint_def in_int_def wr_def nat_add_distrib blit_def add.commute
        upd_conv_take_nth_drop [of "length bs" "si_data s1"])
qed

text \<open>\<open>appendStringInfo\<close> needs at most three attempts.\<close>

lemma appendVA_fits:
  assumes h: "si_holds s bs" and l: "16 \<le> length (si_data s) - length bs" "length msg < length (si_data s) - length bs"
  shows "\<exists>s'. appendStringInfoVA s msg = Inr (0, s') \<and> si_text s' (bs @ msg)"
proof -
  have f: "length bs + length msg < length (si_data s)" using l(2) by linarith
  have m: "length (si_data s) \<le> nat MaxAllocSize" using h by (simp add: si_holds_def)
  have cp: "memcpy (si_data s) (int (length bs)) msg 0 (int (length msg)) = Inr (blit (si_data s) (length bs) msg)"
    using memcpy_ok [of "length bs" "length msg" "si_data s" 0 msg] f by simp
  show ?thesis
    using text_blit [OF h f] cp f l m si_holdsD [OF h]
    by (simp add: appendStringInfoVA_def pvsnprintf_def Let_def wr_def nat_add_distrib)
qed

lemma appendVA_short:
  assumes h: "si_holds s bs" and l: "16 \<le> length (si_data s) - length bs" "length (si_data s) - length bs \<le> length msg"
    and sz: "int (length msg) < MaxAllocSize"
  shows "\<exists>s'. appendStringInfoVA s msg = Inr (int (length msg) + 1, s') \<and> si_holds s' bs \<and> length (si_data s') = length (si_data s)"
proof -
  define a where "a = length (si_data s) - length bs"
  have a: "length bs + a = length (si_data s)" "16 \<le> a" using l(1) by (simp_all add: a_def)
  have cp: "memcpy (si_data s) (int (length bs)) msg 0 (int a - 1) = Inr (blit (si_data s) (length bs) (take (a - 1) msg))"
    using memcpy_ok [of "length bs" "a - 1" "si_data s" 0 msg] a l(2) by (simp add: a_def [symmetric] of_nat_diff)
  define d where "d = ((blit (si_data s) (length bs) (take (a - 1) msg))[length bs + (a - 1) := Some 0])[length bs := Some 0]"
  have ln: "length (take (a - 1) msg) = a - 1" using l(2) by (simp add: a_def)
  have "si_holds (s\<lparr>si_data := d\<rparr>) bs" "length d = length (si_data s)"
    using h a ln by (simp_all add: si_holds_def d_def blit_def del: length_take)
  moreover have "appendStringInfoVA s msg = Inr (int (length msg) + 1, s\<lparr>si_data := d\<rparr>)"
    using cp a l(2) sz si_holdsD [OF h] ln
    by (simp add: appendStringInfoVA_def pvsnprintf_def Let_def wr_def d_def a_def [symmetric] nat_add_distrib nat_diff_distrib
        del: length_take flip: a(1))
  ultimately show ?thesis by auto
qed

lemma appendStringInfo_fits:
  assumes "si_holds s bs" "16 \<le> length (si_data s) - length bs" "length msg < length (si_data s) - length bs"
  shows "\<exists>s'. appendStringInfo s msg = Some (Inr s') \<and> si_text s' (bs @ msg)"
  using appendVA_fits [OF assms] by (auto simp: appendStringInfo.simps [of s])

lemma appendStringInfo_roomy:
  assumes h: "si_holds s bs" and l: "16 \<le> length (si_data s) - length bs" and sz: "int (length bs + length msg) + 1 < MaxAllocSize"
  shows "\<exists>s'. appendStringInfo s msg = Some (Inr s') \<and> si_text s' (bs @ msg)"
proof (cases "length msg < length (si_data s) - length bs")
  case True
  then show ?thesis using appendStringInfo_fits [OF h l] by blast
next
  case False
  obtain s1 where s1: "appendStringInfoVA s msg = Inr (int (length msg) + 1, s1)" "si_holds s1 bs"
    using appendVA_short [OF h l, of msg] False sz by auto
  obtain s2 where s2: "enlargeStringInfo s1 (int (length msg + 1)) = Inr s2" "si_holds s2 bs"
    "length bs + (length msg + 1) < length (si_data s2)"
    using enlarge_holds [OF s1(2), of "length msg + 1"] sz by auto
  have "16 \<le> length (si_data s2) - length bs" "length msg < length (si_data s2) - length bs"
    using s2(3) False l by linarith+
  then obtain s' where "appendStringInfo s2 msg = Some (Inr s')" "si_text s' (bs @ msg)"
    using appendStringInfo_fits [OF s2(2)] by blast
  then show ?thesis using s1(1) s2(1) by (simp add: appendStringInfo.simps [of s] add.commute)
qed

lemma appendStringInfo_text:
  assumes h: "si_holds s bs" and sz: "int (length bs + length msg) + 32 < MaxAllocSize"
  shows "\<exists>s'. appendStringInfo s msg = Some (Inr s') \<and> si_text s' (bs @ msg)"
proof (cases "16 \<le> length (si_data s) - length bs")
  case True
  then show ?thesis using appendStringInfo_roomy [OF h] sz by auto
next
  case False
  obtain s1 where s1: "enlargeStringInfo s (int 32) = Inr s1" "si_holds s1 bs" "length bs + 32 < length (si_data s1)"
    using enlarge_holds [OF h, of 32] sz by auto
  have "16 \<le> length (si_data s1) - length bs" "int (length bs + length msg) + 1 < MaxAllocSize"
    using s1(3) sz by linarith+
  then obtain s' where "appendStringInfo s1 msg = Some (Inr s')" "si_text s' (bs @ msg)"
    using appendStringInfo_roomy [OF s1(2)] by blast
  moreover have "si_maxlen s - si_len s < 16" using False si_holdsD(1,3) [OF h] by linarith
  then have "appendStringInfoVA s msg = Inr (32, s)" by (simp add: appendStringInfoVA_def)
  ultimately show ?thesis using s1(1) by (simp add: appendStringInfo.simps [of s])
qed

text \<open>
  C39: The retry loop of \<open>appendStringInfo\<close> ends for every buffer and every message that fits one allocation,
  and the text is then the old text followed by the message.
\<close>

theorem appendStringInfo_completes:
  assumes "si_holds s bs" "0 \<notin> set bs" "0 \<notin> set msg" "int (length bs + length msg) + 32 < MaxAllocSize"
  shows "\<exists>s'. appendStringInfo s msg = Some (Inr s') \<and> si_cstring s' = bs @ msg"
proof -
  obtain s' where s': "appendStringInfo s msg = Some (Inr s')" "si_text s' (bs @ msg)"
    using appendStringInfo_text [OF assms(1,4)] by blast
  then show ?thesis using si_cstring_text [OF s'(2)] assms(2,3) by auto
qed

theorem appendStringInfo_completes_witness:
  "\<exists>s s'. initStringInfo = Inr s \<and> appendStringInfo s (replicate 3000 65) = Some (Inr s') \<and> si_cstring s' = replicate 3000 65"
proof -
  obtain s where s: "initStringInfo = Inr s" "si_holds s []" using initStringInfo_text by (auto simp: si_text_def)
  from appendStringInfo_completes [OF s(2), of "replicate 3000 65"] s(1) show ?thesis by auto
qed

subsection \<open>Messages\<close>

lemma sendbytes_sink:
  assumes "si_holds s bs" "0 \<le> n" "n \<le> int (length xs)" "int (length bs) + n < MaxAllocSize"
  shows "\<exists>s'. pq_sendbytes s xs n = Inr s' \<and> si_holds s' (bs @ take (nat n) xs)"
  using appendBinary_text [OF assms] by (auto simp: pq_sendbytes_def si_text_def)

lemma sendint_sink:
  assumes h: "si_holds s bs" and sz: "int (length bs) + 4 < MaxAllocSize"
  shows "\<exists>s'. pq_sendint32 s i = Inr s' \<and> si_holds s' (bs @ word_bytes (pg_bswap32 (word_of_int i)))"
proof -
  let ?w = "word_bytes (pg_bswap32 (word_of_int i))"
  obtain s1 where s1: "enlargeStringInfo s 4 = Inr s1" "si_holds s1 bs" "length bs + 4 < length (si_data s1)"
    using enlarge_holds [OF h, of 4] sz by auto
  have "memcpy (si_data s1) (int (length bs)) ?w 0 4 = Inr (blit (si_data s1) (length bs) ?w)"
    using memcpy_ok [of "length bs" 4 "si_data s1" 0 ?w] s1(3) by simp
  then show ?thesis
    using holds_blit [OF s1(2), of ?w] s1 sz
    by (simp add: pq_sendint32_def pq_writeint32_def si_holdsD(1) cint_def in_int_def)
qed

interpretation sendint: byte_sink pq_sendint32 "\<lambda>i. word_bytes (pg_bswap32 (word_of_int i))" "\<lambda>_. True"
  by unfold_locales (simp add: sendint_sink)

interpretation sendbytes: byte_sink "\<lambda>s (xs, n). pq_sendbytes s xs n" "\<lambda>(xs, n). take (nat n) xs"
    "\<lambda>(xs, n). 0 \<le> n \<and> n \<le> int (length xs)"
  by unfold_locales (auto simp: sendbytes_sink)

text \<open>\<open>pq_begintypsend\<close> leaves four null bytes, the place of the length word.\<close>

lemma begintypsend_holds: "\<exists>s. pq_begintypsend = Inr s \<and> si_holds s [0, 0, 0, 0]"
  by (auto simp: pq_begintypsend_def initStringInfo_def palloc_def resetStringInfo_def wr_def
      appendStringInfoCharMacro_def si_holds_def numeral_eq_Suc)

lemma endtypsend_holds:
  assumes "si_holds s (h @ bs)" "length h = 4"
  shows "pq_endtypsend s = Inr bs"
proof -
  have "nat (si_len s) = length (h @ bs)" using assms(1) by (simp only: si_holdsD(1) nat_int)
  then have "take (nat (si_len s)) (si_data s) = map Some h @ map Some bs"
    using si_holdsD(4) [OF assms(1)] by (simp only: map_append)
  then show ?thesis using assms(2) by (simp add: pq_endtypsend_def del: drop_take)
qed

subsection \<open>Reading a message\<close>

definition si_rest :: "StringInfoData \<Rightarrow> byte list \<Rightarrow> bool" where
  "si_rest msg bs \<longleftrightarrow>
     0 \<le> si_cursor msg \<and> si_len msg = int (length (si_data msg)) \<and>
     si_cursor msg + int (length bs) = si_len msg \<and> drop (nat (si_cursor msg)) (si_data msg) = map Some bs"

lemma init_rest: "si_rest (initReadOnlyStringInfo bs) bs"
  by (simp add: si_rest_def initReadOnlyStringInfo_def)

lemma rest_advance:
  assumes "si_rest msg (xs @ bs)"
  shows "si_rest (msg\<lparr>si_cursor := si_cursor msg + int (length xs)\<rparr>) bs"
proof -
  have "drop (nat (si_cursor msg + int (length xs))) (si_data msg) = drop (length xs) (drop (nat (si_cursor msg)) (si_data msg))"
    using assms [unfolded si_rest_def, THEN conjunct1] by (simp add: nat_add_distrib add.commute)
  also have "\<dots> = map Some bs" using assms by (simp add: si_rest_def del: drop_drop)
  finally show ?thesis using assms unfolding si_rest_def by (simp del: drop_drop)
qed

lemma getmsgbytes_then:
  assumes r: "si_rest msg (xs @ bs)" and n: "n = int (length xs)"
    and k: "\<And>msg'. si_rest msg' bs \<Longrightarrow> k (xs, msg') = r"
  shows "bindR (pq_getmsgbytes msg n) k = r"
proof -
  have "pq_getmsgbytes msg n = Inr (xs, msg\<lparr>si_cursor := si_cursor msg + n\<rparr>)"
    using r n by (simp add: pq_getmsgbytes_def si_rest_def require_def)
  then show ?thesis using k rest_advance [OF r] n by simp
qed

lemma getmsgint_then:
  assumes r: "si_rest msg (word_bytes (pg_bswap32 w) @ bs)"
    and k: "\<And>msg'. si_rest msg' bs \<Longrightarrow> k (w, msg') = r"
  shows "bindR (pq_getmsgint msg 4) k = r"
proof -
  have "pq_getmsgint msg 4 = Inr (w, msg\<lparr>si_cursor := si_cursor msg + 4\<rparr>)"
    using r by (simp add: pq_getmsgint_def pq_copymsgbytes_def si_rest_def require_def)
  then show ?thesis using k rest_advance [OF r] by simp
qed

lemma getmsgend_rest: "si_rest msg [] \<Longrightarrow> pq_getmsgend msg = Inr ()"
  by (simp add: si_rest_def pq_getmsgend_def)

end
