(* ===== verification/Array_Build.thy ===== *)
theory Array_Build
  imports Null_Bitmap String_Info
begin

text \<open>
  The array accumulator of PostgreSQL (\<open>ArrayBuildStateArr\<close> of \<open>pg-src/src/include/utils/array.h\<close>,
  \<open>pg-src/src/backend/utils/adt/arrayfuncs.c\<close>): arrays of one shape are appended to a growing data
  buffer and, once one of them has nulls, to a growing null bitmap.

  Element data are bytes. Memory obtained from \<open>palloc\<close> for the data of a state is a buffer whose
  unwritten cells are \<open>None\<close>; for a null bitmap it is a list of bytes with arbitrary contents, the
  parameter \<open>junk\<close>, because \<open>array_bitmap_copy\<close> reads whole bytes of which it has written some bits
  only. The catalogue lookup \<open>get_element_type\<close> and the memory contexts are parameters as well.
  \<open>Assert\<close> is compiled out. \<open>agg_rep\<close> is the invariant of a state and says what it stands for.
\<close>

abbreviation MAXDIM :: nat where
  "MAXDIM \<equiv> 6"

record ArrayBuildStateArr =
  mcontext :: nat
  ab_data :: "byte buf"
  ab_nullbitmap :: "byte list option"
  abytes :: int
  nbytes :: int
  aitems :: int
  nitems :: int
  ndims :: int
  ab_dims :: "int list"
  ab_lbs :: "int list"
  array_type :: oid
  element_type :: oid
  private_cxt :: bool

section \<open>The accumulator of \<open>arrayfuncs.c\<close>\<close>

definition pg_nextpower2_32 :: "int \<Rightarrow> int" where
  "pg_nextpower2_32 num =
     (if and num (num - 1) = 0 then num else 2 ^ (leftmost_one_pos (nat num) + 1))"

text \<open>A bitmap of \<open>(aitems + 7) / 8\<close> bytes.\<close>

definition palloc_bitmap :: "(nat \<Rightarrow> byte) \<Rightarrow> int \<Rightarrow> byte list result" where
  "palloc_bitmap junk n_items =
     bindR (cint (n_items + 7)) (\<lambda>k. bindR (cdiv k 8) (\<lambda>size.
       if 0 \<le> size \<and> size \<le> MaxAllocSize then Inr (map junk [0 ..< nat size])
       else Inl (Elog ''invalid memory alloc request size'')))"

definition repalloc_bitmap :: "(nat \<Rightarrow> byte) \<Rightarrow> byte list \<Rightarrow> int \<Rightarrow> byte list result" where
  "repalloc_bitmap junk bm n_items =
     bindR (palloc_bitmap junk n_items) (\<lambda>bm'. Inr (take (length bm') bm @ drop (length bm) bm'))"

definition initArrayResultArr ::
  "(oid \<Rightarrow> oid) \<Rightarrow> nat \<Rightarrow> oid \<Rightarrow> oid \<Rightarrow> nat \<Rightarrow> bool \<Rightarrow> ArrayBuildStateArr result" where
  "initArrayResultArr get_element_type newcxt arr_type elem_type rcontext subcontext =
     bindR (if elem_type = 0 then
              (if get_element_type arr_type = 0 then Inl (Elog ''data type is not an array type'')
               else Inr (get_element_type arr_type))
            else Inr elem_type) (\<lambda>elem_type.
       Inr \<lparr>mcontext = (if subcontext then newcxt else rcontext), ab_data = [], ab_nullbitmap = None,
            abytes = 0, nbytes = 0, aitems = 0, nitems = 0, ndims = 0,
            ab_dims = replicate MAXDIM 0, ab_lbs = replicate MAXDIM 0,
            array_type = arr_type, element_type = elem_type, private_cxt = subcontext\<rparr>)"

text \<open>First input: check and save the dimensions, allocate the data.\<close>

definition accum_first :: "ArrayBuildStateArr \<Rightarrow> byte ArrayType \<Rightarrow> ArrayBuildStateArr result" where
  "accum_first astate arg =
     (let nd = length (arr_dims arg); ndatabytes = int (length (arr_data arg)) in
      require (nd \<noteq> 0) (Elog ''cannot accumulate empty arrays'') (
      require (nd + 1 \<le> MAXDIM) (Elog ''number of array dimensions exceeds the maximum allowed'') (
      bindR (cint (ndatabytes + 1)) (\<lambda>want.
      let n = wrap32 (pg_nextpower2_32 (max 1024 want)) in
      bindR (palloc 1 n) (\<lambda>d.
        Inr (astate\<lparr>ndims := int nd + 1,
                    ab_dims := 0 # arr_dims arg @ drop (nd + 1) (ab_dims astate),
                    ab_lbs := 1 # take nd (arr_lbound arg) @ drop (nd + 1) (ab_lbs astate),
                    abytes := n, ab_data := d\<rparr>))))))"

text \<open>Later input: the same dimensions are required, the data may have to grow.\<close>

definition accum_next :: "ArrayBuildStateArr \<Rightarrow> byte ArrayType \<Rightarrow> ArrayBuildStateArr result" where
  "accum_next astate arg =
     (let nd = length (arr_dims arg); ndatabytes = int (length (arr_data arg)) in
      require (ndims astate = int nd + 1 \<and>
               take nd (drop 1 (ab_dims astate)) = arr_dims arg \<and>
               take nd (drop 1 (ab_lbs astate)) = take nd (arr_lbound arg))
        (Elog ''cannot accumulate arrays of different dimensionality'') (
      bindR (cint (nbytes astate + ndatabytes)) (\<lambda>need.
        if need > abytes astate then
          bindR (cint (abytes astate * 2)) (\<lambda>twice.
          let n = max twice need in
          bindR (repalloc (ab_data astate) 1 n) (\<lambda>d. Inr (astate\<lparr>abytes := n, ab_data := d\<rparr>)))
        else Inr astate)))"

definition accum_bitmap ::
  "(nat \<Rightarrow> byte) \<Rightarrow> ArrayBuildStateArr \<Rightarrow> byte list option \<Rightarrow> int \<Rightarrow> ArrayBuildStateArr result" where
  "accum_bitmap junk astate argnulls n =
     (if ab_nullbitmap astate \<noteq> None \<or> argnulls \<noteq> None then
        bindR (cint (nitems astate + n)) (\<lambda>newnitems.
        bindR (case ab_nullbitmap astate of
            None \<Rightarrow>
              bindR (cint (newnitems + 1)) (\<lambda>want.
              let a = wrap32 (pg_nextpower2_32 (max 256 want)) in
              bindR (palloc_bitmap junk a) (\<lambda>bm.
              bindR (array_bitmap_copy bm 0 None 0 (nitems astate)) (\<lambda>bm. Inr (a, bm))))
          | Some bm \<Rightarrow>
              if newnitems > aitems astate then
                bindR (cint (aitems astate * 2)) (\<lambda>twice.
                let a = max twice newnitems in
                bindR (repalloc_bitmap junk bm a) (\<lambda>bm. Inr (a, bm)))
              else Inr (aitems astate, bm)) (\<lambda>(a, bm).
        bindR (array_bitmap_copy bm (nitems astate) argnulls 0 n) (\<lambda>bm.
          Inr (astate\<lparr>aitems := a, ab_nullbitmap := Some bm\<rparr>))))
      else Inr astate)"

definition accumArrayResultArr ::
  "(oid \<Rightarrow> oid) \<Rightarrow> nat \<Rightarrow> (nat \<Rightarrow> byte) \<Rightarrow> ArrayBuildStateArr option \<Rightarrow> byte ArrayType option \<Rightarrow> oid \<Rightarrow> nat
    \<Rightarrow> ArrayBuildStateArr result" where
  "accumArrayResultArr get_element_type newcxt junk astate dvalue arr_type rcontext =
     (case dvalue of
        None \<Rightarrow> Inl (Elog ''cannot accumulate null arrays'')
      | Some arg \<Rightarrow>
          bindR (case astate of None \<Rightarrow> initArrayResultArr get_element_type newcxt arr_type 0 rcontext True
                              | Some s \<Rightarrow> Inr s) (\<lambda>astate.
          bindR (ArrayGetNItems (arr_dims arg)) (\<lambda>n.
          let ndatabytes = int (length (arr_data arg)) in
          bindR (if ndims astate = 0 then accum_first astate arg else accum_next astate arg) (\<lambda>astate.
          bindR (memcpy (ab_data astate) (nbytes astate) (arr_data arg) 0 ndatabytes) (\<lambda>d.
          bindR (cint (nbytes astate + ndatabytes)) (\<lambda>nb.
          bindR (accum_bitmap junk (astate\<lparr>ab_data := d, nbytes := nb\<rparr>) (arr_nullbitmap arg) n) (\<lambda>astate.
          bindR (cint (nitems astate + n)) (\<lambda>ni.
          bindR (cint (ab_dims astate ! 0 + 1)) (\<lambda>d0.
            Inr (astate\<lparr>nitems := ni, ab_dims := (ab_dims astate)[0 := d0]\<rparr>))))))))))"

section \<open>Lemmas\<close>

subsection \<open>Allocation\<close>

lemma pg_nextpower2_32_bounds:
  assumes "0 < x"
  shows "x \<le> pg_nextpower2_32 x" "pg_nextpower2_32 x \<le> 2 * x"
proof -
  have "2 ^ leftmost_one_pos (nat x) \<le> nat x" "nat x < 2 ^ Suc (leftmost_one_pos (nat x))"
    using leftmost_one_pos_bounds [of "nat x"] assms by simp_all
  then have "int (2 ^ leftmost_one_pos (nat x)) \<le> int (nat x)" "int (nat x) < int (2 ^ Suc (leftmost_one_pos (nat x)))"
    by (simp_all only: of_nat_le_iff of_nat_less_iff)
  then show "x \<le> pg_nextpower2_32 x" "pg_nextpower2_32 x \<le> 2 * x"
    using assms by (simp_all add: pg_nextpower2_32_def)
qed

lemma wrap_nextpower2:
  assumes "0 < x" "x < 1073741824"
  shows "wrap32 (pg_nextpower2_32 x) = pg_nextpower2_32 x"
  using pg_nextpower2_32_bounds [OF assms(1)] assms by (simp add: in_int_def)

lemma palloc_bitmap_ok:
  assumes "0 \<le> a" "a \<le> 1073741824"
  shows "palloc_bitmap junk a = Inr (map junk [0 ..< nat ((a + 7) div 8)])"
proof -
  have "0 \<le> (a + 7) div 8" "(a + 7) div 8 \<le> MaxAllocSize" using assms by presburger+
  then show ?thesis using assms by (simp add: palloc_bitmap_def cint_def in_int_def c_simps)
qed

lemma repalloc_bitmap_ok:
  assumes "int (length bm) \<le> (a + 7) div 8" "0 \<le> a" "a \<le> 1073741824"
  shows "repalloc_bitmap junk bm a = Inr (bm @ map junk [length bm ..< nat ((a + 7) div 8)])"
  using assms by (simp add: repalloc_bitmap_def palloc_bitmap_ok drop_map)

subsection \<open>What a state stands for\<close>

text \<open>
  A state built from \<open>k\<close> arrays with dimensions \<open>ds\<close> and lower bounds \<open>ls\<close> stands for the
  concatenation \<open>bs\<close> of their data and \<open>nb\<close> of their null bits. The capacities are not part of it.
\<close>

abbreviation agg_limit :: int where
  "agg_limit \<equiv> 268435456"

definition nulls_rep :: "ArrayBuildStateArr \<Rightarrow> bool list \<Rightarrow> bool" where
  "nulls_rep s nb \<longleftrightarrow> nitems s = int (length nb) \<and>
     (case ab_nullbitmap s of
        None \<Rightarrow> aitems s = 0 \<and> nb = replicate (length nb) True
      | Some bm \<Rightarrow> 0 < aitems s \<and> int (length nb) \<le> aitems s \<and> aitems s \<le> 1073741824 \<and>
          int (length bm) = (aitems s + 7) div 8 \<and> nonnull_bits bm (length nb) = nb)"

definition data_rep :: "ArrayBuildStateArr \<Rightarrow> byte list \<Rightarrow> bool" where
  "data_rep s bs \<longleftrightarrow> nbytes s = int (length bs) \<and> abytes s = int (length (ab_data s)) \<and>
     abytes s \<le> MaxAllocSize \<and> length bs \<le> length (ab_data s) \<and> take (length bs) (ab_data s) = map Some bs"

definition dims_rep :: "ArrayBuildStateArr \<Rightarrow> int list \<Rightarrow> int list \<Rightarrow> nat \<Rightarrow> bool" where
  "dims_rep s ds ls k \<longleftrightarrow> ds \<noteq> [] \<and> length ds + 1 \<le> MAXDIM \<and> length ls = length ds \<and>
     ndims s = int (length ds) + 1 \<and> length (ab_dims s) = MAXDIM \<and> length (ab_lbs s) = MAXDIM \<and>
     list_all in_int (ab_dims s) \<and> list_all in_int (ab_lbs s) \<and>
     take (length ds + 1) (ab_dims s) = int k # ds \<and> take (length ds + 1) (ab_lbs s) = 1 # ls"

definition agg_rep :: "ArrayBuildStateArr \<Rightarrow> int list \<Rightarrow> int list \<Rightarrow> nat \<Rightarrow> byte list \<Rightarrow> bool list \<Rightarrow> bool" where
  "agg_rep s ds ls k bs nb \<longleftrightarrow> dims_rep s ds ls k \<and> data_rep s bs \<and> nulls_rep s nb"

text \<open>A state as \<open>initArrayResultArr\<close> leaves it, and an input of a given shape with \<open>n\<close> elements.\<close>

definition agg_fresh :: "ArrayBuildStateArr \<Rightarrow> bool" where
  "agg_fresh s \<longleftrightarrow> ndims s = 0 \<and> nbytes s = 0 \<and> nitems s = 0 \<and> aitems s = 0 \<and> ab_nullbitmap s = None \<and>
     ab_dims s = replicate MAXDIM 0 \<and> ab_lbs s = replicate MAXDIM 0"

definition input_ok :: "int list \<Rightarrow> int list \<Rightarrow> nat \<Rightarrow> byte ArrayType \<Rightarrow> bool" where
  "input_ok ds ls n a \<longleftrightarrow> arr_dims a = ds \<and> arr_lbound a = ls \<and>
     ds \<noteq> [] \<and> length ds + 1 \<le> MAXDIM \<and> length ls = length ds \<and> ArrayGetNItems ds = Inr (int n) \<and>
     list_all in_int ds \<and> list_all in_int ls \<and>
     (case arr_nullbitmap a of None \<Rightarrow> True | Some bm \<Rightarrow> n \<le> 8 * length bm)"

definition input_bits :: "nat \<Rightarrow> byte ArrayType \<Rightarrow> bool list" where
  "input_bits n a = map (source_bit (arr_nullbitmap a)) [0 ..< n]"

lemma length_input_bits [simp]: "length (input_bits n a) = n"
  by (simp add: input_bits_def)

subsection \<open>Data\<close>

lemma data_rep_append:
  assumes "data_rep s bs" "length bs + length d \<le> length (ab_data s)"
  shows "memcpy (ab_data s) (nbytes s) d 0 (int (length d)) = Inr (blit (ab_data s) (length bs) d)"
    and "data_rep (s\<lparr>ab_data := blit (ab_data s) (length bs) d, nbytes := int (length bs + length d)\<rparr>) (bs @ d)"
proof -
  show "memcpy (ab_data s) (nbytes s) d 0 (int (length d)) = Inr (blit (ab_data s) (length bs) d)"
    using memcpy_ok [of "length bs" "length d" "ab_data s" 0 d] assms by (simp add: data_rep_def)
  show "data_rep (s\<lparr>ab_data := blit (ab_data s) (length bs) d, nbytes := int (length bs + length d)\<rparr>) (bs @ d)"
    using assms by (simp add: data_rep_def blit_def)
qed

text \<open>Growing the data keeps what the state stands for.\<close>

lemma data_rep_grow:
  assumes "data_rep s bs" "abytes s \<le> n" "n \<le> MaxAllocSize"
  shows "\<exists>d. repalloc (ab_data s) 1 n = Inr d \<and> int (length d) = n \<and> data_rep (s\<lparr>abytes := n, ab_data := d\<rparr>) bs"
proof -
  have "repalloc (ab_data s) 1 n = Inr (ab_data s @ replicate (nat n - length (ab_data s)) None)"
    using repalloc_ok [of "ab_data s" "nat n" 1] assms by (simp add: data_rep_def)
  then show ?thesis using assms by (auto simp: data_rep_def)
qed

subsection \<open>Null bits\<close>

lemma length_nonnull_bits [simp]: "length (nonnull_bits bm n) = n"
  by (simp add: nonnull_bits_def)

lemma source_bits_None [simp]: "map (source_bit None) [0 ..< n] = replicate n True"
  by (rule nth_equalityI) (simp_all add: source_bit_def)

lemma nonnull_bits_put_bits:
  assumes "i + n \<le> 8 * length bm"
  shows "nonnull_bits (put_bits n bm i b) (i + n) = nonnull_bits bm i @ map b [0 ..< n]"
proof (rule nth_equalityI)
  fix j assume "j < length (nonnull_bits (put_bits n bm i b) (i + n))"
  then show "nonnull_bits (put_bits n bm i b) (i + n) ! j = (nonnull_bits bm i @ map b [0 ..< n]) ! j"
    using assms nonnull_put_bits [OF assms, of j b] by (auto simp: nonnull_bits_def nth_append)
qed simp

lemma nonnull_bits_prefix: "n \<le> 8 * length bm \<Longrightarrow> nonnull_bits (bm @ xs) n = nonnull_bits bm n"
  by (auto simp: nonnull_bits_def nonnull_def nth_append div_less_bytes)

text \<open>Copying \<open>n\<close> bits behind the ones already there.\<close>

lemma bitmap_extend:
  assumes "nonnull_bits bm (length nb) = nb" "int (length bm) = (a + 7) div 8" "int (length nb + n) \<le> a"
    and src: "\<And>bm. src = Some bm \<Longrightarrow> n \<le> 8 * length bm"
  shows "\<exists>bm'. array_bitmap_copy bm (int (length nb)) src 0 (int n) = Inr bm' \<and> length bm' = length bm \<and>
           nonnull_bits bm' (length nb + n) = nb @ map (source_bit src) [0 ..< n]"
proof -
  have fit: "length nb + n \<le> 8 * length bm" using assms(2,3) by presburger
  then show ?thesis
    using array_bitmap_copy_ok [of "length nb" n bm src 0] src assms(1)
    by (simp add: nonnull_bits_put_bits)
qed

text \<open>A first bitmap: everything accumulated so far is marked non-null.\<close>

lemma bitmap_start:
  assumes "int k \<le> a" "a \<le> 1073741824"
  shows "\<exists>bm. bindR (palloc_bitmap junk a) (\<lambda>bm. array_bitmap_copy bm 0 None 0 (int k)) = Inr bm \<and>
    int (length bm) = (a + 7) div 8 \<and> nonnull_bits bm k = replicate k True"
proof -
  let ?bm = "map junk [0 ..< nat ((a + 7) div 8)]"
  have "0 \<le> (a + 7) div 8" using assms by presburger
  then have l: "int (length ?bm) = (a + 7) div 8" by simp
  have nb: "nonnull_bits ?bm (length ([] :: bool list)) = []" by (simp add: nonnull_bits_def)
  obtain bm where bm: "array_bitmap_copy ?bm (int (length ([] :: bool list))) None 0 (int k) = Inr bm"
    "length bm = length ?bm" "nonnull_bits bm (length ([] :: bool list) + k) = [] @ map (source_bit None) [0 ..< k]"
    using bitmap_extend [OF nb l, where n = k and src = None] assms by auto
  have "0 \<le> a" using assms(1) by simp
  then show ?thesis
    using bm l assms by (simp add: palloc_bitmap_ok source_bit_def map_replicate_const)
qed

lemma nulls_rep_cap:
  assumes "nulls_rep s nb" "ab_nullbitmap s = Some bm"
  shows "nonnull_bits bm (length nb) = nb" "int (length bm) = (aitems s + 7) div 8" "int (length nb) \<le> aitems s"
    "0 < aitems s" "aitems s \<le> 1073741824"
  using assms by (simp_all add: nulls_rep_def)

lemma bitmap_grow:
  assumes "nulls_rep s nb" "ab_nullbitmap s = Some bm" "aitems s \<le> a" "a \<le> 1073741824"
  shows "\<exists>bm'. repalloc_bitmap junk bm a = Inr bm' \<and> int (length bm') = (a + 7) div 8 \<and>
    nonnull_bits bm' (length nb) = nb"
proof -
  note c = nulls_rep_cap [OF assms(1,2)]
  have le: "int (length bm) \<le> (a + 7) div 8" using c(2) assms(3) by presburger
  moreover have "length nb \<le> 8 * length bm" using c(2,3) by presburger
  ultimately show ?thesis
    using c assms(3,4) by (simp add: repalloc_bitmap_ok nonnull_bits_prefix)
qed

lemma accum_bitmap_ok:
  assumes r: "nulls_rep s nb" and n: "int (length nb + n) < agg_limit"
    and src: "\<And>bm. src = Some bm \<Longrightarrow> n \<le> 8 * length bm"
  shows "\<exists>a nulls. accum_bitmap junk s src (int n) = Inr (s\<lparr>aitems := a, ab_nullbitmap := nulls\<rparr>) \<and>
    (nulls = None \<longleftrightarrow> ab_nullbitmap s = None \<and> src = None) \<and>
    nulls_rep (s\<lparr>aitems := a, ab_nullbitmap := nulls, nitems := int (length nb + n)\<rparr>) (nb @ map (source_bit src) [0 ..< n])"
proof (cases "ab_nullbitmap s")
  case None
  show ?thesis
  proof (cases src)
    assume "src = None"
    then show ?thesis
      using r None by (intro exI [of _ "aitems s"] exI [of _ None])
        (auto simp: accum_bitmap_def nulls_rep_def source_bit_def map_replicate_const replicate_add)
  next
    fix sb assume sb: "src = Some sb"
    define a where "a = pg_nextpower2_32 (max 256 (int (length nb) + int n + 1))"
    have a: "int (length nb + n) < a" "0 < a" "a \<le> 536870912" "wrap32 a = a"
      using pg_nextpower2_32_bounds [of "max 256 (int (length nb) + int n + 1)"] n
      by (auto simp: a_def wrap_nextpower2 max_def)
    obtain bm0 where bm0: "bindR (palloc_bitmap junk a) (\<lambda>bm. array_bitmap_copy bm 0 None 0 (int (length nb))) = Inr bm0"
      "int (length bm0) = (a + 7) div 8" "nonnull_bits bm0 (length nb) = replicate (length nb) True"
      using bitmap_start [of "length nb" a junk] a by auto
    have nb: "nb = replicate (length nb) True" using r None by (simp add: nulls_rep_def)
    obtain bm where bm: "array_bitmap_copy bm0 (int (length nb)) src 0 (int n) = Inr bm" "length bm = length bm0"
      "nonnull_bits bm (length nb + n) = nb @ map (source_bit src) [0 ..< n]"
      using bitmap_extend [of bm0 nb a n src] bm0 a src nb by auto
    have "accum_bitmap junk s src (int n) = Inr (s\<lparr>aitems := a, ab_nullbitmap := Some bm\<rparr>)"
      using None sb r n bm bm0 a
      by (auto simp: accum_bitmap_def nulls_rep_def cint_def in_int_def Let_def a_def [symmetric] bindR_Inr_iff)
    then show ?thesis using None sb a bm bm0 by (intro exI conjI) (auto simp: nulls_rep_def)
  qed
next
  case (Some bm1)
  note c = nulls_rep_cap [OF r Some]
  define a where "a = (if int (length nb + n) > aitems s then max (aitems s * 2) (int (length nb + n)) else aitems s)"
  have a: "aitems s \<le> a" "int (length nb + n) \<le> a" "a \<le> 1073741824" using c n by (auto simp: a_def)
  obtain bm0 where bm0: "repalloc_bitmap junk bm1 a = Inr bm0" "int (length bm0) = (a + 7) div 8"
    "nonnull_bits bm0 (length nb) = nb"
    using bitmap_grow [OF r Some a(1,3)] by blast
  have same: "bm0 = bm1" if "a = aitems s"
    using bm0(1) c that repalloc_bitmap_ok [of bm1 a junk] a by (simp flip: c(2))
  obtain bm where bm: "array_bitmap_copy bm0 (int (length nb)) src 0 (int n) = Inr bm" "length bm = length bm0"
    "nonnull_bits bm (length nb + n) = nb @ map (source_bit src) [0 ..< n]"
    using bitmap_extend [OF bm0(3,2) a(2) src] by auto
  have "accum_bitmap junk s src (int n) = Inr (s\<lparr>aitems := a, ab_nullbitmap := Some bm\<rparr>)"
  proof (cases "int (length nb + n) > aitems s")
    case True
    then show ?thesis using Some r n bm bm0 c
      by (simp add: accum_bitmap_def nulls_rep_def cint_def in_int_def Let_def a_def)
  next
    case False
    then show ?thesis using Some r n bm same c
      by (simp add: accum_bitmap_def nulls_rep_def cint_def in_int_def a_def)
  qed
  then show ?thesis using Some a bm bm0 c by (intro exI conjI) (auto simp: nulls_rep_def)
qed

subsection \<open>Accumulating\<close>

lemma dims_repD:
  assumes "dims_rep s ds ls k"
  shows "take (length ds) (drop 1 (ab_dims s)) = ds" "take (length ds) (drop 1 (ab_lbs s)) = ls"
    "ab_dims s ! 0 = int k" "ndims s = int (length ds) + 1" "ds \<noteq> []" "length ls = length ds"
    "length (ab_dims s) = MAXDIM" "length (ab_lbs s) = MAXDIM"
  using assms unfolding dims_rep_def
  by (cases "ab_dims s"; cases "ab_lbs s"; simp)+

lemma dims_rep_set:
  assumes "dims_rep s ds ls k" "int k' < 2 * agg_limit"
  shows "dims_rep (s\<lparr>ab_dims := (ab_dims s)[0 := int k']\<rparr>) ds ls k'"
  using assms by (cases "ab_dims s") (auto simp: dims_rep_def in_int_def)

text \<open>Each part depends on its own fields only.\<close>

lemma nulls_rep_frame [simp]:
  "nulls_rep (s\<lparr>ab_data := d\<rparr>) nb = nulls_rep s nb"
  "nulls_rep (s\<lparr>abytes := n\<rparr>) nb = nulls_rep s nb"
  "nulls_rep (s\<lparr>nbytes := n\<rparr>) nb = nulls_rep s nb"
  "nulls_rep (s\<lparr>ab_dims := xs\<rparr>) nb = nulls_rep s nb"
  by (simp_all add: nulls_rep_def split: option.split)

lemma data_rep_frame [simp]:
  "data_rep (s\<lparr>aitems := n\<rparr>) bs = data_rep s bs"
  "data_rep (s\<lparr>nitems := n\<rparr>) bs = data_rep s bs"
  "data_rep (s\<lparr>ab_nullbitmap := bm\<rparr>) bs = data_rep s bs"
  "data_rep (s\<lparr>ab_dims := xs\<rparr>) bs = data_rep s bs"
  by (simp_all add: data_rep_def)

lemma dims_rep_frame [simp]:
  "dims_rep (s\<lparr>aitems := n\<rparr>) ds ls k = dims_rep s ds ls k"
  "dims_rep (s\<lparr>nitems := n\<rparr>) ds ls k = dims_rep s ds ls k"
  "dims_rep (s\<lparr>ab_nullbitmap := bm\<rparr>) ds ls k = dims_rep s ds ls k"
  "dims_rep (s\<lparr>ab_data := d\<rparr>) ds ls k = dims_rep s ds ls k"
  "dims_rep (s\<lparr>abytes := n\<rparr>) ds ls k = dims_rep s ds ls k"
  "dims_rep (s\<lparr>nbytes := n\<rparr>) ds ls k = dims_rep s ds ls k"
  by (simp_all add: dims_rep_def)

text \<open>A state under construction: fresh, or standing for what was accumulated.\<close>

definition agg_state :: "ArrayBuildStateArr \<Rightarrow> int list \<Rightarrow> int list \<Rightarrow> nat \<Rightarrow> byte list \<Rightarrow> bool list \<Rightarrow> bool" where
  "agg_state s ds ls k bs nb \<longleftrightarrow> agg_rep s ds ls k bs nb \<or> (agg_fresh s \<and> k = 0 \<and> bs = [] \<and> nb = [])"

lemma accum_first_ok:
  assumes f: "agg_fresh s" and a: "input_ok ds ls n a" and sz: "int (length (arr_data a)) < agg_limit"
  shows "\<exists>nd dims' lbs' ab d. accum_first s a = Inr (s\<lparr>ndims := nd, ab_dims := dims', ab_lbs := lbs', abytes := ab, ab_data := d\<rparr>) \<and>
    agg_rep (s\<lparr>ndims := nd, ab_dims := dims', ab_lbs := lbs', abytes := ab, ab_data := d\<rparr>) ds ls 0 [] [] \<and>
    length (arr_data a) \<le> length d"
proof -
  define m where "m = pg_nextpower2_32 (max 1024 (int (length (arr_data a)) + 1))"
  have m: "int (length (arr_data a)) < m" "0 < m" "m \<le> MaxAllocSize" "wrap32 m = m"
    using pg_nextpower2_32_bounds [of "max 1024 (int (length (arr_data a)) + 1)"] sz
    by (auto simp: m_def wrap_nextpower2 max_def)
  have "accum_first s a = Inr (s\<lparr>ndims := int (length ds) + 1,
      ab_dims := 0 # ds @ drop (length ds + 1) (ab_dims s), ab_lbs := 1 # ls @ drop (length ds + 1) (ab_lbs s),
      abytes := m, ab_data := replicate (nat m) None\<rparr>)"
    using a sz m by (simp add: accum_first_def input_ok_def Let_def cint_def in_int_def palloc_def m_def [symmetric])
  moreover have "agg_rep (s\<lparr>ndims := int (length ds) + 1,
      ab_dims := 0 # ds @ drop (length ds + 1) (ab_dims s), ab_lbs := 1 # ls @ drop (length ds + 1) (ab_lbs s),
      abytes := m, ab_data := replicate (nat m) None\<rparr>) ds ls 0 [] []"
    using a f m
    by (simp add: agg_rep_def dims_rep_def data_rep_def nulls_rep_def agg_fresh_def input_ok_def in_int_def
        list_all_iff set_replicate_conv_if)
  ultimately show ?thesis using m by fastforce
qed

lemma accum_next_ok:
  assumes r: "agg_rep s ds ls k bs nb" and a: "input_ok ds ls n a"
    and sz: "int (length bs + length (arr_data a)) < agg_limit"
  shows "\<exists>ab d. accum_next s a = Inr (s\<lparr>abytes := ab, ab_data := d\<rparr>) \<and>
    agg_rep (s\<lparr>abytes := ab, ab_data := d\<rparr>) ds ls k bs nb \<and> length bs + length (arr_data a) \<le> length d"
proof -
  have d: "dims_rep s ds ls k" "data_rep s bs" using r by (simp_all add: agg_rep_def)
  note dd = dims_repD [OF d(1)]
  have n: "nbytes s = int (length bs)" "abytes s = int (length (ab_data s))" using d(2) by (simp_all add: data_rep_def)
  show ?thesis
  proof (cases "length bs + length (arr_data a) \<le> length (ab_data s)")
    case True
    have same: "s\<lparr>abytes := abytes s, ab_data := ab_data s\<rparr> = s" by simp
    have "accum_next s a = Inr s"
      using True dd a sz n by (simp add: accum_next_def input_ok_def Let_def cint_def in_int_def)
    then show ?thesis using r True
      by (intro exI [of _ "abytes s"] exI [of _ "ab_data s"]) (simp only: same simp_thms)
  next
    case False
    define m where "m = max (int (length (ab_data s)) * 2) (int (length bs) + int (length (arr_data a)))"
    have m: "abytes s \<le> m" "m \<le> MaxAllocSize" "int (length bs) + int (length (arr_data a)) \<le> m"
      using False sz n by (auto simp: m_def)
    obtain e where e: "repalloc (ab_data s) 1 m = Inr e" "int (length e) = m" "data_rep (s\<lparr>abytes := m, ab_data := e\<rparr>) bs"
      using data_rep_grow [OF d(2) m(1,2)] by blast
    have "accum_next s a = Inr (s\<lparr>abytes := m, ab_data := e\<rparr>)"
      using dd a sz n False e by (simp add: accum_next_def input_ok_def Let_def cint_def in_int_def m_def [symmetric])
    moreover have "agg_rep (s\<lparr>abytes := m, ab_data := e\<rparr>) ds ls k bs nb"
      using r e(3) by (simp add: agg_rep_def)
    moreover have "length bs + length (arr_data a) \<le> length e" using m(3) e(2) by linarith
    ultimately show ?thesis by blast
  qed
qed

lemma accum_prepare:
  assumes r: "agg_state s ds ls k bs nb" and a: "input_ok ds ls n a"
    and sz: "int (length bs + length (arr_data a)) < agg_limit"
  shows "\<exists>s1. (if ndims s = 0 then accum_first s a else accum_next s a) = Inr s1 \<and>
    agg_rep s1 ds ls k bs nb \<and> length bs + length (arr_data a) \<le> length (ab_data s1) \<and>
    element_type s1 = element_type s \<and> array_type s1 = array_type s \<and> ab_nullbitmap s1 = ab_nullbitmap s"
proof (cases "agg_rep s ds ls k bs nb")
  case True
  then have "ndims s \<noteq> 0" by (simp add: agg_rep_def dims_rep_def)
  with accum_next_ok [OF True a sz] show ?thesis by auto
next
  case False
  then have f: "agg_fresh s" "k = 0" "bs = []" "nb = []" using r by (simp_all add: agg_state_def)
  have "ndims s = 0" using f(1) by (simp add: agg_fresh_def)
  moreover have "int (length (arr_data a)) < agg_limit" using sz f(3) by simp
  ultimately show ?thesis using accum_first_ok [OF f(1) a] f by auto
qed

lemma accum_ok:
  assumes r: "agg_state s ds ls k bs nb" and a: "input_ok ds ls n a"
    and sz: "int (length bs + length (arr_data a)) < agg_limit" "int (length nb + n) < agg_limit" "int k < agg_limit"
  shows "\<exists>s'. accumArrayResultArr get_elt newcxt junk (Some s) (Some a) ty cxt = Inr s' \<and>
    agg_rep s' ds ls (k + 1) (bs @ arr_data a) (nb @ input_bits n a) \<and>
    element_type s' = element_type s \<and> array_type s' = array_type s \<and>
    (ab_nullbitmap s' = None \<longleftrightarrow> ab_nullbitmap s = None \<and> arr_nullbitmap a = None)"
proof -
  obtain s1 where s1: "(if ndims s = 0 then accum_first s a else accum_next s a) = Inr s1"
    "agg_rep s1 ds ls k bs nb" "length bs + length (arr_data a) \<le> length (ab_data s1)"
    "element_type s1 = element_type s" "array_type s1 = array_type s" "ab_nullbitmap s1 = ab_nullbitmap s"
    using accum_prepare [OF r a sz(1)] by blast
  let ?d = "blit (ab_data s1) (length bs) (arr_data a)" and ?nb = "int (length bs + length (arr_data a))"
  define s2 where "s2 = s1\<lparr>ab_data := ?d, nbytes := ?nb\<rparr>"
  have reps: "dims_rep s1 ds ls k" "data_rep s1 bs" "nulls_rep s1 nb" using s1(2) by (simp_all add: agg_rep_def)
  note cp = data_rep_append [OF reps(2) s1(3), folded s2_def]
  have "nulls_rep s2 nb" using reps(3) by (simp add: s2_def)
  moreover have "n \<le> 8 * length bm" if "arr_nullbitmap a = Some bm" for bm using a that by (simp add: input_ok_def)
  ultimately obtain x nulls where b: "accum_bitmap junk s2 (arr_nullbitmap a) (int n) = Inr (s2\<lparr>aitems := x, ab_nullbitmap := nulls\<rparr>)"
    "nulls = None \<longleftrightarrow> ab_nullbitmap s2 = None \<and> arr_nullbitmap a = None"
    "nulls_rep (s2\<lparr>aitems := x, ab_nullbitmap := nulls, nitems := int (length nb + n)\<rparr>) (nb @ map (source_bit (arr_nullbitmap a)) [0 ..< n])"
    using accum_bitmap_ok [OF _ sz(2)] by blast
  let ?s' = "s2\<lparr>aitems := x, ab_nullbitmap := nulls, nitems := int (length nb + n), ab_dims := (ab_dims s1)[0 := int (k + 1)]\<rparr>"
  have "dims_rep (s1\<lparr>ab_dims := (ab_dims s1)[0 := int (k + 1)]\<rparr>) ds ls (k + 1)" by (rule dims_rep_set [OF reps(1)]) (use sz(3) in simp)
  then have "dims_rep ?s' ds ls (k + 1)" by (simp add: dims_rep_def s2_def)
  moreover have "data_rep ?s' (bs @ arr_data a)" using cp(2) by simp
  moreover have "nulls_rep ?s' (nb @ input_bits n a)" using b(3) by (simp add: input_bits_def)
  moreover have "accumArrayResultArr get_elt newcxt junk (Some s) (Some a) ty cxt = Inr ?s'"
  proof -
    have g: "ArrayGetNItems (arr_dims a) = Inr (int n)" using a by (simp add: input_ok_def)
    have n1: "nbytes s1 = int (length bs)" "nitems s2 = int (length nb)" "ab_dims s2 ! 0 = int k"
      using reps dims_repD(3) [OF reps(1)] by (simp_all add: data_rep_def nulls_rep_def s2_def)
    have c: "cint (int (length bs) + int (length (arr_data a))) = Inr ?nb"
      "cint (int (length nb) + int n) = Inr (int (length nb + n))" "cint (int k + 1) = Inr (int (k + 1))"
      using sz by (simp_all add: cint_def in_int_def)
    show ?thesis
      using b(1) n1 c cp(1) s1(1) unfolding accumArrayResultArr_def
      by (simp add: g Let_def s2_def [symmetric] del: of_nat_add) (simp add: s2_def)
  qed
  ultimately show ?thesis using s1(4-6) b(2) by (intro exI [of _ ?s']) (simp add: agg_rep_def s2_def)
qed

end
