(* ===== verification/Agg2d.thy ===== *)
theory Agg2d
  imports Array_Build
begin

text \<open>
  The aggregate \<open>array_2d_agg\<close> of \<open>aqua_extension/src/extended_op.c\<close>, which stacks matrices on top of
  each other: the transition, combine, serialize, deserialize and final functions over the
  accumulator of \<open>Array_Build\<close>. The properties follow a state through sequential and parallel
  aggregation and through the message it is sent in.
\<close>

section \<open>The aggregate of \<open>extended_op.c\<close>\<close>

definition array_2d_agg_transfn ::
  "(oid \<Rightarrow> oid) \<Rightarrow> nat \<Rightarrow> (nat \<Rightarrow> byte) \<Rightarrow> oid \<Rightarrow> nat option \<Rightarrow> ArrayBuildStateArr option \<Rightarrow> byte ArrayType option
    \<Rightarrow> ArrayBuildStateArr result" where
  "array_2d_agg_transfn get_element_type newcxt junk arg1_typeid aggcontext arg0 arg1 =
     require (arg1_typeid \<noteq> 0) (Elog ''could not determine input data type'') (
     case aggcontext of
       None \<Rightarrow> Inl (Elog ''array_agg_2d+transfn called in non-aggregate context'')
     | Some aggcontext \<Rightarrow>
         bindR (case arg0 of
                  None \<Rightarrow> initArrayResultArr get_element_type newcxt arg1_typeid 0 aggcontext False
                | Some s \<Rightarrow> Inr s) (\<lambda>state.
           accumArrayResultArr get_element_type newcxt junk (Some state) arg1 arg1_typeid aggcontext))"

text \<open>
  \<open>new_dims\<close> and \<open>new_lbs\<close> have two elements, and \<open>ndims - 1\<close> of them are copied. The second
  component of the result is the context deleted with \<open>release\<close>.
\<close>

definition makeAgg2dResultArr :: "ArrayBuildStateArr \<Rightarrow> bool \<Rightarrow> (byte ArrayType \<times> nat option) result" where
  "makeAgg2dResultArr astate release =
     bindR (if ndims astate = 0 then Inr (construct_empty_array (element_type astate))
       else
         bindR (ArrayGetNItems (take (nat (ndims astate)) (ab_dims astate))) (\<lambda>_.
         bindR (cint (nbytes astate +
                  (if ab_nullbitmap astate \<noteq> None then ARR_OVERHEAD_WITHNULLS (ndims astate - 1) (nitems astate)
                   else ARR_OVERHEAD_NONULLS (ndims astate - 1)))) (\<lambda>total.
         require (0 \<le> total \<and> total \<le> MaxAllocSize) (Elog ''invalid memory alloc request size'') (
         bindR (cint (ab_dims astate ! 0 * ab_dims astate ! 1)) (\<lambda>d0.
         let new_ndims = nat (ndims astate - 1) in
         require (new_ndims \<le> 2) (Undefined Out_of_bounds) (
         require (nbytes astate \<le> int (length (ab_data astate))) (Undefined Out_of_bounds) (
         bindR (sealed (take (nat (nbytes astate)) (ab_data astate))) (\<lambda>d.
         bindR (case ab_nullbitmap astate of
                  None \<Rightarrow> Inr None
                | Some bm \<Rightarrow> bindR (array_bitmap_copy (replicate (nat ((nitems astate + 7) div 8)) 0) 0
                                     (Some bm) 0 (nitems astate)) (\<lambda>r. Inr (Some r))) (\<lambda>nulls.
           Inr \<lparr>arr_dims = take new_ndims [d0, ab_dims astate ! 2], arr_lbound = take new_ndims [1, 1],
                arr_elemtype = element_type astate, arr_nullbitmap = nulls, arr_data = d\<rparr>)))))))))
       (\<lambda>result. Inr (result, if release then Some (mcontext astate) else None))"

definition array_2d_agg_finalfn :: "ArrayBuildStateArr option \<Rightarrow> byte ArrayType option result" where
  "array_2d_agg_finalfn arg0 =
     (case arg0 of None \<Rightarrow> Inr None
      | Some state \<Rightarrow> bindR (makeAgg2dResultArr state False) (\<lambda>(result, _). Inr (Some result)))"

text \<open>\<open>state1\<close> is NULL: copy \<open>state2\<close> into the aggregate context.\<close>

definition combine_copy ::
  "(oid \<Rightarrow> oid) \<Rightarrow> nat \<Rightarrow> (nat \<Rightarrow> byte) \<Rightarrow> nat \<Rightarrow> ArrayBuildStateArr \<Rightarrow> ArrayBuildStateArr result" where
  "combine_copy get_element_type newcxt junk agg_context state2 =
     bindR (initArrayResultArr get_element_type newcxt (array_type state2) 0 agg_context False) (\<lambda>state1.
     bindR (palloc 1 (abytes state2)) (\<lambda>d.
     bindR (case ab_nullbitmap state2 of
              None \<Rightarrow> Inr None
            | Some bm2 \<Rightarrow>
                bindR (palloc_bitmap junk (aitems state2)) (\<lambda>bm.
                require (length bm \<le> length bm2) (Undefined Out_of_bounds) (Inr (Some (take (length bm) bm2))))) (\<lambda>nulls.
     require (nbytes state2 \<le> int (length (ab_data state2))) (Undefined Out_of_bounds) (
     bindR (sealed (take (nat (nbytes state2)) (ab_data state2))) (\<lambda>d2.
     bindR (memcpy d 0 d2 0 (nbytes state2)) (\<lambda>d.
       Inr (state1\<lparr>abytes := abytes state2, ab_data := d, ab_nullbitmap := nulls, nbytes := nbytes state2,
                   aitems := aitems state2, nitems := nitems state2, ndims := ndims state2,
                   ab_dims := ab_dims state2, ab_lbs := ab_lbs state2,
                   array_type := array_type state2, element_type := element_type state2\<rparr>)))))))"

text \<open>Room for \<open>newnitems\<close> bits in the bitmap of \<open>state1\<close>.\<close>

definition combine_room ::
  "(nat \<Rightarrow> byte) \<Rightarrow> ArrayBuildStateArr \<Rightarrow> ArrayBuildStateArr \<Rightarrow> int \<Rightarrow> (int \<times> byte list) result" where
  "combine_room junk state1 state2 newnitems =
     (case ab_nullbitmap state1 of
        None \<Rightarrow>
          bindR (cint (newnitems + 1)) (\<lambda>want.
          let a = wrap32 (pg_nextpower2_32 (max 256 want)) in
          bindR (palloc_bitmap junk a) (\<lambda>bm.
          bindR (array_bitmap_copy bm 0 None 0 (nitems state1)) (\<lambda>bm. Inr (a, bm))))
      | Some bm \<Rightarrow>
          if newnitems > aitems state1 then
            bindR (cint (aitems state1 + aitems state2)) (\<lambda>newaitems.
            let a = wrap32 (pg_nextpower2_32 newaitems) in
            bindR (repalloc_bitmap junk bm a) (\<lambda>bm. Inr (a, bm)))
          else Inr (aitems state1, bm))"

text \<open>The bitmap of \<open>state1\<close> is touched only if \<open>state2\<close> has one.\<close>

definition combine_bitmap ::
  "(nat \<Rightarrow> byte) \<Rightarrow> ArrayBuildStateArr \<Rightarrow> ArrayBuildStateArr \<Rightarrow> ArrayBuildStateArr result" where
  "combine_bitmap junk state1 state2 =
     (case ab_nullbitmap state2 of
        None \<Rightarrow> Inr state1
      | Some bm2 \<Rightarrow>
          bindR (cint (nitems state1 + nitems state2)) (\<lambda>newnitems.
          bindR (combine_room junk state1 state2 newnitems) (\<lambda>(a, bm).
          bindR (array_bitmap_copy bm (nitems state1) (Some bm2) 0 (nitems state2)) (\<lambda>bm.
            Inr (state1\<lparr>aitems := a, ab_nullbitmap := Some bm\<rparr>)))))"

definition combine_append ::
  "(nat \<Rightarrow> byte) \<Rightarrow> ArrayBuildStateArr \<Rightarrow> ArrayBuildStateArr \<Rightarrow> ArrayBuildStateArr result" where
  "combine_append junk state1 state2 =
     bindR (cint (nbytes state1 + nbytes state2)) (\<lambda>reqsize.
     let nd = nat (ndims state1) in
     require (ndims state1 = ndims state2 \<and>
              take (nd - 1) (drop 1 (ab_dims state1)) = take (nd - 1) (drop 1 (ab_dims state2)) \<and>
              take (nd - 1) (drop 1 (ab_lbs state1)) = take (nd - 1) (drop 1 (ab_lbs state2)))
       (Elog ''cannot accumulate arrays of different dimensionality'') (
     bindR (if abytes state1 < reqsize then
              let n = wrap32 (pg_nextpower2_32 reqsize) in
              bindR (repalloc (ab_data state1) 1 n) (\<lambda>d. Inr (state1\<lparr>abytes := n, ab_data := d\<rparr>))
            else Inr state1) (\<lambda>state1.
     bindR (combine_bitmap junk state1 state2) (\<lambda>state1.
     require (nbytes state2 \<le> int (length (ab_data state2))) (Undefined Out_of_bounds) (
     bindR (sealed (take (nat (nbytes state2)) (ab_data state2))) (\<lambda>d2.
     bindR (memcpy (ab_data state1) (nbytes state1) d2 0 (nbytes state2)) (\<lambda>d.
     bindR (cint (nitems state1 + nitems state2)) (\<lambda>ni.
     bindR (cint (ab_dims state1 ! 0 + ab_dims state2 ! 0)) (\<lambda>d0.
       Inr (state1\<lparr>ab_data := d, nbytes := reqsize, nitems := ni,
                   ab_dims := (ab_dims state1)[0 := d0]\<rparr>))))))))))"

definition array_2d_agg_combine ::
  "(oid \<Rightarrow> oid) \<Rightarrow> nat \<Rightarrow> (nat \<Rightarrow> byte) \<Rightarrow> nat option \<Rightarrow> ArrayBuildStateArr option \<Rightarrow> ArrayBuildStateArr option
    \<Rightarrow> ArrayBuildStateArr option result" where
  "array_2d_agg_combine get_element_type newcxt junk agg_context arg0 arg1 =
     (case agg_context of
        None \<Rightarrow> Inl (Elog ''aggregate function called in non-aggregate context'')
      | Some agg_context \<Rightarrow>
          (case arg1 of
             None \<Rightarrow> Inr arg0
           | Some state2 \<Rightarrow>
               (case arg0 of
                  None \<Rightarrow> bindR (combine_copy get_element_type newcxt junk agg_context state2) (\<lambda>s. Inr (Some s))
                | Some state1 \<Rightarrow>
                    if nitems state2 > 0 then bindR (combine_append junk state1 state2) (\<lambda>s. Inr (Some s))
                    else Inr (Some state1))))"

text \<open>The six integers of \<open>dims\<close> and of \<open>lbs\<close> are sent as they are in memory.\<close>

definition int_bytes :: "int list \<Rightarrow> byte list" where
  "int_bytes xs = concat (map (\<lambda>x. word_bytes (word_of_int x)) xs)"

definition bytes_ints :: "byte list \<Rightarrow> int list" where
  "bytes_ints bs = map (\<lambda>i. sint (bytes_word (take 4 (drop (4 * i) bs)))) [0 ..< MAXDIM]"

definition array_agg_array_serialize :: "ArrayBuildStateArr \<Rightarrow> byte list result" where
  "array_agg_array_serialize state =
     bindR pq_begintypsend (\<lambda>buf.
     bindR (pq_sendint32 buf (int (element_type state))) (\<lambda>buf.
     bindR (pq_sendint32 buf (int (array_type state))) (\<lambda>buf.
     bindR (pq_sendint32 buf (nbytes state)) (\<lambda>buf.
     bindR (sealed (take (nat (nbytes state)) (ab_data state))) (\<lambda>d.
     bindR (pq_sendbytes buf d (nbytes state)) (\<lambda>buf.
     bindR (pq_sendint32 buf (abytes state)) (\<lambda>buf.
     bindR (pq_sendint32 buf (aitems state)) (\<lambda>buf.
     bindR (case ab_nullbitmap state of
              None \<Rightarrow> Inr buf
            | Some bm \<Rightarrow> bindR (cint (aitems state + 7)) (\<lambda>k. bindR (cdiv k 8) (\<lambda>sz. pq_sendbytes buf bm sz))) (\<lambda>buf.
     bindR (pq_sendint32 buf (nitems state)) (\<lambda>buf.
     bindR (pq_sendint32 buf (ndims state)) (\<lambda>buf.
     bindR (pq_sendbytes buf (int_bytes (ab_dims state)) 24) (\<lambda>buf.
     bindR (pq_sendbytes buf (int_bytes (ab_lbs state)) 24) (\<lambda>buf.
       pq_endtypsend buf)))))))))))))"

definition array_agg_array_deserialize :: "(oid \<Rightarrow> oid) \<Rightarrow> nat \<Rightarrow> nat \<Rightarrow> byte list \<Rightarrow> ArrayBuildStateArr result" where
  "array_agg_array_deserialize get_element_type newcxt cur_context sstate =
     bindR (pq_getmsgint (initReadOnlyStringInfo sstate) 4) (\<lambda>(et, buf).
     bindR (pq_getmsgint buf 4) (\<lambda>(at, buf).
     bindR (pq_getmsgint buf 4) (\<lambda>(nb, buf).
     let nb = sint nb in
     bindR (initArrayResultArr get_element_type newcxt (unat at) (unat et) cur_context False) (\<lambda>result.
     bindR (double_until nb 1024) (\<lambda>ab.
     bindR (palloc 1 ab) (\<lambda>d.
     bindR (pq_getmsgbytes buf nb) (\<lambda>(temp, buf).
     bindR (memcpy d 0 temp 0 nb) (\<lambda>d.
     bindR (pq_getmsgint buf 4) (\<lambda>(ab, buf).
     bindR (pq_getmsgint buf 4) (\<lambda>(ai, buf).
     bindR (if sint ai > 0 then
              bindR (cint (sint ai + 7)) (\<lambda>k. bindR (cdiv k 8) (\<lambda>sz.
              bindR (palloc 1 sz :: byte buf result) (\<lambda>_.
              bindR (pq_getmsgbytes buf sz) (\<lambda>(temp, buf). Inr (Some temp, buf)))))
            else Inr (None, buf)) (\<lambda>(nulls, buf).
     bindR (pq_getmsgint buf 4) (\<lambda>(ni, buf).
     bindR (pq_getmsgint buf 4) (\<lambda>(nd, buf).
     bindR (pq_getmsgbytes buf 24) (\<lambda>(dims, buf).
     bindR (pq_getmsgbytes buf 24) (\<lambda>(lbs, buf).
     bindR (pq_getmsgend buf) (\<lambda>_.
       Inr (result\<lparr>ab_data := d, nbytes := nb, abytes := sint ab, aitems := sint ai, ab_nullbitmap := nulls,
                   nitems := sint ni, ndims := sint nd, ab_dims := bytes_ints dims, ab_lbs := bytes_ints lbs\<rparr>)))))))))))))))))"


section \<open>Lemmas\<close>

subsection \<open>The transition function\<close>

text \<open>
  The argument a support function receives: NULL before the first row, a state afterwards. The
  element type is the one the catalogue gives for the array type.
\<close>

definition agg_of ::
  "(oid \<Rightarrow> oid) \<Rightarrow> oid \<Rightarrow> ArrayBuildStateArr option \<Rightarrow> int list \<Rightarrow> int list \<Rightarrow> nat \<Rightarrow> byte list \<Rightarrow> bool list \<Rightarrow> bool" where
  "agg_of get_elt ty st ds ls k bs nb \<longleftrightarrow> (case st of
     None \<Rightarrow> k = 0 \<and> bs = [] \<and> nb = []
   | Some s \<Rightarrow> agg_rep s ds ls k bs nb \<and> element_type s = get_elt ty \<and> array_type s = ty)"

definition nullfree :: "ArrayBuildStateArr option \<Rightarrow> bool" where
  "nullfree st \<longleftrightarrow> (case st of None \<Rightarrow> True | Some s \<Rightarrow> ab_nullbitmap s = None)"

lemma transfn_ok:
  assumes st: "agg_of get_elt ty st ds ls k bs nb" and a: "input_ok ds ls n a"
    and sz: "int (length bs + length (arr_data a)) < agg_limit" "int (length nb + n) < agg_limit" "int k < agg_limit"
    and t: "ty \<noteq> 0" "get_elt ty \<noteq> 0"
  shows "\<exists>s'. array_2d_agg_transfn get_elt newcxt junk ty (Some cxt) st (Some a) = Inr s' \<and>
    agg_of get_elt ty (Some s') ds ls (k + 1) (bs @ arr_data a) (nb @ input_bits n a) \<and>
    (nullfree (Some s') \<longleftrightarrow> nullfree st \<and> arr_nullbitmap a = None)"
proof -
  obtain s where s: "(case st of None \<Rightarrow> initArrayResultArr get_elt newcxt ty 0 cxt False | Some s \<Rightarrow> Inr s) = Inr s"
    "agg_state s ds ls k bs nb" "element_type s = get_elt ty" "array_type s = ty"
    "ab_nullbitmap s = None \<longleftrightarrow> nullfree st"
  proof (cases st)
    case None
    with st t that show ?thesis
      by (simp add: agg_of_def agg_state_def initArrayResultArr_def agg_fresh_def nullfree_def)
  next
    case (Some s)
    with st that [of s] show ?thesis by (simp add: agg_of_def agg_state_def nullfree_def)
  qed
  have "array_2d_agg_transfn get_elt newcxt junk ty (Some cxt) st (Some a) =
      accumArrayResultArr get_elt newcxt junk (Some s) (Some a) ty cxt"
    unfolding array_2d_agg_transfn_def s(1) option.simps using t by simp
  then show ?thesis
    using accum_ok [OF s(2) a sz, of get_elt newcxt junk ty cxt] s(3-5)
    by (simp add: agg_of_def nullfree_def)
qed

text \<open>The executor calls the transition function once per row; each row comes with its own fresh memory.\<close>

definition agg_rows ::
  "(oid \<Rightarrow> oid) \<Rightarrow> nat \<Rightarrow> oid \<Rightarrow> nat \<Rightarrow> ((nat \<Rightarrow> byte) \<times> byte ArrayType) list \<Rightarrow> ArrayBuildStateArr option
    \<Rightarrow> ArrayBuildStateArr option result" where
  "agg_rows get_elt newcxt ty cxt rows st =
     foldR (\<lambda>(junk, a) st. bindR (array_2d_agg_transfn get_elt newcxt junk ty (Some cxt) st (Some a)) (\<lambda>s. Inr (Some s))) rows st"

abbreviation rows_data :: "((nat \<Rightarrow> byte) \<times> byte ArrayType) list \<Rightarrow> byte list" where
  "rows_data rows \<equiv> concat (map (\<lambda>r. arr_data (snd r)) rows)"

abbreviation rows_bits :: "nat \<Rightarrow> ((nat \<Rightarrow> byte) \<times> byte ArrayType) list \<Rightarrow> bool list" where
  "rows_bits n rows \<equiv> concat (map (\<lambda>r. input_bits n (snd r)) rows)"

lemma length_rows_bits: "length (rows_bits n rows) = length rows * n"
  by (induction rows) simp_all

lemma agg_rows_ok:
  assumes "agg_of get_elt ty st ds ls k bs nb" "\<forall>r \<in> set rows. input_ok ds ls n (snd r)"
    "int (length bs + length (rows_data rows)) < agg_limit" "int (length nb + length rows * n) < agg_limit"
    "int (k + length rows) < agg_limit" and t: "ty \<noteq> 0" "get_elt ty \<noteq> 0"
  shows "\<exists>st'. agg_rows get_elt newcxt ty cxt rows st = Inr st' \<and>
    agg_of get_elt ty st' ds ls (k + length rows) (bs @ rows_data rows) (nb @ rows_bits n rows) \<and>
    (nullfree st' \<longleftrightarrow> nullfree st \<and> (\<forall>r \<in> set rows. arr_nullbitmap (snd r) = None))"
  using assms(1-5)
proof (induction rows arbitrary: st k bs nb)
  case Nil
  then show ?case by (simp add: agg_rows_def)
next
  case (Cons r rows)
  obtain junk a where r: "r = (junk, a)" by (cases r)
  have a: "input_ok ds ls n a" using Cons.prems(2) r by simp
  have sz: "int (length bs + length (arr_data a)) < agg_limit" "int (length nb + n) < agg_limit" "int k < agg_limit"
    using Cons.prems(3-5) r by (auto intro: order_le_less_trans [rotated])
  obtain s' where s': "array_2d_agg_transfn get_elt newcxt junk ty (Some cxt) st (Some a) = Inr s'"
    "agg_of get_elt ty (Some s') ds ls (k + 1) (bs @ arr_data a) (nb @ input_bits n a)"
    "nullfree (Some s') \<longleftrightarrow> nullfree st \<and> arr_nullbitmap a = None"
    using transfn_ok [OF Cons.prems(1) a _ _ _ t, of newcxt junk cxt] sz by blast
  have "agg_rows get_elt newcxt ty cxt (r # rows) st = agg_rows get_elt newcxt ty cxt rows (Some s')"
    using s'(1) by (simp add: agg_rows_def r)
  moreover have "int (length (bs @ arr_data a) + length (rows_data rows)) < agg_limit"
    "int (length (nb @ input_bits n a) + length rows * n) < agg_limit" "int (k + 1 + length rows) < agg_limit"
    using Cons.prems(3-5) r by simp_all
  ultimately show ?case
    using Cons.IH [OF s'(2)] Cons.prems(2) s'(3) r by auto
qed

subsection \<open>The final function\<close>

lemma ArrayGetNItems_stack:
  assumes "0 < k" "0 < r" "0 < c" "k * r * c \<le> MaxArraySize"
  shows "ArrayGetNItems [k, r, c] = Inr (k * r * c)"
proof -
  have p: "0 < k * r" "0 < k * r * c" using assms by simp_all
  have "k * r * 1 \<le> k * r * c" using assms p by (intro mult_left_mono) simp_all
  moreover have "k * 1 \<le> k * r" using assms by (intro mult_left_mono) simp_all
  ultimately have "k \<le> MaxArraySize" "k * r \<le> MaxArraySize" using assms(4) by simp_all
  then have "wrap32 k = k" "wrap32 (k * r) = k * r" "wrap32 (k * r * c) = k * r * c"
    using assms p by (simp_all add: wrap32_in in_int_def order_trans [of INT_MIN 0] less_imp_le)
  then show ?thesis using assms p by (simp add: ArrayGetNItems_def)
qed

text \<open>The bitmap built from a list of null bits in zeroed memory.\<close>

definition bitmap_of :: "bool list \<Rightarrow> byte list" where
  "bitmap_of nb = put_bits (length nb) (replicate ((length nb + 7) div 8) 0) 0 (\<lambda>k. nb ! k)"

lemma nonnull_bits_nth: "nonnull_bits bm n = nb \<Longrightarrow> k < n \<Longrightarrow> nonnull bm k = nb ! k"
  by (auto simp: nonnull_bits_def)

lemma put_bits_cong: "(\<And>k. k < n \<Longrightarrow> b k = b' k) \<Longrightarrow> put_bits n bm i b = put_bits n bm i b'"
proof (induction n bm i b arbitrary: b' rule: put_bits.induct)
  case (2 n bm i b)
  then have "b 0 = b' 0" "\<And>k. k < n \<Longrightarrow> b (Suc k) = b' (Suc k)" by simp_all
  with 2(1) [of "\<lambda>k. b' (Suc k)"] show ?case by simp
qed simp

lemma nonnull_bitmap_of: "k < length nb \<Longrightarrow> nonnull (bitmap_of nb) k = nb ! k"
proof -
  assume k: "k < length nb"
  have "length nb \<le> 8 * ((length nb + 7) div 8)" by presburger
  then show ?thesis using k by (simp add: bitmap_of_def nonnull_put_bits)
qed

lemma final_bitmap:
  assumes "nulls_rep s nb" "ab_nullbitmap s = Some bm"
  shows "array_bitmap_copy (replicate (nat ((nitems s + 7) div 8)) 0) 0 (Some bm) 0 (nitems s) = Inr (bitmap_of nb)"
proof -
  note c = nulls_rep_cap [OF assms]
  have n: "nitems s = int (length nb)" using assms(1) by (simp add: nulls_rep_def)
  have sz: "nat ((nitems s + 7) div 8) = (length nb + 7) div 8" unfolding n by (simp add: nat_div_distrib nat_add_distrib)
  have "length nb \<le> 8 * ((length nb + 7) div 8)" "length nb \<le> 8 * length bm" using c(2,3) by presburger+
  then have "array_bitmap_copy (replicate ((length nb + 7) div 8) 0) (int 0) (Some bm) (int 0) (int (length nb)) =
      Inr (put_bits (length nb) (replicate ((length nb + 7) div 8) 0) 0 (nonnull bm))"
    using array_bitmap_copy_ok [of 0 "length nb" "replicate ((length nb + 7) div 8) 0" "Some bm" 0]
    by (simp add: source_bit_def)
  also have "put_bits (length nb) (replicate ((length nb + 7) div 8) 0) 0 (nonnull bm) = bitmap_of nb"
    unfolding bitmap_of_def by (rule put_bits_cong) (rule nonnull_bits_nth [OF c(1)])
  finally show ?thesis using sz by (simp add: n)
qed

text \<open>The stack of \<open>k\<close> matrices of \<open>r\<close> rows and \<open>c\<close> columns.\<close>

definition stacked :: "oid \<Rightarrow> bool \<Rightarrow> nat \<Rightarrow> int \<Rightarrow> int \<Rightarrow> byte list \<Rightarrow> bool list \<Rightarrow> byte ArrayType" where
  "stacked elt no_nulls k r c bs nb =
     \<lparr>arr_dims = [int k * r, c], arr_lbound = [1, 1], arr_elemtype = elt,
      arr_nullbitmap = (if no_nulls then None else Some (bitmap_of nb)), arr_data = bs\<rparr>"

lemma dims_rep_matrix:
  assumes "dims_rep s [r, c] ls k"
  obtains rest where "ab_dims s = int k # r # c # rest" "ndims s = 3"
proof -
  have "take 3 (ab_dims s) = [int k, r, c]" "ndims s = 3" using assms by (simp_all add: dims_rep_def numeral_3_eq_3)
  then show ?thesis using that by (metis append_Cons append_Nil append_take_drop_id)
qed

lemma cint_rows:
  assumes "0 < k" "0 < r" "0 < c" "int k * r * c \<le> MaxArraySize"
  shows "cint (int k * r) = Inr (int k * r)"
proof -
  have "0 < int k * r" "int k * r * 1 \<le> int k * r * c" using assms by (auto intro: mult_left_mono)
  then show ?thesis using assms(4) by (simp add: cint_def in_int_def)
qed

lemma finalfn_ok:
  assumes st: "agg_of get_elt ty (Some s) [r, c] ls k bs nb"
    and pos: "0 < k" "0 < r" "0 < c" "int k * r * c \<le> MaxArraySize" and sz: "int (length bs) < agg_limit"
    "int (length nb) < agg_limit"
  shows "array_2d_agg_finalfn (Some s) = Inr (Some (stacked (get_elt ty) (nullfree (Some s)) k r c bs nb))"
proof -
  have rep: "dims_rep s [r, c] ls k" "data_rep s bs" "nulls_rep s nb" and et: "element_type s = get_elt ty"
    using st by (simp_all add: agg_of_def agg_rep_def)
  obtain rest where dims: "ab_dims s = int k # r # c # rest" and nd: "ndims s = 3" using dims_rep_matrix [OF rep(1)] .
  have d: "nbytes s = int (length bs)" "length bs \<le> length (ab_data s)" "take (length bs) (ab_data s) = map Some bs"
    using rep(2) by (simp_all add: data_rep_def)
  have g: "ArrayGetNItems [int k, r, c] = Inr (int k * r * c)" using ArrayGetNItems_stack pos by simp
  note kr = cint_rows [OF pos]
  have ov: "ARR_OVERHEAD_NONULLS 2 = 32" by (simp add: ARR_OVERHEAD_NONULLS_def MAXALIGN_def)
  have ovn: "0 \<le> ARR_OVERHEAD_WITHNULLS 2 (nitems s)" "ARR_OVERHEAD_WITHNULLS 2 (nitems s) < agg_limit"
    using rep(3) sz(2) by (simp_all add: ARR_OVERHEAD_WITHNULLS_def MAXALIGN_def nulls_rep_def)
  show ?thesis
  proof (cases "ab_nullbitmap s")
    case None
    then show ?thesis using dims nd d g kr ov et sz
      by (simp add: array_2d_agg_finalfn_def makeAgg2dResultArr_def stacked_def nullfree_def cint_def [of "int (length bs) + 32"] in_int_def)
  next
    case (Some bm)
    have ct: "cint (int (length bs) + ARR_OVERHEAD_WITHNULLS 2 (nitems s)) = Inr (int (length bs) + ARR_OVERHEAD_WITHNULLS 2 (nitems s))"
      using ovn sz by (simp add: cint_def in_int_def)
    show ?thesis using Some dims nd d g kr et sz ct ovn final_bitmap [OF rep(3) Some]
      by (simp add: array_2d_agg_finalfn_def makeAgg2dResultArr_def stacked_def nullfree_def)
  qed
qed

lemma finalfn_overrun:
  assumes dims: "dims_rep s [r, c] ls k" and data: "data_rep s bs" and n: "nitems s = int m"
    and bm: "ab_nullbitmap s = Some bm" "m > 8 * length bm"
    and pos: "0 < k" "0 < r" "0 < c" "int k * r * c \<le> MaxArraySize"
    and sz: "int (length bs) < agg_limit" "int m < agg_limit"
  shows "array_2d_agg_finalfn (Some s) = Inl (Undefined Out_of_bounds)"
proof -
  obtain rest where d: "ab_dims s = int k # r # c # rest" and nd: "ndims s = 3" using dims_rep_matrix [OF dims] .
  have len: "m \<le> 8 * length (replicate (nat ((int m + 7) div 8)) (0::byte))" by (simp add: nat_div_distrib nat_add_distrib)
  have ct: "cint (int (length bs) + ARR_OVERHEAD_WITHNULLS 2 (int m)) = Inr (int (length bs) + ARR_OVERHEAD_WITHNULLS 2 (int m))"
    and ov: "0 \<le> ARR_OVERHEAD_WITHNULLS 2 (int m)" "ARR_OVERHEAD_WITHNULLS 2 (int m) < agg_limit"
    using sz by (auto simp: cint_def in_int_def ARR_OVERHEAD_WITHNULLS_def MAXALIGN_def)
  show ?thesis
    using d nd n bm(1) ct ov sz data ArrayGetNItems_stack [of "int k" r c] cint_rows [OF pos] pos
      array_bitmap_copy_overrun [OF len bm(2)]
    by (simp add: array_2d_agg_finalfn_def makeAgg2dResultArr_def data_rep_def)
qed

subsection \<open>Sending and receiving a state\<close>

lemma length_int_bytes [simp]: "length (int_bytes xs) = 4 * length xs"
  by (induction xs) (simp_all add: int_bytes_def)

lemma int_bytes_nth:
  "i < length xs \<Longrightarrow> take 4 (drop (4 * i) (int_bytes xs)) = word_bytes (word_of_int (xs ! i))"
proof (induction xs arbitrary: i)
  case (Cons x xs)
  then show ?case by (cases i) (simp_all add: int_bytes_def)
qed simp

lemma bytes_ints_int_bytes:
  assumes "length xs = MAXDIM" "list_all in_int xs"
  shows "bytes_ints (int_bytes xs) = xs"
  using assms by (intro nth_equalityI) (simp_all add: bytes_ints_def int_bytes_nth list_all_length)

text \<open>What is sent: the fields in order, integers with the highest byte first.\<close>

abbreviation net_int :: "int \<Rightarrow> byte list" where
  "net_int i \<equiv> word_bytes (pg_bswap32 (word_of_int i))"

definition state_message :: "ArrayBuildStateArr \<Rightarrow> byte list \<Rightarrow> byte list" where
  "state_message s bs =
     net_int (int (element_type s)) @ net_int (int (array_type s)) @ net_int (nbytes s) @ bs @
     net_int (abytes s) @ net_int (aitems s) @ (case ab_nullbitmap s of None \<Rightarrow> [] | Some bm \<Rightarrow> bm) @
     net_int (nitems s) @ net_int (ndims s) @ int_bytes (ab_dims s) @ int_bytes (ab_lbs s)"

text \<open>A state as it arrives: the data may have less memory behind them than \<open>abytes\<close> says.\<close>

definition data_sent :: "ArrayBuildStateArr \<Rightarrow> byte list \<Rightarrow> bool" where
  "data_sent s bs \<longleftrightarrow> nbytes s = int (length bs) \<and> nbytes s \<le> abytes s \<and> abytes s \<le> MaxAllocSize \<and>
     length bs \<le> length (ab_data s) \<and> take (length bs) (ab_data s) = map Some bs"

lemma data_rep_sent: "data_rep s bs \<Longrightarrow> data_sent s bs"
  by (simp add: data_rep_def data_sent_def)

lemma nulls_rep_send:
  assumes "nulls_rep s nb"
  shows "ab_nullbitmap s = None \<and> aitems s = 0 \<or>
    (\<exists>bm. ab_nullbitmap s = Some bm \<and> 0 < aitems s \<and> aitems s \<le> 1073741824 \<and> int (length bm) = (aitems s + 7) div 8)"
  using assms by (cases "ab_nullbitmap s") (simp_all add: nulls_rep_def)

lemma send_bytes:
  assumes "si_holds b m" "n = int (length xs)" "int (length m) + n < MaxAllocSize"
    and "\<And>b'. si_holds b' (m @ xs) \<Longrightarrow> k b' = r"
  shows "bindR (pq_sendbytes b xs n) k = r"
  using sendbytes.send_then [of b m "(xs, n)" k r] assms by simp

lemma send_int:
  assumes "si_holds b m" "int (length m) + 4 < MaxAllocSize" "\<And>b'. si_holds b' (m @ net_int i) \<Longrightarrow> k b' = r"
  shows "bindR (pq_sendint32 b i) k = r"
  using sendint.send_then [of b m i k r] assms by simp

lemma send_bitmap:
  assumes h: "si_holds b m" and nb: "nulls_rep s nb" and sz: "int (length m) < agg_limit + 100"
    and k: "\<And>b' bm. si_holds b' (m @ bm) \<Longrightarrow> bm = (case ab_nullbitmap s of None \<Rightarrow> [] | Some bm \<Rightarrow> bm) \<Longrightarrow> k b' = r"
  shows "bindR (case ab_nullbitmap s of None \<Rightarrow> Inr b
      | Some bm \<Rightarrow> bindR (cint (aitems s + 7)) (\<lambda>k. bindR (cdiv k 8) (\<lambda>sz. pq_sendbytes b bm sz))) k = r"
proof (cases "ab_nullbitmap s")
  case None
  then show ?thesis using h k [of b "[]"] by simp
next
  case (Some bm)
  have a: "0 < aitems s" "aitems s \<le> 1073741824" "int (length bm) = (aitems s + 7) div 8"
    using nulls_rep_send [OF nb] Some by auto
  have "bindR (pq_sendbytes b bm ((aitems s + 7) div 8)) k = r"
  proof (rule send_bytes [OF h])
    show "int (length m) + (aitems s + 7) div 8 < MaxAllocSize" using a sz by presburger
  qed (use a Some k in simp_all)
  then show ?thesis using Some a by (simp add: cint_def in_int_def c_simps bindR_assoc)
qed

lemma message_size:
  assumes "nulls_rep s nb" "int (length bs) < agg_limit"
  shows "int (length bs) + int (length (case ab_nullbitmap s of None \<Rightarrow> [] | Some bm \<Rightarrow> bm)) + 100 < MaxAllocSize"
  using nulls_rep_send [OF assms(1)] assms(2) by auto

lemma serialize_ok:
  assumes d: "data_sent s bs" and nb: "nulls_rep s nb" and dim: "length (ab_dims s) = MAXDIM" "length (ab_lbs s) = MAXDIM"
    and sz: "int (length bs) < agg_limit"
  shows "array_agg_array_serialize s = Inr (state_message s bs)"
proof -
  obtain b0 where b0: "pq_begintypsend = Inr b0" "si_holds b0 [0, 0, 0, 0]" using begintypsend_holds by blast
  have data: "sealed (take (nat (nbytes s)) (ab_data s)) = Inr bs" "nbytes s = int (length bs)"
    using d by (simp_all add: data_sent_def)
  note ms = message_size [OF nb sz]
  show ?thesis
    unfolding array_agg_array_serialize_def b0(1) bindR_simps
    apply (rule send_int [OF b0(2)], simp)
    apply (erule send_int, simp)
    apply (erule send_int, simp)
    apply (subst data(1), unfold bindR_simps)
    apply (erule send_bytes, rule data(2), use sz data(2) in simp)
    apply (erule send_int, use sz in simp)
    apply (erule send_int, use sz in simp)
    apply (erule send_bitmap [OF _ nb], use sz in simp)
    apply (erule send_int, use ms in simp)
    apply (erule send_int, use ms in simp)
    apply (erule send_bytes, use dim in simp, use ms in simp)
    apply (erule send_bytes, use dim in simp, use ms dim in simp)
    apply (rule endtypsend_holds [of _ "[0, 0, 0, 0]"])
     apply (simp_all add: state_message_def)
    done
qed

lemma receive_bitmap:
  assumes r: "si_rest b ((case ab_nullbitmap s of None \<Rightarrow> [] | Some bm \<Rightarrow> bm) @ rest)" and nb: "nulls_rep s nb"
    and k: "\<And>b'. si_rest b' rest \<Longrightarrow> k (ab_nullbitmap s, b') = r'"
  shows "bindR (if aitems s > 0 then
      bindR (cint (aitems s + 7)) (\<lambda>k. bindR (cdiv k 8) (\<lambda>sz.
      bindR (palloc 1 sz :: byte buf result) (\<lambda>_.
      bindR (pq_getmsgbytes b sz) (\<lambda>(temp, buf). Inr (Some temp, buf)))))
    else Inr (None, b)) k = r'"
proof (cases "ab_nullbitmap s")
  case None
  then show ?thesis using nulls_rep_send [OF nb] r k [of b] by simp
next
  case (Some bm)
  have a: "0 < aitems s" "aitems s \<le> 1073741824" "int (length bm) = (aitems s + 7) div 8"
    using nulls_rep_send [OF nb] Some by auto
  have "bindR (pq_getmsgbytes b ((aitems s + 7) div 8)) (\<lambda>(temp, buf). k (Some temp, buf)) = r'"
    by (rule getmsgbytes_then [of b bm rest]) (use r k Some a in simp_all)
  moreover have "palloc 1 ((aitems s + 7) div 8) = Inr (replicate (length bm) None :: byte buf)"
    using a by (auto simp: palloc_def)
  ultimately show ?thesis using a by (simp add: cint_def in_int_def c_simps bindR_assoc split_def)
qed

lemma deserialize_message:
  assumes d: "data_sent s bs" and nb: "nulls_rep s nb" and dim: "dims_rep s ds ls k" and et: "element_type s \<noteq> 0"
    and sz: "int (length bs) < agg_limit" "int (length nb) < agg_limit" "element_type s < 4294967296" "array_type s < 4294967296"
  shows "\<exists>d'. array_agg_array_deserialize get_elt newcxt cxt (state_message s bs) =
      Inr (s\<lparr>mcontext := cxt, private_cxt := False, ab_data := d'\<rparr>) \<and>
    data_sent (s\<lparr>mcontext := cxt, private_cxt := False, ab_data := d'\<rparr>) bs"
proof -
  obtain cap where cap: "double_until (int (length bs)) 1024 = Inr cap" "int (length bs) \<le> cap" "cap \<le> MaxAllocSize"
    using double_until_ok [of 1024 "int (length bs)"] sz by auto
  define d' where "d' = blit (replicate (nat cap) None) 0 bs"
  have cp: "memcpy (replicate (nat cap) None) 0 bs 0 (int (length bs)) = Inr d'"
    using memcpy_ok [of 0 "length bs" "replicate (nat cap) None" 0 bs] cap by (simp add: d'_def)
  have al: "palloc 1 cap = Inr (replicate (nat cap) None)" using cap by (simp add: palloc_def)
  have rng: "in_int (nbytes s)" "in_int (abytes s)" "in_int (aitems s)" "in_int (nitems s)" "in_int (ndims s)"
    using d nb dim sz nulls_rep_send [OF nb] by (auto simp: data_sent_def nulls_rep_def dims_rep_def in_int_def)
  have dims: "bytes_ints (int_bytes (ab_dims s)) = ab_dims s" "bytes_ints (int_bytes (ab_lbs s)) = ab_lbs s"
    "length (ab_dims s) = MAXDIM" "length (ab_lbs s) = MAXDIM"
    using dim by (simp_all add: dims_rep_def bytes_ints_int_bytes)
  have n: "nbytes s = int (length bs)" using d by (simp add: data_sent_def)
  have sn: "sint (word_of_int (int (length bs)) :: 32 word) = int (length bs)" by (rule sint_word_of_int32) (use rng(1) n in simp)
  have "array_agg_array_deserialize get_elt newcxt cxt (state_message s bs) =
      Inr (s\<lparr>mcontext := cxt, private_cxt := False, ab_data := d'\<rparr>)"
    unfolding array_agg_array_deserialize_def state_message_def
    apply (rule getmsgint_then [OF init_rest], unfold prod.case)
    apply (erule getmsgint_then, unfold prod.case)
    apply (erule getmsgint_then, unfold prod.case Let_def n sn)
    apply (subst initArrayResultArr_def)
    apply (simp only: et sz(3,4) unat_word_of_nat32 if_False bindR_simps cap(1) al)
    apply (erule getmsgbytes_then, rule refl, unfold prod.case cp bindR_simps)
    apply (erule getmsgint_then, unfold prod.case)
    apply (erule getmsgint_then, unfold prod.case sint_word_of_int32 [OF rng(3)])
    apply (erule receive_bitmap [OF _ nb], unfold prod.case)
    apply (erule getmsgint_then, unfold prod.case)
    apply (erule getmsgint_then, unfold prod.case)
    apply (erule getmsgbytes_then, simp add: dims, unfold prod.case)
    apply (rule getmsgbytes_then [where bs = "[]"], simp, simp add: dims, unfold prod.case)
    apply (simp add: getmsgend_rest dims rng n [symmetric])
    done
  moreover have "data_sent (s\<lparr>mcontext := cxt, private_cxt := False, ab_data := d'\<rparr>) bs"
    using d cap by (simp add: data_sent_def d'_def blit_def)
  ultimately show ?thesis by blast
qed

subsection \<open>The combine function\<close>

lemma source_bits_Some: "map (source_bit (Some bm)) [0 ..< n] = nonnull_bits bm n"
  by (simp add: source_bit_def nonnull_bits_def)

lemma combine_room_ok:
  assumes r1: "nulls_rep s1 nb1" and a2: "0 < aitems s2" "aitems s2 \<le> agg_limit" "int m \<le> aitems s2"
    and n: "int (length nb1 + m) < agg_limit"
  shows "\<exists>a bm. combine_room junk s1 s2 (int (length nb1 + m)) = Inr (a, bm) \<and>
    int (length nb1 + m) \<le> a \<and> a \<le> 1073741824 \<and> 0 < a \<and> int (length bm) = (a + 7) div 8 \<and>
    nonnull_bits bm (length nb1) = nb1"
proof (cases "ab_nullbitmap s1")
  case None
  let ?want = "int (length nb1 + m) + 1"
  define a where "a = pg_nextpower2_32 (max 256 ?want)"
  have nb: "nb1 = replicate (length nb1) True" "nitems s1 = int (length nb1)" using r1 None by (simp_all add: nulls_rep_def)
  have a: "int (length nb1 + m) < a" "0 < a" "a \<le> 1073741824" "wrap32 a = a"
    using pg_nextpower2_32_bounds [of "max 256 ?want"] n by (auto simp: a_def wrap_nextpower2 max_def)
  obtain bm0 where bm0: "bindR (palloc_bitmap junk a) (\<lambda>bm. array_bitmap_copy bm 0 None 0 (int (length nb1))) = Inr bm0"
    "int (length bm0) = (a + 7) div 8" "nonnull_bits bm0 (length nb1) = nb1"
    using bitmap_start [of "length nb1" a junk] nb a by auto
  have want: "cint ?want = Inr ?want" using n by (simp add: cint_def in_int_def)
  show ?thesis
    using None bm0 a by (intro exI [of _ a] exI [of _ bm0])
      (auto simp: combine_room_def nb(2) want a_def [symmetric] Let_def bindR_Inr_iff simp del: of_nat_add)
next
  case (Some bm1)
  note c1 = nulls_rep_cap [OF r1 Some]
  show ?thesis
  proof (cases "int (length nb1 + m) > aitems s1")
    case True
    define a where "a = pg_nextpower2_32 (aitems s1 + aitems s2)"
    have a: "aitems s1 \<le> a" "int (length nb1 + m) \<le> a" "a \<le> 1073741824" "wrap32 a = a" "0 < a"
      using pg_nextpower2_32_bounds [of "aitems s1 + aitems s2"] c1 a2 n True by (auto simp: a_def wrap_nextpower2)
    obtain bm0 where "repalloc_bitmap junk bm1 a = Inr bm0" "int (length bm0) = (a + 7) div 8"
      "nonnull_bits bm0 (length nb1) = nb1"
      using bitmap_grow [OF r1 Some a(1,3), of junk] by blast
    then show ?thesis
      using a True Some c1 a2 n by (simp add: combine_room_def cint_def in_int_def Let_def a_def [symmetric])
  qed (use Some c1 in \<open>simp add: combine_room_def\<close>)
qed

lemma combine_bitmap_ok:
  assumes r1: "nulls_rep s1 nb1" and r2: "nulls_rep s2 nb2" and n: "int (length nb1 + length nb2) < agg_limit"
    and a2: "aitems s2 \<le> agg_limit" and ok: "ab_nullbitmap s1 \<noteq> None \<Longrightarrow> ab_nullbitmap s2 \<noteq> None"
  shows "\<exists>a nulls. combine_bitmap junk s1 s2 = Inr (s1\<lparr>aitems := a, ab_nullbitmap := nulls\<rparr>) \<and>
    (nulls = None \<longleftrightarrow> ab_nullbitmap s2 = None) \<and>
    nulls_rep (s1\<lparr>aitems := a, ab_nullbitmap := nulls, nitems := int (length nb1 + length nb2)\<rparr>) (nb1 @ nb2)"
proof (cases "ab_nullbitmap s2")
  case None
  then have "ab_nullbitmap s1 = None" using ok by (cases "ab_nullbitmap s1") auto
  with None show ?thesis
    using r1 r2 by (intro exI [of _ "aitems s1"] exI [of _ None])
      (auto simp: combine_bitmap_def nulls_rep_def replicate_add)
next
  case (Some bm2)
  note c2 = nulls_rep_cap [OF r2 Some]
  have ni: "nitems s1 = int (length nb1)" "nitems s2 = int (length nb2)" using r1 r2 by (simp_all add: nulls_rep_def)
  have src: "length nb2 \<le> 8 * length bm" if "Some bm2 = Some bm" for bm using c2(2,3) that by simp
  obtain a bm0 where room: "combine_room junk s1 s2 (int (length nb1 + length nb2)) = Inr (a, bm0)"
    and a: "int (length nb1 + length nb2) \<le> a" "a \<le> 1073741824" "0 < a"
    and bm0: "int (length bm0) = (a + 7) div 8" "nonnull_bits bm0 (length nb1) = nb1"
    using combine_room_ok [OF r1 c2(4) a2 c2(3) n, of junk] by blast
  obtain bm where bm: "array_bitmap_copy bm0 (int (length nb1)) (Some bm2) 0 (int (length nb2)) = Inr bm" "length bm = length bm0"
    "nonnull_bits bm (length nb1 + length nb2) = nb1 @ map (source_bit (Some bm2)) [0 ..< length nb2]"
    using bitmap_extend [OF bm0(2,1) a(1) src] by blast
  have "cint (int (length nb1) + int (length nb2)) = Inr (int (length nb1 + length nb2))" using n by (simp add: cint_def in_int_def)
  then have "combine_bitmap junk s1 s2 = Inr (s1\<lparr>aitems := a, ab_nullbitmap := Some bm\<rparr>)"
    using room bm(1) by (simp add: combine_bitmap_def Some ni del: of_nat_add)
  then show ?thesis using Some a bm bm0 c2(1)
    by (intro exI [of _ a] exI [of _ "Some bm"]) (simp add: nulls_rep_def source_bits_Some)
qed

definition agg_sent ::
  "(oid \<Rightarrow> oid) \<Rightarrow> oid \<Rightarrow> ArrayBuildStateArr \<Rightarrow> int list \<Rightarrow> int list \<Rightarrow> nat \<Rightarrow> byte list \<Rightarrow> bool list \<Rightarrow> bool" where
  "agg_sent get_elt ty s ds ls k bs nb \<longleftrightarrow> dims_rep s ds ls k \<and> data_sent s bs \<and> nulls_rep s nb \<and>
     element_type s = get_elt ty \<and> array_type s = ty"

lemma agg_of_sent: "agg_of get_elt ty (Some s) ds ls k bs nb \<Longrightarrow> agg_sent get_elt ty s ds ls k bs nb"
  by (simp add: agg_of_def agg_rep_def agg_sent_def data_rep_sent)

lemma data_sentD:
  assumes "data_sent s bs"
  shows "nbytes s = int (length bs)" "sealed (take (nat (nbytes s)) (ab_data s)) = Inr bs"
    "nbytes s \<le> int (length (ab_data s))" "nbytes s \<le> abytes s" "abytes s \<le> MaxAllocSize"
  using assms by (simp_all add: data_sent_def)

lemma combine_copy_ok:
  assumes s2: "agg_sent get_elt ty s2 ds ls k bs nb" and t: "get_elt ty \<noteq> 0"
  shows "\<exists>s. combine_copy get_elt newcxt junk cxt s2 = Inr s \<and> agg_of get_elt ty (Some s) ds ls k bs nb \<and>
    ab_nullbitmap s = ab_nullbitmap s2"
proof -
  have r: "dims_rep s2 ds ls k" "data_sent s2 bs" "nulls_rep s2 nb" "element_type s2 = get_elt ty" "array_type s2 = ty"
    using s2 by (simp_all add: agg_sent_def)
  note d = data_sentD [OF r(2)]
  define e where "e = blit (replicate (nat (abytes s2)) None) 0 bs"
  have al: "palloc 1 (abytes s2) = Inr (replicate (nat (abytes s2)) (None :: byte option))" using d by (simp add: palloc_def)
  have cp: "memcpy (replicate (nat (abytes s2)) None) 0 bs 0 (nbytes s2) = Inr e"
    using memcpy_ok [of 0 "length bs" "replicate (nat (abytes s2)) None" 0 bs] d by (simp add: e_def)
  have nulls: "(case ab_nullbitmap s2 of None \<Rightarrow> Inr None
      | Some bm2 \<Rightarrow> bindR (palloc_bitmap junk (aitems s2)) (\<lambda>bm.
          require (length bm \<le> length bm2) (Undefined Out_of_bounds) (Inr (Some (take (length bm) bm2))))) = Inr (ab_nullbitmap s2)"
  proof (cases "ab_nullbitmap s2")
    case (Some bm2)
    then show ?thesis using nulls_rep_cap [OF r(3) Some] by (simp add: palloc_bitmap_ok flip: nulls_rep_cap(2) [OF r(3) Some])
  qed simp
  let ?s = "\<lparr>mcontext = cxt, ab_data = e, ab_nullbitmap = ab_nullbitmap s2, abytes = abytes s2, nbytes = nbytes s2,
    aitems = aitems s2, nitems = nitems s2, ndims = ndims s2, ab_dims = ab_dims s2, ab_lbs = ab_lbs s2,
    array_type = ty, element_type = get_elt ty, private_cxt = False\<rparr>"
  have "combine_copy get_elt newcxt junk cxt s2 = Inr ?s"
    using t r(4,5) al cp nulls d by (simp add: combine_copy_def initArrayResultArr_def)
  moreover have "agg_of get_elt ty (Some ?s) ds ls k bs nb"
    using r d by (cases "ab_nullbitmap s2")
      (auto simp: agg_of_def agg_rep_def dims_rep_def data_rep_def nulls_rep_def e_def blit_def)
  ultimately show ?thesis by simp
qed

lemma combine_room_data:
  assumes d: "data_rep s bs" and sz: "int (length bs + m) < agg_limit"
  shows "\<exists>ab e. (if abytes s < int (length bs + m) then
      let n = wrap32 (pg_nextpower2_32 (int (length bs + m))) in
      bindR (repalloc (ab_data s) 1 n) (\<lambda>d. Inr (s\<lparr>abytes := n, ab_data := d\<rparr>))
    else Inr s) = Inr (s\<lparr>abytes := ab, ab_data := e\<rparr>) \<and>
    data_rep (s\<lparr>abytes := ab, ab_data := e\<rparr>) bs \<and> length bs + m \<le> length e"
proof (cases "abytes s < int (length bs + m)")
  case True
  define n where "n = pg_nextpower2_32 (int (length bs + m))"
  have pos: "0 < int (length bs + m)" using True d by (simp add: data_rep_def)
  have n: "int (length bs + m) \<le> n" "n \<le> MaxAllocSize" "wrap32 n = n"
    using pg_nextpower2_32_bounds [of "int (length bs + m)"] wrap_nextpower2 [of "int (length bs + m)"] sz pos
    by (simp_all add: n_def)
  obtain e where "repalloc (ab_data s) 1 n = Inr e" "int (length e) = n" "data_rep (s\<lparr>abytes := n, ab_data := e\<rparr>) bs"
    using data_rep_grow [OF d, of n] n True by auto
  then show ?thesis using True n unfolding n_def [symmetric] Let_def
    by (intro exI [of _ n] exI [of _ e]) auto
next
  case False
  have "s\<lparr>abytes := abytes s, ab_data := ab_data s\<rparr> = s" by simp
  moreover have "length bs + m \<le> length (ab_data s)" using False d by (simp add: data_rep_def)
  ultimately show ?thesis using False d by (intro exI [of _ "abytes s"] exI [of _ "ab_data s"]) simp
qed

text \<open>
  \<open>combine_append\<close> appends data and counts; \<open>Q\<close> is what is known about the bitmap it leaves behind.
\<close>

lemma combine_append_state:
  assumes r1: "dims_rep s1 ds ls k1" "data_rep s1 bs1" "nitems s1 = int n1"
    and r2: "dims_rep s2 ds ls k2" "data_sent s2 bs2" "nitems s2 = int n2"
    and sz: "int (length bs1 + length bs2) < agg_limit" "int (n1 + n2) < agg_limit" "int (k1 + k2) < agg_limit"
    and bits: "\<And>ab e. \<exists>a nulls. combine_bitmap junk (s1\<lparr>abytes := ab, ab_data := e\<rparr>) s2 =
      Inr (s1\<lparr>abytes := ab, ab_data := e, aitems := a, ab_nullbitmap := nulls\<rparr>) \<and> Q a nulls"
  shows "\<exists>s. combine_append junk s1 s2 = Inr s \<and> dims_rep s ds ls (k1 + k2) \<and> data_rep s (bs1 @ bs2) \<and>
    nitems s = int (n1 + n2) \<and> Q (aitems s) (ab_nullbitmap s) \<and> element_type s = element_type s1 \<and> array_type s = array_type s1"
proof -
  let ?n = "int (length bs1 + length bs2)"
  obtain ab e where e: "(if abytes s1 < ?n then let n = wrap32 (pg_nextpower2_32 ?n) in
      bindR (repalloc (ab_data s1) 1 n) (\<lambda>d. Inr (s1\<lparr>abytes := n, ab_data := d\<rparr>)) else Inr s1) = Inr (s1\<lparr>abytes := ab, ab_data := e\<rparr>)"
    "data_rep (s1\<lparr>abytes := ab, ab_data := e\<rparr>) bs1" "length bs1 + length bs2 \<le> length e"
    using combine_room_data [OF r1(2) sz(1)] by blast
  let ?s = "s1\<lparr>abytes := ab, ab_data := e\<rparr>"
  obtain a nulls where b: "combine_bitmap junk ?s s2 = Inr (?s\<lparr>aitems := a, ab_nullbitmap := nulls\<rparr>)" "Q a nulls"
    using bits by blast
  note cp = data_rep_append [OF e(2), of bs2]
  let ?s' = "?s\<lparr>aitems := a, ab_nullbitmap := nulls, ab_data := blit e (length bs1) bs2, nbytes := ?n,
    nitems := int (n1 + n2), ab_dims := (ab_dims s1)[0 := int (k1 + k2)]\<rparr>"
  have n: "nbytes s1 = int (length bs1)" "ab_dims s1 ! 0 = int k1" "ab_dims s2 ! 0 = int k2"
    "ndims s1 = int (length ds) + 1" "ndims s2 = int (length ds) + 1"
    using r1 r2 by (simp_all add: data_rep_def dims_repD)
  have c: "cint (int (length bs1) + int (length bs2)) = Inr ?n" "cint (int k1 + int k2) = Inr (int (k1 + k2))"
    "cint (int n1 + int n2) = Inr (int (n1 + n2))"
    using sz by (simp_all add: cint_def in_int_def)
  have nd: "nat (int (length ds) + 1) = Suc (length ds)" by simp
  have "combine_append junk s1 s2 = Inr ?s'"
    unfolding combine_append_def
    using e(1,3) b(1) cp(1) n c r1(3) r2(3) data_sentD(1-3) [OF r2(2)] dims_repD(1,2) [OF r1(1)] dims_repD(1,2) [OF r2(1)]
    by (simp add: nd Let_def del: of_nat_add)
  moreover have "dims_rep (s1\<lparr>ab_dims := (ab_dims s1)[0 := int (k1 + k2)]\<rparr>) ds ls (k1 + k2)"
    by (rule dims_rep_set [OF r1(1)]) (use sz(3) in simp)
  then have "dims_rep ?s' ds ls (k1 + k2)" by (simp add: dims_rep_def)
  moreover have "data_rep ?s' (bs1 @ bs2)" using cp(2) e(3) by (simp add: data_rep_def)
  ultimately show ?thesis using b(2) by (intro exI [of _ ?s']) simp
qed

lemma combine_append_ok:
  assumes s1: "agg_of get_elt ty (Some s1) ds ls k1 bs1 nb1" and s2: "agg_sent get_elt ty s2 ds ls k2 bs2 nb2"
    and sz: "int (length bs1 + length bs2) < agg_limit" "int (length nb1 + length nb2) < agg_limit" "int (k1 + k2) < agg_limit"
    and a2: "aitems s2 \<le> agg_limit"
    and ok: "ab_nullbitmap s1 \<noteq> None \<Longrightarrow> ab_nullbitmap s2 \<noteq> None"
  shows "\<exists>s. combine_append junk s1 s2 = Inr s \<and> agg_of get_elt ty (Some s) ds ls (k1 + k2) (bs1 @ bs2) (nb1 @ nb2) \<and>
    (ab_nullbitmap s = None \<longleftrightarrow> ab_nullbitmap s2 = None)"
proof -
  have r1: "dims_rep s1 ds ls k1" "data_rep s1 bs1" "nulls_rep s1 nb1" "element_type s1 = get_elt ty" "array_type s1 = ty"
    using s1 by (simp_all add: agg_of_def agg_rep_def)
  have r2: "dims_rep s2 ds ls k2" "data_sent s2 bs2" "nulls_rep s2 nb2" using s2 by (simp_all add: agg_sent_def)
  have ni: "nitems s1 = int (length nb1)" "nitems s2 = int (length nb2)" using r1(3) r2(3) by (simp_all add: nulls_rep_def)
  define Q where "Q a nulls \<longleftrightarrow> (nulls = None \<longleftrightarrow> ab_nullbitmap s2 = None) \<and>
    nulls_rep (s1\<lparr>aitems := a, ab_nullbitmap := nulls, nitems := int (length nb1 + length nb2)\<rparr>) (nb1 @ nb2)" for a nulls
  have bits: "\<exists>a nulls. combine_bitmap junk (s1\<lparr>abytes := ab, ab_data := e\<rparr>) s2 =
      Inr (s1\<lparr>abytes := ab, ab_data := e, aitems := a, ab_nullbitmap := nulls\<rparr>) \<and> Q a nulls" for ab e
    using combine_bitmap_ok [of "s1\<lparr>abytes := ab, ab_data := e\<rparr>" nb1 s2 nb2 junk] r1(3) r2(3) sz(2) a2 ok
    by (auto simp: Q_def nulls_rep_def split: option.splits)
  obtain s where s: "combine_append junk s1 s2 = Inr s" "dims_rep s ds ls (k1 + k2)" "data_rep s (bs1 @ bs2)"
    "nitems s = int (length nb1 + length nb2)" "Q (aitems s) (ab_nullbitmap s)"
    "element_type s = element_type s1" "array_type s = array_type s1"
    using combine_append_state [OF r1(1,2) ni(1) r2(1,2) ni(2) sz bits] by blast
  have "nulls_rep s (nb1 @ nb2)"
    using s(4,5) by (cases "ab_nullbitmap s") (simp_all add: Q_def nulls_rep_def)
  then show ?thesis using s r1(4,5) by (simp add: agg_of_def agg_rep_def Q_def)
qed

section \<open>Properties\<close>

text \<open>
  Parallel aggregation: every worker runs the transition function over its share of the rows, the
  state it ends with travels to the leader as a message, and the leader combines what arrives. A
  worker without rows has no state; the serialization function is strict and is not called for it.
\<close>

definition agg_transfer ::
  "(oid \<Rightarrow> oid) \<Rightarrow> nat \<Rightarrow> nat \<Rightarrow> ArrayBuildStateArr option \<Rightarrow> ArrayBuildStateArr option result" where
  "agg_transfer get_elt newcxt cxt w = (case w of
     None \<Rightarrow> Inr None
   | Some s \<Rightarrow> bindR (array_agg_array_serialize s) (\<lambda>msg.
               bindR (array_agg_array_deserialize get_elt newcxt cxt msg) (\<lambda>s. Inr (Some s))))"

definition agg_parallel ::
  "(oid \<Rightarrow> oid) \<Rightarrow> nat \<Rightarrow> oid \<Rightarrow> nat \<Rightarrow> nat \<Rightarrow> ((nat \<Rightarrow> byte) \<times> ((nat \<Rightarrow> byte) \<times> byte ArrayType) list) list
    \<Rightarrow> ArrayBuildStateArr option \<Rightarrow> ArrayBuildStateArr option result" where
  "agg_parallel get_elt newcxt ty wcxt lcxt parts st =
     foldR (\<lambda>(junk, rows) st.
       bindR (agg_rows get_elt newcxt ty wcxt rows None) (\<lambda>w.
       bindR (agg_transfer get_elt newcxt lcxt w) (\<lambda>w.
         array_2d_agg_combine get_elt newcxt junk (Some lcxt) st w))) parts st"

lemma agg_transfer_ok:
  assumes w: "agg_of get_elt ty (Some w) ds ls k bs nb"
    and sz: "int (length bs) < agg_limit" "int (length nb) < agg_limit"
    and t: "get_elt ty \<noteq> 0" "get_elt ty < 4294967296" "ty < 4294967296"
  shows "\<exists>s. agg_transfer get_elt newcxt cxt (Some w) = Inr (Some s) \<and> agg_sent get_elt ty s ds ls k bs nb \<and>
    ab_nullbitmap s = ab_nullbitmap w \<and> aitems s = aitems w"
proof -
  have r: "dims_rep w ds ls k" "data_sent w bs" "nulls_rep w nb" "element_type w = get_elt ty" "array_type w = ty"
    using agg_of_sent [OF w] by (simp_all add: agg_sent_def)
  have "array_agg_array_serialize w = Inr (state_message w bs)"
    using serialize_ok [OF r(2,3) dims_repD(7,8) [OF r(1)] sz(1)] .
  moreover obtain d where d: "array_agg_array_deserialize get_elt newcxt cxt (state_message w bs) =
      Inr (w\<lparr>mcontext := cxt, private_cxt := False, ab_data := d\<rparr>)"
    "data_sent (w\<lparr>mcontext := cxt, private_cxt := False, ab_data := d\<rparr>) bs"
    using deserialize_message [OF r(2,3,1) _ sz, of get_elt newcxt cxt] t r(4,5) by auto
  moreover have "agg_sent get_elt ty (w\<lparr>mcontext := cxt, private_cxt := False, ab_data := d\<rparr>) ds ls k bs nb"
    using d(2) r by (cases "ab_nullbitmap w") (simp_all add: agg_sent_def dims_rep_def nulls_rep_def)
  ultimately show ?thesis by (simp add: agg_transfer_def)
qed

lemma combine_ok:
  assumes st: "agg_of get_elt ty st ds ls k1 bs1 nb1" and s2: "agg_sent get_elt ty s2 ds ls k2 bs2 nb2"
    and sz: "int (length bs1 + length bs2) < agg_limit" "int (length nb1 + length nb2) < agg_limit" "int (k1 + k2) < agg_limit"
    and a2: "aitems s2 \<le> agg_limit" and n2: "nb2 \<noteq> []" and t: "get_elt ty \<noteq> 0"
    and ok: "\<not> nullfree st \<Longrightarrow> ab_nullbitmap s2 \<noteq> None"
  shows "\<exists>s. array_2d_agg_combine get_elt newcxt junk (Some cxt) st (Some s2) = Inr (Some s) \<and>
    agg_of get_elt ty (Some s) ds ls (k1 + k2) (bs1 @ bs2) (nb1 @ nb2) \<and> (nullfree (Some s) \<longleftrightarrow> ab_nullbitmap s2 = None)"
proof (cases st)
  case None
  then have "k1 = 0" "bs1 = []" "nb1 = []" using st by (simp_all add: agg_of_def)
  then show ?thesis
    using combine_copy_ok [OF s2 t, of newcxt junk cxt] None by (auto simp: array_2d_agg_combine_def nullfree_def)
next
  case (Some s1)
  have "nitems s2 > 0" using s2 n2 by (simp add: agg_sent_def nulls_rep_def)
  then show ?thesis
    using combine_append_ok [OF st [unfolded Some] s2 sz a2, of junk] ok Some
    by (auto simp: array_2d_agg_combine_def nullfree_def)
qed

lemma agg_worker_ok:
  assumes st: "agg_of get_elt ty st ds ls k bs nb" "nullfree st"
    and rows: "\<forall>r \<in> set rows. input_ok ds ls n (snd r)" "\<forall>r \<in> set rows. arr_nullbitmap (snd r) = None"
    and sz: "int (length bs + length (rows_data rows)) < agg_limit" "int (length nb + length rows * n) < agg_limit"
    "int (k + length rows) < agg_limit"
    and n: "0 < n" and t: "ty \<noteq> 0" "get_elt ty \<noteq> 0" "get_elt ty < 4294967296" "ty < 4294967296"
  shows "\<exists>st'. bindR (agg_rows get_elt newcxt ty wcxt rows None) (\<lambda>w.
      bindR (agg_transfer get_elt newcxt lcxt w) (\<lambda>w. array_2d_agg_combine get_elt newcxt junk (Some lcxt) st w)) = Inr st' \<and>
    nullfree st' \<and> agg_of get_elt ty st' ds ls (k + length rows) (bs @ rows_data rows) (nb @ rows_bits n rows)"
proof -
  have "agg_of get_elt ty None ds ls 0 [] []" by (simp add: agg_of_def)
  moreover have sz0: "int (length (rows_data rows)) < agg_limit" "int (length rows * n) < agg_limit" "int (length rows) < agg_limit"
    using sz by linarith+
  ultimately obtain w where w: "agg_rows get_elt newcxt ty wcxt rows None = Inr w" "nullfree w"
    "agg_of get_elt ty w ds ls (length rows) (rows_data rows) (rows_bits n rows)"
    using agg_rows_ok [of get_elt ty None ds ls 0 "[]" "[]" rows n newcxt wcxt] rows t
    unfolding add_0_left append_Nil list.size by (auto simp: nullfree_def)
  show ?thesis
  proof (cases w)
    case None
    then show ?thesis using w st
      by (simp add: agg_of_def [where st = None] agg_transfer_def array_2d_agg_combine_def)
  next
    case (Some w')
    have "rows \<noteq> []" using w(1) Some by (auto simp: agg_rows_def)
    then have ne: "rows_bits n rows \<noteq> []" using n length_rows_bits [of n rows] by (metis length_0_conv mult_is_0 neq0_conv)
    have nf: "ab_nullbitmap w' = None" "aitems w' = 0"
      using w(2,3) Some by (auto simp: nullfree_def agg_of_def agg_rep_def nulls_rep_def)
    obtain s where s: "agg_transfer get_elt newcxt lcxt (Some w') = Inr (Some s)"
      "agg_sent get_elt ty s ds ls (length rows) (rows_data rows) (rows_bits n rows)"
      "ab_nullbitmap s = ab_nullbitmap w'" "aitems s = aitems w'"
      using agg_transfer_ok [OF w(3) [unfolded Some] sz0(1) _ t(2-4), of newcxt lcxt] sz0(2) unfolding length_rows_bits by blast
    have "aitems s \<le> agg_limit" using s(4) nf by simp
    then obtain s' where "array_2d_agg_combine get_elt newcxt junk (Some lcxt) st (Some s) = Inr (Some s')" "nullfree (Some s')"
      "agg_of get_elt ty (Some s') ds ls (k + length rows) (bs @ rows_data rows) (nb @ rows_bits n rows)"
      using combine_ok [OF st(1) s(2) sz(1) _ sz(3) _ ne t(2), of newcxt junk lcxt] sz(2) s(3) nf st(2)
      unfolding length_rows_bits by metis
    then show ?thesis using w(1) s(1) Some by simp
  qed
qed

lemma agg_parallel_ok:
  assumes "agg_of get_elt ty st ds ls k bs nb" "nullfree st"
    "\<forall>p \<in> set parts. \<forall>r \<in> set (snd p). input_ok ds ls n (snd r) \<and> arr_nullbitmap (snd r) = None"
    "int (length bs + length (rows_data (concat (map snd parts)))) < agg_limit"
    "int (length nb + length (concat (map snd parts)) * n) < agg_limit"
    "int (k + length (concat (map snd parts))) < agg_limit"
    and n: "0 < n" and t: "ty \<noteq> 0" "get_elt ty \<noteq> 0" "get_elt ty < 4294967296" "ty < 4294967296"
  shows "\<exists>st'. agg_parallel get_elt newcxt ty wcxt lcxt parts st = Inr st' \<and> nullfree st' \<and>
    agg_of get_elt ty st' ds ls (k + length (concat (map snd parts)))
      (bs @ rows_data (concat (map snd parts))) (nb @ rows_bits n (concat (map snd parts)))"
  using assms(1-6)
proof (induction parts arbitrary: st k bs nb)
  case Nil
  then show ?case by (simp add: agg_parallel_def)
next
  case (Cons p parts)
  obtain junk rows where p: "p = (junk, rows)" by (cases p)
  let ?rest = "concat (map snd parts)"
  have tot: "int (length nb + length rows * n + length ?rest * n) < agg_limit"
    "int (length bs + length (rows_data rows) + length (rows_data ?rest)) < agg_limit"
    "int (k + length rows + length ?rest) < agg_limit"
    using Cons.prems(4-6) p by (simp_all add: add_mult_distrib add.assoc)
  then have sz: "int (length bs + length (rows_data rows)) < agg_limit" "int (length nb + length rows * n) < agg_limit"
    "int (k + length rows) < agg_limit"
    by linarith+
  have rows: "\<forall>r \<in> set rows. input_ok ds ls n (snd r)" "\<forall>r \<in> set rows. arr_nullbitmap (snd r) = None"
    using Cons.prems(3) p by auto
  obtain st2 where st2: "bindR (agg_rows get_elt newcxt ty wcxt rows None) (\<lambda>w.
      bindR (agg_transfer get_elt newcxt lcxt w) (\<lambda>w. array_2d_agg_combine get_elt newcxt junk (Some lcxt) st w)) = Inr st2"
    "nullfree st2" "agg_of get_elt ty st2 ds ls (k + length rows) (bs @ rows_data rows) (nb @ rows_bits n rows)"
    using agg_worker_ok [OF Cons.prems(1,2) rows sz n t, of newcxt wcxt lcxt junk] by blast
  have "agg_parallel get_elt newcxt ty wcxt lcxt (p # parts) st = agg_parallel get_elt newcxt ty wcxt lcxt parts st2"
    using st2(1) by (simp add: agg_parallel_def p)
  moreover have "\<exists>st'. agg_parallel get_elt newcxt ty wcxt lcxt parts st2 = Inr st' \<and> nullfree st' \<and>
    agg_of get_elt ty st' ds ls (k + length rows + length ?rest)
      ((bs @ rows_data rows) @ rows_data ?rest) ((nb @ rows_bits n rows) @ rows_bits n ?rest)"
    using tot Cons.prems(3) by (intro Cons.IH [OF st2(3,2)]) (simp_all add: length_rows_bits del: of_nat_mult of_nat_add)
  ultimately show ?case by (simp add: p add.assoc)
qed

lemma agg_start: "agg_of get_elt ty None ds ls 0 [] []" "nullfree None"
  by (simp_all add: agg_of_def nullfree_def)

lemma agg_of_Some:
  assumes "agg_of get_elt ty st ds ls k bs nb" "0 < k"
  obtains s where "st = Some s"
  using assms by (cases st) (simp_all add: agg_of_def)

lemma sequential_ok:
  assumes rows: "\<forall>r \<in> set rows. input_ok [h, w] ls n (snd r)" "rows \<noteq> []"
    and pos: "0 < h" "0 < w" "int (length rows) * h * w \<le> MaxArraySize"
    and sz: "int (length (rows_data rows)) < agg_limit" "int (length rows * n) < agg_limit"
    and t: "ty \<noteq> 0" "get_elt ty \<noteq> 0"
  shows "bindR (agg_rows get_elt newcxt ty cxt rows None) array_2d_agg_finalfn =
    Inr (Some (stacked (get_elt ty) (\<forall>r \<in> set rows. arr_nullbitmap (snd r) = None) (length rows) h w (rows_data rows) (rows_bits n rows)))"
proof -
  have k: "0 < length rows" using rows(2) by simp
  have hw: "0 < h * w" using pos by simp
  have "int (length rows) * 1 \<le> int (length rows) * (h * w)" using hw by (intro mult_left_mono) simp_all
  then have "int (length rows) < agg_limit" using pos(3) by (simp add: mult.assoc)
  then obtain st where st: "agg_rows get_elt newcxt ty cxt rows None = Inr st"
    "agg_of get_elt ty st [h, w] ls (length rows) (rows_data rows) (rows_bits n rows)"
    "nullfree st \<longleftrightarrow> (\<forall>r \<in> set rows. arr_nullbitmap (snd r) = None)"
    using agg_rows_ok [OF agg_start(1) rows(1), where get_elt = get_elt and ty = ty and newcxt = newcxt and cxt = cxt] sz t agg_start(2)
    unfolding add_0_left append_Nil list.size by blast
  obtain s where s: "st = Some s" using agg_of_Some [OF st(2) k] .
  have "int (length (rows_bits n rows)) < agg_limit" using sz(2) by (simp only: length_rows_bits)
  from finalfn_ok [OF st(2) [unfolded s] k pos sz(1) this] show ?thesis using st(1,3) s by simp
qed

text \<open>
  C5: parallel aggregation is sequential aggregation. For rows without nulls, however they are
  divided among the workers, sending every partial state through \<open>array_agg_array_serialize\<close> and
  \<open>array_agg_array_deserialize\<close>, folding the results with \<open>array_2d_agg_combine\<close> and finishing with
  \<open>array_2d_agg_finalfn\<close> gives what the transition function gives on all rows in order: the matrices
  on top of each other, with their data concatenated. Nothing runs outside a buffer on the way.
\<close>

theorem parallel_aggregation_equals_sequential:
  fixes parts :: "((nat \<Rightarrow> byte) \<times> ((nat \<Rightarrow> byte) \<times> byte ArrayType) list) list"
  assumes rows_def: "rows = concat (map snd parts)"
    and rows: "\<forall>r \<in> set rows. input_ok [h, w] ls n (snd r) \<and> arr_nullbitmap (snd r) = None" "rows \<noteq> []"
    and pos: "0 < h" "0 < w" "0 < n" "int (length rows) * h * w \<le> MaxArraySize"
    and sz: "int (length (rows_data rows)) < agg_limit" "int (length rows * n) < agg_limit"
    and t: "ty \<noteq> 0" "get_elt ty \<noteq> 0" "get_elt ty < 4294967296" "ty < 4294967296"
  shows "bindR (agg_parallel get_elt newcxt ty wcxt lcxt parts None) array_2d_agg_finalfn =
      bindR (agg_rows get_elt newcxt ty wcxt rows None) array_2d_agg_finalfn \<and>
    bindR (agg_parallel get_elt newcxt ty wcxt lcxt parts None) array_2d_agg_finalfn =
      Inr (Some \<lparr>arr_dims = [int (length rows) * h, w], arr_lbound = [1, 1], arr_elemtype = get_elt ty,
                 arr_nullbitmap = None, arr_data = rows_data rows\<rparr>)"
proof -
  have k: "0 < length rows" using rows(2) by simp
  have r: "\<forall>r \<in> set rows. input_ok [h, w] ls n (snd r)" "\<forall>r \<in> set rows. arr_nullbitmap (snd r) = None"
    using rows(1) by simp_all
  have hw: "0 < h * w" using pos by simp
  have "int (length rows) * 1 \<le> int (length rows) * (h * w)" using hw by (intro mult_left_mono) simp_all
  then have kl: "int (length rows) < agg_limit" using pos(4) by (simp add: mult.assoc)
  have parts: "\<forall>p \<in> set parts. \<forall>r \<in> set (snd p). input_ok [h, w] ls n (snd r) \<and> arr_nullbitmap (snd r) = None"
    using rows(1) by (auto simp: rows_def)
  obtain st where st: "agg_parallel get_elt newcxt ty wcxt lcxt parts None = Inr st" "nullfree st"
    "agg_of get_elt ty st [h, w] ls (length rows) (rows_data rows) (rows_bits n rows)"
    using agg_parallel_ok [where get_elt = get_elt and ty = ty, OF agg_start parts _ _ _ pos(3) t, of newcxt wcxt lcxt] sz kl
    unfolding rows_def [symmetric] add_0_left append_Nil list.size by blast
  obtain s where s: "st = Some s" using agg_of_Some [OF st(3) k] .
  have "int (length (rows_bits n rows)) < agg_limit" using sz(2) by (simp only: length_rows_bits)
  from finalfn_ok [OF st(3) [unfolded s] k pos(1,2,4) sz(1) this]
  have fin: "bindR (agg_parallel get_elt newcxt ty wcxt lcxt parts None) array_2d_agg_finalfn =
      Inr (Some (stacked (get_elt ty) True (length rows) h w (rows_data rows) (rows_bits n rows)))"
    using st(1,2) s by simp
  with sequential_ok [where get_elt = get_elt and ty = ty, OF r(1) rows(2) pos(1,2,4) sz t(1,2), of newcxt wcxt] r(2)
  show ?thesis by (simp add: stacked_def)
qed

text \<open>Three one-by-one matrices over two workers; the first worker has no rows of its own.\<close>

definition sample_row :: "byte \<Rightarrow> (nat \<Rightarrow> byte) \<times> byte ArrayType" where
  "sample_row b = (\<lambda>_. 0, \<lparr>arr_dims = [1, 1], arr_lbound = [1, 1], arr_elemtype = 700, arr_nullbitmap = None, arr_data = [b, 0, 0, 0]\<rparr>)"

theorem parallel_aggregation_equals_sequential_witness:
  "bindR (agg_parallel (\<lambda>_. 700) 9 1021 1 2 [(\<lambda>_. 0, []), (\<lambda>_. 0, [sample_row 1, sample_row 2]), (\<lambda>_. 0, [sample_row 3])] None)
     array_2d_agg_finalfn =
   Inr (Some \<lparr>arr_dims = [3, 1], arr_lbound = [1, 1], arr_elemtype = 700, arr_nullbitmap = None,
              arr_data = [1, 0, 0, 0, 2, 0, 0, 0, 3, 0, 0, 0]\<rparr>)"
  using parallel_aggregation_equals_sequential [OF refl,
      of "[(\<lambda>_. 0, []), (\<lambda>_. 0, [sample_row 1, sample_row 2]), (\<lambda>_. 0, [sample_row 3])]" 1 1 "[1, 1]" 1 1021 "\<lambda>_. 700" 9 1 2]
  by (auto simp: sample_row_def input_ok_def ArrayGetNItems_def in_int_def)

text \<open>
  C33: \<open>array_2d_agg\<close> over rows of one shape, with or without nulls, returns the matrices on top of each
  other. The null bitmap of the result marks exactly the elements that are null in the inputs, and
  is missing when no input has one.
\<close>

theorem array_2d_agg_stacks_rows:
  assumes rows: "\<forall>r \<in> set rows. input_ok [h, w] ls n (snd r)" "rows \<noteq> []"
    and pos: "0 < h" "0 < w" "int (length rows) * h * w \<le> MaxArraySize"
    and sz: "int (length (rows_data rows)) < agg_limit" "int (length rows * n) < agg_limit"
    and t: "ty \<noteq> 0" "get_elt ty \<noteq> 0"
  shows "\<exists>nulls. bindR (agg_rows get_elt newcxt ty cxt rows None) array_2d_agg_finalfn =
      Inr (Some \<lparr>arr_dims = [int (length rows) * h, w], arr_lbound = [1, 1], arr_elemtype = get_elt ty,
                 arr_nullbitmap = nulls, arr_data = rows_data rows\<rparr>) \<and>
    (nulls = None \<longleftrightarrow> (\<forall>r \<in> set rows. arr_nullbitmap (snd r) = None)) \<and>
    (\<forall>bm. nulls = Some bm \<longrightarrow> (\<forall>i < length rows. \<forall>j < n.
       nonnull bm (i * n + j) = source_bit (arr_nullbitmap (snd (rows ! i))) j))"
proof -
  have bits: "nonnull (bitmap_of (rows_bits n rows)) (i * n + j) = source_bit (arr_nullbitmap (snd (rows ! i))) j"
    if i: "i < length rows" and j: "j < n" for i j
  proof -
    have "Suc i * n \<le> length rows * n" using i by (intro mult_right_mono) simp_all
    then have lt: "i * n + j < length rows * n" using j by simp
    have "rows_bits n rows ! (i * n + j) = input_bits n (snd (rows ! i)) ! j"
      by (rule concat_nth_const) (use i j in simp_all)
    moreover have "input_bits n (snd (rows ! i)) ! j = source_bit (arr_nullbitmap (snd (rows ! i))) j"
      using j by (simp add: input_bits_def)
    ultimately show ?thesis using lt by (simp add: nonnull_bitmap_of length_rows_bits)
  qed
  show ?thesis
    using sequential_ok [where get_elt = get_elt and ty = ty, OF rows pos sz t, of newcxt cxt] bits
    by (auto simp: stacked_def)
qed

theorem array_2d_agg_stacks_rows_witness:
  "\<exists>bm. bindR (agg_rows (\<lambda>_. 700) 9 1021 1
      [(\<lambda>_. 0, \<lparr>arr_dims = [1, 2], arr_lbound = [1, 1], arr_elemtype = 700, arr_nullbitmap = None, arr_data = [1, 0, 0, 0, 2, 0, 0, 0]\<rparr>),
       (\<lambda>_. 0, \<lparr>arr_dims = [1, 2], arr_lbound = [1, 1], arr_elemtype = 700, arr_nullbitmap = Some [1], arr_data = [3, 0, 0, 0]\<rparr>)] None)
      array_2d_agg_finalfn =
    Inr (Some \<lparr>arr_dims = [2, 2], arr_lbound = [1, 1], arr_elemtype = 700, arr_nullbitmap = Some bm,
               arr_data = [1, 0, 0, 0, 2, 0, 0, 0, 3, 0, 0, 0]\<rparr>) \<and>
    nonnull bm 0 \<and> nonnull bm 1 \<and> nonnull bm 2 \<and> \<not> nonnull bm 3"
proof -
  let ?rows = "[(\<lambda>_. 0, \<lparr>arr_dims = [1, 2], arr_lbound = [1, 1], arr_elemtype = 700, arr_nullbitmap = None, arr_data = [1, 0, 0, 0, 2, 0, 0, 0]\<rparr>),
       (\<lambda>_. 0, \<lparr>arr_dims = [1, 2], arr_lbound = [1, 1], arr_elemtype = 700, arr_nullbitmap = Some [1], arr_data = [3, 0, 0, 0]\<rparr>)]
     :: ((nat \<Rightarrow> byte) \<times> byte ArrayType) list"
  obtain nulls where n: "bindR (agg_rows (\<lambda>_. 700) 9 1021 1 ?rows None) array_2d_agg_finalfn =
      Inr (Some \<lparr>arr_dims = [2, 2], arr_lbound = [1, 1], arr_elemtype = 700, arr_nullbitmap = nulls, arr_data = [1, 0, 0, 0, 2, 0, 0, 0, 3, 0, 0, 0]\<rparr>)"
    "nulls \<noteq> None" and b: "\<forall>bm. nulls = Some bm \<longrightarrow> (\<forall>i < 2. \<forall>j < 2. nonnull bm (i * 2 + j) = source_bit (arr_nullbitmap (snd (?rows ! i))) j)"
    using array_2d_agg_stacks_rows [of ?rows 1 2 "[1, 1]" 2 1021 "\<lambda>_. 700" 9 1]
    by (auto simp: input_ok_def ArrayGetNItems_def in_int_def)
  obtain bm where bm: "nulls = Some bm" using n(2) by auto
  have e: "nonnull bm (i * 2 + j) = source_bit (arr_nullbitmap (snd (?rows ! i))) j" if "i < 2" "j < 2" for i j
    using b bm that by blast
  show ?thesis
    using n(1) bm e [of 0 0] e [of 0 1] e [of 1 0] e [of 1 1] by (auto simp: source_bit_def nonnull_def)
qed

text \<open>
  C34: a state survives the journey between processes. What \<open>array_agg_array_serialize\<close> writes,
  \<open>array_agg_array_deserialize\<close> reads back: all counts, dimensions, lower bounds and types, the null
  bitmap bit by bit, and the data. Only the memory contexts differ, and the data buffer, which is sized
  by the number of bytes in use although \<open>abytes\<close> keeps the capacity the sender had.
\<close>

theorem serialize_then_deserialize:
  assumes s: "agg_of get_elt ty (Some s) ds ls k bs nb"
    and sz: "int (length bs) < agg_limit" "int (length nb) < agg_limit"
    and t: "get_elt ty \<noteq> 0" "get_elt ty < 4294967296" "ty < 4294967296"
  shows "\<exists>msg d. array_agg_array_serialize s = Inr msg \<and>
    array_agg_array_deserialize get_elt newcxt cxt msg = Inr (s\<lparr>mcontext := cxt, private_cxt := False, ab_data := d\<rparr>) \<and>
    take (nat (nbytes s)) d = take (nat (nbytes s)) (ab_data s)"
proof -
  have r: "dims_rep s ds ls k" "data_sent s bs" "nulls_rep s nb" "element_type s = get_elt ty" "array_type s = ty"
    using agg_of_sent [OF s] by (simp_all add: agg_sent_def)
  have "array_agg_array_serialize s = Inr (state_message s bs)"
    using serialize_ok [OF r(2,3) dims_repD(7,8) [OF r(1)] sz(1)] .
  moreover obtain d where d: "array_agg_array_deserialize get_elt newcxt cxt (state_message s bs) =
      Inr (s\<lparr>mcontext := cxt, private_cxt := False, ab_data := d\<rparr>)"
    "data_sent (s\<lparr>mcontext := cxt, private_cxt := False, ab_data := d\<rparr>) bs"
    using deserialize_message [OF r(2,3,1) _ sz, of get_elt newcxt cxt] t r(4,5) by auto
  ultimately show ?thesis using r(2) by (auto simp: data_sent_def)
qed

text \<open>A state of one matrix with three used bytes in a buffer of 1024.\<close>

definition sample_state :: ArrayBuildStateArr where
  "sample_state = \<lparr>mcontext = 1, ab_data = map Some [7, 8, 9] @ replicate 1021 None, ab_nullbitmap = None, abytes = 1024,
     nbytes = 3, aitems = 0, nitems = 1, ndims = 3, ab_dims = [1, 1, 1, 0, 0, 0], ab_lbs = [1, 1, 1, 0, 0, 0],
     array_type = 1021, element_type = 700, private_cxt = False\<rparr>"

lemma sample_state_ok: "agg_of (\<lambda>_. 700) 1021 (Some sample_state) [1, 1] [1, 1] 1 [7, 8, 9] [True]"
  by (simp add: agg_of_def agg_rep_def dims_rep_def data_rep_def nulls_rep_def sample_state_def in_int_def)

theorem serialize_then_deserialize_witness:
  "\<exists>msg d. array_agg_array_serialize sample_state = Inr msg \<and>
    array_agg_array_deserialize (\<lambda>_. 700) 9 2 msg = Inr (sample_state\<lparr>mcontext := 2, private_cxt := False, ab_data := d\<rparr>) \<and>
    take 3 d = map Some [7, 8, 9]"
  using serialize_then_deserialize [OF sample_state_ok, of 9 2] by (simp add: sample_state_def)

text \<open>
  C35: \<open>array_2d_agg_combine\<close> forgets about nulls when only the first state has a bitmap. The second
  state's elements are appended and counted, but the bitmap of the first is left as it is: the bits
  of the new elements are never written, so that non-null elements are null or not as the memory
  happens to say. With more elements than the bitmap has bits, the final function reads past its end.
\<close>

theorem combine_leaves_null_bits_unwritten:
  assumes s1: "agg_of get_elt ty (Some s1) [h, w] ls k1 bs1 nb1" "ab_nullbitmap s1 = Some bm"
    and s2: "agg_of get_elt ty (Some s2) [h, w] ls k2 bs2 nb2" "ab_nullbitmap s2 = None" "nb2 \<noteq> []"
    and sz: "int (length bs1 + length bs2) < agg_limit" "int (length nb1 + length nb2) < agg_limit"
    and pos: "0 < k1 + k2" "0 < h" "0 < w" "int (k1 + k2) * h * w \<le> MaxArraySize"
  shows "\<exists>s. array_2d_agg_combine get_elt newcxt junk (Some cxt) (Some s1) (Some s2) = Inr (Some s) \<and>
    nitems s = nitems s1 + nitems s2 \<and> ab_nullbitmap s = Some bm \<and>
    (length nb1 + length nb2 > 8 * length bm \<longrightarrow> array_2d_agg_finalfn (Some s) = Inl (Undefined Out_of_bounds))"
proof -
  have r1: "dims_rep s1 [h, w] ls k1" "data_rep s1 bs1" "nulls_rep s1 nb1" "element_type s1 = get_elt ty"
    using s1 by (simp_all add: agg_of_def agg_rep_def)
  have r2: "dims_rep s2 [h, w] ls k2" "data_sent s2 bs2" "nulls_rep s2 nb2"
    using agg_of_sent [OF s2(1)] by (simp_all add: agg_sent_def)
  have ni: "nitems s1 = int (length nb1)" "nitems s2 = int (length nb2)" using r1(3) r2(3) by (simp_all add: nulls_rep_def)
  have "0 < h * w" using pos by simp
  then have "int (k1 + k2) * 1 \<le> int (k1 + k2) * (h * w)" by (intro mult_left_mono) simp_all
  then have k: "int (k1 + k2) < agg_limit" using pos(4) by (simp add: mult.assoc)
  have "\<exists>a nulls. combine_bitmap junk (s1\<lparr>abytes := ab, ab_data := e\<rparr>) s2 =
      Inr (s1\<lparr>abytes := ab, ab_data := e, aitems := a, ab_nullbitmap := nulls\<rparr>) \<and> nulls = Some bm" for ab e
    using s1(2) s2(2) by (intro exI [of _ "aitems s1"] exI [of _ "ab_nullbitmap s1"]) (simp add: combine_bitmap_def)
  from combine_append_state [OF r1(1,2) ni(1) r2(1,2) ni(2) sz k this]
  obtain s where s: "combine_append junk s1 s2 = Inr s" "dims_rep s [h, w] ls (k1 + k2)" "data_rep s (bs1 @ bs2)"
    "nitems s = int (length nb1 + length nb2)" "ab_nullbitmap s = Some bm" by blast
  have "0 < nitems s2" using ni(2) s2(3) by simp
  then have "array_2d_agg_combine get_elt newcxt junk (Some cxt) (Some s1) (Some s2) = Inr (Some s)"
    using s(1) by (simp add: array_2d_agg_combine_def)
  moreover have "array_2d_agg_finalfn (Some s) = Inl (Undefined Out_of_bounds)" if "length nb1 + length nb2 > 8 * length bm"
    using finalfn_overrun [OF s(2,3,4,5) that pos] sz by simp
  ultimately show ?thesis using s(4,5) ni by auto
qed

theorem combine_leaves_null_bits_unwritten_witness:
  "\<exists>s. array_2d_agg_combine (\<lambda>_. 700) 9 (\<lambda>_. 0) (Some 2)
      (Some (sample_state\<lparr>ab_nullbitmap := Some [1], aitems := 1\<rparr>)) (Some sample_state) = Inr (Some s) \<and>
    nitems s = 2 \<and> ab_nullbitmap s = Some [1] \<and> \<not> nonnull [1] 1"
proof -
  have "agg_of (\<lambda>_. 700) 1021 (Some (sample_state\<lparr>ab_nullbitmap := Some [1], aitems := 1\<rparr>)) [1, 1] [1, 1] 1 [7, 8, 9] [True]"
    by (simp add: agg_of_def agg_rep_def dims_rep_def data_rep_def nulls_rep_def sample_state_def in_int_def
        nonnull_bits_def nonnull_def)
  from combine_leaves_null_bits_unwritten [OF this _ sample_state_ok, of "[1]" 9 "\<lambda>_. 0" 2]
  show ?thesis by (auto simp: sample_state_def nonnull_def)
qed

text \<open>
  rows of different shapes are refused with the same message whether they meet in the transition
  function or in the combine function, as the comment in \<open>array_2d_agg_combine\<close> asks for; the order of
  the checks never lets memory be touched first.
\<close>

theorem different_shapes_same_error:
  assumes s1: "agg_of get_elt ty (Some s1) ds ls k1 bs1 nb1" and s2: "agg_sent get_elt ty s2 ds2 ls2 k2 bs2 nb2"
    and a: "input_ok ds2 ls2 n a" and diff: "ds \<noteq> ds2 \<or> ls \<noteq> ls2" and ne: "nb2 \<noteq> []"
    and sz: "int (length bs1 + length bs2) < agg_limit" and ty: "ty \<noteq> 0"
  shows "array_2d_agg_transfn get_elt newcxt junk ty (Some cxt) (Some s1) (Some a) =
      Inl (Elog ''cannot accumulate arrays of different dimensionality'') \<and>
    array_2d_agg_combine get_elt newcxt junk (Some cxt) (Some s1) (Some s2) =
      Inl (Elog ''cannot accumulate arrays of different dimensionality'')"
proof -
  have r1: "dims_rep s1 ds ls k1" "data_rep s1 bs1" using s1 by (simp_all add: agg_of_def agg_rep_def)
  have r2: "dims_rep s2 ds2 ls2 k2" "data_sent s2 bs2" "nulls_rep s2 nb2" using s2 by (simp_all add: agg_sent_def)
  note d1 = dims_repD [OF r1(1)] and d2 = dims_repD [OF r2(1)]
  have nz: "ndims s1 \<noteq> 0" using d1(4) by simp
  have "\<not> (ndims s1 = int (length ds2) + 1 \<and> take (length ds2) (drop 1 (ab_dims s1)) = ds2 \<and>
      take (length ds2) (drop 1 (ab_lbs s1)) = ls2)"
    using diff d1(1,2,4) by (metis add_right_cancel of_nat_eq_iff)
  then have "accum_next s1 a = Inl (Elog ''cannot accumulate arrays of different dimensionality'')"
    using a by (auto simp: accum_next_def input_ok_def require_def Let_def)
  then have "array_2d_agg_transfn get_elt newcxt junk ty (Some cxt) (Some s1) (Some a) =
      Inl (Elog ''cannot accumulate arrays of different dimensionality'')"
    using a ty nz by (simp add: array_2d_agg_transfn_def accumArrayResultArr_def input_ok_def)
  moreover have differ: "\<not> (ndims s1 = ndims s2 \<and>
      take (nat (ndims s1) - 1) (drop 1 (ab_dims s1)) = take (nat (ndims s1) - 1) (drop 1 (ab_dims s2)) \<and>
      take (nat (ndims s1) - 1) (drop 1 (ab_lbs s1)) = take (nat (ndims s1) - 1) (drop 1 (ab_lbs s2)))"
    using diff d1(1,2,4) d2(1,2,4) by (metis add_diff_cancel_right' nat_int of_nat_1 of_nat_add)
  have sum: "cint (nbytes s1 + nbytes s2) = Inr (nbytes s1 + nbytes s2)"
    using r1(2) r2(2) sz by (simp add: data_rep_def data_sent_def cint_def in_int_def)
  have "combine_append junk s1 s2 = Inl (Elog ''cannot accumulate arrays of different dimensionality'')"
    by (simp only: combine_append_def sum bindR_simps Let_def require_def differ if_False)
  moreover have "nitems s2 > 0" using r2(3) ne by (simp add: nulls_rep_def)
  ultimately show ?thesis by (simp add: array_2d_agg_combine_def)
qed

theorem different_shapes_same_error_witness:
  "array_2d_agg_transfn (\<lambda>_. 700) 9 (\<lambda>_. 0) 1021 (Some 2) (Some sample_state)
      (Some \<lparr>arr_dims = [1, 2], arr_lbound = [1, 1], arr_elemtype = 700, arr_nullbitmap = None, arr_data = [1, 0, 0, 0, 2, 0, 0, 0]\<rparr>) =
    Inl (Elog ''cannot accumulate arrays of different dimensionality'')"
proof -
  have "agg_sent (\<lambda>_. 700) 1021 (sample_state\<lparr>ab_dims := [1, 1, 2, 0, 0, 0]\<rparr>) [1, 2] [1, 1] 1 [7, 8, 9] [True]"
    by (simp add: agg_sent_def dims_rep_def data_sent_def nulls_rep_def sample_state_def in_int_def)
  moreover have "input_ok [1, 2] [1, 1] 2
      \<lparr>arr_dims = [1, 2], arr_lbound = [1, 1], arr_elemtype = 700, arr_nullbitmap = None, arr_data = [1, 0, 0, 0, 2, 0, 0, 0]\<rparr>"
    by (simp add: input_ok_def ArrayGetNItems_def in_int_def)
  ultimately show ?thesis using different_shapes_same_error [OF sample_state_ok, of _ "[1, 2]" "[1, 1]" 1 "[7, 8, 9]" "[True]" 2] by auto
qed

end
