(* ===== verification/Nudf.thy ===== *)
theory Nudf
  imports String_Info Pg_Array
begin

text \<open>
  Neural user-defined functions: the catalogue \<open>pg_nudf\<close> and the command that fills it
  (\<open>pg-src/src/backend/catalog/pg_nudf.c\<close>, \<open>pg-src/src/backend/commands/nudfcmds.c\<close>,
  \<open>aqua_extension/src/create_nudf.c\<close>), and the parser hook of \<open>aqua_extension/src/aqua.c\<close> that replaces
  a call by the sub-query stored for it.

  C strings are lists of bytes without a null byte. The grammar, the Python interpreter, the dynamic
  linker and the assignment of object identifiers are parameters. A raw parse tree is a tree whose
  nodes list their sub-nodes in the order in which \<open>raw_expression_tree_walker\<close> visits them. The assignment of
  \<open>aqua_parser\<close> to the hook is commented out in \<open>_PG_init\<close>: the statements about it say what a server with that line does.
\<close>

type_synonym cstr = "byte list"

section \<open>The catalogue\<close>

record NUDFInfo =
  nudf_query :: cstr

record pg_nudf =
  nudf_oid :: oid
  nudfname :: cstr
  nudfsrc :: cstr

abbreviation NAMEDATALEN :: nat where
  "NAMEDATALEN \<equiv> 64"

text \<open>\<open>namestrcpy\<close> truncates; names are compared with \<open>strncmp\<close> on \<open>NAMEDATALEN\<close> bytes.\<close>

definition namestrcpy :: "cstr \<Rightarrow> cstr" where
  "namestrcpy s = take (NAMEDATALEN - 1) s"

definition SearchSysCache_NUDFNAME :: "pg_nudf list \<Rightarrow> cstr \<Rightarrow> pg_nudf option" where
  "SearchSysCache_NUDFNAME cat key = find (\<lambda>r. take NAMEDATALEN (nudfname r) = take NAMEDATALEN key) cat"

text \<open>
  \<open>CatalogTupleInsert\<close> appends the row and enters it into the indexes; the two unique indexes of \<open>pg_nudf\<close>, on the
  identifier and on the name (declared in \<open>pg_nudf.h\<close>), refuse a key that they have.
\<close>

definition CatalogTupleInsert :: "pg_nudf list \<Rightarrow> pg_nudf \<Rightarrow> pg_nudf list result" where
  "CatalogTupleInsert cat row =
     require (nudf_oid row \<notin> set (map nudf_oid cat) \<and> nudfname row \<notin> set (map nudfname cat))
       (Elog ''duplicate key value violates unique constraint'') (Inr (cat @ [row]))"

text \<open>
  \<open>NUDFCreate\<close>: \<open>None\<close> is an argument that was never assigned. The result is the object identifier
  and the catalogue.
\<close>

definition NUDFCreate :: "oid \<Rightarrow> pg_nudf list \<Rightarrow> cstr \<Rightarrow> NUDFInfo option \<Rightarrow> (oid \<times> pg_nudf list) result" where
  "NUDFCreate newOid cat nudfName nudfInfo =
     (case nudfInfo of
        None \<Rightarrow> Inl (Undefined Uninitialised)
      | Some info \<Rightarrow>
          (case SearchSysCache_NUDFNAME cat nudfName of
             Some _ \<Rightarrow> Inl (Elog ''nudf already exists'')
           | None \<Rightarrow>
               bindR (CatalogTupleInsert cat \<lparr>nudf_oid = newOid, nudfname = namestrcpy nudfName, nudfsrc = nudf_query info\<rparr>)
                 (\<lambda>cat. Inr (newOid, cat))))"

text \<open>
  What the embedded Python does: the module or its class may be missing, the call of \<open>export\<close> may
  fail, or it returns the text of a query. \<open>res\<close> is never assigned, so storing the text writes
  through an indeterminate pointer. The two arguments are only logged.
\<close>

datatype python_outcome = No_module | No_class | Export_failed | Exported "cstr option"

definition create_inference_function :: "python_outcome \<Rightarrow> cstr \<Rightarrow> cstr \<Rightarrow> NUDFInfo result" where
  "create_inference_function py func_name model_path =
     (case py of
        No_module \<Rightarrow> Inl (Elog ''[create_nudf] fail to find pModule'')
      | No_class \<Rightarrow> Inl (Elog ''[create_nudf] fail to find nUDF class'')
      | Export_failed \<Rightarrow> Inl (Elog ''[create_nudf] fail to call create_nudf'')
      | Exported result \<Rightarrow> Inl (Undefined Uninitialised))"

datatype aqua_library = Not_installed | Cannot_open | No_symbol | Loaded

definition CreateNUDF ::
  "(cstr list \<Rightarrow> cstr result) \<Rightarrow> aqua_library \<Rightarrow> python_outcome \<Rightarrow> oid \<Rightarrow> pg_nudf list \<Rightarrow> cstr list \<Rightarrow> cstr
    \<Rightarrow> (oid \<times> pg_nudf list) result" where
  "CreateNUDF creation_name lib py newOid cat stmt_funcname model_path =
     bindR (creation_name stmt_funcname) (\<lambda>funcname.
     bindR (case lib of
              Loaded \<Rightarrow> bindR (create_inference_function py funcname model_path) (\<lambda>info. Inr (Some info))
            | _ \<Rightarrow> Inr None) (\<lambda>nudfRes.
       NUDFCreate newOid cat funcname nudfRes))"

section \<open>Rewriting a query text\<close>

fun strstr :: "cstr \<Rightarrow> cstr \<Rightarrow> nat option" where
  "strstr [] src = (if src = [] then Some 0 else None)"
| "strstr (c # q) src = (if take (length src) (c # q) = src then Some 0 else map_option Suc (strstr q src))"

text \<open>\<open>appendStringInfo\<close> as its callers see it.\<close>

definition append_format :: "StringInfoData \<Rightarrow> cstr \<Rightarrow> StringInfoData result" where
  "append_format str msg = (case appendStringInfo str msg of None \<Rightarrow> Inl (Undefined Infinite_loop) | Some r \<Rightarrow> r)"

definition StrReplace :: "cstr \<Rightarrow> cstr \<Rightarrow> cstr \<Rightarrow> cstr result" where
  "StrReplace query_string src dst =
     bindR initStringInfo (\<lambda>res.
     bindR (case strstr query_string src of
              None \<Rightarrow> appendStringInfoString res query_string
            | Some pos \<Rightarrow>
                bindR (appendBinaryStringInfo res query_string (int pos)) (\<lambda>res.
                bindR (append_format res ([40] @ dst @ [41])) (\<lambda>res.
                  appendStringInfoString res (drop (pos + length src) query_string)))) (\<lambda>res.
       Inr (si_cstring res)))"

section \<open>Finding a call\<close>

datatype field = String_field cstr | A_Star

datatype node =
    FuncCall "cstr list" "node list"
  | ColumnRef "field list"
  | SelectStmt "node list"
  | ExplainStmt node
  | CreateNUDFStmt "cstr list"
  | OtherNode "node list"

record NUDFContext =
  ctx_name :: "cstr option"
  ctx_query :: "cstr option"
  ctx_args :: "cstr option"

definition ColumnRefToString :: "field list \<Rightarrow> cstr result" where
  "ColumnRefToString flds =
     bindR initStringInfo (\<lambda>str.
     bindR (foldR (\<lambda>f str. case f of
              String_field sval \<Rightarrow>
                bindR (if si_len str > 0 then appendStringInfoChar str 46 else Inr str) (\<lambda>str.
                  appendStringInfoString str sval)
            | A_Star \<Rightarrow> Inr str) flds str) (\<lambda>str.
       Inr (si_cstring str)))"

text \<open>The database name is a parameter; the schema is ignored by the caller.\<close>

definition DeconstructQualifiedName :: "cstr \<Rightarrow> cstr list \<Rightarrow> (cstr option \<times> cstr) result" where
  "DeconstructQualifiedName dbname names =
     (case names of
        [objname] \<Rightarrow> Inr (None, objname)
      | [schemaname, objname] \<Rightarrow> Inr (Some schemaname, objname)
      | [catalogname, schemaname, objname] \<Rightarrow>
          require (catalogname = dbname) (Elog ''cross-database references are not implemented'')
            (Inr (Some schemaname, objname))
      | _ \<Rightarrow> Inl (Elog ''improper qualified name (too many dotted names)''))"

definition ParseNUDF :: "cstr \<Rightarrow> pg_nudf list \<Rightarrow> cstr list \<Rightarrow> (cstr \<times> cstr) option result" where
  "ParseNUDF dbname cat funcname =
     bindR (DeconstructQualifiedName dbname funcname) (\<lambda>(schemaname, nudfname).
       Inr (case SearchSysCache_NUDFNAME cat nudfname of
              None \<Rightarrow> None
            | Some row \<Rightarrow> Some (nudfname, nudfsrc row)))"

text \<open>
  The argument list of a call: \<open>arg_str\<close> is assigned for column references only; the texts are
  appended without a separator.
\<close>

definition arg_strings :: "node list \<Rightarrow> cstr result" where
  "arg_strings args =
     bindR initStringInfo (\<lambda>arg_strs.
     bindR (foldR (\<lambda>expr arg_strs. case expr of
              ColumnRef flds \<Rightarrow> bindR (ColumnRefToString flds) (\<lambda>arg_str. appendStringInfoString arg_strs arg_str)
            | _ \<Rightarrow> Inl (Undefined Uninitialised)) args arg_strs) (\<lambda>arg_strs.
       Inr (si_cstring arg_strs)))"

definition visit_call :: "cstr \<Rightarrow> pg_nudf list \<Rightarrow> cstr list \<Rightarrow> node list \<Rightarrow> NUDFContext \<Rightarrow> (bool \<times> NUDFContext) result" where
  "visit_call dbname cat funcname args context =
     bindR (ParseNUDF dbname cat funcname) (\<lambda>nudf_ctx.
       case nudf_ctx of
         None \<Rightarrow> Inr (False, context)
       | Some (name, query) \<Rightarrow>
           bindR (arg_strings args) (\<lambda>arg_strs.
             Inr (True, \<lparr>ctx_name = Some name, ctx_query = Some query, ctx_args = Some arg_strs\<rparr>)))"

fun findFuncCallWalker :: "cstr \<Rightarrow> pg_nudf list \<Rightarrow> node \<Rightarrow> NUDFContext \<Rightarrow> (bool \<times> NUDFContext) result"
  and raw_expression_tree_walker :: "cstr \<Rightarrow> pg_nudf list \<Rightarrow> node list \<Rightarrow> NUDFContext \<Rightarrow> (bool \<times> NUDFContext) result"
where
  "findFuncCallWalker dbname cat (FuncCall funcname args) context = visit_call dbname cat funcname args context"
| "findFuncCallWalker dbname cat (ColumnRef flds) context = Inr (False, context)"
| "findFuncCallWalker dbname cat (SelectStmt subs) context = raw_expression_tree_walker dbname cat subs context"
| "findFuncCallWalker dbname cat (OtherNode subs) context = raw_expression_tree_walker dbname cat subs context"
| "findFuncCallWalker dbname cat (ExplainStmt q) context = Inl (Elog ''unrecognized node type'')"
| "findFuncCallWalker dbname cat (CreateNUDFStmt names) context = Inl (Elog ''unrecognized node type'')"
| "raw_expression_tree_walker dbname cat [] context = Inr (False, context)"
| "raw_expression_tree_walker dbname cat (n # ns) context =
     bindR (findFuncCallWalker dbname cat n context) (\<lambda>(found, context).
       if found then Inr (True, context) else raw_expression_tree_walker dbname cat ns context)"

definition aqua_select_parser :: "cstr \<Rightarrow> pg_nudf list \<Rightarrow> node list \<Rightarrow> cstr \<Rightarrow> cstr option result" where
  "aqua_select_parser dbname cat subs old_string =
     bindR (raw_expression_tree_walker dbname cat subs \<lparr>ctx_name = None, ctx_query = None, ctx_args = None\<rparr>) (\<lambda>(_, ctx).
       case ctx_query ctx of
         None \<Rightarrow> Inr None
       | Some query \<Rightarrow>
           (case (ctx_name ctx, ctx_args ctx) of
              (Some name, Some args) \<Rightarrow>
                bindR initStringInfo (\<lambda>full_nudf.
                bindR (append_format full_nudf (name @ [40] @ args @ [41])) (\<lambda>full_nudf.
                bindR (StrReplace old_string (si_cstring full_nudf) query) (\<lambda>transformed_query.
                  Inr (Some transformed_query))))
            | _ \<Rightarrow> Inl (Undefined Uninitialised)))"

text \<open>\<open>pg_parse_query\<close> runs the grammar; \<open>exec_simple_query\<close> calls the hook when one is installed.\<close>

definition pg_parse_query :: "(cstr \<Rightarrow> node list result) \<Rightarrow> cstr \<Rightarrow> node list result" where
  "pg_parse_query raw_parser query_string = raw_parser query_string"

definition aqua_parser ::
  "(cstr \<Rightarrow> node list result) \<Rightarrow> (cstr list \<Rightarrow> cstr result) \<Rightarrow> cstr \<Rightarrow> pg_nudf list \<Rightarrow> cstr
    \<Rightarrow> node list result" where
  "aqua_parser raw_parser creation_name dbname cat query_string =
     bindR (raw_parser query_string) (\<lambda>raw_parsetree_list.
       case raw_parsetree_list of
         [] \<Rightarrow> Inl (Undefined Null_deref)
       | raw_node # _ \<Rightarrow>
           bindR (case raw_node of
                    CreateNUDFStmt funcname \<Rightarrow> bindR (creation_name funcname) (\<lambda>_. Inr None)
                  | SelectStmt subs \<Rightarrow> aqua_select_parser dbname cat subs query_string
                  | ExplainStmt (SelectStmt subs) \<Rightarrow> aqua_select_parser dbname cat subs query_string
                  | _ \<Rightarrow> Inr None) (\<lambda>transformed_query.
             pg_parse_query raw_parser (case transformed_query of None \<Rightarrow> query_string | Some t \<Rightarrow> t)))"

definition exec_parse :: "(cstr \<Rightarrow> node list result) option \<Rightarrow> (cstr \<Rightarrow> node list result) \<Rightarrow> cstr \<Rightarrow> node list result" where
  "exec_parse prev_parser_hook raw_parser query_string =
     (case prev_parser_hook of
        Some hook \<Rightarrow> hook query_string
      | None \<Rightarrow> pg_parse_query raw_parser query_string)"

section \<open>The catalogue as a map\<close>

text \<open>Stored names fit a \<open>NameData\<close>, and the unique indexes hold.\<close>

definition catalog_ok :: "pg_nudf list \<Rightarrow> bool" where
  "catalog_ok cat \<longleftrightarrow> (\<forall>r \<in> set cat. length (nudfname r) < NAMEDATALEN) \<and> distinct (map nudfname cat) \<and> distinct (map nudf_oid cat)"

definition nudf_map :: "pg_nudf list \<Rightarrow> cstr \<rightharpoonup> cstr" where
  "nudf_map cat = map_of (map (\<lambda>r. (nudfname r, nudfsrc r)) cat)"

lemma SearchSysCache_map:
  assumes "\<forall>r \<in> set cat. length (nudfname r) < NAMEDATALEN"
  shows "map_option nudfsrc (SearchSysCache_NUDFNAME cat key) = nudf_map cat key"
  using assms
proof (induction cat)
  case (Cons r cat)
  have "take NAMEDATALEN (nudfname r) = take NAMEDATALEN key \<longleftrightarrow> nudfname r = key"
    using Cons.prems by (auto simp: take_all_iff)
  then show ?case using Cons by (auto simp: SearchSysCache_NUDFNAME_def nudf_map_def)
qed (simp add: SearchSysCache_NUDFNAME_def nudf_map_def)

lemma nudf_map_None: "nudf_map cat key = None \<longleftrightarrow> key \<notin> nudfname ` set cat"
  by (auto simp: nudf_map_def map_of_eq_None_iff image_image)

lemma SearchSysCache_None:
  assumes "\<forall>r \<in> set cat. length (nudfname r) < NAMEDATALEN"
  shows "SearchSysCache_NUDFNAME cat key = None \<longleftrightarrow> key \<notin> nudfname ` set cat"
  using SearchSysCache_map [OF assms, of key] nudf_map_None [of cat key]
  by (metis option.map_disc_iff)

lemma nudf_map_append:
  assumes "nudfname r \<notin> nudfname ` set cat"
  shows "nudf_map (cat @ [r]) = (nudf_map cat)(nudfname r \<mapsto> nudfsrc r)"
proof
  fix x
  show "nudf_map (cat @ [r]) x = ((nudf_map cat)(nudfname r \<mapsto> nudfsrc r)) x"
    using assms nudf_map_None [of cat "nudfname r"]
    by (cases "nudf_map cat x") (auto simp: nudf_map_def map_add_def)
qed

lemma NUDFCreate_case:
  assumes ok: "catalog_ok cat" and oid: "newOid \<notin> nudf_oid ` set cat"
  shows "NUDFCreate newOid cat name (Some info) =
    (if name \<in> nudfname ` set cat then Inl (Elog ''nudf already exists'')
     else if namestrcpy name \<in> nudfname ` set cat then Inl (Elog ''duplicate key value violates unique constraint'')
     else Inr (newOid, cat @ [\<lparr>nudf_oid = newOid, nudfname = namestrcpy name, nudfsrc = nudf_query info\<rparr>]))"
proof -
  have "\<forall>r \<in> set cat. length (nudfname r) < NAMEDATALEN" using ok by (simp add: catalog_ok_def)
  note f = SearchSysCache_None [OF this, of name]
  show ?thesis
  proof (cases "SearchSysCache_NUDFNAME cat name")
    case None
    then show ?thesis using f oid by (simp add: NUDFCreate_def CatalogTupleInsert_def)
  next
    case (Some r)
    then show ?thesis using f by (simp add: NUDFCreate_def)
  qed
qed

text \<open>
  C38: With a fresh identifier, \<open>NUDFCreate\<close> fails exactly when the name, cut to 63 bytes, is taken, and
  otherwise keeps the catalogue well formed and defines that name and no other.
\<close>

theorem NUDFCreate_defines_name:
  assumes ok: "catalog_ok cat" and oid: "newOid \<notin> nudf_oid ` set cat"
  shows "case NUDFCreate newOid cat name (Some info) of
      Inl e \<Rightarrow> nudf_map cat (namestrcpy name) \<noteq> None
    | Inr (objectId, cat') \<Rightarrow> nudf_map cat (namestrcpy name) = None \<and> objectId = newOid \<and> catalog_ok cat' \<and>
        nudf_map cat' = (nudf_map cat)(namestrcpy name \<mapsto> nudf_query info)"
proof -
  have "namestrcpy name = name" if "name \<in> nudfname ` set cat"
    using that ok by (auto simp: catalog_ok_def namestrcpy_def)
  then show ?thesis
    using ok oid
    by (auto simp: NUDFCreate_case [OF ok oid] nudf_map_None nudf_map_append catalog_ok_def namestrcpy_def)
qed

theorem NUDFCreate_defines_name_witness:
  "case NUDFCreate 7 [\<lparr>nudf_oid = 5, nudfname = [97], nudfsrc = [49]\<rparr>] [98] (Some \<lparr>nudf_query = [50]\<rparr>) of
      Inl e \<Rightarrow> False
    | Inr (objectId, cat') \<Rightarrow> objectId = 7 \<and> catalog_ok cat' \<and> nudf_map cat' [98] = Some [50] \<and> nudf_map cat' [97] = Some [49]"
  using NUDFCreate_defines_name [of "[\<lparr>nudf_oid = 5, nudfname = [97], nudfsrc = [49]\<rparr>]" 7 "[98]" "\<lparr>nudf_query = [50]\<rparr>"]
  by (auto simp: catalog_ok_def nudf_map_def namestrcpy_def split: sum.splits)

text \<open>
  No run of \<open>CREATE NUDF\<close> is defined up to its end: it leaves with an error message, or without the library passes an
  indeterminate pointer to \<open>NUDFCreate\<close>, or with it writes the result of the Python code through an indeterminate
  pointer.
\<close>

lemma CreateNUDF_error_or_undefined:
  "\<exists>e. CreateNUDF creation_name lib py newOid cat stmt_funcname model_path = Inl e"
  by (cases "creation_name stmt_funcname"; cases lib; cases py)
    (simp_all add: CreateNUDF_def NUDFCreate_def create_inference_function_def)

section \<open>Replacing text\<close>

lemma strstr_Some:
  "strstr q src = Some p \<Longrightarrow> p + length src \<le> length q \<and> take (length src) (drop p q) = src"
proof (induction q arbitrary: p)
  case (Cons c q)
  show ?case
  proof (cases "take (length src) (c # q) = src")
    case True
    then have "length src \<le> length (c # q)" by (metis length_take min.cobounded2 min_def nat_le_linear)
    then show ?thesis using True Cons.prems by simp
  next
    case False
    then show ?thesis using Cons by (auto split: if_splits)
  qed
qed (simp split: if_splits)

lemma strstr_here: "take (length src) q = src \<Longrightarrow> strstr q src = Some 0"
  by (cases q) auto

lemma strstr_first:
  assumes "\<forall>p < length pre. take (length src) (drop p (pre @ src @ post)) \<noteq> src"
  shows "strstr (pre @ src @ post) src = Some (length pre)"
  using assms
proof (induction pre)
  case Nil
  show ?case by (simp add: strstr_here)
next
  case (Cons c pre)
  then have "take (length src) (c # pre @ src @ post) \<noteq> src" by (metis append_Cons drop0 length_greater_0_conv list.distinct(1))
  moreover have "strstr (pre @ src @ post) src = Some (length pre)" using Cons by (metis Suc_less_eq append_Cons drop_Suc_Cons length_Cons)
  ultimately show ?case by simp
qed

definition replace_first :: "cstr \<Rightarrow> cstr \<Rightarrow> cstr \<Rightarrow> cstr" where
  "replace_first q src dst =
     (case strstr q src of None \<Rightarrow> q | Some p \<Rightarrow> take p q @ [40] @ dst @ [41] @ drop (p + length src) q)"

lemma append_format_text:
  assumes "si_text s bs" "int (length bs + length msg) + 32 < MaxAllocSize"
  shows "\<exists>s'. append_format s msg = Inr s' \<and> si_text s' (bs @ msg)"
  using appendStringInfo_text [of s bs msg] assms by (auto simp: append_format_def si_text_def)

lemma StrReplace_eq:
  assumes q: "0 \<notin> set q" "0 \<notin> set dst" and sz: "int (length q + length dst) + 34 < MaxAllocSize"
  shows "StrReplace q src dst = Inr (replace_first q src dst)"
proof -
  obtain s0 where s0: "initStringInfo = Inr s0" "si_text s0 []" using initStringInfo_text by blast
  show ?thesis
  proof (cases "strstr q src")
    case None
    obtain s1 where "appendStringInfoString s0 q = Inr s1" "si_text s1 q"
      using appendString_text [of s0 "[]" q] s0(2) sz by (auto simp: si_text_def)
    with si_cstring_text [OF _ q(1)] show ?thesis by (simp add: StrReplace_def replace_first_def None s0(1))
  next
    case (Some p)
    have p: "p + length src \<le> length q" using strstr_Some [OF Some] by simp
    obtain s1 where s1: "appendBinaryStringInfo s0 q (int p) = Inr s1" "si_text s1 (take p q)"
      using appendBinary_text [of s0 "[]" "int p" q] s0(2) sz p by (auto simp: si_text_def)
    obtain s2 where s2: "append_format s1 ([40] @ dst @ [41]) = Inr s2" "si_text s2 (take p q @ [40] @ dst @ [41])"
      using append_format_text [OF s1(2), of "[40] @ dst @ [41]"] sz p by auto
    obtain s3 where s3: "appendStringInfoString s2 (drop (p + length src) q) = Inr s3"
      "si_text s3 ((take p q @ [40] @ dst @ [41]) @ drop (p + length src) q)"
      using appendString_text [of s2 "take p q @ [40] @ dst @ [41]" "drop (p + length src) q"] s2(2) sz p
      by (auto simp: si_text_def)
    have "0 \<notin> set ((take p q @ [40] @ dst @ [41]) @ drop (p + length src) q)"
      using q by (auto dest: in_set_takeD in_set_dropD)
    from si_cstring_text [OF s3(2) this] show ?thesis
      using Some s1(1) s2(1) s3(1) by (simp add: StrReplace_def replace_first_def s0(1))
  qed
qed

text \<open>
  \<open>StrReplace\<close> replaces the first occurrence, in parentheses, and leaves a text without one as it is.
\<close>

theorem StrReplace_first_occurrence:
  assumes q: "0 \<notin> set (pre @ src @ post)" "0 \<notin> set dst"
    and sz: "int (length (pre @ src @ post) + length dst) + 34 < MaxAllocSize"
    and first: "\<forall>p < length pre. take (length src) (drop p (pre @ src @ post)) \<noteq> src"
  shows "StrReplace (pre @ src @ post) src dst = Inr (pre @ [40] @ dst @ [41] @ post)"
  using StrReplace_eq [OF q sz] strstr_first [OF first] by (simp add: replace_first_def)

theorem StrReplace_first_occurrence_witness:
  "StrReplace [97, 98, 99, 98] [98] [120, 121] = Inr [97, 40, 120, 121, 41, 99, 98]"
  using StrReplace_first_occurrence [of "[97]" "[98]" "[99, 98]" "[120, 121]"] by simp

section \<open>Texts built field by field\<close>

text \<open>
  A routine that appends to a text: what it appends may depend on what is already there, and its
  length is bounded by a cost. A loop over such a routine builds the text step by step.
\<close>

locale text_sink =
  fixes put :: "'x \<Rightarrow> StringInfoData \<Rightarrow> StringInfoData result"
    and ok :: "'x \<Rightarrow> bool"
    and grow :: "'x \<Rightarrow> cstr \<Rightarrow> cstr"
    and cost :: "'x \<Rightarrow> nat"
  assumes put_text: "ok x \<Longrightarrow> si_text s bs \<Longrightarrow> int (length bs + cost x) + 34 < MaxAllocSize \<Longrightarrow>
      \<exists>s'. put x s = Inr s' \<and> si_text s' (grow x bs)"
    and grow_length: "ok x \<Longrightarrow> length (grow x bs) \<le> length bs + cost x"
begin

lemma foldR_text:
  assumes "\<forall>x \<in> set xs. ok x" "si_text s bs" "int (length bs + sum_list (map cost xs)) + 34 < MaxAllocSize"
  shows "\<exists>s'. foldR put xs s = Inr s' \<and> si_text s' (fold grow xs bs)"
  using assms
proof (induction xs arbitrary: s bs)
  case (Cons x xs)
  obtain s1 where s1: "put x s = Inr s1" "si_text s1 (grow x bs)"
    using put_text [of x s bs] Cons.prems by auto
  have "int (length (grow x bs) + sum_list (map cost xs)) + 34 < MaxAllocSize"
    using grow_length [of x bs] Cons.prems(1,3) by simp
  then show ?case using Cons.IH [OF _ s1(2)] Cons.prems(1) s1(1) by simp
qed simp

end

text \<open>The text of a column reference: the named fields, separated by dots.\<close>

definition put_field :: "field \<Rightarrow> StringInfoData \<Rightarrow> StringInfoData result" where
  "put_field f str = (case f of
     String_field sval \<Rightarrow>
       bindR (if si_len str > 0 then appendStringInfoChar str 46 else Inr str) (\<lambda>str. appendStringInfoString str sval)
   | A_Star \<Rightarrow> Inr str)"

fun grow_field :: "field \<Rightarrow> cstr \<Rightarrow> cstr" where
  "grow_field (String_field v) bs = (if bs = [] then v else bs @ [46] @ v)"
| "grow_field A_Star bs = bs"

fun field_cost :: "field \<Rightarrow> nat" where
  "field_cost (String_field v) = Suc (length v)"
| "field_cost A_Star = 0"

definition column_text :: "field list \<Rightarrow> cstr" where
  "column_text flds = fold grow_field flds []"

lemma put_field_text:
  assumes "si_text s bs" "int (length bs + field_cost f) + 34 < MaxAllocSize"
  shows "\<exists>s'. put_field f s = Inr s' \<and> si_text s' (grow_field f bs)"
proof (cases f)
  case (String_field v)
  have h: "si_holds s bs" using assms(1) by (simp add: si_text_def)
  obtain s1 where s1: "(if si_len s > 0 then appendStringInfoChar s 46 else Inr s) = Inr s1"
    "si_text s1 (if bs = [] then [] else bs @ [46])"
    using appendChar_text [OF h, of 46] si_holdsD(1) [OF h] assms String_field by (cases bs) auto
  then show ?thesis
    using appendString_text [of s1 "if bs = [] then [] else bs @ [46]" v] assms(2) String_field
    by (auto simp: put_field_def si_text_def split: if_splits)
qed (use assms in \<open>simp add: put_field_def\<close>)

interpretation column: text_sink put_field "\<lambda>_. True" grow_field field_cost
proof
  show "length (grow_field x bs) \<le> length bs + field_cost x" for x bs by (cases x) simp_all
qed (rule put_field_text)

lemma column_text_nonzero:
  assumes "\<forall>v. String_field v \<in> set flds \<longrightarrow> 0 \<notin> set v"
  shows "0 \<notin> set (column_text flds)"
proof -
  have "0 \<notin> set (fold grow_field flds bs)" if "0 \<notin> set bs" for bs
    using assms that
  proof (induction flds arbitrary: bs)
    case (Cons f flds)
    have "0 \<notin> set (grow_field f bs)" using Cons.prems by (cases f) auto
    then show ?case using Cons by simp
  qed simp
  then show ?thesis by (simp add: column_text_def)
qed

lemma ColumnRefToString_text:
  assumes nz: "\<forall>v. String_field v \<in> set flds \<longrightarrow> 0 \<notin> set v" and sz: "int (sum_list (map field_cost flds)) + 34 < MaxAllocSize"
  shows "ColumnRefToString flds = Inr (column_text flds)"
proof -
  obtain s0 where s0: "initStringInfo = Inr s0" "si_text s0 []" using initStringInfo_text by blast
  obtain s1 where s1: "foldR put_field flds s0 = Inr s1" "si_text s1 (column_text flds)"
    using column.foldR_text [OF _ s0(2), of flds] sz by (auto simp: column_text_def)
  have "0 \<notin> set (column_text flds)" using column_text_nonzero [OF nz] .
  then show ?thesis
    using s1 si_cstring_text [OF s1(2)]
    by (simp add: ColumnRefToString_def s0(1) put_field_def [abs_def] column_text_def)
qed

text \<open>For names that are not empty this is the usual qualified name.\<close>

fun dotted :: "cstr list \<Rightarrow> cstr" where
  "dotted [] = []"
| "dotted [v] = v"
| "dotted (v # vs) = v @ [46] @ dotted vs"

lemma dotted_column:
  assumes "[] \<notin> set vs"
  shows "sum_list (map field_cost (map String_field vs)) \<le> Suc (length (dotted vs))" "set (concat vs) \<subseteq> set (dotted vs)"
  by (induction vs rule: dotted.induct) auto

lemma column_text_dotted:
  assumes "[] \<notin> set vs"
  shows "column_text (map String_field vs) = dotted vs"
proof -
  have "fold grow_field (map String_field vs) bs = (if vs = [] then bs else bs @ [46] @ dotted vs)"
    if "[] \<notin> set vs" "bs \<noteq> []" for vs bs
    using that
  proof (induction vs arbitrary: bs rule: dotted.induct)
    case (3 v w vs)
    then show ?case using "3.IH" [of "bs @ [46] @ v"] by simp
  qed simp_all
  note step = this
  show ?thesis
  proof (cases vs rule: dotted.cases)
    case (3 v w ws)
    then show ?thesis using step [of "w # ws" v] assms by (auto simp: column_text_def)
  qed (simp_all add: column_text_def)
qed

fun column_ok :: "node \<Rightarrow> bool" where
  "column_ok (ColumnRef flds) \<longleftrightarrow>
     (\<forall>v. String_field v \<in> set flds \<longrightarrow> 0 \<notin> set v) \<and> int (sum_list (map field_cost flds)) + 34 < MaxAllocSize"
| "column_ok _ \<longleftrightarrow> False"

fun arg_text :: "node \<Rightarrow> cstr" where
  "arg_text (ColumnRef flds) = column_text flds"
| "arg_text _ = []"

definition put_arg :: "node \<Rightarrow> StringInfoData \<Rightarrow> StringInfoData result" where
  "put_arg expr arg_strs = (case expr of
     ColumnRef flds \<Rightarrow> bindR (ColumnRefToString flds) (\<lambda>arg_str. appendStringInfoString arg_strs arg_str)
   | _ \<Rightarrow> Inl (Undefined Uninitialised))"

lemma put_arg_text:
  assumes "column_ok e" "si_text s bs" "int (length bs + length (arg_text e)) + 34 < MaxAllocSize"
  shows "\<exists>s'. put_arg e s = Inr s' \<and> si_text s' (bs @ arg_text e)"
  using assms appendString_text [of s bs "arg_text e"] ColumnRefToString_text
  by (cases e) (auto simp: put_arg_def si_text_def)

interpretation args: text_sink put_arg column_ok "\<lambda>e bs. bs @ arg_text e" "\<lambda>e. length (arg_text e)"
  by unfold_locales (use put_arg_text in auto)

lemma arg_text_nonzero: "column_ok e \<Longrightarrow> 0 \<notin> set (arg_text e)"
  using column_text_nonzero by (cases e) auto

lemma arg_strings_text:
  assumes ok: "\<forall>e \<in> set es. column_ok e" and sz: "int (sum_list (map (length \<circ> arg_text) es)) + 34 < MaxAllocSize"
  shows "arg_strings es = Inr (concat (map arg_text es))"
proof -
  obtain s0 where s0: "initStringInfo = Inr s0" "si_text s0 []" using initStringInfo_text by blast
  have f: "fold (\<lambda>e bs. bs @ arg_text e) es bs = bs @ concat (map arg_text es)" for bs
    by (induction es arbitrary: bs) auto
  obtain s1 where s1: "foldR put_arg es s0 = Inr s1" "si_text s1 (concat (map arg_text es))"
    using args.foldR_text [OF ok s0(2)] sz f [of "[]"] by (auto simp: comp_def)
  have "0 \<notin> set (concat (map arg_text es))" using ok arg_text_nonzero by auto
  from si_cstring_text [OF s1(2) this] show ?thesis
    using s1(1) by (simp add: arg_strings_def s0(1) put_arg_def [abs_def])
qed

fun is_column :: "node \<Rightarrow> bool" where
  "is_column (ColumnRef flds) \<longleftrightarrow> True"
| "is_column _ \<longleftrightarrow> False"

lemma arg_strings_other:
  assumes ok: "\<forall>e \<in> set es. is_column e \<longrightarrow> column_ok e" and sz: "int (sum_list (map (length \<circ> arg_text) es)) + 34 < MaxAllocSize"
    and other: "\<not> list_all is_column es"
  shows "arg_strings es = Inl (Undefined Uninitialised)"
proof -
  obtain cols e rest where es: "es = cols @ e # rest" "\<forall>c \<in> set cols. is_column c" "\<not> is_column e"
    using other split_list_first_prop [of es "\<lambda>e. \<not> is_column e"] by (auto simp: list_all_iff)
  obtain s0 where s0: "initStringInfo = Inr s0" "si_text s0 []" using initStringInfo_text by blast
  have c: "\<forall>c \<in> set cols. column_ok c" using ok es by auto
  obtain s1 where "foldR put_arg cols s0 = Inr s1"
    using args.foldR_text [OF c s0(2)] sz es(1) by (auto simp: comp_def)
  moreover have "put_arg e st = Inl (Undefined Uninitialised)" for st using es(3) by (cases e) (simp_all add: put_arg_def)
  ultimately have "foldR put_arg es s0 = Inl (Undefined Uninitialised)" by (simp add: es(1) foldR_append)
  then show ?thesis by (simp add: arg_strings_def s0(1) put_arg_def [abs_def])
qed

section \<open>The calls a walk visits\<close>

text \<open>
  The outermost function calls of a tree, in order. The walk does not enter the arguments of a call.
\<close>

fun outer_calls :: "node \<Rightarrow> (cstr list \<times> node list) list" where
  "outer_calls (FuncCall funcname args) = [(funcname, args)]"
| "outer_calls (ColumnRef flds) = []"
| "outer_calls (SelectStmt subs) = concat (map outer_calls subs)"
| "outer_calls (OtherNode subs) = concat (map outer_calls subs)"
| "outer_calls (ExplainStmt q) = []"
| "outer_calls (CreateNUDFStmt names) = []"

fun expression :: "node \<Rightarrow> bool" where
  "expression (FuncCall funcname args) = True"
| "expression (ColumnRef flds) = True"
| "expression (SelectStmt subs) = list_all expression subs"
| "expression (OtherNode subs) = list_all expression subs"
| "expression (ExplainStmt q) = False"
| "expression (CreateNUDFStmt names) = False"

fun first_call :: "cstr \<Rightarrow> pg_nudf list \<Rightarrow> (cstr list \<times> node list) list \<Rightarrow> NUDFContext \<Rightarrow> (bool \<times> NUDFContext) result" where
  "first_call dbname cat [] context = Inr (False, context)"
| "first_call dbname cat ((funcname, args) # calls) context =
     bindR (visit_call dbname cat funcname args context) (\<lambda>(found, context).
       if found then Inr (True, context) else first_call dbname cat calls context)"

lemma first_call_append:
  "first_call dbname cat (xs @ ys) ctx =
     bindR (first_call dbname cat xs ctx) (\<lambda>(found, ctx). if found then Inr (True, ctx) else first_call dbname cat ys ctx)"
  by (induction xs arbitrary: ctx) (auto simp: bindR_assoc intro!: bindR_cong split: prod.splits)

lemma walker_first_call:
  "expression n \<Longrightarrow> findFuncCallWalker dbname cat n ctx = first_call dbname cat (outer_calls n) ctx"
  "list_all expression ns \<Longrightarrow> raw_expression_tree_walker dbname cat ns ctx = first_call dbname cat (concat (map outer_calls ns)) ctx"
proof (induction dbname cat n ctx and dbname cat ns ctx rule: findFuncCallWalker_raw_expression_tree_walker.induct)
  case (1 dbname cat funcname args ctx)
  have "bindR m (\<lambda>(found, c). if found then Inr (True, c) else first_call dbname cat [] c) = m" for m :: "(bool \<times> NUDFContext) result"
    by (cases m) (auto simp: bindR_def split: prod.splits)
  then show ?case by simp
next
  case (8 dbname cat n ns ctx)
  then show ?case by (auto simp: first_call_append intro!: bindR_cong)
qed simp_all

text \<open>
  The walk of a statement tries the outermost calls from left to right and stops at the first that
  names a neural function.
\<close>

theorem walker_visits_outer_calls:
  assumes "list_all expression subs"
  shows "raw_expression_tree_walker dbname cat subs ctx = first_call dbname cat (concat (map outer_calls subs)) ctx"
  using assms by (rule walker_first_call(2))

section \<open>Rewriting a statement\<close>

lemma ParseNUDF_local:
  assumes "catalog_ok cat"
  shows "ParseNUDF dbname cat [name] = Inr (map_option (\<lambda>src. (name, src)) (nudf_map cat name))"
proof -
  have ok: "\<forall>r \<in> set cat. length (nudfname r) < NAMEDATALEN" using assms by (simp add: catalog_ok_def)
  show ?thesis
    by (cases "SearchSysCache_NUDFNAME cat name")
      (simp_all add: ParseNUDF_def DeconstructQualifiedName_def flip: SearchSysCache_map [OF ok])
qed

lemma ParseNUDF_qualified:
  assumes "catalog_ok cat"
  shows "ParseNUDF dbname cat [schema, name] = ParseNUDF dbname cat [name]"
  by (simp add: ParseNUDF_def DeconstructQualifiedName_def)

lemma visit_unknown:
  "ParseNUDF dbname cat funcname = Inr None \<Longrightarrow> visit_call dbname cat funcname args ctx = Inr (False, ctx)"
  by (simp add: visit_call_def)

lemma first_call_found:
  assumes before: "\<forall>(f, a) \<in> set before. ParseNUDF dbname cat f = Inr None"
    and name: "ParseNUDF dbname cat funcname = Inr (Some (name, src))" and args: "arg_strings args = Inr text"
  shows "first_call dbname cat (before @ (funcname, args) # after) ctx =
    Inr (True, \<lparr>ctx_name = Some name, ctx_query = Some src, ctx_args = Some text\<rparr>)"
proof -
  have "first_call dbname cat before ctx = Inr (False, ctx)"
    using before by (induction before) (auto simp: visit_unknown)
  then show ?thesis using name args by (simp add: first_call_append visit_call_def)
qed

lemma aqua_select_parser_found:
  assumes subs: "list_all expression subs" "concat (map outer_calls subs) = before @ (funcname, args) # after"
    and before: "\<forall>(f, a) \<in> set before. ParseNUDF dbname cat f = Inr None"
    and name: "ParseNUDF dbname cat funcname = Inr (Some (name, src))" and args: "arg_strings args = Inr text"
    and nz: "0 \<notin> set name" "0 \<notin> set text" "0 \<notin> set src" "0 \<notin> set q"
    and sz: "int (length name + length text) + 34 < MaxAllocSize" "int (length q + length src) + 34 < MaxAllocSize"
  shows "aqua_select_parser dbname cat subs q = Inr (Some (replace_first q (name @ [40] @ text @ [41]) src))"
proof -
  obtain s0 where s0: "initStringInfo = Inr s0" "si_text s0 []" using initStringInfo_text by blast
  obtain s1 where s1: "append_format s0 (name @ [40] @ text @ [41]) = Inr s1" "si_text s1 (name @ [40] @ text @ [41])"
    using append_format_text [OF s0(2), of "name @ [40] @ text @ [41]"] sz(1) by auto
  have "0 \<notin> set (name @ [40] @ text @ [41])" using nz by simp
  note c = si_cstring_text [OF s1(2) this]
  show ?thesis
    using first_call_found [OF before name args] StrReplace_eq [OF nz(4,3) sz(2)] s1(1) c
    by (simp add: aqua_select_parser_def walker_first_call(2) [OF subs(1)] subs(2) s0(1))
qed

lemma ParseNUDF_last:
  assumes "catalog_ok cat" "length f = 1 \<or> length f = 2"
  shows "ParseNUDF dbname cat f = Inr (map_option (\<lambda>src. (last f, src)) (nudf_map cat (last f)))"
proof (cases "length f = 1")
  case True
  then obtain n where "f = [n]" by (auto simp: length_Suc_conv)
  then show ?thesis by (simp add: ParseNUDF_local [OF assms(1)])
next
  case False
  then obtain n n' where "f = [n, n']" using assms(2) by (auto simp: length_Suc_conv numeral_2_eq_2)
  then show ?thesis by (simp add: ParseNUDF_qualified [OF assms(1)] ParseNUDF_local [OF assms(1)])
qed

lemma ParseNUDF_unknown:
  assumes "catalog_ok cat" "length f = 1 \<or> length f = 2" "nudf_map cat (last f) = None"
  shows "ParseNUDF dbname cat f = Inr None"
  using ParseNUDF_last [OF assms(1,2)] assms(3) by simp

lemma aqua_parser_select:
  assumes "raw_parser q = Inr (stmt # rest)" "stmt = SelectStmt subs \<or> stmt = ExplainStmt (SelectStmt subs)"
    and "aqua_select_parser dbname cat subs q = Inr (Some q')"
  shows "aqua_parser raw_parser creation_name dbname cat q = raw_parser q'"
  using assms by (auto simp: aqua_parser_def pg_parse_query_def)

lemma aqua_parser_calls:
  assumes cat: "catalog_ok cat"
    and stmt: "raw_parser q = Inr (stmt # rest)" "stmt = SelectStmt subs \<or> stmt = ExplainStmt (SelectStmt subs)"
    and subs: "list_all expression subs" "concat (map outer_calls subs) = before @ (funcname, args) # after"
    and before: "\<forall>(f, a) \<in> set before. (length f = 1 \<or> length f = 2) \<and> nudf_map cat (last f) = None"
    and name: "nudf_map cat name = Some src" "length funcname = 1 \<or> length funcname = 2" "last funcname = name"
    and args: "\<forall>e \<in> set args. column_ok e"
    and nz: "0 \<notin> set name" "0 \<notin> set src" "0 \<notin> set q"
    and sz: "int (length name + sum_list (map (length \<circ> arg_text) args)) + 34 < MaxAllocSize"
      "int (length q + length src) + 34 < MaxAllocSize"
  shows "aqua_parser raw_parser creation_name dbname cat q =
    raw_parser (replace_first q (name @ [40] @ concat (map arg_text args) @ [41]) src)"
proof -
  have b: "\<forall>(f, a) \<in> set before. ParseNUDF dbname cat f = Inr None"
    using before ParseNUDF_unknown [OF cat] by blast
  have n: "ParseNUDF dbname cat funcname = Inr (Some (name, src))" using name by (simp add: ParseNUDF_last [OF cat])
  have t: "arg_strings args = Inr (concat (map arg_text args))" using sz(1) by (intro arg_strings_text [OF args]) simp
  have z: "0 \<notin> set (concat (map arg_text args))" using arg_text_nonzero args by auto
  have l: "int (length name + length (concat (map arg_text args))) + 34 < MaxAllocSize"
    using sz(1) by (simp add: length_concat comp_def)
  from aqua_select_parser_found [OF subs b n t nz(1) z nz(2,3) l sz(2)] show ?thesis
    by (rule aqua_parser_select [where raw_parser = raw_parser, OF stmt])
qed

lemma aqua_parser_unchanged:
  assumes cat: "catalog_ok cat"
    and stmt: "raw_parser q = Inr (stmt # rest)" "stmt = SelectStmt subs \<or> stmt = ExplainStmt (SelectStmt subs)"
    and subs: "list_all expression subs"
    and calls: "\<forall>(f, a) \<in> set (concat (map outer_calls subs)). (length f = 1 \<or> length f = 2) \<and> nudf_map cat (last f) = None"
  shows "aqua_parser raw_parser creation_name dbname cat q = raw_parser q"
proof -
  have "first_call dbname cat cs ctx = Inr (False, ctx)" if "\<forall>(f, a) \<in> set cs. ParseNUDF dbname cat f = Inr None" for cs ctx
    using that by (induction cs) (auto simp: visit_unknown)
  moreover have "\<forall>(f, a) \<in> set (concat (map outer_calls subs)). ParseNUDF dbname cat f = Inr None"
    using calls ParseNUDF_unknown [OF cat] by blast
  ultimately have "aqua_select_parser dbname cat subs q = Inr None"
    by (simp add: aqua_select_parser_def walker_first_call(2) [OF subs])
  then show ?thesis using stmt by (auto simp: aqua_parser_def pg_parse_query_def)
qed

lemma aqua_parser_other_argument:
  assumes cat: "catalog_ok cat"
    and stmt: "raw_parser q = Inr (stmt # rest)" "stmt = SelectStmt subs \<or> stmt = ExplainStmt (SelectStmt subs)"
    and subs: "list_all expression subs" "concat (map outer_calls subs) = before @ (funcname, args) # after"
    and before: "\<forall>(f, a) \<in> set before. (length f = 1 \<or> length f = 2) \<and> nudf_map cat (last f) = None"
    and name: "nudf_map cat (last funcname) = Some src" "length funcname = 1 \<or> length funcname = 2"
    and args: "arg_strings args = Inl e"
  shows "aqua_parser raw_parser creation_name dbname cat q = Inl e"
proof -
  have "\<forall>(f, a) \<in> set before. ParseNUDF dbname cat f = Inr None" using before ParseNUDF_unknown [OF cat] by blast
  then have "first_call dbname cat before ctx = Inr (False, ctx)" for ctx by (induction before) (auto simp: visit_unknown)
  then have "first_call dbname cat (before @ (funcname, args) # after) ctx = Inl e" for ctx
    using name args by (simp add: first_call_append visit_call_def ParseNUDF_last [OF cat])
  then have "aqua_select_parser dbname cat subs q = Inl e"
    by (simp add: aqua_select_parser_def walker_first_call(2) [OF subs(1)] subs(2))
  then show ?thesis using stmt by (auto simp: aqua_parser_def)
qed

lemma find_split:
  "find P xs = Some x \<Longrightarrow> \<exists>before after. xs = before @ x # after \<and> P x \<and> (\<forall>y \<in> set before. \<not> P y)"
proof (induction xs)
  case (Cons y xs)
  show ?case
  proof (cases "P y")
    case True
    then have "y # xs = [] @ x # xs \<and> P x \<and> (\<forall>y \<in> set []. \<not> P y)" using Cons.prems by simp
    then show ?thesis by blast
  next
    case False
    then obtain before after where "xs = before @ x # after" "P x" "\<forall>y \<in> set before. \<not> P y" using Cons by auto
    then have "y # xs = (y # before) @ x # after \<and> P x \<and> (\<forall>z \<in> set (y # before). \<not> P z)" using False by simp
    then show ?thesis by blast
  qed
qed simp

lemma strstr_None: "(\<forall>pre post. q \<noteq> pre @ src @ post) \<Longrightarrow> strstr q src = None"
  using strstr_Some [of q src] by (metis append_take_drop_id not_None_eq)

text \<open>
  What the hook makes of a statement whose calls are \<open>calls\<close>: the text of the first call that names a neural function
  is rebuilt from its unqualified name and its columns, without separators, and searched for in the statement.
\<close>

definition call_text :: "cstr list \<Rightarrow> node list \<Rightarrow> cstr" where
  "call_text funcname args = last funcname @ [40] @ concat (map arg_text args) @ [41]"

definition first_occurrence :: "cstr \<Rightarrow> cstr \<Rightarrow> cstr \<Rightarrow> cstr \<Rightarrow> bool" where
  "first_occurrence text q pre post \<longleftrightarrow>
     q = pre @ text @ post \<and> (\<forall>p < length pre. take (length text) (drop p q) \<noteq> text)"

definition call_fits :: "(cstr list \<times> node list) \<Rightarrow> bool" where
  "call_fits call = (case call of (f, args) \<Rightarrow> (length f = 1 \<or> length f = 2) \<and> 0 \<notin> set (last f)
     \<and> (\<forall>e \<in> set args. is_column e \<longrightarrow> column_ok e)
     \<and> int (length (last f) + sum_list (map (length \<circ> arg_text) args)) + 34 < MaxAllocSize)"

text \<open>
  C7: What the parser hook makes of a SELECT or EXPLAIN statement. When no outermost call has a name in the catalogue
  the statement is parsed as it is. Otherwise the first such call decides, its schema being ignored: an argument that is
  not a column makes the hook read an indeterminate pointer; with columns only, the first place where the text
  \<open>name(columns)\<close>, the columns joined without separators, occurs in the statement is replaced by the stored query in
  parentheses before parsing, wherever that place is, and a statement without such a place is parsed as it is.
\<close>

theorem aqua_parser_rewrites_call:
  assumes cat: "catalog_ok cat" "\<forall>r \<in> set cat. 0 \<notin> set (nudfsrc r) \<and> int (length q + length (nudfsrc r)) + 34 < MaxAllocSize"
    and stmt: "raw_parser q = Inr (stmt # rest)" "stmt = SelectStmt subs \<or> stmt = ExplainStmt (SelectStmt subs)"
    and subs: "list_all expression subs" "\<forall>call \<in> set (concat (map outer_calls subs)). call_fits call"
    and q: "0 \<notin> set q"
  shows "case find (\<lambda>(f, args). nudf_map cat (last f) \<noteq> None) (concat (map outer_calls subs)) of
      None \<Rightarrow> aqua_parser raw_parser creation_name dbname cat q = raw_parser q
    | Some (f, args) \<Rightarrow>
        if list_all is_column args
        then (\<forall>pre post src. first_occurrence (call_text f args) q pre post \<longrightarrow> nudf_map cat (last f) = Some src \<longrightarrow>
                aqua_parser raw_parser creation_name dbname cat q = raw_parser (pre @ [40] @ src @ [41] @ post))
           \<and> ((\<forall>pre post. q \<noteq> pre @ call_text f args @ post) \<longrightarrow>
                aqua_parser raw_parser creation_name dbname cat q = raw_parser q)
        else aqua_parser raw_parser creation_name dbname cat q = Inl (Undefined Uninitialised)"
proof (cases "find (\<lambda>(f, args). nudf_map cat (last f) \<noteq> None) (concat (map outer_calls subs))")
  case None
  then have "\<forall>(f, a) \<in> set (concat (map outer_calls subs)). (length f = 1 \<or> length f = 2) \<and> nudf_map cat (last f) = None"
    using subs(2) by (force simp: find_None_iff call_fits_def)
  with None show ?thesis using aqua_parser_unchanged [where raw_parser = raw_parser, OF cat(1) stmt subs(1)] by simp
next
  case (Some call)
  obtain f args where call: "call = (f, args)" by (cases call)
  from find_split [OF Some [unfolded call]] obtain before after where
    c: "concat (map outer_calls subs) = before @ (f, args) # after" "nudf_map cat (last f) \<noteq> None"
      "\<forall>(f, a) \<in> set before. nudf_map cat (last f) = None" by (auto simp del: not_None_eq)
  then obtain src where name: "nudf_map cat (last f) = Some src" by blast
  have fit: "call_fits (f, args)" "\<forall>b \<in> set before. call_fits b" using subs(2) unfolding c(1) by simp_all
  have before: "\<forall>(f, a) \<in> set before. (length f = 1 \<or> length f = 2) \<and> nudf_map cat (last f) = None"
    using c(3) fit(2) by (auto simp: call_fits_def)
  have f: "length f = 1 \<or> length f = 2" "0 \<notin> set (last f)" "\<forall>e \<in> set args. is_column e \<longrightarrow> column_ok e"
    "int (length (last f) + sum_list (map (length \<circ> arg_text) args)) + 34 < MaxAllocSize" using fit(1) by (simp_all add: call_fits_def)
  have src: "0 \<notin> set src" "int (length q + length src) + 34 < MaxAllocSize"
    using cat(2) map_of_SomeD [OF name [unfolded nudf_map_def]] by auto
  have cols: "aqua_parser raw_parser creation_name dbname cat q = raw_parser (replace_first q (call_text f args) src)"
    if "list_all is_column args"
  proof -
    have "\<forall>e \<in> set args. column_ok e" using that f(3) by (simp add: list_all_iff)
    from aqua_parser_calls [where raw_parser = raw_parser, OF cat(1) stmt subs(1) c(1) before name f(1) refl this f(2) src(1) q f(4) src(2)]
    show ?thesis by (simp add: call_text_def)
  qed
  show ?thesis
  proof (cases "list_all is_column args")
    case True
    have "replace_first q (call_text f args) src = pre @ [40] @ src @ [41] @ post"
      if "first_occurrence (call_text f args) q pre post" for pre post
    proof -
      have e: "q = pre @ call_text f args @ post" using that unfolding first_occurrence_def by blast
      have "\<forall>p < length pre. take (length (call_text f args)) (drop p (pre @ call_text f args @ post)) \<noteq> call_text f args"
        using that e unfolding first_occurrence_def by metis
      from strstr_first [OF this] show ?thesis by (simp add: replace_first_def e)
    qed
    moreover have "replace_first q (call_text f args) src = q" if "\<forall>pre post. q \<noteq> pre @ call_text f args @ post"
      using strstr_None [OF that] by (simp add: replace_first_def)
    ultimately show ?thesis using Some call True cols [OF True] name by auto
  next
    case False
    have "int (sum_list (map (length \<circ> arg_text) args)) + 34 < MaxAllocSize" using f(4) by simp
    from aqua_parser_other_argument [where raw_parser = raw_parser, OF cat(1) stmt subs(1) c(1) before name f(1)
        arg_strings_other [OF f(3) this False]] show ?thesis using Some call False by simp
  qed
qed

theorem aqua_parser_rewrites_call_witness:
  "aqua_parser (\<lambda>t. if t = [83, 97, 40, 98, 41] then Inr [SelectStmt [FuncCall [[97]] [ColumnRef [String_field [98]]]]]
                    else if t = [83, 40, 49, 41] then Inr [SelectStmt []] else Inl (Elog ''syntax error''))
     (\<lambda>_. Inr []) [100] [\<lparr>nudf_oid = 5, nudfname = [97], nudfsrc = [49]\<rparr>] [83, 97, 40, 98, 41] = Inr [SelectStmt []]"
proof -
  let ?q = "[83, 97, 40, 98, 41] :: cstr"
  let ?parse = "\<lambda>t :: cstr. if t = [83, 97, 40, 98, 41] then Inr [SelectStmt [FuncCall [[97]] [ColumnRef [String_field [98]]]]]
      else if t = [83, 40, 49, 41] then Inr [SelectStmt []] else Inl (Elog ''syntax error'')"
  let ?cat = "[\<lparr>nudf_oid = 5, nudfname = [97], nudfsrc = [49]\<rparr>]"
  have t: "call_text [[97]] [ColumnRef [String_field [98]]] = [97, 40, 98, 41]" by (simp add: call_text_def column_text_def)
  have l: "list_all is_column [ColumnRef [String_field [98]]]" by simp
  let ?call = "([[97]], [ColumnRef [String_field [98]]]) :: cstr list \<times> node list"
  have first: "first_occurrence [97, 40, 98, 41] ?q [83] []" by (simp add: first_occurrence_def)
  have c: "concat (map outer_calls [FuncCall [[97]] [ColumnRef [String_field [98]]]]) = [?call]"
    "find (\<lambda>(f, args). nudf_map ?cat (last f) \<noteq> None) [?call] = Some ?call" "nudf_map ?cat (last [[97]]) = Some [49]"
    by (simp_all add: nudf_map_def)
  have cat: "catalog_ok ?cat" "\<forall>r \<in> set ?cat. 0 \<notin> set (nudfsrc r) \<and> int (length ?q + length (nudfsrc r)) + 34 < MaxAllocSize"
    by (simp_all add: catalog_ok_def)
  have fits: "\<forall>call \<in> set (concat (map outer_calls [FuncCall [[97]] [ColumnRef [String_field [98]]]])). call_fits call"
    by (simp add: call_fits_def column_text_def)
  have "case Some ?call of None \<Rightarrow> aqua_parser ?parse (\<lambda>_. Inr []) [100] ?cat ?q = ?parse ?q
    | Some (f, args) \<Rightarrow>
        if list_all is_column args
        then (\<forall>pre post src. first_occurrence (call_text f args) ?q pre post \<longrightarrow> nudf_map ?cat (last f) = Some src \<longrightarrow>
                aqua_parser ?parse (\<lambda>_. Inr []) [100] ?cat ?q = ?parse (pre @ [40] @ src @ [41] @ post))
           \<and> ((\<forall>pre post. ?q \<noteq> pre @ call_text f args @ post) \<longrightarrow>
                aqua_parser ?parse (\<lambda>_. Inr []) [100] ?cat ?q = ?parse ?q)
        else aqua_parser ?parse (\<lambda>_. Inr []) [100] ?cat ?q = Inl (Undefined Uninitialised)"
    by (rule aqua_parser_rewrites_call [where raw_parser = ?parse, OF cat _ disjI1 [OF refl] _ fits, unfolded c(1,2)]) simp_all
  then have "aqua_parser ?parse (\<lambda>_. Inr []) [100] ?cat ?q = ?parse ([83] @ [40] @ [49] @ [41] @ [])"
    using first c(3) unfolding option.case prod.case t if_P [OF l] by blast
  then show ?thesis by simp
qed

text \<open>
  The place replaced need not be the call: in \<open>SELECT myf(a), f(a)\<close>, where \<open>f\<close> is neural and \<open>myf\<close> is not, it is the end
  of \<open>myf(a)\<close>, and of \<open>SELECT s.f(a)\<close> the schema and the dot remain before the inserted query.
\<close>

theorem rewrite_hits_longer_name:
  assumes parse: "raw_parser [83, 69, 76, 69, 67, 84, 32, 109, 121, 102, 40, 97, 41, 44, 32, 102, 40, 97, 41]
      = Inr [SelectStmt [FuncCall [[109, 121, 102]] [ColumnRef [String_field [97]]], FuncCall [[102]] [ColumnRef [String_field [97]]]]]"
    and src: "0 \<notin> set src" "int (length src) + 60 < MaxAllocSize"
  shows "aqua_parser raw_parser creation_name dbname [\<lparr>nudf_oid = 5, nudfname = [102], nudfsrc = src\<rparr>]
      [83, 69, 76, 69, 67, 84, 32, 109, 121, 102, 40, 97, 41, 44, 32, 102, 40, 97, 41]
    = raw_parser ([83, 69, 76, 69, 67, 84, 32, 109, 121, 40] @ src @ [41, 44, 32, 102, 40, 97, 41])"
  using aqua_parser_calls [where raw_parser = raw_parser and cat = "[\<lparr>nudf_oid = 5, nudfname = [102], nudfsrc = src\<rparr>]", OF _ parse,
      of _ "[([109, 121, 102] # [], [ColumnRef [String_field [97]]])]" "[[102]]" "[ColumnRef [String_field [97]]]" "[]" "[102]" src] src
  by (simp add: catalog_ok_def nudf_map_def replace_first_def column_text_def)

theorem rewrite_keeps_schema:
  assumes parse: "raw_parser [83, 69, 76, 69, 67, 84, 32, 115, 46, 102, 40, 97, 41]
      = Inr [SelectStmt [FuncCall [[115], [102]] [ColumnRef [String_field [97]]]]]"
    and src: "0 \<notin> set src" "int (length src) + 60 < MaxAllocSize"
  shows "aqua_parser raw_parser creation_name dbname [\<lparr>nudf_oid = 5, nudfname = [102], nudfsrc = src\<rparr>]
      [83, 69, 76, 69, 67, 84, 32, 115, 46, 102, 40, 97, 41]
    = raw_parser ([83, 69, 76, 69, 67, 84, 32, 115, 46, 40] @ src @ [41])"
  using aqua_parser_calls [where raw_parser = raw_parser and cat = "[\<lparr>nudf_oid = 5, nudfname = [102], nudfsrc = src\<rparr>]", OF _ parse,
      of _ "[]" "[[115], [102]]" "[ColumnRef [String_field [97]]]" "[]" "[102]" src] src
  by (simp add: catalog_ok_def nudf_map_def replace_first_def column_text_def)

text \<open>
  The text searched for joins the arguments without a separator, so a call with two columns is left
  as it is in a statement that does not happen to contain the joined text.
\<close>

theorem two_argument_call_not_rewritten:
  assumes cat: "catalog_ok cat"
    and stmt: "raw_parser q = Inr (stmt # rest)" "stmt = SelectStmt subs \<or> stmt = ExplainStmt (SelectStmt subs)"
    and subs: "list_all expression subs"
      "concat (map outer_calls subs) = before @ ([name], [ColumnRef [String_field ca], ColumnRef [String_field cb]]) # after"
    and before: "\<forall>(f, a) \<in> set before. (length f = 1 \<or> length f = 2) \<and> nudf_map cat (last f) = None"
    and name: "nudf_map cat name = Some src"
    and absent: "strstr q (name @ [40] @ ca @ cb @ [41]) = None"
    and nz: "0 \<notin> set q" "0 \<notin> set src" "0 \<notin> set name" "0 \<notin> set ca" "0 \<notin> set cb"
    and sz: "int (length name + length ca + length cb) + 40 < MaxAllocSize" "int (length q + length src) + 40 < MaxAllocSize"
  shows "aqua_parser raw_parser creation_name dbname cat q = raw_parser q"
proof -
  have "aqua_parser raw_parser creation_name dbname cat q =
      raw_parser (replace_first q (name @ [40] @ concat (map arg_text [ColumnRef [String_field ca], ColumnRef [String_field cb]]) @ [41]) src)"
    using nz sz by (intro aqua_parser_calls [where raw_parser = raw_parser, OF cat stmt subs before name])
      (simp_all add: column_text_def)
  then show ?thesis using absent by (simp add: replace_first_def column_text_def)
qed

theorem two_argument_call_not_rewritten_witness:
  "aqua_parser (\<lambda>t. if t = [97, 40, 98, 44, 99, 41]
        then Inr [SelectStmt [FuncCall [[97]] [ColumnRef [String_field [98]], ColumnRef [String_field [99]]]]]
        else Inl (Elog ''syntax error''))
     (\<lambda>_. Inr []) [100] [\<lparr>nudf_oid = 5, nudfname = [97], nudfsrc = [49]\<rparr>] [97, 40, 98, 44, 99, 41] =
   Inr [SelectStmt [FuncCall [[97]] [ColumnRef [String_field [98]], ColumnRef [String_field [99]]]]]"
  using two_argument_call_not_rewritten [where raw_parser = "\<lambda>t. if t = [97, 40, 98, 44, 99, 41]
        then Inr [SelectStmt [FuncCall [[97]] [ColumnRef [String_field [98]], ColumnRef [String_field [99]]]]]
        else Inl (Elog ''syntax error'')"
      and cat = "[\<lparr>nudf_oid = 5, nudfname = [97], nudfsrc = [49]\<rparr>]" and q = "[97, 40, 98, 44, 99, 41]"
      and name = "[97]" and ca = "[98]" and cb = "[99]" and src = "[49]" and before = "[]" and after = "[]"
      and stmt = "SelectStmt [FuncCall [[97]] [ColumnRef [String_field [98]], ColumnRef [String_field [99]]]]" and rest = "[]"
      and subs = "[FuncCall [[97]] [ColumnRef [String_field [98]], ColumnRef [String_field [99]]]]"
      and creation_name = "\<lambda>_. Inr []" and dbname = "[100]"]
  by (simp add: catalog_ok_def nudf_map_def)

theorem walker_visits_outer_calls_witness:
  "raw_expression_tree_walker [100] [] [OtherNode [FuncCall [[97]] [FuncCall [[98]] []]]]
     \<lparr>ctx_name = None, ctx_query = None, ctx_args = None\<rparr> =
   first_call [100] [] [([[97]], [FuncCall [[98]] []])] \<lparr>ctx_name = None, ctx_query = None, ctx_args = None\<rparr>"
  using walker_visits_outer_calls [of "[OtherNode [FuncCall [[97]] [FuncCall [[98]] []]]]"] by simp

end
