(* ===== verification/Virtual_Image.thy ===== *)
theory Virtual_Image
  imports Pg_Array Complex_Main
begin

text \<open>
  The column that reads an image file when it is used (\<open>virtual_in\<close> of \<open>aqua_extension/src/virtual.c\<close>):
  the JPEG is decoded into a byte buffer, pixel by pixel, and turned into a two-dimensional array
  with one row per colour channel, scaled and normalised.

  The file system and the JPEG library are a parameter that maps a path to the decoded picture, or to
  \<open>None\<close> when the file cannot be opened. The library reports a corrupt file by ending the process,
  which is not modelled.
\<close>

type_synonym uint8 = "8 word"

record jpeg_image =
  output_width :: int
  output_height :: int
  output_components :: int
  scanlines :: "uint8 list list"

text \<open>
  The check that the size is a multiple of \<open>sizeof(uint8)\<close>, which is one, never fails and is left out.
  \<open>image_size\<close> and \<open>row_stride\<close> are products of unsigned integers, stored in an \<open>int\<close>. Every call of
  \<open>jpeg_read_scanlines\<close> stores one line and advances \<open>output_scanline\<close> by one.
\<close>

definition read_scanlines :: "jpeg_image \<Rightarrow> uint8 buf \<Rightarrow> uint8 buf result" where
  "read_scanlines cinfo image_data =
     (let row_stride = wrap32 (output_width cinfo * output_components cinfo) in
      for_loop 0 (output_height cinfo) 1 (\<lambda>current_row image_data.
        bindR (cint (current_row * row_stride)) (\<lambda>pos.
        bindR (rd (scanlines cinfo) current_row) (\<lambda>line.
          memcpy image_data pos line 0 (output_width cinfo * output_components cinfo)))) image_data)"

definition image_mean :: "'f::{numeral,inverse} list" where
  "image_mean = [4914 / 10000, 4822 / 10000, 4465 / 10000]"

definition image_std :: "'f::{numeral,inverse} list" where
  "image_std = [2471 / 10000, 2435 / 10000, 2616 / 10000]"

definition byte_value :: "uint8 \<Rightarrow> 'f::{zero,numeral}" where
  "byte_value b = (if b = 0 then 0 else numeral (num_of_nat (unat b)))"

definition normalise :: "uint8 \<Rightarrow> 'f \<Rightarrow> 'f \<Rightarrow> 'f::{zero,numeral,times,minus,inverse}" where
  "normalise b mean std = (byte_value b * 1 / 255 - mean) / std"

definition fill_pixel ::
  "uint8 buf \<Rightarrow> int \<Rightarrow> int \<Rightarrow> int \<Rightarrow> int \<Rightarrow> 'f::{zero,numeral,times,minus,inverse} buf \<Rightarrow> 'f buf result" where
  "fill_pixel image_data num_channels num_elements_channel i j elements =
     bindR (rdb image_data (j * num_channels + i)) (\<lambda>b.
     bindR (rd image_mean i) (\<lambda>mean.
     bindR (rd image_std i) (\<lambda>std.
       wr elements (i * num_elements_channel + j) (normalise b mean std))))"

definition fill_channels :: "uint8 buf \<Rightarrow> int \<Rightarrow> int \<Rightarrow> 'f::{zero,numeral,times,minus,inverse} buf \<Rightarrow> 'f buf result" where
  "fill_channels image_data num_channels num_elements_channel elements =
     for_loop 0 num_channels 1 (\<lambda>i.
       for_loop 0 num_elements_channel 1 (fill_pixel image_data num_channels num_elements_channel i)) elements"

definition virtual_in ::
  "(string \<Rightarrow> jpeg_image option) \<Rightarrow> bool \<Rightarrow> string \<Rightarrow> (string \<times> 'f::{zero,numeral,times,minus,inverse} ArrayType) result" where
  "virtual_in decode returns_record file_path =
     (case decode file_path of
        None \<Rightarrow> Inl (Elog ''Failed to open JPEG file'')
      | Some cinfo \<Rightarrow>
          let image_size = wrap32 (output_width cinfo * output_height cinfo * output_components cinfo) in
          bindR (palloc 1 image_size) (\<lambda>image_data.
          bindR (read_scanlines cinfo image_data) (\<lambda>image_data.
          let num_channels = output_components cinfo in
          bindR (cdiv image_size num_channels) (\<lambda>num_elements_channel.
          bindR (cint (num_elements_channel * num_channels)) (\<lambda>n.
          bindR (palloc 8 n) (\<lambda>elements.
          bindR (fill_channels image_data num_channels num_elements_channel elements) (\<lambda>elements.
          bindR (sealed elements) (\<lambda>elements.
          bindR (construct_md_array elements [num_channels, num_elements_channel] [1, 1]) (\<lambda>image_array.
            require returns_record
              (Elog ''function returning record called in context that cannot accept type record'')
              (Inr (file_path, image_array)))))))))))"

section \<open>Lemmas\<close>

text \<open>What the JPEG library promises: \<open>H\<close> lines of \<open>W\<close> pixels with \<open>C\<close> components each.\<close>

definition picture :: "jpeg_image \<Rightarrow> nat \<Rightarrow> nat \<Rightarrow> nat \<Rightarrow> uint8 list list \<Rightarrow> bool" where
  "picture cinfo W H C lines \<longleftrightarrow>
     output_width cinfo = int W \<and> output_height cinfo = int H \<and> output_components cinfo = int C
     \<and> scanlines cinfo = lines \<and> length lines = H \<and> (\<forall>l \<in> set lines. length l = W * C)"

lemma read_scanlines_ok:
  assumes p: "picture cinfo W H C lines" and sz: "int (W * H * C) \<le> MaxAllocSize" and m: "length m = W * H * C"
  shows "read_scanlines cinfo m = Inr (map Some (concat lines))"
proof (cases "H = 0")
  case True
  then show ?thesis using p m by (simp add: read_scanlines_def picture_def for_loop_steps steps_done)
next
  case False
  have l: "length (concat lines) = W * H * C"
    using p length_concat_const [of lines id "W * C"] by (simp add: picture_def algebra_simps)
  have "W * C \<le> W * H * C" using False by simp
  then have "int (W * C) \<le> MaxAllocSize" using sz unfolding of_nat_le_iff [symmetric] by linarith
  then have "in_int (int (W * C))" by (simp add: in_int_def del: of_nat_mult)
  from wrap32_in [OF this] have rs: "wrap32 (int W * int C) = int (W * C)" by simp
  have "foldR (\<lambda>r m. bindR (cint (r * int (W * C))) (\<lambda>pos. bindR (rd lines r) (\<lambda>line. memcpy m pos line 0 (int (W * C)))))
      (map int [0..<H]) m = Inr (blit m 0 (concat (map (\<lambda>r. lines ! nat r) (map int [0..<H]))))"
  proof (rule foldR_tile [where b = "W * C" and L = "W * H * C"])
    fix k and m' :: "uint8 buf" assume k: "k < length (map int [0..<H])" "length m' = W * H * C"
    have "(k + 1) * (W * C) \<le> H * (W * C)" using k(1) by (intro mult_le_mono1) simp
    then have f: "k * (W * C) + W * C \<le> length m'" using k(2) by (simp add: algebra_simps)
    then have "in_int (int (k * (W * C)))" using sz k(2) by (simp add: in_int_def flip: of_nat_mult)
    then have "cint (int k * int (W * C)) = Inr (int (k * (W * C)))" by simp
    moreover have "length (lines ! k) = W * C" using p k(1) by (simp add: picture_def)
    ultimately show "(\<lambda>r m. bindR (cint (r * int (W * C))) (\<lambda>pos. bindR (rd lines r) (\<lambda>line. memcpy m pos line 0 (int (W * C)))))
        (map int [0..<H] ! k) m' = Inr (blit m' (0 + k * (W * C)) (lines ! nat (map int [0..<H] ! k)))"
      using k(1) p f memcpy_ok [of "k * (W * C)" "W * C" m' 0 "lines ! k"] by (simp add: picture_def del: of_nat_mult)
  qed (use p m in \<open>simp_all add: picture_def algebra_simps\<close>)
  moreover have "map (\<lambda>r. lines ! nat r) (map int [0..<H]) = lines"
    using p by (auto simp: picture_def intro: nth_equalityI)
  ultimately show ?thesis
    using p blit_full [of "concat lines" m] l m rs
    by (simp add: read_scanlines_def picture_def for_loop_steps steps_unit Let_def del: map_map)
qed

lemma fill_pixel_ok:
  assumes "i < C" "i < 3" "k < N" "length bs = N * C" "length m = C * N"
  shows "fill_pixel (map Some bs) (int C) (int N) (int i) (int k) m =
    Inr (blit m (i * N + k) [normalise (bs ! (k * C + i)) (image_mean ! i) (image_std ! i)])"
proof -
  have p: "i * N + k < C * N" "k * C + i < N * C"
    using tile_fits [OF assms(1,3), of 1] tile_fits [OF assms(3,1), of 1] by simp_all
  have "rd image_mean (int i) = Inr (image_mean ! i :: 'a)" "rd image_std (int i) = Inr (image_std ! i :: 'a)"
    using assms(2) by (simp_all add: image_mean_def image_std_def)
  moreover have "rdb (map Some bs) (int k * int C + int i) = Inr (bs ! (k * C + i))"
    using rd_nth [of "k * C + i" "map Some bs"] p(2) assms(4) by (simp add: rdb_def)
  moreover have "wr m (int i * int N + int k) v = Inr (blit m (i * N + k) [v])" for v
    using wr_blit [of "i * N + k" m v] p(1) assms(5) by simp
  ultimately show ?thesis by (simp add: fill_pixel_def)
qed

lemma fill_channels_ok:
  assumes "C \<le> 3" "length bs = N * C" "length m = C * N"
  shows "fill_channels (map Some bs) (int C) (int N) m =
    Inr (map Some (grid C N (\<lambda>i j. normalise (bs ! (j * C + i)) (image_mean ! i) (image_std ! i :: 'f::{zero,numeral,times,minus,inverse}))))"
proof -
  let ?f = "\<lambda>i j. normalise (bs ! (j * C + i)) (image_mean ! i) (image_std ! i :: 'f)"
  let ?v = "\<lambda>rn cn. [?f (nat rn) (nat cn)]"
  have a: "fill_channels (map Some bs) (int C) (int N) m =
      Inr (blit m 0 (concat (map (\<lambda>rn. concat (map (?v rn) (steps 0 (int N) 1))) (steps 0 (int C) 1))))"
    unfolding fill_channels_def
  proof (rule for_loop_tile2 [where b = 1 and L = "C * N" and OW = N and OH = C])
    fix i k and m' :: "'f buf" assume "i < C" "k < N" "length m' = C * N"
    then show "fill_pixel (map Some bs) (int C) (int N) (0 + int i * 1) (0 + int k * 1) m' =
        Inr (blit m' ((i * N + k) * 1) (?v (0 + int i * 1) (0 + int k * 1)))"
      using assms fill_pixel_ok [of i C k N bs m'] by simp
  qed (use assms in \<open>simp_all add: trips_unit\<close>)
  have b: "concat (map (\<lambda>rn. concat (map (?v rn) (steps 0 (int N) 1))) (steps 0 (int C) 1)) = grid C N ?f"
    by (simp add: steps_unit grid_def comp_def concat_map_singleton)
  show ?thesis unfolding a b using assms(3) by (simp add: blit_full)
qed

lemma scan_pixel:
  assumes "\<forall>l \<in> set lines. length l = W * C" "length lines = H" "i < C" "j < W * H"
  shows "concat lines ! (j * C + i) = lines ! (j div W) ! (j mod W * C + i)"
proof -
  have w: "0 < W" using assms(4) by (cases W) auto
  have "j div W < H" using assms(4) by (simp add: less_mult_imp_div_less mult.commute)
  moreover have "j mod W * C + i < W * C" using tile_fits [of "j mod W" W i C 1] w assms(3) by simp
  moreover have "j * C + i = (j div W * W + j mod W) * C + i" by (simp only: div_mult_mod_eq)
  then have j: "j * C + i = j div W * (W * C) + (j mod W * C + i)" by (simp only: add_mult_distrib mult.assoc add.assoc)
  ultimately show ?thesis
    using concat_nth_const [of lines id "W * C" "j div W" "j mod W * C + i"] assms(1,2)
    unfolding j by simp
qed

text \<open>The decoded bytes, and the two allocations, of a picture that fits.\<close>

lemma virtual_in_decoded:
  assumes dec: "decode path = Some cinfo" and p: "picture cinfo W H C lines"
    and c: "1 \<le> C" and sz: "8 * int (W * H * C) \<le> MaxAllocSize"
  shows "(virtual_in decode rec path :: (string \<times> 'f::{zero,numeral,times,minus,inverse} ArrayType) result) =
    bindR (fill_channels (map Some (concat lines)) (int C) (int (W * H)) (replicate (C * (W * H)) None)) (\<lambda>elements.
    bindR (sealed elements) (\<lambda>elements.
    bindR (construct_md_array elements [int C, int (W * H)] [1, 1]) (\<lambda>image_array.
      require rec (Elog ''function returning record called in context that cannot accept type record'')
        (Inr (path, image_array)))))"
proof -
  have "in_int (int (W * H * C))" using sz by (simp add: in_int_def del: of_nat_mult)
  from wrap32_in [OF this] have s: "wrap32 (int W * int H * int C) = int (W * H * C)" by simp
  have a: "palloc 1 (int (W * H * C)) = Inr (replicate (W * H * C) (None :: uint8 option))" using sz palloc_ok [of "int (W * H * C)" 1] by (simp del: of_nat_mult)
  have r: "read_scanlines cinfo (replicate (W * H * C) None) = Inr (map Some (concat lines))"
    using read_scanlines_ok [OF p] sz by simp
  have d: "cdiv (int (W * H * C)) (int C) = Inr (int (W * H))" using c by (simp add: cdiv_nonneg)
  have e: "cint (int (W * H) * int C) = Inr (int (C * (W * H)))"
    using cint_in [of "int (C * (W * H))"] sz by (simp add: in_int_def mult.commute [of C] mult.commute [of "int C"] flip: of_nat_mult)
  have f: "palloc 8 (int (C * (W * H))) = Inr (replicate (C * (W * H)) (None :: 'f option))"
    using sz palloc_ok [of "int (C * (W * H))" 8] by (simp add: mult.commute [of C] del: of_nat_mult)
  show ?thesis
    using dec p s a r d e f by (simp add: virtual_in_def picture_def Let_def del: of_nat_mult)
qed

text \<open>The first three channels of a picture with four are filled; the fourth has no mean.\<close>

lemma fill_four_channels:
  assumes l: "length bs = N * 4" and n: "1 \<le> N"
  shows "fill_channels (map Some bs) (int 4) (int N) (replicate (4 * N) None) =
    (Inl (Undefined Out_of_bounds) :: 'f::{zero,numeral,times,minus,inverse} buf result)"
proof -
  let ?row = "\<lambda>i. for_loop 0 (int N) 1 (fill_pixel (map Some bs) (int 4) (int N) i) :: 'f buf \<Rightarrow> 'f buf result"
  have row: "\<exists>m'. ?row (int i) m = Inr m' \<and> length m' = 4 * N" if i: "i < 3" and m: "length m = 4 * N" for i m
  proof -
    have "\<exists>m'. foldR (fill_pixel (map Some bs) (int 4) (int N) (int i)) (map int [0..<k]) m = Inr m' \<and> length m' = 4 * N"
      if "k \<le> N" for k
      using that
    proof (induction k)
      case (Suc k)
      then obtain m' where m': "foldR (fill_pixel (map Some bs) (int 4) (int N) (int i)) (map int [0..<k]) m = Inr m'" "length m' = 4 * N"
        by auto
      have "i * N + k < 4 * N" using tile_fits [of i 4 k N 1] Suc.prems i by simp
      then show ?case
        using m' fill_pixel_ok [of i 4 k N bs m'] Suc.prems i l by (simp add: foldR_append)
    qed (use m in simp)
    from this [of N] show ?thesis by (simp add: for_loop_steps steps_unit)
  qed
  have "fill_pixel (map Some bs) (int 4) (int N) 3 0 m = (Inl (Undefined Out_of_bounds) :: 'f buf result)" for m
    using n l by (simp add: fill_pixel_def rdb_def rd_def image_mean_def)
  then have last: "?row 3 m = Inl (Undefined Out_of_bounds)" for m
    using n by (subst for_loop.simps) simp
  obtain m0 where m0: "?row 0 (replicate (4 * N) None) = Inr m0" "length m0 = 4 * N" using row [of 0 "replicate (4 * N) None"] by auto
  obtain m1 where m1: "?row 1 m0 = Inr m1" "length m1 = 4 * N" using row [of 1, OF _ m0(2)] by auto
  obtain m2 where m2: "?row 2 m1 = Inr m2" using row [of 2, OF _ m1(2)] by auto
  have "fill_channels (map Some bs) (int 4) (int N) m = foldR ?row [0, 1, 2, 3] m" for m :: "'f buf"
    unfolding fill_channels_def by (subst for_loop_steps) (simp_all add: steps_step steps_done)
  then show ?thesis using m0(1) m1(1) m2 last by simp
qed

lemma virtual_in_pixels:
  assumes dec: "decode path = Some cinfo" and p: "picture cinfo W H C lines"
    and c: "1 \<le> C" "C \<le> 3" and n: "1 \<le> W" "1 \<le> H" and sz: "8 * int (W * H * C) \<le> MaxAllocSize"
  shows "virtual_in decode True path = Inr (path, matrix (int C) (int (W * H))
    (grid C (W * H) (\<lambda>i j. normalise (lines ! (j div W) ! (j mod W * C + i)) (image_mean ! i) (image_std ! i :: 'f::{zero,numeral,times,minus,inverse}))))"
proof -
  have l: "length (concat lines) = W * H * C"
    using p length_concat_const [of lines id "W * C"] by (simp add: picture_def algebra_simps)
  let ?g = "grid C (W * H) (\<lambda>i j. normalise (lines ! (j div W) ! (j mod W * C + i)) (image_mean ! i) (image_std ! i :: 'f))"
  have "fill_channels (map Some (concat lines)) (int C) (int (W * H)) (replicate (C * (W * H)) None) = Inr (map Some ?g)"
    using fill_channels_ok [OF c(2) l, of "replicate (C * (W * H)) None"] scan_pixel [of lines W C H] p
    by (simp add: picture_def cong: grid_cong)
  moreover have "int C * int (W * H) = int (length ?g)" "int (length ?g) \<le> MaxArraySize" "1 \<le> W * H"
    using sz n by (simp_all add: mult.commute)
  ultimately show ?thesis
    using c(1) construct_md_array_matrix [of "int C" "int (W * H)" ?g]
    by (simp add: virtual_in_decoded [where decode = decode, OF dec p c(1) sz] del: of_nat_mult)
qed

section \<open>Properties\<close>

text \<open>
  C37: For a picture with one to three components per pixel, \<open>virtual_in\<close> returns one row per channel, whose
  entries are the normalised pixels in reading order.
\<close>

theorem virtual_in_channel_major:
  assumes dec: "decode path = Some cinfo" and p: "picture cinfo W H C lines"
    and c: "1 \<le> C" "C \<le> 3" and n: "1 \<le> W" "1 \<le> H" and sz: "8 * int (W * H * C) \<le> MaxAllocSize"
  shows "virtual_in decode True path = Inr (path, matrix (int C) (int (W * H))
    (grid C (W * H) (\<lambda>i j. normalise (lines ! (j div W) ! (j mod W * C + i)) (image_mean ! i) (image_std ! i :: 'f::{zero,numeral,times,minus,inverse}))))"
  using assms by (rule virtual_in_pixels)

theorem virtual_in_channel_major_witness:
  "virtual_in (\<lambda>_. Some \<lparr>output_width = 2, output_height = 1, output_components = 1, scanlines = [[0, 255]]\<rparr>) True ''a.jpg''
     = Inr (''a.jpg'', matrix 1 2 [- 4914 / 2471, 5086 / 2471 :: rat])"
  using virtual_in_channel_major [where 'f = rat and decode = "\<lambda>_. Some \<lparr>output_width = 2, output_height = 1, output_components = 1, scanlines = [[0, 255]]\<rparr>"
      and cinfo = "\<lparr>output_width = 2, output_height = 1, output_components = 1, scanlines = [[0, 255]]\<rparr>"
      and path = "''a.jpg''" and W = 2 and H = 1 and C = 1 and lines = "[[0, 255]]"]
  by (simp add: picture_def grid_def normalise_def byte_value_def image_mean_def image_std_def upt_rec [of _ 2])

text \<open>A picture with four components, such as a CMYK file, makes \<open>virtual_in\<close> read past its table of means.\<close>

theorem virtual_in_four_components:
  assumes dec: "decode path = Some cinfo" and p: "picture cinfo W H 4 lines"
    and n: "1 \<le> W" "1 \<le> H" and sz: "8 * int (W * H * 4) \<le> MaxAllocSize"
  shows "virtual_in decode rec path = (Inl (Undefined Out_of_bounds) :: (string \<times> 'f::{zero,numeral,times,minus,inverse} ArrayType) result)"
proof -
  have l: "length (concat lines) = W * H * 4"
    using p length_concat_const [of lines id "W * 4"] by (simp add: picture_def algebra_simps)
  have "fill_channels (map Some (concat lines)) (int 4) (int (W * H)) (replicate (4 * (W * H)) None)
      = (Inl (Undefined Out_of_bounds) :: 'f buf result)"
    using fill_four_channels [OF l] n by simp
  then show ?thesis by (simp add: virtual_in_decoded [where decode = decode, OF dec p _ sz] del: of_nat_mult)
qed

theorem virtual_in_four_components_witness:
  "virtual_in (\<lambda>_. Some \<lparr>output_width = 1, output_height = 1, output_components = 4, scanlines = [[0, 1, 2, 3]]\<rparr>) True ''a.jpg''
     = (Inl (Undefined Out_of_bounds) :: (string \<times> rat ArrayType) result)"
  using virtual_in_four_components [where 'f = rat and decode = "\<lambda>_. Some \<lparr>output_width = 1, output_height = 1, output_components = 4, scanlines = [[0, 1, 2, 3]]\<rparr>"
      and cinfo = "\<lparr>output_width = 1, output_height = 1, output_components = 4, scanlines = [[0, 1, 2, 3]]\<rparr>"
      and path = "''a.jpg''" and W = 1 and H = 1 and lines = "[[0, 1, 2, 3]]"]
  by (simp add: picture_def)

end
