(* ===== verification/Planner_Support.thy ===== *)
theory Planner_Support
  imports Pg_Array Complex_Main
begin

text \<open>
  Cost estimates for the operators: the planner support functions of \<open>aqua_extension/src/support.c\<close> and
  their caller \<open>add_function_cost\<close> (\<open>pg-src/src/backend/optimizer/util/plancat.c\<close>).

  A cost is a finite floating-point number, taken as a real number without rounding, or \<open>None\<close> for an
  infinity or a NaN. A support function gets a request and returns the request as it left it together
  with a flag that says whether the pointer it returned is the request or \<open>NULL\<close>.
\<close>

type_synonym cost = "real option"

definition cost_plus :: "cost \<Rightarrow> cost \<Rightarrow> cost" where
  "cost_plus a b = (case (a, b) of (Some x, Some y) \<Rightarrow> Some (x + y) | _ \<Rightarrow> None)"

datatype expr_node = Const "64 word" | FuncExpr "expr_node list" | Other_expr

record SupportRequestCost =
  req_node :: "expr_node option"
  req_startup :: cost
  req_per_tuple :: cost

datatype support_request = Cost_request SupportRequestCost | Simplify_request | Other_request

text \<open>\<open>DatumGetFloat4\<close>: the low 32 bits of the datum, read as an IEEE single-precision number.\<close>

definition DatumGetInt32 :: "64 word \<Rightarrow> 32 word" where
  "DatumGetInt32 d = ucast d"

definition float4_of_bits :: "32 word \<Rightarrow> cost" where
  "float4_of_bits b =
     (let neg = (2 ^ 31 \<le> unat b); e = unat b div 2 ^ 23 mod 2 ^ 8; m = unat b mod 2 ^ 23;
          v = (if e = 0 then real m / 2 ^ 149
               else if 150 \<le> e then (2 ^ 23 + real m) * 2 ^ (e - 150) else (2 ^ 23 + real m) / 2 ^ (150 - e))
      in if e = 255 then None else Some (if neg then - v else v))"

definition DatumGetFloat4 :: "64 word \<Rightarrow> cost" where
  "DatumGetFloat4 d = float4_of_bits (DatumGetInt32 d)"

section \<open>The support functions\<close>

definition last_const :: "expr_node option \<Rightarrow> 64 word option" where
  "last_const node = (case node of
     Some (FuncExpr args) \<Rightarrow>
       (if length args > 0 then (case last args of Const constvalue \<Rightarrow> Some constvalue | _ \<Rightarrow> None) else None)
   | _ \<Rightarrow> None)"

type_synonym support_fun = "support_request \<Rightarrow> support_request \<times> bool"

definition conv_support :: support_fun where
  "conv_support rawreq = (case rawreq of
     Cost_request req \<Rightarrow>
       let cost_in = (case last_const (req_node req) of Some constvalue \<Rightarrow> DatumGetFloat4 constvalue | None \<Rightarrow> Some 0)
       in (Cost_request (req\<lparr>req_per_tuple := cost_in\<rparr>), True)
   | _ \<Rightarrow> (rawreq, False))"

text \<open>
  \<open>kfm_nt_support\<close> reads the last argument and sets a fixed cost, but returns NULL; no SQL function is declared with it.
\<close>

definition kfm_nt_support :: support_fun where
  "kfm_nt_support rawreq = (case rawreq of
     Cost_request req \<Rightarrow>
       let cost_in = (case last_const (req_node req) of Some constvalue \<Rightarrow> DatumGetInt32 constvalue | None \<Rightarrow> 0)
       in (Cost_request (req\<lparr>req_per_tuple := Some 40000\<rparr>), False)
   | _ \<Rightarrow> (rawreq, False))"

definition kfm_support :: support_fun where
  "kfm_support rawreq = (case rawreq of
     Cost_request req \<Rightarrow> (Cost_request (req\<lparr>req_startup := Some (1 / 4), req_per_tuple := Some 40000\<rparr>), True)
   | Simplify_request \<Rightarrow> (rawreq, False)
   | _ \<Rightarrow> (rawreq, False))"

definition im2col_support :: support_fun where
  "im2col_support rawreq = (case rawreq of
     Cost_request req \<Rightarrow> (Cost_request (req\<lparr>req_startup := Some (1 / 4), req_per_tuple := Some 40000\<rparr>), True)
   | Simplify_request \<Rightarrow> (rawreq, False)
   | _ \<Rightarrow> (rawreq, False))"

definition im2col_init_support :: support_fun where
  "im2col_init_support rawreq = (case rawreq of
     Cost_request req \<Rightarrow> (Cost_request (req\<lparr>req_startup := Some (1 / 4), req_per_tuple := Some 10000\<rparr>), True)
   | Simplify_request \<Rightarrow> (rawreq, False)
   | _ \<Rightarrow> (rawreq, False))"

section \<open>The planner\<close>

record pg_proc =
  prosupport :: "support_fun option"
  procost :: cost

record QualCost =
  qc_startup :: cost
  qc_per_tuple :: cost

definition cost_times :: "cost \<Rightarrow> cost \<Rightarrow> cost" where
  "cost_times a b = (case (a, b) of (Some x, Some y) \<Rightarrow> Some (x * y) | _ \<Rightarrow> None)"

text \<open>\<open>SearchSysCache1(PROCOID, ...)\<close> and the planner setting \<open>cpu_operator_cost\<close> are arguments.\<close>

definition add_function_cost ::
  "(oid \<Rightarrow> pg_proc option) \<Rightarrow> cost \<Rightarrow> oid \<Rightarrow> expr_node option \<Rightarrow> QualCost \<Rightarrow> QualCost result" where
  "add_function_cost procs cpu_operator_cost funcid node cost =
     (case procs funcid of
        None \<Rightarrow> Inl (Elog ''cache lookup failed for function'')
      | Some procform \<Rightarrow>
          let fallback = cost\<lparr>qc_per_tuple := cost_plus (qc_per_tuple cost) (cost_times (procost procform) cpu_operator_cost)\<rparr> in
          Inr (case prosupport procform of
                 None \<Rightarrow> fallback
               | Some support \<Rightarrow>
                   (case support (Cost_request \<lparr>req_node = node, req_startup = Some 0, req_per_tuple = Some 0\<rparr>) of
                      (Cost_request req, True) \<Rightarrow>
                        cost\<lparr>qc_startup := cost_plus (qc_startup cost) (req_startup req),
                             qc_per_tuple := cost_plus (qc_per_tuple cost) (req_per_tuple req)\<rparr>
                    | _ \<Rightarrow> fallback)))"

section \<open>Properties\<close>

text \<open>
  The planner adds to the cost of a call of an operator with \<open>conv_support\<close> the number given as its last
  argument, when that argument is a constant, and nothing otherwise.
\<close>

theorem conv_support_adds_op_cost:
  assumes "procs f = Some proc" "prosupport proc = Some conv_support"
  shows "add_function_cost procs cpu f (Some (FuncExpr (args @ [a]))) \<lparr>qc_startup = Some u, qc_per_tuple = Some t\<rparr> =
    Inr \<lparr>qc_startup = Some u, qc_per_tuple = (case a of Const d \<Rightarrow> cost_plus (Some t) (DatumGetFloat4 d) | _ \<Rightarrow> Some t)\<rparr>"
  using assms
  by (cases a) (simp_all add: add_function_cost_def conv_support_def last_const_def cost_plus_def Let_def)

theorem conv_support_adds_op_cost_witness:
  "add_function_cost (\<lambda>_. Some \<lparr>prosupport = Some conv_support, procost = Some 1\<rparr>) (Some (1 / 400)) 1
     (Some (FuncExpr [Other_expr, Const 0x42280000])) \<lparr>qc_startup = Some 1, qc_per_tuple = Some 8\<rparr> =
   Inr \<lparr>qc_startup = Some 1, qc_per_tuple = Some 50\<rparr>"
  using conv_support_adds_op_cost [where procs = "\<lambda>_. Some \<lparr>prosupport = Some conv_support, procost = Some 1\<rparr>" and f = 1
      and proc = "\<lparr>prosupport = Some conv_support, procost = Some 1\<rparr>" and args = "[Other_expr]" and a = "Const 0x42280000"
      and u = 1 and t = 8 and cpu = "Some (1 / 400)"]
  by (simp add: DatumGetFloat4_def DatumGetInt32_def float4_of_bits_def cost_plus_def Let_def)

end
