(* ===== verification/Spec2Isabelle.thy ===== *)
theory Spec2Isabelle
  imports Dbocg_Build Dbocg_Padding Shapes Array_Ops Agg2d Nudf Virtual_Image Planner_Support
begin

text \<open>
  PEPS runs neural networks inside PostgreSQL. It is an extension, \<open>aqua_extension\<close>, whose C functions are the
  layers of a network (convolution, matrix product, pooling, normalisation) over \<open>real[][]\<close> arrays, and a
  PostgreSQL 15 server in \<open>pg-src\<close> with a new catalogue \<open>pg_nudf\<close>, a command \<open>CREATE NUDF\<close> and a parser hook. A
  session loads the weights of a model from tables into a memory pool (\<open>load_model\<close>), reads images through a
  virtual column (\<open>virtual_in\<close>), and evaluates queries whose expressions nest the layer functions; partial
  feature maps are stacked by the aggregate \<open>array_2d_agg\<close>, which may run in parallel workers. A call of a neural
  function in a query text is replaced by the query stored for it. Such queries come from a compiler in Python, \<open>dbocg\<close>,
  which turns a model file into a graph of operators.

  \<^bold>\<open>Conventions.\<close> \<open>C_Prelude\<close> holds what C and the server's allocator mean to the model. A C function is a HOL
  function into \<open>'a result\<close>: \<open>Inr\<close> is a returned value, \<open>Inl (Elog msg)\<close> an error reported to the client, and
  \<open>Inl (Undefined u)\<close> undefined behaviour (an index out of range, an indeterminate value, signed overflow, a
  null pointer, memory used after it was freed). Integers of type \<open>int\<close> are HOL integers with a range check where
  they are assigned and with 32-bit wrap-around where the code converts; hash values, bitmaps and message bytes
  are words. A buffer is a list of cells that may not be written yet. \<open>for\<close> loops are \<open>for_loop\<close>, which is total
  (a step that is not positive is undefined behaviour); loops over linked structures and retry loops are partial functions
  into \<open>option\<close>, and their theorems prove that they return. Element values are of an arbitrary type with the
  operations the code uses, so the results hold for floating-point numbers as far as they use no law of
  arithmetic beyond those of the type class they name. Loops under OpenMP pragmas write disjoint cells and are run in order.
  \<open>Py_Prelude\<close> does the same for Python: a function returns a value or raises an exception (\<open>'a py\<close>), integers are
  unbounded, indices may be negative, and a container of the package \<open>sortedcontainers\<close> is a list without repetition
  whose insertion positions are a parameter, since no result depends on them.

  \<^bold>\<open>Theories.\<close>

  \<^item> \<open>Pg_Array\<close>: \<open>ArrayType\<close>, element counts and constructors (\<open>array.h\<close>, \<open>arrayutils.c\<close>, \<open>arrayfuncs.c\<close>, the end of
    \<open>matrix_op.c\<close>).

  \<^item> \<open>Im2col\<close>: \<open>im2col\<close> of \<open>matrix_op.c\<close> and the kernels \<open>im2col_core\<close>, \<open>im2col_core_W\<close>, \<open>im2col_core_H\<close> of \<open>conv.c\<close>.
    Every cell of the unfolded matrix is the pixel, or padding zero, that belongs there; \<open>im2col\<close> writes past its
    buffer when the stride does not divide the span. The kernels are interpretations of the locale
    \<open>buffer_kernel\<close> of the prelude.

  \<^item> \<open>Hashfn\<close>, \<open>Table_Spec\<close>, \<open>Dynahash\<close>: \<open>hashfn.c\<close> and \<open>dynahash.c\<close>, with segments, directory, masks, free list, bucket
    splits and sequential scans. The table refines a finite map on truncated keys, insertions keep pointers to
    entries valid, and a scan ends after visiting every entry once. \<open>Table_Spec\<close> has the
    locale \<open>string_table\<close> the pool relies on.

  \<^item> \<open>Lru_Cache\<close>, \<open>Weight_Pool\<close>: \<open>model_buffer.c\<close> and the loading functions of \<open>aqua.c\<close>. The doubly linked list over
    an explicit memory refines a bounded most-recently-used list; the pool keeps its accounting, returns what was
    inserted, and holds all weights of a model after \<open>load_model\<close>.

  \<^item> \<open>Gemm_Ops\<close>, \<open>Conv\<close>, \<open>Pool\<close>, \<open>Array_Ops\<close>: the operators of \<open>matrix_op.c\<close>, \<open>conv.c\<close>, \<open>textcnn.c\<close>, \<open>pool.c\<close> and the first half
    of \<open>extended_op.c\<close>. Each is related to the mathematical operation it stands for. \<open>cblas_sgemm\<close> is a parameter;
    \<open>sgemm_spec\<close> states its documented effect, which the triple loop \<open>ref_sgemm\<close> meets. The grouped convolution is shown to
    write past its buffer when the stride does not divide the span, and the text convolution to ignore its padding.

  \<^item> \<open>Shapes\<close>: sequences of operators. The shape of a result is a function of the shape of the input and of the
    loaded weights, and results are well-formed arrays; \<open>maxpool\<close> is shown to be able to return a malformed one.

  \<^item> \<open>String_Info\<close>, \<open>Null_Bitmap\<close>, \<open>Array_Build\<close>, \<open>Agg2d\<close>: \<open>stringinfo.c\<close>, \<open>pqformat.c\<close>, \<open>array_bitmap_copy\<close>,
    \<open>accumArrayResultArr\<close> and the five functions of the aggregate \<open>array_2d_agg\<close>. Serialized states are read back,
    the aggregate stacks its rows, and parallel plans give the sequential result; one combination of null bitmaps
    is shown to leave bits unwritten.

  \<^item> \<open>Nudf\<close>: the catalogue, \<open>CREATE NUDF\<close> (\<open>pg_nudf.c\<close>, \<open>nudfcmds.c\<close>, \<open>create_nudf.c\<close>) and the parser hook of \<open>aqua.c\<close>, over
    the text buffers of \<open>String_Info\<close>. The locale \<open>text_sink\<close> carries the loops that build a text piece by piece. What the
    hook makes of a statement is determined, the places where it replaces other text than the call included. The line of
    \<open>_PG_init\<close> that registers the hook is commented out.

  \<^item> \<open>Virtual_Image\<close>: \<open>virtual_in\<close> of \<open>virtual.c\<close>. The file system and the JPEG library are a parameter.

  \<^item> \<open>Planner_Support\<close>: the cost functions of \<open>support.c\<close> and \<open>add_function_cost\<close>.

  \<^item> \<open>Dbocg_Tensor\<close>, \<open>Dbocg_Op\<close>, \<open>Dbocg_Model\<close>: \<open>tensor.py\<close>, \<open>op.py\<close>, \<open>model.py\<close> and \<open>permutation_to_index\<close> of \<open>utils.py\<close>. Merging and
    dividing splits are inverse; every operator has the output layout it should have; the locale \<open>op_cache\<close> carries the
    proof that four of the operator caches are transparent, and the cache of convolutions is shown not to be.

  \<^item> \<open>Kahn\<close>, \<open>Dbocg_Graph\<close>, \<open>Dbocg_Weights\<close>: \<open>graph.py\<close>. The locale \<open>worklist\<close> is the counting loop that \<open>has_loop\<close>,
    \<open>get_operator_list\<close> and \<open>preprocess_weights\<close> share; its interpretations give that \<open>has_loop\<close> finds exactly the cycles, that
    operators are listed in topological order, and what \<open>preprocess_weights\<close> keeps. Edits of a graph refine edits of a
    set of edges.

  \<^item> \<open>Dbocg_Build\<close>, \<open>Dbocg_Padding\<close>: the builder methods of \<open>Graph\<close>, which keep an invariant that makes every built graph
    acyclic, with the conditions under which \<open>reshape\<close> returns; and the sizes and paddings that the compiler writes into
    queries, compared with the sizes that the kernels of \<open>conv.c\<close> compute from them.

  This theory composes them: \<open>load_model\<close>, \<open>virtual_in\<close> and \<open>kfm_im2col\<close> in sequence.

  \<^bold>\<open>Bounds.\<close> No fuel is used. The hypotheses that appear as numbers are limits of the code: allocations of at
  most \<open>MaxAllocSize\<close> bytes, arrays of at most \<open>MaxArraySize\<close> elements, the pool limit \<open>POOL_SIZE\<close>, names of
  \<open>NAMEDATALEN\<close> bytes, tables of less than $2^{25}$ entries (so that the directory of segments
  fits an allocation when it is doubled), and aggregate states of at most \<open>agg_limit\<close> = $2^{28}$ bytes and items, which keeps every doubling of a
  buffer within an \<open>int\<close>.

  \<^bold>\<open>Not modelled.\<close> The rounding of floating-point arithmetic; the interleavings of OpenMP threads and the threads of
  BLAS; the relation path hook \<open>aqua_set_rel_pathlist\<close> with \<open>core.c\<close>, which only reorders paths built by the optimizer
  and is not registered; the stand-alone timing program \<open>im2col.c\<close>, the benchmark \<open>test_flops\<close>, whose parallel loop has a
  data race, and the deprecated sources, none of which the queries use; shared and partitioned hash tables, seeded
  hashing and the parts of the array, message and string modules that the extension does not call; of the compiler
  \<open>dbocg\<close> the reading of model files and the writing of SQL (\<open>nudf.py\<close>), the rewriting of graphs (\<open>substitution.py\<close> and
  \<open>Graph.optimize\<close>), whose rules come from files that are not part of the sources, and \<open>Graph.hash\<close>, which depends on object
  identities; and the rest of the server (grammar, planner, executor, storage, memory contexts beyond their use here),
  of which SPI answers, catalogue look-ups, raw parse trees and new object identifiers are parameters.
\<close>

section \<open>From an image file to a feature map\<close>

text \<open>The pixels that \<open>virtual_in\<close> hands to the operators, channel by channel.\<close>

definition pixels :: "nat \<Rightarrow> nat \<Rightarrow> nat \<Rightarrow> uint8 list list \<Rightarrow> 'f::{zero,numeral,times,minus,inverse} list" where
  "pixels W H C lines =
     grid C (W * H) (\<lambda>i j. normalise (lines ! (j div W) ! (j mod W * C + i)) (image_mean ! i) (image_std ! i))"

lemma pixels_conv_ok:
  assumes "0 < W" "0 < K" "K \<le> W + 2 * P" "0 < S" "int (W + 2 * P) < INT_MAX"
  shows "conv_ok (pixels W W C lines, 0, W * W, W, C, K, P, S)"
  using assms by (simp add: pixels_def holds_image_def)

text \<open>
  C6: The path of an image through the first layer of a model: after \<open>load_model\<close> on the tables of the model,
  \<open>virtual_in\<close> on an image file followed by \<open>kfm_im2col\<close> with the name of one of the tables yields the
  convolution of the normalised pixels with the kernels of that table, plus bias, cut at zero.
\<close>

theorem image_through_loaded_layer:
  fixes ks :: "'f::linordered_field list"
  assumes load: "pool_inv n pool" "n + 2 * length ts < 2 ^ 25" "list_all (table_wf spi) ts"
      "list_all (\<lambda>t. length t \<le> 58) ts" "distinct ts"
      "current_memory_usage pool + sum_list (map (table_bytes spi) ts) \<le> POOL_SIZE"
      "ARR_NDIM names = 1" "arr_data names = map Some ts"
    and table: "name \<in> set ts" "table_arrays spi name = Some (matrix (int M) (int (C * (K * K))) ks, vector bs)"
      "length ks = M * (C * (K * K))" "length bs = M" "0 < M"
    and image: "decode path = Some cinfo" "picture cinfo W W C lines" "1 \<le> C" "C \<le> 3" "8 * int (W * W * C) \<le> MaxAllocSize"
    and conv: "0 < W" "0 < K" "K \<le> W + 2 * P" "0 < S" "int (W + 2 * P) < INT_MAX" "OS = out_size W P K S"
      "4 * int ((OS * OS) * (C * (K * K))) + 32 \<le> MaxAllocSize" "4 * int (M * (OS * OS)) + 32 \<le> MaxAllocSize"
    and sgemm: "sgemm_spec sgemm"
  shows "\<exists>pool' img out. load_model spi reg (Some pool) cur (Some names) = Inr (Some pool', cur)
     \<and> virtual_in decode True path = Inr (path, img)
     \<and> kfm_im2col sgemm reg (Some pool') name img (int K) (int P) (int S) None = Inr (img, matrix (int M) (int (OS * OS)) out)
     \<and> (\<forall>m < M. \<forall>oy < OS. \<forall>ox < OS. out ! (m * (OS * OS) + (oy * OS + ox))
          = fmax0 (conv_at ks (pixels W W C lines) 0 (W * W) W W C K K P P S m oy ox + bs ! m))"
proof -
  obtain pool' where p: "load_tables spi reg (map Some ts) (Some pool, cur) = Inr (Some pool', cur)"
    "pool_inv (n + 2 * length ts) pool'" "list_all (model_loaded spi (pool_map pool')) ts"
    using load_tables_ok [OF load(1-6)] by blast
  have "model_loaded spi (pool_map pool') name" "length name \<le> 58" using p(3) load(4) table(1) by (simp_all add: list_all_iff)
  from loaded_layer [OF p(2) this(1) table(2) this(2)]
  have lay: "layer reg (Some pool') name (matrix (int M) (int (C * (K * K))) ks) (vector bs)" .
  have img: "virtual_in decode True path = Inr (path, matrix (int C) (int (W * W)) (pixels W W C lines :: 'f list))"
    unfolding pixels_def using image conv(1) by (intro virtual_in_pixels) simp_all
  have sel: "select_channels (matrix (int C) (int (W * W)) (pixels W W C lines :: 'f list)) None (int C) (int (W * W))
      = Inr (matrix (int C) (int (W * W)) (pixels W W C lines), int 0, int C)"
    by simp
  from image(3) have C: "0 < C" by simp
  from kfm_im2col_unfold [OF sgemm lay sel pixels_conv_ok [OF conv(1-5)] conv(6) table(5) C table(3) conv(7,8)]
  show ?thesis using p(1) load(7,8) img table(4) by (auto simp: load_model_def require_def conv_result_nth)
qed

theorem image_through_loaded_layer_witness:
  "\<exists>pool pool' img out. create_weight_pool 1 = Inr pool
     \<and> load_model (one_table (matrix 1 1 [2 :: rat]) (vector [3])) [] (Some pool) 0 (Some (vector [Some ''conv1''])) = Inr (Some pool', 0)
     \<and> virtual_in (\<lambda>_. Some \<lparr>output_width = 1, output_height = 1, output_components = 1, scanlines = [[255]]\<rparr>) True ''a.jpg''
       = Inr (''a.jpg'', img)
     \<and> kfm_im2col ref_sgemm [] (Some pool') ''conv1'' img 1 0 1 None = Inr (img, matrix 1 1 out)
     \<and> out ! 0 = 17585 / 2471"
proof -
  let ?spi = "one_table (matrix 1 1 [2 :: rat]) (vector [3])"
  let ?cinfo = "\<lparr>output_width = 1, output_height = 1, output_components = 1, scanlines = [[255]]\<rparr>"
  obtain pool where p: "create_weight_pool 1 = Inr (pool :: rat WeightPool)" "pool_inv (2 ^ 21) pool"
    "current_memory_usage pool = LRU_CACHE_SIZE"
    using create_weight_pool_ok [of 1] by auto
  have t: "table_arrays ?spi ''conv1'' = Some (matrix (int 1) (int (1 * (1 * 1))) [2], vector [3])"
    by (simp add: table_arrays_def one_table_def)
  have wf: "list_all (table_wf ?spi) [''conv1'']" using t by (simp add: table_wf_def wf_weight_def)
  have b: "current_memory_usage pool + sum_list (map (table_bytes ?spi) [''conv1'']) \<le> POOL_SIZE"
    using t p(3) by (simp add: table_bytes_def)
  have pic: "picture ?cinfo 1 1 1 [[255]]" by (simp add: picture_def)
  have c: "conv_at [2] (pixels (Suc 0) (Suc 0) (Suc 0) [[255]] :: rat list) 0 (Suc 0) (Suc 0) (Suc 0) (Suc 0) (Suc 0) (Suc 0) 0 0 (Suc 0) 0 0 0
      = 10172 / 2471"
    by code_simp
  from image_through_loaded_layer [OF p(2) _ wf _ _ b _ _ _ t _ _ _ _ pic, of "vector [Some ''conv1'']" "\<lambda>_. Some ?cinfo" "''a.jpg''" 0 1 1 ref_sgemm "[]" 0]
  show ?thesis using p(1) by (fastforce simp: ARR_NDIM_def fmax0_def c ref_sgemm_spec)
qed

end
